(* ===== verification/CL_Prelude.thy ===== *)
theory CL_Prelude
  imports Complex_Main "HOL-Library.Multiset" "HOL-Library.Char_ord" "HOL-Library.List_Lexorder"
begin

text \<open>
  The prelude of the CrossLink development: the names of the types every component uses
  (Go strings and byte slices as lists of bytes, instants and durations in nanoseconds), the parts
  of Go's standard library that the sources call and that several components share
  (\<^verbatim>\<open>strings.Join\<close>, \<^verbatim>\<open>strconv.Itoa\<close>, \<^verbatim>\<open>strings.Contains\<close>, \<^verbatim>\<open>strings.LastIndex\<close>,
  \<^verbatim>\<open>sort.SliceStable\<close>, 64-bit wrap-around), the record of those library functions that are
  data tables (Unicode classes and case, shortest float formatting) and are therefore parameters,
  and the lemma collections the component proofs use.
\<close>

section \<open>Types and lemma collections\<close>

type_synonym bytes = string

type_synonym duration = int

type_synonym instant = int

named_theorems go_defs \<open>unfolding of the small operations of a component\<close>

named_theorems inv_intro \<open>an operation keeps the invariant of its component\<close>

text \<open>
  Library functions of Go whose result is a table lookup. They are parameters of the definitions
  that use them: \<open>rt_is_cjk\<close> is the union of the four \<^verbatim>\<open>unicode.Is\<close> range tables, \<open>rt_equal_fold\<close>
  is \<^verbatim>\<open>strings.EqualFold\<close>, \<open>rt_to_lower\<close> is \<^verbatim>\<open>strings.ToLower\<close> and \<open>rt_fmt_float\<close> prints the
  float64 that a JSON number literal denotes with the \<^verbatim>\<open>%v\<close> verb, \<open>rt_json_float\<close> the way
  \<^verbatim>\<open>json.Marshal\<close> does.
\<close>

record go_rt =
  rt_is_cjk :: "nat \<Rightarrow> bool"
  rt_equal_fold :: "bytes \<Rightarrow> bytes \<Rightarrow> bool"
  rt_to_lower :: "bytes \<Rightarrow> bytes"
  rt_fmt_float :: "bytes \<Rightarrow> bytes"
  rt_json_float :: "bytes \<Rightarrow> bytes"

abbreviation (input) code_of :: "char \<Rightarrow> nat" where
  "code_of c \<equiv> of_char c"

definition ascii_lower :: "char \<Rightarrow> char" where
  "ascii_lower c = (if 65 \<le> code_of c \<and> code_of c \<le> 90 then char_of (code_of c + 32) else c)"

text \<open>A concrete table for the witnesses: ASCII case folding, the basic CJK block.\<close>

definition ascii_rt :: go_rt where
  "ascii_rt =
     \<lparr>rt_is_cjk = (\<lambda>r. 19968 \<le> r \<and> r \<le> 40959),
      rt_equal_fold = (\<lambda>a b. map ascii_lower a = map ascii_lower b),
      rt_to_lower = map ascii_lower,
      rt_fmt_float = (\<lambda>l. l),
      rt_json_float = (\<lambda>l. l)\<rparr>"

section \<open>Strings\<close>

fun join :: "bytes \<Rightarrow> bytes list \<Rightarrow> bytes" where
  "join sep [] = []"
| "join sep [x] = x"
| "join sep (x # y # r) = x @ sep @ join sep (y # r)"

fun contains :: "bytes \<Rightarrow> bytes \<Rightarrow> bool" where
  "contains [] sub = (sub = [])"
| "contains (c # cs) sub = (take (length sub) (c # cs) = sub \<or> contains cs sub)"

definition digit :: "nat \<Rightarrow> char" where
  "digit n = char_of (48 + n)"

fun dec :: "nat \<Rightarrow> bytes" where
  "dec n = (if n < 10 then [digit n] else dec (n div 10) @ [digit (n mod 10)])"

declare dec.simps [simp del]

definition itoa :: "int \<Rightarrow> bytes" where
  "itoa i = (if i < 0 then CHR ''-'' # dec (nat (- i)) else dec (nat i))"

lemma join_append_one: "xs \<noteq> [] \<Longrightarrow> join sep (xs @ [y]) = join sep xs @ sep @ y"
  by (induction sep xs rule: join.induct) auto

lemma join_eq_Nil: "join sep xs = [] \<Longrightarrow> x \<in> set xs \<Longrightarrow> x = []"
  by (induction sep xs rule: join.induct) auto

text \<open>\<^verbatim>\<open>strings.LastIndex(s, "|")\<close> and the split of a key at that position.\<close>

definition split_last :: "char \<Rightarrow> bytes \<Rightarrow> (bytes \<times> bytes) option" where
  "split_last c s =
     (if c \<in> set s
      then Some (rev (tl (dropWhile (\<lambda>x. x \<noteq> c) (rev s))), rev (takeWhile (\<lambda>x. x \<noteq> c) (rev s)))
      else None)"

lemma split_last_Some:
  assumes "split_last c s = Some (a, b)"
  shows "s = a @ c # b \<and> c \<notin> set b"
proof -
  let ?p = "\<lambda>x. x \<noteq> c"
  from assms have c: "c \<in> set s" and a: "a = rev (tl (dropWhile ?p (rev s)))"
    and b: "b = rev (takeWhile ?p (rev s))"
    by (auto simp: split_last_def split: if_splits)
  from c have ne: "dropWhile ?p (rev s) \<noteq> []" by auto
  then have hd: "hd (dropWhile ?p (rev s)) = c"
    using hd_dropWhile [OF ne] by simp
  have "rev s = takeWhile ?p (rev s) @ dropWhile ?p (rev s)" by simp
  also have "dropWhile ?p (rev s) = c # tl (dropWhile ?p (rev s))"
    using ne hd by (cases "dropWhile ?p (rev s)") auto
  finally have "rev s = rev b @ c # rev a" by (simp add: a b)
  then have "s = a @ c # b"
    by (metis append.assoc append_Cons append_Nil rev.simps(2) rev_append rev_rev_ident)
  moreover have "c \<notin> set b"
    by (auto simp: b dest: set_takeWhileD)
  ultimately show ?thesis ..
qed

lemma split_last_append: "c \<notin> set b \<Longrightarrow> split_last c (a @ c # b) = Some (a, b)"
  by (auto simp: split_last_def takeWhile_append dropWhile_append)

lemma split_last_None: "c \<notin> set s \<Longrightarrow> split_last c s = None"
  by (simp add: split_last_def)

section \<open>64-bit integers\<close>

text \<open>Go's \<^verbatim>\<open>int\<close>, \<^verbatim>\<open>int64\<close> and \<^verbatim>\<open>time.Duration\<close> wrap around at 64 bits.\<close>

definition wrap64 :: "int \<Rightarrow> int" where
  "wrap64 x = (x + 2 ^ 63) mod 2 ^ 64 - 2 ^ 63"

lemma wrap64_id: "- (2 ^ 63) \<le> x \<Longrightarrow> x < 2 ^ 63 \<Longrightarrow> wrap64 x = x"
  by (simp add: wrap64_def)

lemma wrap64_range: "- (2 ^ 63) \<le> wrap64 x \<and> wrap64 x < 2 ^ 63"
proof -
  have "0 \<le> (x + 2 ^ 63) mod 2 ^ 64" and "(x + 2 ^ 63) mod 2 ^ 64 < 2 ^ 64" by simp_all
  then show ?thesis by (simp add: wrap64_def)
qed

section \<open>Stable sorting\<close>

text \<open>
  \<^verbatim>\<open>sort.SliceStable\<close> with a less function: insertion from the right, the algorithm the
  library runs on blocks of up to twenty elements; on a strict weak order every stable algorithm
  has this result.
\<close>

definition ins_back :: "('a \<Rightarrow> 'a \<Rightarrow> bool) \<Rightarrow> 'a \<Rightarrow> 'a list \<Rightarrow> 'a list" where
  "ins_back lt x ys =
     rev (dropWhile (lt x) (rev ys)) @ x # rev (takeWhile (lt x) (rev ys))"

definition slice_stable :: "('a \<Rightarrow> 'a \<Rightarrow> bool) \<Rightarrow> 'a list \<Rightarrow> 'a list" where
  "slice_stable lt xs = foldl (\<lambda>acc x. ins_back lt x acc) [] xs"

lemma mset_ins_back [simp]: "mset (ins_back lt x ys) = add_mset x (mset ys)"
proof -
  have "mset (takeWhile (lt x) (rev ys)) + mset (dropWhile (lt x) (rev ys)) = mset ys"
    by (metis mset_append mset_rev takeWhile_dropWhile_id)
  then show ?thesis by (simp add: ins_back_def add.commute)
qed

lemma mset_foldl_ins_back:
  "mset (foldl (\<lambda>acc x. ins_back lt x acc) acc xs) = mset acc + mset xs"
  by (induction xs arbitrary: acc) auto

lemma mset_slice_stable [simp]: "mset (slice_stable lt xs) = mset xs"
  by (simp add: slice_stable_def mset_foldl_ins_back)

lemma set_slice_stable [simp]: "set (slice_stable lt xs) = set xs"
  by (metis mset_slice_stable set_mset_mset)

lemma length_slice_stable [simp]: "length (slice_stable lt xs) = length xs"
  by (metis mset_slice_stable size_mset)

text \<open>The order a less function describes: no later element is less than an earlier one.\<close>

lemma ins_back_cong:
  "(\<And>y. y \<in> set ys \<Longrightarrow> lt x y = lt' x y) \<Longrightarrow> ins_back lt x ys = ins_back lt' x ys"
  unfolding ins_back_def
  by (intro arg_cong2 [where f = "(@)"] arg_cong [where f = rev] arg_cong2 [where f = "(#)"] refl
      takeWhile_cong dropWhile_cong) simp_all

lemma slice_stable_cong:
  assumes "\<And>x y. x \<in> set xs \<Longrightarrow> y \<in> set xs \<Longrightarrow> lt x y = lt' x y"
  shows "slice_stable lt xs = slice_stable lt' xs"
proof -
  have "foldl (\<lambda>acc x. ins_back lt x acc) acc zs = foldl (\<lambda>acc x. ins_back lt' x acc) acc zs"
    if "set zs \<subseteq> set xs" "set acc \<subseteq> set xs" for acc zs
    using that
  proof (induction zs arbitrary: acc)
    case (Cons z zs)
    have "ins_back lt z acc = ins_back lt' z acc" using Cons.prems assms by (intro ins_back_cong) auto
    moreover have "set (ins_back lt z acc) = insert z (set acc)"
      using mset_ins_back [of lt z acc] by (metis set_mset_add_mset_insert set_mset_mset)
    ultimately show ?case using Cons by simp
  qed simp
  then show ?thesis by (simp add: slice_stable_def)
qed

definition strict_weak :: "('a \<Rightarrow> 'a \<Rightarrow> bool) \<Rightarrow> bool" where
  "strict_weak lt \<longleftrightarrow>
     (\<forall>a. \<not> lt a a) \<and> (\<forall>a b c. lt a b \<longrightarrow> lt b c \<longrightarrow> lt a c) \<and>
     (\<forall>a b c. \<not> lt a b \<longrightarrow> \<not> lt b c \<longrightarrow> \<not> lt a c)"

abbreviation ordered_by :: "('a \<Rightarrow> 'a \<Rightarrow> bool) \<Rightarrow> 'a list \<Rightarrow> bool" where
  "ordered_by lt \<equiv> sorted_wrt (\<lambda>a b. \<not> lt b a)"

lemma strict_weak_key: "strict_weak (\<lambda>a b. (f a :: 'k :: linorder) < f b)"
  by (auto simp: strict_weak_def)

lemma strict_weakD:
  assumes "strict_weak lt"
  shows "\<not> lt a a" and "lt a b \<Longrightarrow> lt b c \<Longrightarrow> lt a c"
    and "\<not> lt a b \<Longrightarrow> \<not> lt b c \<Longrightarrow> \<not> lt a c" and "lt a b \<Longrightarrow> \<not> lt b a"
  using assms unfolding strict_weak_def by blast+

lemma ins_back_split:
  obtains T D where "ys = rev D @ rev T" and "ins_back lt x ys = rev D @ x # rev T"
    and "\<And>t. t \<in> set T \<Longrightarrow> lt x t" and "D \<noteq> [] \<Longrightarrow> \<not> lt x (hd D)"
proof
  have "rev ys = takeWhile (lt x) (rev ys) @ dropWhile (lt x) (rev ys)" by simp
  then show "ys = rev (dropWhile (lt x) (rev ys)) @ rev (takeWhile (lt x) (rev ys))"
    by (metis rev_append rev_rev_ident)
qed (auto simp: ins_back_def hd_dropWhile dest: set_takeWhileD)

lemma ordered_ins_back:
  assumes sw: "strict_weak lt" and ord: "ordered_by lt ys"
  shows "ordered_by lt (ins_back lt x ys)"
proof -
  obtain T D where ys: "ys = rev D @ rev T" and ins: "ins_back lt x ys = rev D @ x # rev T"
    and T: "\<And>t. t \<in> set T \<Longrightarrow> lt x t" and D: "D \<noteq> [] \<Longrightarrow> \<not> lt x (hd D)"
    by (rule ins_back_split [of ys lt x]) blast
  have "\<not> lt x d" if "d \<in> set D" for d
  proof (cases D)
    case Nil
    with that show ?thesis by simp
  next
    case (Cons l ds)
    with D have "\<not> lt x l" by simp
    moreover have "\<not> lt l d"
      using ord that Cons strict_weakD(1) [OF sw, of l] by (auto simp: ys sorted_wrt_append)
    ultimately show ?thesis by (rule strict_weakD(3) [OF sw])
  qed
  moreover have "\<not> lt t x" if "t \<in> set T" for t
    using T [OF that] by (rule strict_weakD(4) [OF sw])
  ultimately show ?thesis
    using ord unfolding ins by (subst (asm) ys) (simp add: sorted_wrt_append)
qed

lemma ordered_slice_stable:
  assumes "strict_weak lt"
  shows "ordered_by lt (slice_stable lt xs)"
proof -
  have "ordered_by lt (foldl (\<lambda>acc x. ins_back lt x acc) acc xs)" if "ordered_by lt acc" for acc
    using that by (induction xs arbitrary: acc) (auto intro: ordered_ins_back [OF assms])
  then show ?thesis by (simp add: slice_stable_def)
qed

text \<open>Stability: elements the order does not separate keep their relative position.\<close>

lemma filter_ins_back:
  assumes sw: "strict_weak lt" and ord: "ordered_by lt ys"
  shows "filter (\<lambda>y. \<not> lt y a \<and> \<not> lt a y) (ins_back lt x ys) =
         filter (\<lambda>y. \<not> lt y a \<and> \<not> lt a y) (ys @ [x])"
proof -
  obtain T D where ys: "ys = rev D @ rev T" and ins: "ins_back lt x ys = rev D @ x # rev T"
    and T: "\<And>t. t \<in> set T \<Longrightarrow> lt x t"
    by (rule ins_back_split [of ys lt x]) blast
  have "filter (\<lambda>y. \<not> lt y a \<and> \<not> lt a y) (rev T) = []" if "\<not> lt x a" "\<not> lt a x"
    using that T strict_weakD(3) [OF sw, of x a] by (auto simp: filter_empty_conv)
  then show ?thesis unfolding ins by (subst ys) simp
qed

lemma filter_slice_stable:
  assumes "strict_weak lt"
  shows "filter (\<lambda>y. \<not> lt y a \<and> \<not> lt a y) (slice_stable lt xs) =
         filter (\<lambda>y. \<not> lt y a \<and> \<not> lt a y) xs"
proof -
  let ?P = "\<lambda>y. \<not> lt y a \<and> \<not> lt a y"
  have "filter ?P (foldl (\<lambda>acc x. ins_back lt x acc) acc xs) = filter ?P (acc @ xs)"
    if "ordered_by lt acc" for acc
    using that
  proof (induction xs arbitrary: acc)
    case Nil
    then show ?case by simp
  next
    case (Cons x xs)
    then show ?case
      using filter_ins_back [OF assms Cons.prems, of a x] ordered_ins_back [OF assms Cons.prems, of x]
      by simp
  qed
  then show ?thesis by (simp add: slice_stable_def)
qed

end
