(* ===== verification/Go_Json.thy ===== *)
theory Go_Json
  imports CL_Prelude
begin

text \<open>
  The parts of Go's \<^verbatim>\<open>unicode/utf8\<close> and \<^verbatim>\<open>encoding/json\<close> that the sources call, on byte lists:
  rune decoding and encoding, string quoting and unquoting, the JSON grammar with the nesting bound
  of 10000, \<^verbatim>\<open>json.Marshal\<close>, \<^verbatim>\<open>json.Compact\<close> as \<^verbatim>\<open>Marshal\<close> applies it to a
  \<^verbatim>\<open>json.RawMessage\<close>, and the rules \<^verbatim>\<open>json.Unmarshal\<close> decodes fields by (a key matches a field
  name up to case folding, a later key overwrites an earlier one, \<^verbatim>\<open>null\<close> leaves a field alone, a
  value of the wrong type is reported as an error while decoding goes on). A \<^verbatim>\<open>nil\<close> raw message is
  the empty byte list. The round-trip theorem says that what \<^verbatim>\<open>Marshal\<close> writes \<^verbatim>\<open>Unmarshal\<close>
  reads back.
\<close>

section \<open>UTF-8\<close>

definition in_rng :: "nat \<Rightarrow> nat \<Rightarrow> char \<Rightarrow> bool" where
  "in_rng lo hi c \<longleftrightarrow> lo \<le> code_of c \<and> code_of c \<le> hi"

text \<open>The range of the second byte depends on the first: no overlong form, no surrogate, no rune above 0x10FFFF.\<close>

definition second_ok :: "char \<Rightarrow> char \<Rightarrow> bool" where
  "second_ok b b1 =
     in_rng (if code_of b = 224 then 160 else if code_of b = 240 then 144 else 128)
            (if code_of b = 237 then 159 else if code_of b = 244 then 143 else 191) b1"

text \<open>The width \<^verbatim>\<open>utf8.DecodeRune\<close> reports for the first rune, 0 for an invalid encoding.\<close>

definition rune_len :: "bytes \<Rightarrow> nat" where
  "rune_len s =
     (case s of
        [] \<Rightarrow> 0
      | b # bs \<Rightarrow>
          if code_of b < 128 then 1
          else if in_rng 194 223 b then
            (case bs of b1 # _ \<Rightarrow> if second_ok b b1 then 2 else 0 | _ \<Rightarrow> 0)
          else if in_rng 224 239 b then
            (case bs of
               b1 # b2 # _ \<Rightarrow>
                 if second_ok b b1 \<and> in_rng 128 191 b2 then 3 else 0
             | _ \<Rightarrow> 0)
          else if in_rng 240 244 b then
            (case bs of
               b1 # b2 # b3 # _ \<Rightarrow>
                 if second_ok b b1 \<and> in_rng 128 191 b2 \<and> in_rng 128 191 b3 then 4 else 0
             | _ \<Rightarrow> 0)
          else 0)"

definition rune_val :: "bytes \<Rightarrow> nat" where
  "rune_val s =
     (case map code_of s of
        [a] \<Rightarrow> a
      | [a, b] \<Rightarrow> (a - 192) * 64 + (b - 128)
      | [a, b, c] \<Rightarrow> (a - 224) * 4096 + (b - 128) * 64 + (c - 128)
      | [a, b, c, d] \<Rightarrow> (a - 240) * 262144 + (b - 128) * 4096 + (c - 128) * 64 + (d - 128)
      | _ \<Rightarrow> 65533)"

text \<open>\<^verbatim>\<open>[]rune(s)\<close> and the runes a \<^verbatim>\<open>range\<close> loop visits.\<close>

fun runes :: "bytes \<Rightarrow> nat list" where
  "runes [] = []"
| "runes (b # bs) =
     (let n = rune_len (b # bs)
      in if n = 0 then 65533 # runes bs
         else rune_val (take n (b # bs)) # runes (drop (n - 1) bs))"

fun valid_utf8 :: "bytes \<Rightarrow> bool" where
  "valid_utf8 [] = True"
| "valid_utf8 (b # bs) =
     (rune_len (b # bs) \<noteq> 0 \<and> valid_utf8 (drop (rune_len (b # bs) - 1) bs))"

definition encode_rune :: "nat \<Rightarrow> bytes" where
  "encode_rune r =
     (if r < 128 then [char_of r]
      else if r < 2048 then [char_of (192 + r div 64), char_of (128 + r mod 64)]
      else if (55296 \<le> r \<and> r < 57344) \<or> 1114112 \<le> r
        then [CHR 0xEF, CHR 0xBF, CHR 0xBD]
      else if r < 65536
        then [char_of (224 + r div 4096), char_of (128 + r div 64 mod 64), char_of (128 + r mod 64)]
      else [char_of (240 + r div 262144), char_of (128 + r div 4096 mod 64),
            char_of (128 + r div 64 mod 64), char_of (128 + r mod 64)])"

lemma rune_len_append: "rune_len s = n \<Longrightarrow> n \<noteq> 0 \<Longrightarrow> rune_len (take n s @ r) = n"
  by (auto simp: rune_len_def split: list.splits if_splits)

lemma rune_len_le: "rune_len s \<le> length s"
  by (auto simp: rune_len_def split: list.splits if_splits)

lemma rune_len_high: "rune_len (b # bs) = n \<Longrightarrow> 128 \<le> code_of b \<Longrightarrow> n \<noteq> 0 \<Longrightarrow> 2 \<le> n"
  by (auto simp: rune_len_def split: list.splits if_splits)

section \<open>Quoting and unquoting strings\<close>

definition hex_digit :: "nat \<Rightarrow> char" where
  "hex_digit n = (if n < 10 then char_of (48 + n) else char_of (87 + n))"

definition hex_val :: "char \<Rightarrow> nat option" where
  "hex_val c =
     (if in_rng 48 57 c then Some (code_of c - 48)
      else if in_rng 97 102 c then Some (code_of c - 87)
      else if in_rng 65 70 c then Some (code_of c - 55)
      else None)"

definition hex4 :: "bytes \<Rightarrow> nat option" where
  "hex4 s =
     (case s of
        a # b # c # d # _ \<Rightarrow>
          (case (hex_val a, hex_val b, hex_val c, hex_val d) of
             (Some w, Some x, Some y, Some z) \<Rightarrow> Some (4096 * w + 256 * x + 16 * y + z)
           | _ \<Rightarrow> None)
      | _ \<Rightarrow> None)"

text \<open>The escape of one byte below 128, HTML characters included (\<^verbatim>\<open>Marshal\<close> escapes them).\<close>

definition esc_ascii :: "char \<Rightarrow> bytes" where
  "esc_ascii b =
     (if b = CHR 0x22 \<or> b = CHR 0x5C then [CHR 0x5C, b]
      else if b = CHR 0x08 then [CHR 0x5C, CHR ''b'']
      else if b = CHR 0x0C then [CHR 0x5C, CHR ''f'']
      else if b = CHR 0x0A then [CHR 0x5C, CHR ''n'']
      else if b = CHR 0x0D then [CHR 0x5C, CHR ''r'']
      else if b = CHR 0x09 then [CHR 0x5C, CHR ''t'']
      else if code_of b < 32 \<or> b = CHR ''<'' \<or> b = CHR ''>'' \<or> b = CHR 0x26
        then [CHR 0x5C, CHR ''u'', CHR ''0'', CHR ''0'',
              hex_digit (code_of b div 16), hex_digit (code_of b mod 16)]
      else [b])"

fun esc :: "bytes \<Rightarrow> bytes" where
  "esc [] = []"
| "esc (b # bs) =
     (if code_of b < 128 then esc_ascii b @ esc bs
      else let n = rune_len (b # bs)
           in if n = 0 then CHR 0x5C # ''ufffd'' @ esc bs
              else if take n (b # bs) = [CHR 0xE2, CHR 0x80, CHR 0xA8]
                then CHR 0x5C # ''u2028'' @ esc (drop (n - 1) bs)
              else if take n (b # bs) = [CHR 0xE2, CHR 0x80, CHR 0xA9]
                then CHR 0x5C # ''u2029'' @ esc (drop (n - 1) bs)
              else take n (b # bs) @ esc (drop (n - 1) bs))"

definition quote_json :: "bytes \<Rightarrow> bytes" where
  "quote_json s = CHR 0x22 # esc s @ [CHR 0x22]"

definition simple_escape :: "char \<Rightarrow> char option" where
  "simple_escape c =
     (if c = CHR 0x22 \<or> c = CHR 0x5C \<or> c = CHR ''/'' then Some c
      else if c = CHR ''b'' then Some (CHR 0x08)
      else if c = CHR ''f'' then Some (CHR 0x0C)
      else if c = CHR ''n'' then Some (CHR 0x0A)
      else if c = CHR ''r'' then Some (CHR 0x0D)
      else if c = CHR ''t'' then Some (CHR 0x09)
      else None)"

text \<open>
  A string literal after its opening quote: the decoded content and what follows the closing quote.
  A surrogate pair written as two escapes is one rune; a lone surrogate and an invalid byte are the
  replacement character.
\<close>

definition is_high :: "nat \<Rightarrow> bool" where
  "is_high u \<longleftrightarrow> 55296 \<le> u \<and> u < 56320"

definition is_low :: "nat \<Rightarrow> bool" where
  "is_low u \<longleftrightarrow> 56320 \<le> u \<and> u < 57344"

definition low_after :: "bytes \<Rightarrow> nat option" where
  "low_after s =
     (case s of
        a # b # r \<Rightarrow>
          if a = CHR 0x5C \<and> b = CHR ''u''
          then (case hex4 r of Some l \<Rightarrow> if is_low l then Some l else None | None \<Rightarrow> None)
          else None
      | _ \<Rightarrow> None)"

fun parse_str :: "bytes \<Rightarrow> (bytes \<times> bytes) option" where
  "parse_str [] = None"
| "parse_str (c # cs) =
     (if c = CHR 0x22 then Some ([], cs)
      else if c = CHR 0x5C then
        (case cs of
           [] \<Rightarrow> None
         | e # r \<Rightarrow>
             (case simple_escape e of
                Some b \<Rightarrow> map_option (apfst ((#) b)) (parse_str r)
              | None \<Rightarrow>
                  if e = CHR ''u'' then
                    (case hex4 r of
                       None \<Rightarrow> None
                     | Some u \<Rightarrow>
                         (case (if is_high u then low_after (drop 4 r) else None) of
                            Some l \<Rightarrow>
                              map_option (apfst (append (encode_rune (65536 + (u - 55296) * 1024 + (l - 56320)))))
                                (parse_str (drop 10 r))
                          | None \<Rightarrow> map_option (apfst (append (encode_rune u))) (parse_str (drop 4 r))))
                  else None))
      else if code_of c < 32 then None
      else if code_of c < 128 then map_option (apfst ((#) c)) (parse_str cs)
      else let n = rune_len (c # cs)
           in if n = 0 then map_option (apfst (append [CHR 0xEF, CHR 0xBF, CHR 0xBD])) (parse_str cs)
              else map_option (apfst (append (take n (c # cs)))) (parse_str (drop (n - 1) cs)))"

declare parse_str.simps(2) [simp del]

lemma code_of_char_of: "n < 256 \<Longrightarrow> of_char (char_of n) = (n :: nat)"
  by simp

lemma append_single: "(@) [b] = (#) b"
  by (simp add: fun_eq_iff)

lemma encode_2028: "encode_rune 8232 = [CHR 0xE2, CHR 0x80, CHR 0xA8]"
  and encode_2029: "encode_rune 8233 = [CHR 0xE2, CHR 0x80, CHR 0xA9]"
  by (simp_all add: encode_rune_def char_of_eq_iff)

lemma hex_val_digit [simp]: "n < 16 \<Longrightarrow> hex_val (hex_digit n) = Some n"
  by (auto simp: hex_val_def hex_digit_def in_rng_def)

lemma encode_ascii: "code_of b < 128 \<Longrightarrow> encode_rune (code_of b) = [b]"
  by (simp add: encode_rune_def)

lemma hex4_two: "code_of b < 128 \<Longrightarrow>
  hex4 (CHR ''0'' # CHR ''0'' # hex_digit (code_of b div 16) # hex_digit (code_of b mod 16) # r) = Some (code_of b)"
proof -
  assume "code_of b < 128"
  then have "code_of b div 16 < 16" by simp
  moreover have "hex_val CHR ''0'' = Some 0" by (simp add: hex_val_def in_rng_def)
  ultimately show ?thesis by (simp add: hex4_def)
qed

lemma parse_str_quote: "parse_str (CHR 0x22 # r) = Some ([], r)"
  by (simp add: parse_str.simps(2))

lemma parse_str_u:
  assumes "hex4 r = Some u" and "\<not> is_high u"
  shows "parse_str (CHR 0x5C # CHR ''u'' # r) = map_option (apfst (append (encode_rune u))) (parse_str (drop 4 r))"
  using assms by (simp add: parse_str.simps(2) simple_escape_def)

lemma parse_str_simple:
  assumes "simple_escape e = Some b"
  shows "parse_str (CHR 0x5C # e # r) = map_option (apfst ((#) b)) (parse_str r)"
  using assms by (simp add: parse_str.simps(2))

lemma parse_str_plain:
  assumes "c \<noteq> CHR 0x22" "c \<noteq> CHR 0x5C" "32 \<le> code_of c" "code_of c < 128"
  shows "parse_str (c # r) = map_option (apfst ((#) c)) (parse_str r)"
  using assms by (simp add: parse_str.simps(2))

lemma parse_str_esc_ascii:
  assumes "code_of b < 128"
  shows "parse_str (esc_ascii b @ r) = map_option (apfst ((#) b)) (parse_str r)"
proof -
  have hi: "\<not> is_high (code_of b)" using assms by (simp add: is_high_def)
  have ctl: "parse_str ([CHR 0x5C, CHR ''u'', CHR ''0'', CHR ''0'',
              hex_digit (code_of b div 16), hex_digit (code_of b mod 16)] @ r)
       = map_option (apfst ((#) b)) (parse_str r)"
    using parse_str_u [OF hex4_two [OF assms, of r] hi] by (simp add: encode_ascii [OF assms] append_single)
  show ?thesis
    using assms ctl
    by (simp add: esc_ascii_def parse_str_simple parse_str_plain simple_escape_def)
qed

lemma parse_str_rune:
  assumes "rune_len (c # cs) = n" "n \<noteq> 0" "128 \<le> code_of c"
  shows "parse_str (take n (c # cs) @ r) = map_option (apfst (append (take n (c # cs)))) (parse_str r)"
proof -
  obtain m where n: "n = Suc m" using assms(2) by (cases n) auto
  have len: "length (take n (c # cs)) = n" using rune_len_le [of "c # cs"] assms(1) by simp
  have rl: "rune_len (c # take m cs @ r) = n"
    using rune_len_append [OF assms(1,2), of r] n by simp
  have "length (take m cs) = m" using len n by simp
  then show ?thesis
    using assms(3) rl n by (auto simp: parse_str.simps(2))
qed

lemma parse_str_2028:
  "parse_str (CHR 0x5C # CHR ''u'' # CHR ''2'' # CHR ''0'' # CHR ''2'' # CHR ''8'' # x) = map_option (apfst (append [CHR 0xE2, CHR 0x80, CHR 0xA8])) (parse_str x)"
  "parse_str (CHR 0x5C # CHR ''u'' # CHR ''2'' # CHR ''0'' # CHR ''2'' # CHR ''9'' # x) = map_option (apfst (append [CHR 0xE2, CHR 0x80, CHR 0xA9])) (parse_str x)"
  using parse_str_u [of "''2028'' @ x" 8232] parse_str_u [of "''2029'' @ x" 8233]
  by (simp_all add: hex4_def hex_val_def in_rng_def is_high_def encode_2028 encode_2029)

lemma esc_high:
  assumes n0: "rune_len (b # bs) \<noteq> 0" and hi: "128 \<le> code_of b"
  shows "\<exists>E. esc (b # bs) = E @ esc (drop (rune_len (b # bs) - 1) bs) \<and>
    (\<forall>x. parse_str (E @ x) = map_option (apfst (append (take (rune_len (b # bs)) (b # bs)))) (parse_str x))"
proof -
  let ?n = "rune_len (b # bs)"
  let ?t = "take ?n (b # bs)"
  consider "?t = [CHR 0xE2, CHR 0x80, CHR 0xA8]" | "?t = [CHR 0xE2, CHR 0x80, CHR 0xA9]"
    | "?t \<noteq> [CHR 0xE2, CHR 0x80, CHR 0xA8]" "?t \<noteq> [CHR 0xE2, CHR 0x80, CHR 0xA9]"
    by blast
  then show ?thesis
  proof cases
    case 1
    with n0 hi show ?thesis
      by (intro exI [of _ "CHR 0x5C # ''u2028''"]) (simp add: Let_def parse_str_2028 del: take_Suc_Cons)
  next
    case 2
    with n0 hi show ?thesis
      by (intro exI [of _ "CHR 0x5C # ''u2029''"]) (simp add: Let_def parse_str_2028 del: take_Suc_Cons)
  next
    case 3
    with n0 hi show ?thesis
      by (intro exI [of _ ?t]) (simp add: Let_def parse_str_rune [OF refl n0 hi] del: take_Suc_Cons)
  qed
qed

lemma esc_roundtrip: "valid_utf8 s \<Longrightarrow> parse_str (esc s @ CHR 0x22 # r) = Some (s, r)"
proof (induction s rule: valid_utf8.induct)
  case 1
  then show ?case by (simp add: parse_str_quote)
next
  case (2 b bs)
  let ?n = "rune_len (b # bs)"
  from "2.prems" have n0: "?n \<noteq> 0" and v: "valid_utf8 (drop (?n - 1) bs)" by auto
  note IH = "2.IH" [OF v]
  show ?case
  proof (cases "code_of b < 128")
    case True
    then have "?n = 1" by (simp add: rune_len_def)
    with IH True show ?thesis by (simp add: parse_str_esc_ascii)
  next
    case False
    then have hi: "128 \<le> code_of b" by simp
    have split: "take ?n (b # bs) @ drop (?n - 1) bs = b # bs"
      using n0 by (cases ?n) auto
    obtain E where E: "esc (b # bs) = E @ esc (drop (?n - 1) bs)"
      and p: "\<And>x. parse_str (E @ x) = map_option (apfst (append (take ?n (b # bs)))) (parse_str x)"
      using esc_high [OF n0 hi] by blast
    have "parse_str (esc (b # bs) @ CHR 0x22 # r) = map_option (apfst (append (take ?n (b # bs)))) (Some (drop (?n - 1) bs, r))"
      unfolding E append_assoc p IH ..
    then show ?thesis using split by simp
  qed
qed

section \<open>Values, and the grammar\<close>

text \<open>
  \<open>json\<close> is a value handed to \<^verbatim>\<open>Marshal\<close>; \<open>JRaw\<close> is an embedded \<^verbatim>\<open>json.RawMessage\<close>. A
  \<open>node\<close> is a parsed value together with the bytes it was read from, which is what decoding into a
  raw message keeps. Numbers stay literals.
\<close>

datatype json = JNull | JBool bool | JNum bytes | JStr bytes | JArr "json list"
  | JObj "(bytes \<times> json) list" | JRaw bytes

datatype node = Node (raw: bytes) (val: jval)
and jval = VNull | VBool bool | VNum bytes | VStr bytes | VArr "node list"
  | VObj "(bytes \<times> node) list"

definition is_ws :: "char \<Rightarrow> bool" where
  "is_ws c \<longleftrightarrow> c = CHR 0x20 \<or> c = CHR 0x09 \<or> c = CHR 0x0A \<or> c = CHR 0x0D"

definition skip_ws :: "bytes \<Rightarrow> bytes" where
  "skip_ws s = dropWhile is_ws s"

definition is_digit :: "char \<Rightarrow> bool" where
  "is_digit c \<longleftrightarrow> in_rng 48 57 c"

definition num_int :: "bytes \<Rightarrow> (bytes \<times> bytes) option" where
  "num_int s =
     (case s of
        [] \<Rightarrow> None
      | c # r \<Rightarrow>
          if c = CHR ''0'' then Some ([c], r)
          else if is_digit c then Some (takeWhile is_digit s, dropWhile is_digit s)
          else None)"

definition num_frac :: "bytes \<Rightarrow> bytes \<times> bytes" where
  "num_frac s =
     (case s of
        [] \<Rightarrow> ([], s)
      | c # r \<Rightarrow>
          if c = CHR ''.'' \<and> takeWhile is_digit r \<noteq> []
          then (c # takeWhile is_digit r, dropWhile is_digit r)
          else ([], s))"

definition sign_of :: "(char \<Rightarrow> bool) \<Rightarrow> bytes \<Rightarrow> bytes" where
  "sign_of p s = takeWhile p (take 1 s)"

definition num_exp :: "bytes \<Rightarrow> bytes \<times> bytes" where
  "num_exp s =
     (case s of
        [] \<Rightarrow> ([], s)
      | c # r \<Rightarrow>
          let sg = sign_of (\<lambda>d. d = CHR ''+'' \<or> d = CHR ''-'') r;
              t = drop (length sg) r
          in if (c = CHR ''e'' \<or> c = CHR ''E'') \<and> takeWhile is_digit t \<noteq> []
             then (c # sg @ takeWhile is_digit t, dropWhile is_digit t)
             else ([], s))"

definition parse_num :: "bytes \<Rightarrow> (bytes \<times> bytes) option" where
  "parse_num s =
     (let sg = sign_of (\<lambda>c. c = CHR ''-'') s
      in case num_int (drop (length sg) s) of
           None \<Rightarrow> None
         | Some (i, r1) \<Rightarrow>
             (case num_frac r1 of
                (f, r2) \<Rightarrow> (case num_exp r2 of (e, r3) \<Rightarrow> Some (sg @ i @ f @ e, r3))))"

definition parse_lit :: "bytes \<Rightarrow> jval \<Rightarrow> bytes \<Rightarrow> (jval \<times> bytes) option" where
  "parse_lit l v s = (if take (length l) s = l then Some (v, drop (length l) s) else None)"

definition parse_atom :: "bytes \<Rightarrow> (jval \<times> bytes) option" where
  "parse_atom s =
     (case s of
        [] \<Rightarrow> None
      | c # cs \<Rightarrow>
          if c = CHR 0x22 then map_option (apfst VStr) (parse_str cs)
          else if c = CHR ''n'' then parse_lit ''null'' VNull s
          else if c = CHR ''t'' then parse_lit ''true'' (VBool True) s
          else if c = CHR ''f'' then parse_lit ''false'' (VBool False) s
          else map_option (apfst VNum) (parse_num s))"

definition head_is :: "char \<Rightarrow> bytes \<Rightarrow> bool" where
  "head_is c s \<longleftrightarrow> (case s of [] \<Rightarrow> False | d # _ \<Rightarrow> d = c)"

definition consumed :: "bytes \<Rightarrow> bytes \<Rightarrow> bytes" where
  "consumed s r = take (length s - length r) s"

definition max_depth :: nat where
  "max_depth = 10000"

text \<open>
  The first argument is fuel, the second the nesting depth. Lemma \<open>parse_fuel\<close> below shows
  that twice the number of bytes consumed is fuel enough, so the fuel of \<open>unmarshal_node\<close>
  never decides a result.
\<close>

fun parse_val :: "nat \<Rightarrow> nat \<Rightarrow> bytes \<Rightarrow> (node \<times> bytes) option"
and parse_elems :: "nat \<Rightarrow> nat \<Rightarrow> bytes \<Rightarrow> (node list \<times> bytes) option"
and parse_members :: "nat \<Rightarrow> nat \<Rightarrow> bytes \<Rightarrow> ((bytes \<times> node) list \<times> bytes) option" where
  "parse_val 0 d s = None"
| "parse_val (Suc n) d s =
     (if head_is CHR ''['' s then
        (if d \<ge> max_depth then None
         else let s1 = skip_ws (tl s)
              in if head_is CHR '']'' s1 then Some (Node (consumed s (tl s1)) (VArr []), tl s1)
                 else case parse_elems n (Suc d) s1 of
                        None \<Rightarrow> None
                      | Some (vs, r) \<Rightarrow> Some (Node (consumed s r) (VArr vs), r))
      else if head_is CHR 0x7B s then
        (if d \<ge> max_depth then None
         else let s1 = skip_ws (tl s)
              in if head_is CHR 0x7D s1 then Some (Node (consumed s (tl s1)) (VObj []), tl s1)
                 else case parse_members n (Suc d) s1 of
                        None \<Rightarrow> None
                      | Some (ms, r) \<Rightarrow> Some (Node (consumed s r) (VObj ms), r))
      else case parse_atom s of
             None \<Rightarrow> None
           | Some (v, r) \<Rightarrow> Some (Node (consumed s r) v, r))"
| "parse_elems 0 d s = None"
| "parse_elems (Suc n) d s =
     (case parse_val n d s of
        None \<Rightarrow> None
      | Some (v, r) \<Rightarrow>
          let r1 = skip_ws r
          in if head_is CHR '']'' r1 then Some ([v], tl r1)
             else if head_is CHR '','' r1 then
               (case parse_elems n d (skip_ws (tl r1)) of
                  None \<Rightarrow> None
                | Some (vs, r2) \<Rightarrow> Some (v # vs, r2))
             else None)"
| "parse_members 0 d s = None"
| "parse_members (Suc n) d s =
     (if head_is CHR 0x22 s then
        (case parse_str (tl s) of
           None \<Rightarrow> None
         | Some (k, r) \<Rightarrow>
             let r1 = skip_ws r
             in if head_is CHR '':'' r1 then
                  (case parse_val n d (skip_ws (tl r1)) of
                     None \<Rightarrow> None
                   | Some (v, r2) \<Rightarrow>
                       let r3 = skip_ws r2
                       in if head_is CHR 0x7D r3 then Some ([(k, v)], tl r3)
                          else if head_is CHR '','' r3 then
                            (case parse_members n d (skip_ws (tl r3)) of
                               None \<Rightarrow> None
                             | Some (ms, r4) \<Rightarrow> Some ((k, v) # ms, r4))
                          else None)
                else None)
      else None)"

declare parse_val.simps(2) [simp del] parse_elems.simps(2) [simp del] parse_members.simps(2) [simp del]

text \<open>\<^verbatim>\<open>json.Unmarshal\<close> up to the decoding into a Go type: None is a syntax error.\<close>

definition unmarshal_node :: "bytes \<Rightarrow> node option" where
  "unmarshal_node s =
     (case parse_val (2 * length s + 2) 0 (skip_ws s) of
        None \<Rightarrow> None
      | Some (v, r) \<Rightarrow> if skip_ws r = [] then Some v else None)"

section \<open>Marshal\<close>

text \<open>\<^verbatim>\<open>json.Compact\<close> with HTML escaping; the flag says whether the scan is inside a string.\<close>

fun compact :: "bool \<Rightarrow> bytes \<Rightarrow> bytes" where
  "compact q [] = []"
| "compact q (c # cs) =
     (if c = CHR ''<'' \<or> c = CHR ''>'' \<or> c = CHR 0x26 then esc_ascii c @ compact q cs
      else if take 3 (c # cs) = [CHR 0xE2, CHR 0x80, CHR 0xA8]
        then CHR 0x5C # ''u2028'' @ compact q (drop 2 cs)
      else if take 3 (c # cs) = [CHR 0xE2, CHR 0x80, CHR 0xA9]
        then CHR 0x5C # ''u2029'' @ compact q (drop 2 cs)
      else if q then
        (if c = CHR 0x5C then (case cs of [] \<Rightarrow> [c] | e # r \<Rightarrow> c # e # compact q r)
         else c # compact (c \<noteq> CHR 0x22) cs)
      else if is_ws c then compact q cs
      else c # compact (c = CHR 0x22) cs)"

definition obj_bytes :: "bytes list \<Rightarrow> bytes" where
  "obj_bytes ss = CHR 0x7B # join '','' ss @ [CHR 0x7D]"

definition arr_bytes :: "bytes list \<Rightarrow> bytes" where
  "arr_bytes ss = ''['' @ join '','' ss @ '']''"

text \<open>None is an error: an embedded raw message that is not valid JSON.\<close>

fun marshal :: "json \<Rightarrow> bytes option" where
  "marshal JNull = Some ''null''"
| "marshal (JBool b) = Some (if b then ''true'' else ''false'')"
| "marshal (JNum l) = Some l"
| "marshal (JStr s) = Some (quote_json s)"
| "marshal (JRaw b) =
     (if b = [] then Some ''null''
      else case unmarshal_node b of None \<Rightarrow> None | Some _ \<Rightarrow> Some (compact False b))"
| "marshal (JArr xs) = map_option arr_bytes (those (map marshal xs))"
| "marshal (JObj ms) =
     map_option obj_bytes
       (those (map (\<lambda>m. map_option (\<lambda>s. quote_json (fst m) @ '':'' @ s) (marshal (snd m))) ms))"

text \<open>A Go map: \<^verbatim>\<open>Marshal\<close> writes its keys in byte order.\<close>

definition jmap :: "(bytes \<times> json) list \<Rightarrow> json" where
  "jmap kvs = JObj (sort_key fst kvs)"

definition jint :: "int \<Rightarrow> json" where
  "jint i = JNum (itoa i)"

lemma skip_ws_length: "length (skip_ws s) \<le> length s"
  by (simp add: skip_ws_def length_dropWhile_le)

lemma head_is_length: "head_is c s \<Longrightarrow> length s = Suc (length (tl s))"
  by (cases s) (simp_all add: head_is_def)

lemma parse_str_step:
  assumes "parse_str (c # cs) = Some (x, r)"
  shows "r = cs \<or> (\<exists>k y. parse_str (drop k cs) = Some (y, r))"
proof (cases "c = CHR 0x5C")
  case True
  with assms obtain e t where cs: "cs = e # t" by (cases cs) (auto simp: parse_str.simps(2))
  have d: "drop (Suc k) cs = drop k t" for k by (simp add: cs)
  have "\<exists>k y. parse_str (drop k t) = Some (y, r)"
    using assms True unfolding parse_str.simps(2) cs
    by (auto split: if_splits option.splits intro: exI [of _ 0] exI [of _ 4] exI [of _ 10])
  then show ?thesis by (metis d)
next
  case False
  then show ?thesis using assms
    by (auto simp: parse_str.simps(2) Let_def split: if_splits intro: exI [of _ 0])
qed

lemma parse_str_length: "parse_str s = Some (x, r) \<Longrightarrow> length r < length s"
proof (induction s arbitrary: x r rule: length_induct)
  case (1 s)
  then obtain c cs where s: "s = c # cs" by (cases s) auto
  from parse_str_step 1(2) s consider "r = cs" | k y where "parse_str (drop k cs) = Some (y, r)"
    by blast
  then show ?case
  proof cases
    case 2
    then have "length r < length (drop k cs)" using 1(1) [rule_format, of "drop k cs"] s by (simp add: less_Suc_eq_le)
    then show ?thesis using s by simp
  qed (simp add: s)
qed

lemma num_parts_length:
  "num_int s = Some (i, r) \<Longrightarrow> length r < length s"
  "num_frac s = (f, r) \<Longrightarrow> length r \<le> length s"
  "num_exp s = (f, r) \<Longrightarrow> length r \<le> length s"
  by (auto simp: num_int_def num_frac_def num_exp_def Let_def less_Suc_eq_le length_dropWhile_le
      split: list.splits if_splits intro: le_SucI order_trans [OF length_dropWhile_le])

lemma parse_num_length: "parse_num s = Some (x, r) \<Longrightarrow> length r < length s"
  by (auto simp: parse_num_def Let_def split: option.splits prod.splits list.splits if_splits
      dest!: num_parts_length)

lemma parse_atom_length: "parse_atom s = Some (x, r) \<Longrightarrow> length r < length s"
  by (auto simp: parse_atom_def parse_lit_def split: list.splits if_splits
      dest!: parse_str_length parse_num_length)


text \<open>
  Fuel: a successful parse consumes input, and any fuel from twice the number of consumed bytes
  on gives the same result.
\<close>

definition enough :: "(nat \<Rightarrow> ('a \<times> bytes) option) \<Rightarrow> bytes \<Rightarrow> 'a \<Rightarrow> bytes \<Rightarrow> bool" where
  "enough p s x r \<longleftrightarrow> length r < length s \<and> (\<forall>m \<ge> 2 * (length s - length r). p m = Some (x, r))"

lemma enoughD: "enough p s x r \<Longrightarrow> length r < length s"
  "enough p s x r \<Longrightarrow> 2 * (length s - length r) \<le> m \<Longrightarrow> p m = Some (x, r)"
  by (simp_all add: enough_def)

lemma enoughI:
  assumes "length r < length s" and "\<And>m. 2 * (length s - length r) \<le> Suc m \<Longrightarrow> p (Suc m) = Some (x, r)"
  shows "enough p s x r"
  unfolding enough_def
proof (intro conjI allI impI)
  fix m assume "2 * (length s - length r) \<le> m"
  moreover from this assms(1) obtain k where "m = Suc k" by (cases m) auto
  ultimately show "p m = Some (x, r)" using assms(2) by simp
qed (fact assms(1))

lemma skip_tl_length:
  "head_is c s \<Longrightarrow> length (skip_ws (tl s)) < length s"
  "head_is c (skip_ws s) \<Longrightarrow> length (tl (skip_ws s)) < length s"
  "head_is c (skip_ws s) \<Longrightarrow> length (skip_ws (tl (skip_ws s))) < length s"
  using skip_ws_length [of "tl s"] skip_ws_length [of s] skip_ws_length [of "tl (skip_ws s)"]
    head_is_length [of c s] head_is_length [of c "skip_ws s"]
  by (auto simp del: length_tl)

lemmas parse_simps = parse_val.simps(2) parse_elems.simps(2) parse_members.simps(2)

lemma parse_fuel:
  "parse_val n d s = Some (v, r) \<Longrightarrow> enough (\<lambda>m. parse_val m d s) s v r"
  "parse_elems n d s = Some (vs, r) \<Longrightarrow> enough (\<lambda>m. parse_elems m d s) s vs r"
  "parse_members n d s = Some (ms, r) \<Longrightarrow> enough (\<lambda>m. parse_members m d s) s ms r"
proof (induction n d s and n d s and n d s arbitrary: v r and vs r and ms r
    rule: parse_val_parse_elems_parse_members.induct)
  case (2 n d s)
  let ?s1 = "skip_ws (tl s)"
  show ?case
  proof (cases "head_is CHR ''['' s")
    case br: True
    note l = skip_tl_length(1) [OF br]
    show ?thesis
    proof (cases "head_is CHR '']'' ?s1")
      case True
      then show ?thesis using 2(3) br l by (auto intro!: enoughI simp: parse_simps Let_def split: if_splits)
    next
      case False
      with 2(3) br obtain xs where d: "\<not> d \<ge> max_depth" and
        e: "parse_elems n (Suc d) ?s1 = Some (xs, r)" and v: "v = Node (consumed s r) (VArr xs)"
        by (auto simp: parse_simps Let_def split: if_splits option.splits)
      from 2(1) [OF br d refl False e] have "enough (\<lambda>m. parse_elems m (Suc d) ?s1) ?s1 xs r" .
      from enoughD [OF this] show ?thesis
        using br d False v l by (auto intro!: enoughI simp: parse_simps Let_def)
    qed
  next
    case nbr: False
    show ?thesis
    proof (cases "head_is CHR 0x7B s")
      case br: True
      note l = skip_tl_length(1) [OF br]
      show ?thesis
      proof (cases "head_is CHR 0x7D ?s1")
        case True
        then show ?thesis using 2(3) br nbr l by (auto intro!: enoughI simp: parse_simps Let_def split: if_splits)
      next
        case False
        with 2(3) br nbr obtain xs where d: "\<not> d \<ge> max_depth" and
          e: "parse_members n (Suc d) ?s1 = Some (xs, r)" and v: "v = Node (consumed s r) (VObj xs)"
          by (auto simp: parse_simps Let_def split: if_splits option.splits)
        from 2(2) [OF nbr br d refl False e] have "enough (\<lambda>m. parse_members m (Suc d) ?s1) ?s1 xs r" .
        from enoughD [OF this] show ?thesis
          using br nbr d False v l by (auto intro!: enoughI simp: parse_simps Let_def)
      qed
    next
      case False
      then show ?thesis using 2(3) nbr
        by (auto simp: parse_simps intro!: enoughI dest: parse_atom_length split: option.splits)
    qed
  qed
next
  case (4 n d s)
  from 4(3) obtain v r1 where v: "parse_val n d s = Some (v, r1)"
    by (auto simp: parse_simps split: option.splits)
  note ev = enoughD [OF 4(1) [OF v]]
  show ?case
  proof (cases "head_is CHR '']'' (skip_ws r1)")
    case True
    then show ?thesis using 4(3) v ev skip_tl_length(2) [OF True] by (auto intro!: enoughI simp: parse_simps Let_def)
  next
    case False
    with 4(3) v obtain ws where c: "head_is CHR '','' (skip_ws r1)" and
      e: "parse_elems n d (skip_ws (tl (skip_ws r1))) = Some (ws, r)" and vs: "vs = v # ws"
      by (auto simp: parse_simps Let_def split: if_splits option.splits)
    note ee = enoughD [OF 4(2) [OF v refl refl False c e]]
    show ?thesis using v vs ev ee False c skip_tl_length(3) [OF c]
      by (auto intro!: enoughI simp: parse_simps Let_def)
  qed
next
  case (6 n d s)
  from 6(3) obtain k r0 v r1 where q: "head_is CHR 0x22 s" and k: "parse_str (tl s) = Some (k, r0)"
    and c: "head_is CHR '':'' (skip_ws r0)"
    and v: "parse_val n d (skip_ws (tl (skip_ws r0))) = Some (v, r1)"
    by (auto simp: parse_simps Let_def split: option.splits if_splits)
  note ev = enoughD [OF 6(1) [OF q k refl refl c v]]
  note l = head_is_length [OF q] parse_str_length [OF k] skip_tl_length(3) [OF c]
  show ?case
  proof (cases "head_is CHR 0x7D (skip_ws r1)")
    case True
    then show ?thesis using 6(3) q k c v ev l skip_tl_length(2) [OF True]
      by (auto intro!: enoughI simp: parse_simps Let_def)
  next
    case False
    with 6(3) q k c v obtain ws where cc: "head_is CHR '','' (skip_ws r1)" and
      e: "parse_members n d (skip_ws (tl (skip_ws r1))) = Some (ws, r)" and ms: "ms = (k, v) # ws"
      by (auto simp: parse_simps Let_def split: if_splits option.splits)
    note ee = enoughD [OF 6(2) [OF q k refl refl c v refl refl False cc e]]
    show ?thesis using q k c v ms ev ee l False cc skip_tl_length(3) [OF cc]
      by (auto intro!: enoughI simp: parse_simps Let_def)
  qed
qed simp_all


section \<open>Round trip\<close>

fun erase :: "node \<Rightarrow> json" and erase_val :: "jval \<Rightarrow> json" where
  "erase (Node _ v) = erase_val v"
| "erase_val VNull = JNull"
| "erase_val (VBool b) = JBool b"
| "erase_val (VNum l) = JNum l"
| "erase_val (VStr s) = JStr s"
| "erase_val (VArr vs) = JArr (map erase vs)"
| "erase_val (VObj ms) = JObj (map (\<lambda>m. (fst m, erase (snd m))) ms)"

fun plain :: "nat \<Rightarrow> json \<Rightarrow> bool" where
  "plain d JNull \<longleftrightarrow> True"
| "plain d (JBool b) \<longleftrightarrow> True"
| "plain d (JNum l) \<longleftrightarrow> parse_num l = Some (l, [])"
| "plain d (JStr s) \<longleftrightarrow> valid_utf8 s"
| "plain d (JRaw b) \<longleftrightarrow> False"
| "plain d (JArr xs) \<longleftrightarrow> d < max_depth \<and> (\<forall>x \<in> set xs. plain (Suc d) x)"
| "plain d (JObj ms) \<longleftrightarrow> d < max_depth \<and> (\<forall>m \<in> set ms. valid_utf8 (fst m) \<and> plain (Suc d) (snd m))"

definition stops :: "bytes \<Rightarrow> bool" where
  "stops r \<longleftrightarrow> r = [] \<or> hd r = CHR '','' \<or> hd r = CHR '']'' \<or> hd r = CHR 0x7D"

definition starts :: "bytes \<Rightarrow> bool" where
  "starts s \<longleftrightarrow> (case s of [] \<Rightarrow> False | c # _ \<Rightarrow> \<not> is_ws c \<and> c \<noteq> CHR '']'' \<and> c \<noteq> CHR 0x7D)"

lemma stops_simps [simp]: "stops []" "stops (CHR '','' # r)" "stops (CHR '']'' # r)" "stops (CHR 0x7D # r)"
  by (simp_all add: stops_def)

lemma stops_cases:
  assumes "stops r"
  obtains "r = []" | q where "r = CHR '','' # q" | q where "r = CHR '']'' # q" | q where "r = CHR 0x7D # q"
  using assms by (cases r) (auto simp: stops_def)

lemma stopsD:
  "stops (d # t) \<Longrightarrow> \<not> is_digit d \<and> d \<noteq> CHR ''.'' \<and> d \<noteq> CHR ''e'' \<and> d \<noteq> CHR ''E'' \<and>
     d \<noteq> CHR ''+'' \<and> d \<noteq> CHR ''-''"
  by (auto simp: stops_def is_digit_def in_rng_def)

lemma sign_of_append:
  "(\<And>d t. r = d # t \<Longrightarrow> \<not> p d) \<Longrightarrow> sign_of p (s @ r) = sign_of p s"
  "length (sign_of p s) - length s = 0"
  by (cases s; cases r; simp add: sign_of_def)+

lemma num_parts_append:
  assumes "stops r"
  shows "num_int s = Some (i, q) \<Longrightarrow> num_int (s @ r) = Some (i, q @ r)"
    and "num_frac s = (i, q) \<Longrightarrow> num_frac (s @ r) = (i, q @ r)"
    and "num_exp s = (i, q) \<Longrightarrow> num_exp (s @ r) = (i, q @ r)"
proof -
  have tw: "takeWhile is_digit r = []" "dropWhile is_digit r = r"
    using assms by (cases r; simp add: stopsD)+
  have [simp]: "takeWhile is_digit (t @ r) = takeWhile is_digit t" for t
    by (induction t) (simp_all add: tw)
  have [simp]: "dropWhile is_digit (t @ r) = dropWhile is_digit t @ r" for t
    by (induction t) (simp_all add: tw)
  show "num_int s = Some (i, q) \<Longrightarrow> num_int (s @ r) = Some (i, q @ r)"
    by (cases s) (auto simp: num_int_def split: if_splits)
  have r: "num_frac r = ([], r)" "num_exp r = ([], r)"
    using assms by (cases r; simp add: stopsD num_frac_def num_exp_def)+
  have sg: "\<And>d t. r = d # t \<Longrightarrow> \<not> (d = CHR ''+'' \<or> d = CHR ''-'')"
    using assms by (simp add: stopsD)
  show "num_frac s = (i, q) \<Longrightarrow> num_frac (s @ r) = (i, q @ r)"
    using r by (cases s) (auto simp: num_frac_def split: if_splits)
  show "num_exp s = (i, q) \<Longrightarrow> num_exp (s @ r) = (i, q @ r)"
  proof (cases s)
    case (Cons c t)
    define sg where "sg = sign_of (\<lambda>d. d = CHR ''+'' \<or> d = CHR ''-'') t"
    have "sign_of (\<lambda>d. d = CHR ''+'' \<or> d = CHR ''-'') (t @ r) = sg"
      "drop (length sg) (t @ r) = drop (length sg) t @ r"
      using sign_of_append(1) [OF sg] by (simp_all add: sg_def sign_of_append(2))
    then show "num_exp s = (i, q) \<Longrightarrow> num_exp (s @ r) = (i, q @ r)"
      by (auto simp: num_exp_def Let_def Cons sg_def [symmetric] simp del: drop_append split: if_splits)
  qed (use r in \<open>auto simp: num_exp_def\<close>)
qed

lemma parse_num_append:
  assumes "parse_num l = Some (l, [])" and "stops r"
  shows "parse_num (l @ r) = Some (l, r)"
proof -
  define sg where "sg = sign_of (\<lambda>c. c = CHR ''-'') l"
  from assms(1) obtain i q f q' e where p:
    "num_int (drop (length sg) l) = Some (i, q)" "num_frac q = (f, q')" "num_exp q' = (e, [])"
    and l: "sg @ i @ f @ e = l"
    unfolding parse_num_def Let_def sg_def by (auto split: option.splits prod.splits)
  note np = num_parts_append(1) [OF assms(2) p(1)] num_parts_append(2) [OF assms(2) p(2)]
    num_parts_append(3) [OF assms(2) p(3)]
  have "sign_of (\<lambda>c. c = CHR ''-'') (l @ r) = sg"
    unfolding sg_def by (rule sign_of_append(1)) (use assms(2) stopsD in blast)
  moreover have "drop (length sg) (l @ r) = drop (length sg) l @ r"
    by (simp add: sg_def sign_of_append(2))
  ultimately show ?thesis
    by (simp only: parse_num_def Let_def np l option.case prod.case append_Nil)
qed

lemma parse_num_hd:
  assumes "parse_num l = Some (x, r)"
  obtains c t where "l = c # t" "c = CHR ''-'' \<or> is_digit c"
  using assms
  by (cases l) (auto simp: parse_num_def num_int_def sign_of_def Let_def is_digit_def in_rng_def split: if_splits option.splits)

lemma starts_marshal: "plain d j \<Longrightarrow> marshal j = Some s \<Longrightarrow> starts s"
  by (cases j) (auto simp: starts_def quote_json_def arr_bytes_def obj_bytes_def is_ws_def is_digit_def in_rng_def
      split: if_splits elim!: parse_num_hd)

lemma skip_ws_starts [simp]: "starts s \<Longrightarrow> skip_ws (s @ r) = s @ r"
  by (cases s) (auto simp: starts_def skip_ws_def)

lemma skip_ws_stops [simp]: "stops s \<Longrightarrow> skip_ws s = s"
  by (cases s) (auto simp: stops_def skip_ws_def is_ws_def)

definition parses :: "nat \<Rightarrow> bytes \<Rightarrow> json \<Rightarrow> bool" where
  "parses d s j \<longleftrightarrow> (\<exists>v. erase_val v = j \<and>
     (\<forall>n r. stops r \<longrightarrow> 2 * length s \<le> n \<longrightarrow> parse_val n d (s @ r) = Some (Node s v, r)))"

lemma consumed_append [simp]: "consumed (s @ r) r = s"
  by (simp add: consumed_def)

lemma atom_parses:
  assumes "starts s" and "erase_val v = j" and "\<And>r. stops r \<Longrightarrow> parse_atom (s @ r) = Some (v, r)"
    and "\<not> head_is CHR ''['' s" and "\<not> head_is CHR 0x7B s"
  shows "parses d s j"
  unfolding parses_def
proof (intro exI conjI allI impI)
  fix n r assume "stops r" "2 * length s \<le> n"
  moreover from assms(1) obtain c t where "s = c # t" by (cases s) (auto simp: starts_def)
  moreover from calculation obtain m where "n = Suc m" by (cases n) auto
  ultimately show "parse_val n d (s @ r) = Some (Node s v, r)"
    using assms(3) [of r] assms(4,5) consumed_append [of s r] by (simp add: parse_simps head_is_def)
qed (fact assms(2))

lemma esc_str_parses: "valid_utf8 s \<Longrightarrow> parse_str (tl (quote_json s) @ r) = Some (s, r)"
  by (simp add: quote_json_def esc_roundtrip)

lemma join_Cons: "join sep (x # xs) = x @ (if xs = [] then [] else sep @ join sep xs)"
  by (cases xs) simp_all

lemma starts_append: "starts s \<Longrightarrow> starts (s @ r)"
  by (cases s) (auto simp: starts_def)

lemma starts_join: "ss \<noteq> [] \<Longrightarrow> (\<And>s. s \<in> set ss \<Longrightarrow> starts s) \<Longrightarrow> starts (join sep ss)"
  by (cases ss) (simp_all add: join_Cons starts_append)

lemma elems_parse:
  assumes "list_all2 (parses d) ss js" and "\<And>s. s \<in> set ss \<Longrightarrow> starts s" and "ss \<noteq> []"
  shows "\<exists>vs. map erase vs = js \<and> (\<forall>n r. 2 * length (join '','' ss) + 1 \<le> n \<longrightarrow>
    parse_elems n d (join '','' ss @ CHR '']'' # r) = Some (vs, r))"
  using assms
proof (induction ss js rule: list_all2_induct)
  case (Cons s ss j js)
  from Cons(1) obtain v where v: "erase_val v = j"
    "\<And>n r. stops r \<Longrightarrow> 2 * length s \<le> n \<Longrightarrow> parse_val n d (s @ r) = Some (Node s v, r)"
    unfolding parses_def by blast
  show ?case
  proof (cases "ss = []")
    case True
    have "parse_elems n d (s @ CHR '']'' # r) = Some ([Node s v], r)" if "2 * length s < n" for n r
      using v(2) [of _ "n - 1"] that by (cases n) (simp_all add: parse_simps head_is_def)
    then show ?thesis
      using v(1) True Cons(2) by (intro exI [of _ "[Node s v]"]) auto
  next
    case False
    then obtain vs where vs: "map erase vs = js" "\<And>n r. 2 * length (join '','' ss) + 1 \<le> n \<Longrightarrow>
      parse_elems n d (join '','' ss @ CHR '']'' # r) = Some (vs, r)"
      using Cons.IH Cons.prems by auto
    have st: "starts (join '','' ss)" using False Cons.prems by (simp add: starts_join)
    have "parse_elems n d (s @ CHR '','' # join '','' ss @ CHR '']'' # r) = Some (Node s v # vs, r)"
      if "2 * length s + 2 * length (join '','' ss) + 1 < n" for n r
      using v(2) [of "CHR '','' # join '','' ss @ CHR '']'' # r" "n - 1"] vs(2) [of "n - 1" r] that st
      by (cases n) (simp_all add: parse_simps head_is_def)
    then show ?thesis
      using v(1) vs(1) False
      by (intro exI [of _ "Node s v # vs"]) (auto simp: join_Cons)
  qed
qed simp

definition member_of :: "nat \<Rightarrow> bytes \<Rightarrow> bytes \<times> json \<Rightarrow> bool" where
  "member_of d s m \<longleftrightarrow> (\<exists>t. s = quote_json (fst m) @ '':'' @ t \<and> valid_utf8 (fst m) \<and> starts t \<and> parses d t (snd m))"

lemma members_parse:
  assumes "list_all2 (member_of d) ss ms" and "ss \<noteq> []"
  shows "\<exists>vs. map (\<lambda>m. (fst m, erase (snd m))) vs = ms \<and> (\<forall>n r. 2 * length (join '','' ss) + 1 \<le> n \<longrightarrow>
    parse_members n d (join '','' ss @ CHR 0x7D # r) = Some (vs, r))"
  using assms
proof (induction ss ms rule: list_all2_induct)
  case (Cons s ss m ms)
  from Cons(1) obtain t v where s: "s = quote_json (fst m) @ '':'' @ t" and k: "valid_utf8 (fst m)"
    and t: "starts t" and v: "erase_val v = snd m"
    "\<And>n r. stops r \<Longrightarrow> 2 * length t \<le> n \<Longrightarrow> parse_val n d (t @ r) = Some (Node t v, r)"
    unfolding member_of_def parses_def by blast
  have q: "head_is CHR 0x22 (quote_json (fst m) @ x)" "parse_str (tl (quote_json (fst m) @ x)) = Some (fst m, x)" for x
    using k esc_roundtrip by (simp_all add: quote_json_def head_is_def)
  have c: "skip_ws (CHR '':'' # x) = CHR '':'' # x" for x by (simp add: skip_ws_def is_ws_def)
  show ?case
  proof (cases "ss = []")
    case True
    have "parse_members n d (s @ CHR 0x7D # r) = Some ([(fst m, Node t v)], r)" if "2 * length t < n" for n r
      using v(2) [of "CHR 0x7D # r" "n - 1"] that q c t by (cases n) (simp_all add: parse_simps s head_is_def)
    then show ?thesis
      using v(1) True Cons(2) by (intro exI [of _ "[(fst m, Node t v)]"]) (auto simp: s)
  next
    case False
    then obtain vs where vs: "map (\<lambda>m. (fst m, erase (snd m))) vs = ms"
      "\<And>n r. 2 * length (join '','' ss) + 1 \<le> n \<Longrightarrow>
      parse_members n d (join '','' ss @ CHR 0x7D # r) = Some (vs, r)"
      using Cons.IH by auto
    have "starts x" if "x \<in> set ss" for x
      using Cons(2) that by (auto simp: list_all2_conv_all_nth in_set_conv_nth member_of_def starts_def quote_json_def is_ws_def)
    then have st: "starts (join '','' ss)" using False by (simp add: starts_join)
    have "parse_members n d (s @ CHR '','' # join '','' ss @ CHR 0x7D # r) = Some ((fst m, Node t v) # vs, r)"
      if "2 * length t + 2 * length (join '','' ss) + 1 < n" for n r
      using v(2) [of "CHR '','' # join '','' ss @ CHR 0x7D # r" "n - 1"] vs(2) [of "n - 1" r] that st q c t
      by (cases n) (simp_all add: parse_simps s head_is_def)
    then show ?thesis
      using v(1) vs(1) False
      by (intro exI [of _ "(fst m, Node t v) # vs"]) (auto simp: join_Cons s)
  qed
qed simp

lemma those_list_all2: "those (map f xs) = Some ys \<longleftrightarrow> list_all2 (\<lambda>y x. f x = Some y) ys xs"
  by (induction xs arbitrary: ys) (auto simp: list_all2_Cons2 split: option.splits)

lemma arr_parses:
  assumes "list_all2 (parses (Suc d)) ss js" and "\<And>s. s \<in> set ss \<Longrightarrow> starts s" and "d < max_depth"
  shows "parses d (arr_bytes ss) (JArr js)"
proof (cases "ss = []")
  case True
  then have "parse_val n d (arr_bytes ss @ r) = Some (Node (arr_bytes ss) (VArr []), r)" if "0 < n" for n r
    using that assms(3) consumed_append [of "arr_bytes ss" r] by (cases n) (simp_all add: parse_simps arr_bytes_def head_is_def skip_ws_def is_ws_def)
  then show ?thesis using True assms(1) unfolding parses_def
    by (intro exI [of _ "VArr []"]) (auto simp: arr_bytes_def)
next
  case False
  from elems_parse [OF assms(1,2) this] obtain vs where vs: "map erase vs = js"
    "\<And>n r. 2 * length (join '','' ss) + 1 \<le> n \<Longrightarrow>
      parse_elems n (Suc d) (join '','' ss @ CHR '']'' # r) = Some (vs, r)" by auto
  have st: "starts (join '','' ss)" using False assms(2) by (rule starts_join)
  then have "\<not> head_is CHR '']'' (join '','' ss @ x)" for x
    by (auto simp: starts_def head_is_def split: list.splits)
  then have "parse_val n d (arr_bytes ss @ r) = Some (Node (arr_bytes ss) (VArr vs), r)"
    if "2 * length (join '','' ss) + 1 < n" for n r
    using assms(3) consumed_append [of "arr_bytes ss" r] vs(2) [of "n - 1" r] that st
    by (cases n) (simp_all add: parse_simps arr_bytes_def head_is_def)
  then show ?thesis using vs(1) unfolding parses_def
    by (intro exI [of _ "VArr vs"]) (auto simp: arr_bytes_def)
qed

lemma obj_parses:
  assumes "list_all2 (member_of (Suc d)) ss ms" and "d < max_depth"
  shows "parses d (obj_bytes ss) (JObj ms)"
proof (cases "ss = []")
  case True
  then have "parse_val n d (obj_bytes ss @ r) = Some (Node (obj_bytes ss) (VObj []), r)" if "0 < n" for n r
    using that assms(2) consumed_append [of "obj_bytes ss" r] by (cases n) (simp_all add: parse_simps obj_bytes_def head_is_def skip_ws_def is_ws_def)
  then show ?thesis using True assms(1) unfolding parses_def
    by (intro exI [of _ "VObj []"]) (auto simp: obj_bytes_def)
next
  case False
  from members_parse [OF assms(1) this] obtain vs where vs: "map (\<lambda>m. (fst m, erase (snd m))) vs = ms"
    "\<And>n r. 2 * length (join '','' ss) + 1 \<le> n \<Longrightarrow>
      parse_members n (Suc d) (join '','' ss @ CHR 0x7D # r) = Some (vs, r)" by auto
  obtain x where x: "join '','' ss = CHR 0x22 # x"
    using False assms(1) by (cases ss) (auto simp: join_Cons list_all2_Cons1 member_of_def quote_json_def)
  have "parse_val n d (obj_bytes ss @ r) = Some (Node (obj_bytes ss) (VObj vs), r)"
    if "2 * length (join '','' ss) + 1 < n" for n r
    using assms(2) consumed_append [of "obj_bytes ss" r] vs(2) [of "n - 1" r] that
    by (cases n) (simp_all add: parse_simps obj_bytes_def head_is_def x skip_ws_def is_ws_def)
  then show ?thesis using vs(1) unfolding parses_def
    by (intro exI [of _ "VObj vs"]) (auto simp: obj_bytes_def)
qed

lemma str_parses: "valid_utf8 s \<Longrightarrow> parses d (quote_json s) (JStr s)"
  by (rule atom_parses [of _ "VStr s"])
    (simp_all add: quote_json_def starts_def is_ws_def parse_atom_def esc_roundtrip head_is_def)

lemma num_parses:
  assumes "parse_num l = Some (l, [])"
  shows "parses d l (JNum l)"
proof -
  obtain c t where l: "l = c # t" "c = CHR ''-'' \<or> is_digit c" by (rule parse_num_hd [OF assms])
  show ?thesis
    using l parse_num_append [OF assms]
    by (intro atom_parses [of _ "VNum l"])
      (auto simp: starts_def is_ws_def parse_atom_def head_is_def is_digit_def in_rng_def)
qed

lemma marshal_parses: "plain d j \<Longrightarrow> marshal j = Some s \<Longrightarrow> parses d s j"
proof (induction j arbitrary: d s)
  case (JArr xs)
  then obtain ss where ss: "list_all2 (\<lambda>y x. marshal x = Some y) ss xs" and s: "s = arr_bytes ss"
    by (auto simp: those_list_all2)
  have "list_all2 (parses (Suc d)) ss xs"
    using ss JArr by (auto simp: list_all2_conv_all_nth)
  moreover have "starts y" if "y \<in> set ss" for y
    using ss that JArr(2) starts_marshal by (fastforce simp: list_all2_conv_all_nth in_set_conv_nth)
  ultimately show ?case using JArr(2) unfolding s by (intro arr_parses) auto
next
  case (JObj ms)
  let ?f = "\<lambda>m. map_option (\<lambda>s. quote_json (fst m) @ '':'' @ s) (marshal (snd m))"
  from JObj obtain ss where ss: "list_all2 (\<lambda>y x. ?f x = Some y) ss ms" and s: "s = obj_bytes ss"
    by (auto simp: those_list_all2)
  have "member_of (Suc d) y m" if "?f m = Some y" "m \<in> set ms" for y m
    using that JObj(1) [of m "snd m"] JObj(2) starts_marshal
    by (cases m) (auto simp: member_of_def snds.simps)
  then have "list_all2 (member_of (Suc d)) ss ms"
    using ss by (auto simp: list_all2_conv_all_nth)
  then show ?case using JObj(2) unfolding s by (intro obj_parses) auto
qed (auto simp: str_parses num_parses starts_def is_ws_def parse_atom_def parse_lit_def head_is_def
    intro: atom_parses [of _ VNull] atom_parses [of _ "VBool b" for b] split: if_splits)

lemma those_total: "(\<And>x. x \<in> set xs \<Longrightarrow> f x \<noteq> None) \<Longrightarrow> those (map f xs) \<noteq> None"
  by (induction xs) (auto split: option.splits)

lemma marshal_plain: "plain d j \<Longrightarrow> marshal j \<noteq> None"
proof (induction j arbitrary: d)
  case (JArr xs)
  then have "those (map marshal xs) \<noteq> None" by (intro those_total) auto
  then show ?case by auto
next
  case (JObj ms)
  let ?f = "\<lambda>m. map_option (\<lambda>s. quote_json (fst m) @ '':'' @ s) (marshal (snd m))"
  have "those (map ?f ms) \<noteq> None"
  proof (rule those_total)
    fix m assume "m \<in> set ms"
    then show "?f m \<noteq> None" using JObj(1) [of m "snd m" "Suc d"] JObj(2) by (auto simp: snds.simps)
  qed
  then show ?case by auto
qed auto

text \<open>
  Unmarshalling what was marshalled gives the value back, and the parsed node keeps exactly the
  bytes written.
\<close>

theorem json_roundtrip:
  assumes "plain 0 j"
  shows "\<exists>s v. marshal j = Some s \<and> unmarshal_node s = Some (Node s v) \<and> erase (Node s v) = j"
proof -
  obtain s where s: "marshal j = Some s" using marshal_plain [OF assms] by auto
  obtain v where v: "erase_val v = j" "\<And>n. 2 * length s \<le> n \<Longrightarrow> parse_val n 0 (s @ []) = Some (Node s v, [])"
    using marshal_parses [OF assms s] stops_simps(1) unfolding parses_def by blast
  have "skip_ws (s @ []) = s @ []" using starts_marshal [OF assms s] by (rule skip_ws_starts)
  then have "unmarshal_node s = Some (Node s v)"
    using v(2) by (simp add: unmarshal_node_def skip_ws_def)
  then show ?thesis using s v(1) by auto
qed

lemma unmarshal_node_fuel:
  assumes "parse_val n 0 (skip_ws s) = Some (v, r)" and "skip_ws r = []"
  shows "unmarshal_node s = Some v"
  using enoughD(2) [OF parse_fuel(1) [OF assms(1)], of "2 * length s + 2"] skip_ws_length [of s] assms(2)
  by (simp add: unmarshal_node_def)

section \<open>Evaluation\<close>

lemmas parse_numeral =
  parse_val.simps(2) [of "pred_numeral k" for k, folded numeral_eq_Suc]
  parse_elems.simps(2) [of "pred_numeral k" for k, folded numeral_eq_Suc]
  parse_members.simps(2) [of "pred_numeral k" for k, folded numeral_eq_Suc]
  parse_val.simps(2) [of 0] parse_elems.simps(2) [of 0] parse_members.simps(2) [of 0]

lemmas json_eval = unmarshal_node_def parse_numeral parse_str.simps(2) head_is_def skip_ws_def is_ws_def
  max_depth_def consumed_def parse_atom_def parse_lit_def parse_num_def num_int_def num_frac_def num_exp_def
  sign_of_def is_digit_def in_rng_def Let_def

end
