(* ===== verification/Go_Decode.thy ===== *)
theory Go_Decode
  imports Go_Json
begin

text \<open>
  Decoding a parsed value into Go variables, the second half of \<^verbatim>\<open>json.Unmarshal\<close>. A decoder
  takes the value and the old content of the variable and returns the new content and a flag that is
  set when \<^verbatim>\<open>Unmarshal\<close> reports an error; after a type mismatch Go keeps decoding the other
  fields, so a caller that ignores the error sees the fields that did decode.
  Object keys select a field exactly first and otherwise up to case folding, a repeated key decodes
  again over the earlier value, unknown keys are skipped, and \<^verbatim>\<open>null\<close> leaves a variable as it
  is except for a pointer, slice or interface, which it sets to nil, and a raw message, which keeps the
  text. A repeated key whose field is a slice or a pointer decodes into a fresh value here.
  Dynamically typed values (\<^verbatim>\<open>any\<close>) are the datatype \<open>goany\<close>, with the concrete Go types
  the program stores in such variables; a number in one is a \<^verbatim>\<open>float64\<close>, kept as the literal it
  was read from.
\<close>

type_synonym 'a dec = "node \<Rightarrow> 'a \<Rightarrow> 'a \<times> bool"

section \<open>Field names\<close>

text \<open>Folding of keys: ASCII letters, and the two non-ASCII code points that fold to one.\<close>

fun fold_key :: "bytes \<Rightarrow> bytes" where
  "fold_key [] = []"
| "fold_key (a # s) =
     (if a = CHR 0xE2 \<and> take 2 s = [CHR 0x84, CHR 0xAA] then CHR ''k'' # fold_key (drop 2 s)
      else if a = CHR 0xC5 \<and> take 1 s = [CHR 0xBF] then CHR ''s'' # fold_key (drop 1 s)
      else ascii_lower a # fold_key s)"

fun find_field :: "(bytes \<times> 'f) list \<Rightarrow> bytes \<Rightarrow> 'f option" where
  "find_field fs k =
     (case map_of fs k of
        Some f \<Rightarrow> Some f
      | None \<Rightarrow> map_of (map (\<lambda>f. (fold_key (fst f), snd f)) fs) (fold_key k))"

section \<open>Decoders\<close>

fun dec_string :: "bytes dec" where
  "dec_string n old =
     (case val n of VStr s \<Rightarrow> (s, False) | VNull \<Rightarrow> (old, False) | _ \<Rightarrow> (old, True))"

fun dec_bool :: "bool dec" where
  "dec_bool n old =
     (case val n of VBool b \<Rightarrow> (b, False) | VNull \<Rightarrow> (old, False) | _ \<Rightarrow> (old, True))"

definition digits_val :: "bytes \<Rightarrow> int" where
  "digits_val ds = foldl (\<lambda>a c. a * 10 + (int (code_of c) - 48)) 0 ds"

definition int_literal :: "bytes \<Rightarrow> int option" where
  "int_literal l =
     (case l of
        [] \<Rightarrow> None
      | c # r \<Rightarrow>
          let neg = (c = CHR ''-''); ds = (if neg then r else l);
              i = (if neg then - digits_val ds else digits_val ds)
          in if ds \<noteq> [] \<and> list_all is_digit ds \<and> - (2 ^ 63) \<le> i \<and> i < 2 ^ 63 then Some i else None)"

fun dec_int :: "int dec" where
  "dec_int n old =
     (case val n of
        VNum l \<Rightarrow> (case int_literal l of Some i \<Rightarrow> (i, False) | None \<Rightarrow> (old, True))
      | VNull \<Rightarrow> (old, False)
      | _ \<Rightarrow> (old, True))"

text \<open>A raw message keeps the bytes of the value, also for \<^verbatim>\<open>null\<close>.\<close>

fun dec_raw :: "bytes dec" where
  "dec_raw n old = (raw n, False)"

fun dec_ptr :: "'a \<Rightarrow> 'a dec \<Rightarrow> 'a option dec" where
  "dec_ptr zero f n old =
     (case val n of VNull \<Rightarrow> (None, False) | _ \<Rightarrow> (case f n zero of (x, e) \<Rightarrow> (Some x, e)))"

fun dec_list :: "'a \<Rightarrow> 'a dec \<Rightarrow> node list \<Rightarrow> 'a list \<times> bool" where
  "dec_list zero f [] = ([], False)"
| "dec_list zero f (n # ns) =
     (case f n zero of (x, e) \<Rightarrow> (case dec_list zero f ns of (xs, e') \<Rightarrow> (x # xs, e \<or> e')))"

text \<open>A nil slice and an empty one are told apart where the source does: None is nil.\<close>

fun dec_slice :: "'a \<Rightarrow> 'a dec \<Rightarrow> 'a list option dec" where
  "dec_slice zero f n old =
     (case val n of
        VArr ns \<Rightarrow> (case dec_list zero f ns of (xs, e) \<Rightarrow> (Some xs, e))
      | VNull \<Rightarrow> (None, False)
      | _ \<Rightarrow> (old, True))"

fun dec_members :: "(bytes \<times> 'r dec) list \<Rightarrow> (bytes \<times> node) list \<Rightarrow> 'r \<Rightarrow> 'r \<times> bool" where
  "dec_members fs [] r = (r, False)"
| "dec_members fs ((k, n) # ms) r =
     (case find_field fs k of
        None \<Rightarrow> dec_members fs ms r
      | Some f \<Rightarrow> (case f n r of (r1, e) \<Rightarrow> (case dec_members fs ms r1 of (r2, e') \<Rightarrow> (r2, e \<or> e'))))"

fun dec_struct :: "(bytes \<times> 'r dec) list \<Rightarrow> 'r dec" where
  "dec_struct fs n r =
     (case val n of
        VObj ms \<Rightarrow> dec_members fs ms r
      | VNull \<Rightarrow> (r, False)
      | _ \<Rightarrow> (r, True))"

text \<open>A field of a struct: its name, decoder, selector and update.\<close>

definition fld :: "bytes \<Rightarrow> 'a dec \<Rightarrow> ('r \<Rightarrow> 'a) \<Rightarrow> (('a \<Rightarrow> 'a) \<Rightarrow> 'r \<Rightarrow> 'r) \<Rightarrow> bytes \<times> 'r dec" where
  "fld name f get upd = (name, \<lambda>n r. case f n (get r) of (x, e) \<Rightarrow> (upd (\<lambda>_. x) r, e))"

text \<open>
  \<^verbatim>\<open>json.Unmarshal(data, &v)\<close>: the variable afterwards and whether an error is returned; on a
  syntax error the variable is untouched.
\<close>

definition unmarshal :: "'a dec \<Rightarrow> bytes \<Rightarrow> 'a \<Rightarrow> 'a \<times> bool" where
  "unmarshal f s old = (case unmarshal_node s of None \<Rightarrow> (old, True) | Some n \<Rightarrow> f n old)"

section \<open>Dynamic values\<close>

datatype goany = ANil | ABool bool | ANum bytes | AStr bytes | AArr "goany list" | AStrs "bytes list"
  | AObj "(bytes \<times> goany) list" | ARaw bytes

text \<open>A Go map built from pairs in order: later bindings win. Kept sorted by key.\<close>

fun map_insert :: "bytes \<Rightarrow> 'v \<Rightarrow> (bytes \<times> 'v) list \<Rightarrow> (bytes \<times> 'v) list" where
  "map_insert k v [] = [(k, v)]"
| "map_insert k v ((k', v') # m) =
     (if k = k' then (k, v) # m else if k < k' then (k, v) # (k', v') # m
      else (k', v') # map_insert k v m)"

definition go_map :: "(bytes \<times> 'v) list \<Rightarrow> (bytes \<times> 'v) list" where
  "go_map kvs = foldl (\<lambda>m kv. map_insert (fst kv) (snd kv) m) [] kvs"

fun any_of :: "node \<Rightarrow> goany" and any_of_val :: "jval \<Rightarrow> goany" where
  "any_of (Node _ v) = any_of_val v"
| "any_of_val VNull = ANil"
| "any_of_val (VBool b) = ABool b"
| "any_of_val (VNum l) = ANum l"
| "any_of_val (VStr s) = AStr s"
| "any_of_val (VArr ns) = AArr (map any_of ns)"
| "any_of_val (VObj ms) = AObj (go_map (map (\<lambda>m. (fst m, any_of (snd m))) ms))"

fun dec_any :: "goany dec" where
  "dec_any n old = (any_of n, False)"

text \<open>What \<^verbatim>\<open>Marshal\<close> sees of a dynamic value; floats are printed by the runtime.\<close>

fun any_json :: "go_rt \<Rightarrow> goany \<Rightarrow> json" where
  "any_json G ANil = JNull"
| "any_json G (ABool b) = JBool b"
| "any_json G (ANum l) = JNum (rt_json_float G l)"
| "any_json G (AStr s) = JStr s"
| "any_json G (AArr xs) = JArr (map (any_json G) xs)"
| "any_json G (AStrs ss) = JArr (map JStr ss)"
| "any_json G (AObj ms) = JObj (map (\<lambda>m. (fst m, any_json G (snd m))) ms)"
| "any_json G (ARaw b) = JRaw b"

text \<open>\<^verbatim>\<open>fmt.Sprintf("%v", x)\<close>.\<close>

fun fmt_v :: "go_rt \<Rightarrow> goany \<Rightarrow> bytes" where
  "fmt_v G ANil = ''<nil>''"
| "fmt_v G (ABool b) = (if b then ''true'' else ''false'')"
| "fmt_v G (ANum l) = rt_fmt_float G l"
| "fmt_v G (AStr s) = s"
| "fmt_v G (AArr xs) = ''['' @ join '' '' (map (fmt_v G) xs) @ '']''"
| "fmt_v G (AStrs ss) = ''['' @ join '' '' ss @ '']''"
| "fmt_v G (AObj ms) = ''map['' @ join '' '' (map (\<lambda>m. fst m @ '':'' @ fmt_v G (snd m)) ms) @ '']''"
| "fmt_v G (ARaw b) = ''['' @ join '' '' (map (\<lambda>c. dec (code_of c)) b) @ '']''"

section \<open>Decimal literals\<close>

lemma digit_code: "n < 10 \<Longrightarrow> code_of (digit n) = 48 + n"
  by (simp add: digit_def of_char_of)

lemma is_digit_digit: "n < 10 \<Longrightarrow> is_digit (digit n)"
  by (simp add: is_digit_def in_rng_def digit_code)

lemma dec_digits: "list_all is_digit (dec n)" and dec_ne: "dec n \<noteq> []"
proof (induction n rule: dec.induct)
  case (1 n)
  show "list_all is_digit (dec n)" using 1 by (subst dec.simps) (simp add: is_digit_digit)
  show "dec n \<noteq> []" by (subst dec.simps) simp
qed

lemma digits_val_append: "digits_val (a @ [d]) = digits_val a * 10 + (int (code_of d) - 48)"
  by (simp add: digits_val_def)

lemma digits_val_dec: "digits_val (dec n) = int n"
proof (induction n rule: dec.induct)
  case (1 n)
  show ?case
  proof (cases "n < 10")
    case True
    then show ?thesis by (subst dec.simps) (simp add: digits_val_def digit_code)
  next
    case False
    have "digits_val (dec n) = int (n div 10) * 10 + int (n mod 10)"
      using 1 [OF False] False by (subst dec.simps) (simp add: digits_val_append digit_code)
    also have "\<dots> = int n" by (metis div_mult_mod_eq of_nat_add of_nat_mult of_nat_numeral)
    finally show ?thesis .
  qed
qed

lemma dec_hd: "0 < n \<Longrightarrow> hd (dec n) \<noteq> CHR ''0''"
proof (induction n rule: dec.induct)
  case (1 n)
  show ?case
  proof (cases "n < 10")
    case True
    have "code_of (digit n) \<noteq> code_of (CHR ''0'')" using True 1(2) by (simp add: digit_code)
    then show ?thesis using True by (subst dec.simps) auto
  next
    case False
    then show ?thesis using 1(1) [OF False] dec_ne [of "n div 10"] by (subst dec.simps) (simp add: hd_append)
  qed
qed

lemma is_digit_minus: "\<not> is_digit (CHR ''-'')"
  by (simp add: is_digit_def in_rng_def)

lemma num_int_dec: "num_int (dec n) = Some (dec n, [])"
proof (cases "n = 0")
  case True
  have "code_of (digit 0) = (48 :: nat)" by (simp add: digit_code)
  also have "\<dots> = code_of (CHR ''0'')" by simp
  finally have "digit 0 = CHR ''0''" by (simp only: of_char_eq_iff)
  then have "dec 0 = [CHR ''0'']" by (subst dec.simps) simp
  then show ?thesis using True by (simp add: num_int_def)
next
  case False
  obtain c r where d: "dec n = c # r" using dec_ne [of n] by (cases "dec n") auto
  have c: "c \<noteq> CHR ''0''" using dec_hd [of n] False d by simp
  have a: "list_all is_digit (c # r)" using dec_digits [of n] d by simp
  then have "takeWhile is_digit (c # r) = c # r" "dropWhile is_digit (c # r) = []"
    by (simp_all add: takeWhile_eq_all_conv dropWhile_eq_Nil_conv list_all_iff)
  then show ?thesis using a c unfolding d num_int_def by simp
qed

lemma dec_not_minus: "hd (dec n) \<noteq> CHR ''-''"
  using dec_digits [of n] dec_ne [of n] is_digit_minus by (cases "dec n") auto

lemma parse_num_itoa: "parse_num (itoa i) = Some (itoa i, [])"
proof (cases "i < 0")
  case True
  then show ?thesis
    by (simp add: itoa_def parse_num_def sign_of_def num_int_dec num_frac_def num_exp_def)
next
  case False
  obtain c r where d: "dec (nat i) = c # r" using dec_ne [of "nat i"] by (cases "dec (nat i)") auto
  have "c \<noteq> CHR ''-''" using dec_not_minus [of "nat i"] d by simp
  then have "sign_of (\<lambda>c. c = CHR ''-'') (dec (nat i)) = []" by (simp add: sign_of_def d)
  then show ?thesis using False
    by (simp add: itoa_def parse_num_def num_int_dec num_frac_def num_exp_def)
qed

lemma plain_jint [simp]: "plain d (jint i)"
  by (simp add: jint_def parse_num_itoa)

lemma int_literal_itoa:
  assumes "- (2 ^ 63) \<le> i" "i < 2 ^ 63"
  shows "int_literal (itoa i) = Some i"
proof (cases "i < 0")
  case True
  then show ?thesis using assms dec_digits [of "nat (- i)"] dec_ne [of "nat (- i)"]
    by (simp add: itoa_def int_literal_def digits_val_dec Let_def)
next
  case False
  obtain c r where d: "dec (nat i) = c # r" using dec_ne [of "nat i"] by (cases "dec (nat i)") auto
  have "c \<noteq> CHR ''-''" using dec_not_minus [of "nat i"] d by simp
  then show ?thesis using False assms dec_digits [of "nat i"] digits_val_dec [of "nat i"]
    by (simp add: itoa_def int_literal_def d Let_def)
qed

lemma erase_sum [simp]:
  "erase n = JNull \<longleftrightarrow> val n = VNull" "erase n = JBool b \<longleftrightarrow> val n = VBool b" "erase n = JNum l \<longleftrightarrow> val n = VNum l"
  "erase n = JStr s \<longleftrightarrow> val n = VStr s"
  by (cases n; cases "val n"; auto)+

lemma dec_int_node: "erase n = jint i \<Longrightarrow> - (2 ^ 63) \<le> i \<Longrightarrow> i < 2 ^ 63 \<Longrightarrow> dec_int n old = (i, False)"
  by (simp add: jint_def int_literal_itoa)

end
