(* ===== verification/Provider_Errors.thy ===== *)
theory Provider_Errors
  imports Go_Decode
begin

text \<open>
  The upstream error type and its classification, the retry loop and the retry budget:
  \<^verbatim>\<open>internal/provider/errors.go\<close>, \<^verbatim>\<open>retry.go\<close>, \<^verbatim>\<open>retry_budget.go\<close>.

  A Go error is the datatype \<open>goerr\<close>: the cases the code distinguishes, and \<open>Wrapped\<close> for an
  error that only adds text around another (\<^verbatim>\<open>%w\<close>). \<open>NetErr\<close> is a value that implements
  \<^verbatim>\<open>net.Error\<close>, possibly around a cause, as \<^verbatim>\<open>*url.Error\<close> is. Trees of joined errors do not occur
  in these files. The environment of the retry loop (the call, the context, the timer, the random
  source, the budget) is a record of functions that thread one abstract state, so the order and the
  number of its effects are part of what is proved.
\<close>

section \<open>Errors\<close>

type_synonym ErrorType = bytes

definition ErrorRateLimit :: ErrorType where "ErrorRateLimit = ''rate_limit''"
definition ErrorAuth :: ErrorType where "ErrorAuth = ''auth''"
definition ErrorNotFound :: ErrorType where "ErrorNotFound = ''not_found''"
definition ErrorBadRequest :: ErrorType where "ErrorBadRequest = ''bad_request''"
definition ErrorServer :: ErrorType where "ErrorServer = ''server''"
definition ErrorNetwork :: ErrorType where "ErrorNetwork = ''network''"
definition ErrorTimeout :: ErrorType where "ErrorTimeout = ''timeout''"
definition ErrorQuota :: ErrorType where "ErrorQuota = ''quota''"

lemmas error_type_defs = ErrorRateLimit_def ErrorAuth_def ErrorNotFound_def ErrorBadRequest_def
  ErrorServer_def ErrorNetwork_def ErrorTimeout_def ErrorQuota_def

record ProviderError =
  pe_StatusCode :: int
  pe_Message :: bytes
  pe_ErrorType :: ErrorType
  pe_Code :: bytes
  pe_Type :: bytes
  pe_Param :: bytes
  pe_RetryAfter :: duration

datatype goerr =
    ProviderErr ProviderError
  | CtxCanceled
  | CtxDeadline
  | NetErr bool bytes "goerr option"
  | UnexpectedEOF
  | OtherErr bytes
  | Wrapped bytes goerr

fun err_msg :: "goerr \<Rightarrow> bytes" where
  "err_msg (ProviderErr pe) = pe_Message pe"
| "err_msg CtxCanceled = ''context canceled''"
| "err_msg CtxDeadline = ''context deadline exceeded''"
| "err_msg (NetErr _ m _) = m"
| "err_msg UnexpectedEOF = ''unexpected EOF''"
| "err_msg (OtherErr m) = m"
| "err_msg (Wrapped m _) = m"

fun unwrap :: "goerr \<Rightarrow> goerr option" where
  "unwrap (NetErr _ _ c) = c"
| "unwrap (Wrapped _ e) = Some e"
| "unwrap _ = None"

text \<open>The chain \<^verbatim>\<open>errors.Is\<close> and \<^verbatim>\<open>errors.As\<close> walk.\<close>

fun chain :: "goerr \<Rightarrow> goerr list" where
  "chain (NetErr t m (Some c)) = NetErr t m (Some c) # chain c"
| "chain (Wrapped m e) = Wrapped m e # chain e"
| "chain e = [e]"

fun provider_of :: "goerr \<Rightarrow> ProviderError option" where
  "provider_of (ProviderErr pe) = Some pe"
| "provider_of _ = None"

text \<open>\<^verbatim>\<open>Timeout()\<close> of the values that implement \<^verbatim>\<open>net.Error\<close>; a deadline error does.\<close>

fun net_of :: "goerr \<Rightarrow> bool option" where
  "net_of (NetErr t _ _) = Some t"
| "net_of CtxDeadline = Some True"
| "net_of _ = None"

definition first_some :: "('a \<Rightarrow> 'b option) \<Rightarrow> 'a list \<Rightarrow> 'b option" where
  "first_some f xs = (case dropWhile (\<lambda>x. f x = None) xs of [] \<Rightarrow> None | x # _ \<Rightarrow> f x)"

definition as_provider :: "goerr \<Rightarrow> ProviderError option" where
  "as_provider e = first_some provider_of (chain e)"

definition as_net :: "goerr \<Rightarrow> bool option" where
  "as_net e = first_some net_of (chain e)"

definition err_is :: "goerr \<Rightarrow> goerr \<Rightarrow> bool" where
  "err_is e target \<longleftrightarrow> target \<in> set (chain e)"

definition ClassifyError :: "goerr option \<Rightarrow> ErrorType" where
  "ClassifyError err =
     (case err of
        None \<Rightarrow> []
      | Some e \<Rightarrow>
          (case as_provider e of
             Some pe \<Rightarrow> pe_ErrorType pe
           | None \<Rightarrow>
               if err_is e CtxCanceled \<or> err_is e CtxDeadline then []
               else case as_net e of
                      Some timeout \<Rightarrow> if timeout then ErrorTimeout else ErrorNetwork
                    | None \<Rightarrow> if err_is e UnexpectedEOF then ErrorNetwork else []))"

definition IsRetryableError :: "goerr option \<Rightarrow> bool" where
  "IsRetryableError err =
     (let t = ClassifyError err
      in if t = ErrorAuth \<or> t = ErrorNotFound \<or> t = ErrorBadRequest then False
         else if t = [] then False
         else True)"

section \<open>Reading an upstream error response\<close>

record http_response =
  hr_StatusCode :: int
  hr_Body :: bytes
  hr_RetryAfter :: bytes

record error_body =
  eb_Message :: bytes
  eb_Type :: bytes
  eb_Code :: bytes
  eb_Param :: bytes

definition error_body0 :: error_body where
  "error_body0 = \<lparr>eb_Message = [], eb_Type = [], eb_Code = [], eb_Param = []\<rparr>"

definition dec_error_body :: "error_body dec" where
  "dec_error_body =
     dec_struct
       [fld ''message'' dec_string eb_Message eb_Message_update,
        fld ''type'' dec_string eb_Type eb_Type_update,
        fld ''code'' dec_string eb_Code eb_Code_update,
        fld ''param'' dec_string eb_Param eb_Param_update]"

definition dec_error_response :: "error_body dec" where
  "dec_error_response = dec_struct [(''error'', dec_error_body)]"

definition Atoi :: "bytes \<Rightarrow> int option" where
  "Atoi s =
     (case s of
        [] \<Rightarrow> None
      | c # r \<Rightarrow> if c = CHR ''+'' then (case r of [] \<Rightarrow> None | d # _ \<Rightarrow> if d = CHR ''-'' then None else int_literal r)
                 else int_literal s)"

definition status_class :: "int \<Rightarrow> bytes \<times> ErrorType" where
  "status_class code =
     (if code = 401 \<or> code = 403 then (''provider auth failed'', ErrorAuth)
      else if code = 429 then (''provider rate limited'', ErrorRateLimit)
      else if code = 400 then (''provider bad request'', ErrorBadRequest)
      else if code = 404 then (''provider not found'', ErrorNotFound)
      else (''provider error ('' @ itoa code @ '')'', ErrorServer))"

definition second :: duration where "second = 1000000000"
definition millisecond :: duration where "millisecond = 1000000"

definition retry_after_header :: "bytes \<Rightarrow> duration" where
  "retry_after_header ra =
     (if ra = [] then 0
      else case Atoi ra of
             None \<Rightarrow> 0
           | Some secs \<Rightarrow> if secs > 0 then (if secs > 300 then 300 else secs) * second else 0)"

definition parseProviderError :: "http_response \<Rightarrow> goerr" where
  "parseProviderError resp =
     (let body = take (2 ^ 20) (hr_Body resp);
          eb = fst (unmarshal dec_error_response body error_body0);
          msg = (if eb_Message eb = [] then body else eb_Message eb);
          (label, et) = status_class (hr_StatusCode resp)
      in ProviderErr
           \<lparr>pe_StatusCode = hr_StatusCode resp,
            pe_Message = label @ '': '' @ msg,
            pe_ErrorType = et,
            pe_Code = eb_Code eb,
            pe_Type = eb_Type eb,
            pe_Param = eb_Param eb,
            pe_RetryAfter = retry_after_header (hr_RetryAfter resp)\<rparr>)"

section \<open>Retry\<close>

record RetryConfig =
  NumRetries :: int
  BackoffType :: bytes
  InitialMs :: int
  MaxBackoffMs :: int

definition RetryConfig0 :: RetryConfig where
  "RetryConfig0 = \<lparr>NumRetries = 0, BackoffType = [], InitialMs = 0, MaxBackoffMs = 0\<rparr>"

definition dec_RetryConfig :: "RetryConfig dec" where
  "dec_RetryConfig =
     dec_struct
       [fld ''num_retries'' dec_int NumRetries NumRetries_update,
        fld ''backoff_type'' dec_string BackoffType BackoffType_update,
        fld ''initial_ms'' dec_int InitialMs InitialMs_update,
        fld ''max_backoff_ms'' dec_int MaxBackoffMs MaxBackoffMs_update]"

definition clamp :: "int \<Rightarrow> int \<Rightarrow> int" where
  "clamp hi x = (let y = (if x < 0 then 0 else x) in if y > hi then hi else y)"

definition ParseRetryConfig :: "bytes \<Rightarrow> RetryConfig" where
  "ParseRetryConfig extraConfig =
     (if extraConfig = [] then RetryConfig0
      else case unmarshal dec_RetryConfig extraConfig RetryConfig0 of
             (cfg, err) \<Rightarrow>
               if err then RetryConfig0
               else \<lparr>NumRetries = clamp 20 (NumRetries cfg),
                     BackoffType = BackoffType cfg,
                     InitialMs = clamp 60000 (InitialMs cfg),
                     MaxBackoffMs = clamp 300000 (MaxBackoffMs cfg)\<rparr>)"

definition backoff_initial :: "RetryConfig \<Rightarrow> duration" where
  "backoff_initial cfg =
     (let initial = wrap64 (InitialMs cfg * millisecond) in if initial = 0 then second else initial)"

definition backoff_max :: "RetryConfig \<Rightarrow> duration" where
  "backoff_max cfg =
     (let m = wrap64 (MaxBackoffMs cfg * millisecond) in if m = 0 then 60 * second else m)"

definition backoff_base :: "int \<Rightarrow> goerr option \<Rightarrow> RetryConfig \<Rightarrow> duration" where
  "backoff_base attempt err cfg =
     (let initial = backoff_initial cfg;
          base = (if BackoffType cfg = ''fixed'' then initial
                  else if BackoffType cfg = ''linear'' then wrap64 (initial * (attempt + 1))
                  else wrap64 (initial * 2 ^ nat (min attempt 6)))
      in if ClassifyError err = ErrorRateLimit then wrap64 (base * 2) else base)"

definition backoffDuration :: "int \<Rightarrow> goerr option \<Rightarrow> RetryConfig \<Rightarrow> int \<Rightarrow> duration" where
  "backoffDuration attempt err cfg rnd =
     (let base = backoff_base attempt err cfg;
          maxBackoff = backoff_max cfg;
          pe = (case err of None \<Rightarrow> None | Some e \<Rightarrow> as_provider e);
          ra = (case pe of None \<Rightarrow> 0 | Some p \<Rightarrow> pe_RetryAfter p)
      in if ra > 0 then (if ra > maxBackoff then maxBackoff else ra)
         else let jitter = rnd * millisecond; d = wrap64 (base + jitter)
              in if d > maxBackoff then maxBackoff else d)"

record RetryResult =
  rr_Err :: "goerr option"
  rr_Attempts :: int
  rr_RetriesUsed :: int

text \<open>
  The world of \<^verbatim>\<open>WithRetry\<close>: \<open>call\<close> gets the attempt number the context carries, \<open>wait\<close> is the
  select between the timer and the cancellation (Some is the context's error), \<open>rand500\<close> is what
  \<^verbatim>\<open>rand.IntN(500)\<close> returns at that point.
\<close>

record 's retry_env =
  ctx_err :: "'s \<Rightarrow> goerr option"
  call :: "int \<Rightarrow> 's \<Rightarrow> goerr option \<times> 's"
  allow :: "('s \<Rightarrow> bool \<times> 's) option"
  rand500 :: "'s \<Rightarrow> int"
  wait :: "duration \<Rightarrow> 's \<Rightarrow> goerr option \<times> 's"

definition budget_allows :: "'s retry_env \<Rightarrow> 's \<Rightarrow> bool \<times> 's" where
  "budget_allows E s = (case allow E of None \<Rightarrow> (True, s) | Some f \<Rightarrow> f s)"

function retry_loop :: "RetryConfig \<Rightarrow> 's retry_env \<Rightarrow> int \<Rightarrow> goerr option \<Rightarrow> 's \<Rightarrow> RetryResult \<times> 's" where
  "retry_loop cfg E attempt lastErr s =
     (if attempt > NumRetries cfg then
        (\<lparr>rr_Err = lastErr, rr_Attempts = NumRetries cfg + 1, rr_RetriesUsed = NumRetries cfg\<rparr>, s)
      else case ctx_err E s of
        Some e \<Rightarrow> (\<lparr>rr_Err = Some e, rr_Attempts = attempt, rr_RetriesUsed = attempt\<rparr>, s)
      | None \<Rightarrow>
        (case call E (attempt + 1) s of
           (None, s1) \<Rightarrow> (\<lparr>rr_Err = None, rr_Attempts = attempt + 1, rr_RetriesUsed = attempt\<rparr>, s1)
         | (Some e, s1) \<Rightarrow>
           if \<not> IsRetryableError (Some e) then
             (\<lparr>rr_Err = Some e, rr_Attempts = attempt + 1, rr_RetriesUsed = attempt\<rparr>, s1)
           else if attempt = NumRetries cfg then
             (\<lparr>rr_Err = Some e, rr_Attempts = NumRetries cfg + 1, rr_RetriesUsed = NumRetries cfg\<rparr>, s1)
           else case budget_allows E s1 of
             (False, s2) \<Rightarrow> (\<lparr>rr_Err = Some e, rr_Attempts = attempt + 1, rr_RetriesUsed = attempt\<rparr>, s2)
           | (True, s2) \<Rightarrow>
             (case wait E (backoffDuration attempt (Some e) cfg (rand500 E s2)) s2 of
                (Some ce, s3) \<Rightarrow> (\<lparr>rr_Err = Some ce, rr_Attempts = attempt + 1, rr_RetriesUsed = attempt\<rparr>, s3)
              | (None, s3) \<Rightarrow> retry_loop cfg E (attempt + 1) (Some e) s3)))"
  by pat_completeness auto

termination
  by (relation "measure (\<lambda>(cfg, E, attempt, lastErr, s). nat (NumRetries cfg + 1 - attempt))") auto

definition WithRetry :: "RetryConfig \<Rightarrow> 's retry_env \<Rightarrow> 's \<Rightarrow> RetryResult \<times> 's" where
  "WithRetry cfg E s =
     (if NumRetries cfg \<le> 0 then
        (case call E 1 s of
           (e, s1) \<Rightarrow> (\<lparr>rr_Err = e, rr_Attempts = 1, rr_RetriesUsed = 0\<rparr>, s1))
      else retry_loop cfg E 0 None s)"

section \<open>Retry budget\<close>

text \<open>
  The part of Redis the script uses: a counter per key with an optional expiry, which reads as absent
  from its expiry on. \<^verbatim>\<open>INCR\<close> keeps the expiry.
\<close>

type_synonym redis = "bytes \<Rightarrow> (int \<times> instant option) option"

definition redis_live :: "redis \<Rightarrow> instant \<Rightarrow> bytes \<Rightarrow> (int \<times> instant option) option" where
  "redis_live R now k =
     (case R k of
        None \<Rightarrow> None
      | Some (c, None) \<Rightarrow> Some (c, None)
      | Some (c, Some t) \<Rightarrow> if now < t then Some (c, Some t) else None)"

definition budgetScript :: "bytes \<Rightarrow> instant \<Rightarrow> redis \<Rightarrow> int \<times> redis" where
  "budgetScript key now R =
     (let old = redis_live R now key;
          n = (case old of None \<Rightarrow> 1 | Some (c, _) \<Rightarrow> c + 1);
          ttl = (case old of None \<Rightarrow> None | Some (_, t) \<Rightarrow> t)
      in (n, R(key \<mapsto> (n, if n = 1 then Some (now + 2 * second) else ttl))))"

record RetryBudget =
  rate :: int

definition NewRetryBudget :: "int \<Rightarrow> RetryBudget" where
  "NewRetryBudget ratePerSecond = \<lparr>rate = (if ratePerSecond \<le> 0 then 100 else ratePerSecond)\<rparr>"

definition budget_key :: "(instant \<Rightarrow> bytes) \<Rightarrow> instant \<Rightarrow> bytes" where
  "budget_key fmt_second now = ''retry_budget:'' @ fmt_second now"

definition Allow :: "(instant \<Rightarrow> bytes) \<Rightarrow> RetryBudget \<Rightarrow> bool \<Rightarrow> instant \<Rightarrow> redis \<Rightarrow> bool \<times> redis" where
  "Allow fmt_second b redis_down now R =
     (if redis_down then (True, R)
      else case budgetScript (budget_key fmt_second now) now R of
             (n, R1) \<Rightarrow> (n \<le> rate b, R1))"

definition UpdateRate :: "int \<Rightarrow> RetryBudget \<Rightarrow> RetryBudget" where
  "UpdateRate r b = (if r \<le> 0 then b else b\<lparr>rate := r\<rparr>)"

section \<open>Classification\<close>

lemma first_some_simps [simp]:
  "first_some f [] = None"
  "first_some f (x # xs) = (case f x of None \<Rightarrow> first_some f xs | Some y \<Rightarrow> Some y)"
  by (auto simp: first_some_def split: option.splits)

lemma first_some_None: "first_some f xs = None \<longleftrightarrow> (\<forall>x \<in> set xs. f x = None)"
  by (induction xs) (auto split: option.splits)

lemma wrapped_simps [simp]:
  "as_provider (Wrapped m e) = as_provider e"
  "as_net (Wrapped m e) = as_net e"
  "t \<in> {CtxCanceled, CtxDeadline, UnexpectedEOF} \<Longrightarrow> err_is (Wrapped m e) t = err_is e t"
  by (auto simp: as_provider_def as_net_def err_is_def)

lemma ClassifyError_wrapped: "ClassifyError (Some (Wrapped m e)) = ClassifyError (Some e)"
  by (simp add: ClassifyError_def split: option.split)

lemma ClassifyError_ctx:
  assumes "as_provider e = None" and "err_is e CtxCanceled \<or> err_is e CtxDeadline"
  shows "ClassifyError (Some e) = []"
  using assms by (simp add: ClassifyError_def)

lemma clamp_bounds: "0 \<le> hi \<Longrightarrow> 0 \<le> clamp hi x \<and> clamp hi x \<le> hi"
  by (simp add: clamp_def)

lemma ParseRetryConfig_bounds:
  "0 \<le> NumRetries (ParseRetryConfig x) \<and> NumRetries (ParseRetryConfig x) \<le> 20 \<and>
   0 \<le> InitialMs (ParseRetryConfig x) \<and> InitialMs (ParseRetryConfig x) \<le> 60000 \<and>
   0 \<le> MaxBackoffMs (ParseRetryConfig x) \<and> MaxBackoffMs (ParseRetryConfig x) \<le> 300000"
  by (simp add: ParseRetryConfig_def RetryConfig0_def clamp_bounds split: prod.split)

definition cfg_ok :: "RetryConfig \<Rightarrow> bool" where
  "cfg_ok cfg \<longleftrightarrow> 0 \<le> NumRetries cfg \<and> NumRetries cfg \<le> 20 \<and> 0 \<le> InitialMs cfg \<and> InitialMs cfg \<le> 60000 \<and>
     0 \<le> MaxBackoffMs cfg \<and> MaxBackoffMs cfg \<le> 300000"

lemma pow_min_bounds: "1 \<le> (2 :: int) ^ nat (min a 6) \<and> (2 :: int) ^ nat (min a 6) \<le> 64"
proof -
  have "(2 :: int) ^ nat (min a 6) \<le> 2 ^ 6" by (rule power_increasing) auto
  then show ?thesis by simp
qed

text \<open>Within the configured bounds no product of \<^verbatim>\<open>backoffDuration\<close> wraps around.\<close>

lemma base_bounds:
  assumes "0 < i" "i \<le> 60000 * millisecond" "1 \<le> k" "k \<le> 64"
  shows "wrap64 (i * k) = i * k" and "0 < i * k" and "i * k \<le> 64 * (60000 * millisecond)"
proof -
  have "i * k \<le> (60000 * millisecond) * 64"
    using assms by (intro mult_mono) auto
  moreover show "0 < i * k" using assms by simp
  ultimately show "i * k \<le> 64 * (60000 * millisecond)" by simp
  then show "wrap64 (i * k) = i * k"
    using \<open>0 < i * k\<close> by (intro wrap64_id) (simp_all add: millisecond_def)
qed

lemma backoff_initial_bounds: "cfg_ok cfg \<Longrightarrow> 0 < backoff_initial cfg \<and> backoff_initial cfg \<le> 60000 * millisecond"
  by (auto simp: cfg_ok_def backoff_initial_def Let_def wrap64_id second_def millisecond_def)

lemma backoff_max_bounds: "cfg_ok cfg \<Longrightarrow> 0 < backoff_max cfg \<and> backoff_max cfg \<le> 300 * second"
  by (auto simp: cfg_ok_def backoff_max_def Let_def wrap64_id second_def millisecond_def)

lemma backoff_base_bounds:
  assumes "cfg_ok cfg" and "0 \<le> attempt" and "attempt \<le> 20"
  shows "0 < backoff_base attempt err cfg \<and> backoff_base attempt err cfg \<le> 128 * (60000 * millisecond)"
proof -
  note i = conjunct1 [OF backoff_initial_bounds [OF assms(1)]] conjunct2 [OF backoff_initial_bounds [OF assms(1)]]
  define base where "base = (if BackoffType cfg = ''fixed'' then backoff_initial cfg
      else if BackoffType cfg = ''linear'' then wrap64 (backoff_initial cfg * (attempt + 1))
      else wrap64 (backoff_initial cfg * 2 ^ nat (min attempt 6)))"
  have "0 < base \<and> base \<le> 64 * (60000 * millisecond)"
    using base_bounds [OF i, of "attempt + 1"] base_bounds [OF i, of "2 ^ nat (min attempt 6)"]
      pow_min_bounds [of attempt] i assms(2,3)
    by (auto simp: base_def millisecond_def)
  then show ?thesis using wrap64_id [of "base * 2"]
    by (auto simp: backoff_base_def Let_def base_def [symmetric] millisecond_def)
qed

lemma backoff_bounds:
  assumes "cfg_ok cfg" and "0 \<le> attempt" and "attempt \<le> 20" and "0 \<le> rnd" and "rnd < 500"
  shows "0 < backoffDuration attempt err cfg rnd \<and> backoffDuration attempt err cfg rnd \<le> backoff_max cfg"
proof -
  note b = backoff_base_bounds [OF assms(1-3), of err]
  have "wrap64 (backoff_base attempt err cfg + rnd * millisecond) = backoff_base attempt err cfg + rnd * millisecond"
    using b assms(4,5) by (intro wrap64_id) (auto simp: millisecond_def)
  moreover have "0 < backoff_base attempt err cfg + rnd * millisecond"
    using b assms(4) by (simp add: millisecond_def)
  ultimately show ?thesis
    using backoff_max_bounds [OF assms(1)] by (simp add: backoffDuration_def Let_def)
qed

section \<open>The retry loop\<close>

declare retry_loop.simps [simp del]

text \<open>The environment with a counter of the calls made.\<close>

definition counted :: "'s retry_env \<Rightarrow> ('s \<times> nat) retry_env" where
  "counted E =
     \<lparr>ctx_err = (\<lambda>(s, n). ctx_err E s),
      call = (\<lambda>a (s, n). case call E a s of (e, s1) \<Rightarrow> (e, (s1, Suc n))),
      allow = map_option (\<lambda>f (s, n). case f s of (b, s1) \<Rightarrow> (b, (s1, n))) (allow E),
      rand500 = (\<lambda>(s, n). rand500 E s),
      wait = (\<lambda>d (s, n). case wait E d s of (e, s1) \<Rightarrow> (e, (s1, n)))\<rparr>"

lemma counted_sel [simp]:
  "ctx_err (counted E) (s, n) = ctx_err E s"
  "call (counted E) a (s, n) = (fst (call E a s), (snd (call E a s), Suc n))"
  "wait (counted E) d (s, n) = (fst (wait E d s), (snd (wait E d s), n))"
  "rand500 (counted E) (s, n) = rand500 E s"
  "budget_allows (counted E) (s, n) = (fst (budget_allows E s), (snd (budget_allows E s), n))"
  by (simp_all add: counted_def budget_allows_def split: prod.split option.split)

lemma retry_loop_step:
  assumes "attempt \<le> NumRetries cfg" and "retry_loop cfg (counted E) attempt le (s, n) = res"
  obtains r where "res = (r, (s, n))" "rr_Attempts r = attempt" "rr_RetriesUsed r = attempt"
  | r s1 where "res = (r, (s1, Suc n))" "rr_Attempts r = attempt + 1" "rr_RetriesUsed r = attempt"
  | le' s1 where "attempt < NumRetries cfg" "res = retry_loop cfg (counted E) (attempt + 1) le' (s1, Suc n)"
proof (cases "fst (call E (attempt + 1) s)")
  case None
  then show ?thesis
    using assms that(1,2) unfolding retry_loop.simps [of cfg _ attempt] by (fastforce split: option.splits)
next
  case (Some e)
  let ?s1 = "snd (call E (attempt + 1) s)"
  define al where "al = budget_allows E ?s1"
  define w where "w = wait E (backoffDuration attempt (Some e) cfg (rand500 E (snd al))) (snd al)"
  have "res = (if ctx_err E s \<noteq> None then (\<lparr>rr_Err = ctx_err E s, rr_Attempts = attempt, rr_RetriesUsed = attempt\<rparr>, (s, n))
      else if \<not> IsRetryableError (Some e) \<or> attempt = NumRetries cfg
        then (\<lparr>rr_Err = Some e, rr_Attempts = attempt + 1, rr_RetriesUsed = attempt\<rparr>, (?s1, Suc n))
      else if \<not> fst al then (\<lparr>rr_Err = Some e, rr_Attempts = attempt + 1, rr_RetriesUsed = attempt\<rparr>, (snd al, Suc n))
      else if fst w \<noteq> None then (\<lparr>rr_Err = fst w, rr_Attempts = attempt + 1, rr_RetriesUsed = attempt\<rparr>, (snd w, Suc n))
      else retry_loop cfg (counted E) (attempt + 1) (Some e) (snd w, Suc n))"
    using assms Some unfolding retry_loop.simps [of cfg _ attempt]
    by (auto simp: al_def [symmetric] w_def [symmetric] split: option.splits bool.splits)
  then show ?thesis using that assms(1) by (auto split: if_splits)
qed

lemma retry_loop_counted:
  assumes "0 \<le> attempt" and "attempt \<le> NumRetries cfg"
    and "retry_loop cfg (counted E) attempt le (s, nat attempt) = (r, (s', n))"
  shows "int n = rr_Attempts r \<and> attempt \<le> rr_Attempts r \<and> rr_Attempts r \<le> NumRetries cfg + 1 \<and>
    rr_Attempts r - 1 \<le> rr_RetriesUsed r \<and> rr_RetriesUsed r \<le> rr_Attempts r"
  using assms
proof (induction "nat (NumRetries cfg - attempt)" arbitrary: attempt le s rule: less_induct)
  case less
  have nat_suc: "Suc (nat attempt) = nat (attempt + 1)" using less.prems(1) by simp
  from less.prems(2,3) show ?case
  proof (cases rule: retry_loop_step)
    case (3 le' s1)
    then have "int n = rr_Attempts r \<and> attempt + 1 \<le> rr_Attempts r \<and> rr_Attempts r \<le> NumRetries cfg + 1 \<and>
      rr_Attempts r - 1 \<le> rr_RetriesUsed r \<and> rr_RetriesUsed r \<le> rr_Attempts r"
      using less.prems(1) by (intro less.hyps [of "attempt + 1" le' s1]) (simp_all add: nat_suc)
    then show ?thesis by linarith
  qed (use less.prems in auto)
qed

text \<open>A run in which the context stays alive and the budget always grants a retry.\<close>

definition quiet :: "'s retry_env \<Rightarrow> (int \<Rightarrow> goerr option) \<Rightarrow> bool" where
  "quiet E out \<longleftrightarrow> (\<forall>s. ctx_err E s = None) \<and> (\<forall>a s. fst (call E a s) = out a) \<and>
     (\<forall>s. fst (budget_allows E s)) \<and> (\<forall>d s. fst (wait E d s) = None)"

lemma quietD:
  assumes "quiet E out"
  obtains s1 where "call E a s = (out a, s1)"
  using assms by (metis quiet_def prod.collapse)

lemma retry_loop_quiet:
  assumes "quiet E out" and "0 \<le> attempt" and "attempt + int k \<le> NumRetries cfg"
    and "\<forall>i<k. IsRetryableError (out (attempt + int i + 1))"
    and "\<not> IsRetryableError (out (attempt + int k + 1)) \<or> attempt + int k = NumRetries cfg"
  shows "fst (retry_loop cfg E attempt le s) =
    \<lparr>rr_Err = out (attempt + int k + 1), rr_Attempts = attempt + int k + 1, rr_RetriesUsed = attempt + int k\<rparr>"
  using assms
proof (induction k arbitrary: attempt le s)
  case 0
  obtain s1 where "call E (attempt + 1) s = (out (attempt + 1), s1)" using quietD [OF 0(1)] .
  then show ?case using 0 unfolding retry_loop.simps [of cfg E attempt le s]
    by (auto simp: quiet_def split: option.splits)
next
  case (Suc k)
  obtain s1 where c: "call E (attempt + 1) s = (out (attempt + 1), s1)" using quietD [OF Suc.prems(1)] .
  have r: "IsRetryableError (out (attempt + 1))" using Suc.prems(4) [rule_format, of 0] by simp
  then obtain e where e: "out (attempt + 1) = Some e"
    by (cases "out (attempt + 1)") (auto simp: IsRetryableError_def ClassifyError_def error_type_defs)
  obtain s2 where a: "budget_allows E s1 = (True, s2)"
    using Suc.prems(1) by (cases "budget_allows E s1") (auto simp: quiet_def dest: spec [of _ s1])
  obtain s3 where w: "wait E (backoffDuration attempt (Some e) cfg (rand500 E s2)) s2 = (None, s3)"
    using Suc.prems(1) by (metis quiet_def prod.collapse)
  have "retry_loop cfg E attempt le s = retry_loop cfg E (attempt + 1) (Some e) s3"
    unfolding retry_loop.simps [of cfg E attempt le s] using Suc.prems c e r a w by (simp add: quiet_def)
  moreover have "IsRetryableError (out (attempt + 1 + int i + 1))" if "i < k" for i
    using Suc.prems(4) [rule_format, of "Suc i"] that by (simp add: algebra_simps)
  ultimately show ?case
    using Suc.IH [of "attempt + 1" "Some e" s3] Suc.prems by (simp add: algebra_simps)
qed

section \<open>The retry budget\<close>

text \<open>Successive calls of \<^verbatim>\<open>Allow\<close> at the given times, with Redis up.\<close>

fun allow_run :: "(instant \<Rightarrow> bytes) \<Rightarrow> RetryBudget \<Rightarrow> instant list \<Rightarrow> redis \<Rightarrow> bool list" where
  "allow_run fmt b [] R = []"
| "allow_run fmt b (t # ts) R = (case Allow fmt b False t R of (ok, R1) \<Rightarrow> ok # allow_run fmt b ts R1)"

lemma allow_run_live:
  assumes "\<forall>t \<in> set ts. budget_key fmt t = k \<and> t < x" and "R k = Some (c, Some x)" and "1 \<le> c"
  shows "int (length (filter (\<lambda>ok. ok) (allow_run fmt b ts R))) \<le> max 0 (rate b - c)"
  using assms
proof (induction ts arbitrary: R c)
  case (Cons t ts)
  have "Allow fmt b False t R = (c + 1 \<le> rate b, R(k \<mapsto> (c + 1, Some x)))"
    using Cons.prems by (simp add: Allow_def budgetScript_def redis_live_def Let_def)
  moreover have "int (length (filter (\<lambda>ok. ok) (allow_run fmt b ts (R(k \<mapsto> (c + 1, Some x)))))) \<le> max 0 (rate b - (c + 1))"
    using Cons.prems by (intro Cons.IH) auto
  ultimately show ?case by auto
qed simp

section \<open>Properties\<close>

lemma Allow_fresh:
  assumes "redis_live R t (budget_key fmt t) = None"
  shows "Allow fmt b False t R =
    (1 \<le> rate b, R(budget_key fmt t \<mapsto> (1, Some (t + 2 * second))))"
  using assms by (simp add: Allow_def budgetScript_def Let_def)

text \<open>
  Whatever JSON a provider's extra configuration holds, every pause \<^verbatim>\<open>WithRetry\<close> makes between
  two attempts of it is positive and at most the configured cap (60 s when none is set), which itself is
  at most five minutes: no shift or product of \<^verbatim>\<open>backoffDuration\<close> overflows, whatever the backoff
  type, the error and the jitter.
\<close>

lemma backoff_within_cap:
  assumes "cfg = ParseRetryConfig extraConfig" and "0 \<le> attempt" and "attempt \<le> NumRetries cfg"
    and "0 \<le> rnd" and "rnd < 500"
  shows "0 < backoffDuration attempt err cfg rnd \<and>
    backoffDuration attempt err cfg rnd \<le> backoff_max cfg \<and> backoff_max cfg \<le> 300 * second"
proof -
  have "cfg_ok cfg" using ParseRetryConfig_bounds [of extraConfig] assms(1) by (simp add: cfg_ok_def)
  then show ?thesis
    using backoff_bounds [of cfg attempt rnd err] backoff_max_bounds [of cfg] assms(2-5)
    by (simp add: cfg_ok_def)
qed

lemma backoff_within_cap_witness:
  "0 < backoffDuration 0 (Some UnexpectedEOF) (ParseRetryConfig []) 499 \<and>
   backoffDuration 0 (Some UnexpectedEOF) (ParseRetryConfig []) 499 \<le> backoff_max (ParseRetryConfig [])"
  using backoff_within_cap [of "ParseRetryConfig []" "[]" 0 499 "Some UnexpectedEOF"]
  by (simp add: ParseRetryConfig_def RetryConfig0_def)

text \<open>
  \<^verbatim>\<open>WithRetry\<close> terminates after at most one call plus the configured retries, and the attempt
  count it reports is exactly the number of calls it made, on every path: success, a permanent error, an
  exhausted budget, a cancelled context.
\<close>

lemma WithRetry_attempts:
  "(case WithRetry cfg (counted E) (s, 0) of
      (r, (s', n)) \<Rightarrow> int n = rr_Attempts r \<and> rr_Attempts r \<le> max 1 (NumRetries cfg + 1) \<and>
        rr_RetriesUsed r \<le> max 0 (NumRetries cfg + 1))"
proof (cases "NumRetries cfg \<le> 0")
  case True
  then show ?thesis by (simp add: WithRetry_def)
next
  case False
  obtain r s' n where r: "retry_loop cfg (counted E) 0 None (s, 0) = (r, (s', n))"
    by (metis prod.collapse)
  with False retry_loop_counted [of 0 cfg E None s r s' n] show ?thesis
    by (auto simp: WithRetry_def)
qed

text \<open>
  When the context stays alive and the budget grants every retry, \<^verbatim>\<open>WithRetry\<close> returns the outcome of
  the first decisive call: the first that succeeds or fails with an error that is not retryable, or the
  last one allowed; every call before it failed with a retryable error.
\<close>

lemma WithRetry_first_decisive:
  assumes "quiet E out" and "0 < NumRetries cfg" and "int k \<le> NumRetries cfg"
    and "\<forall>i<k. IsRetryableError (out (int i + 1))"
    and "\<not> IsRetryableError (out (int k + 1)) \<or> int k = NumRetries cfg"
  shows "fst (WithRetry cfg E s) =
    \<lparr>rr_Err = out (int k + 1), rr_Attempts = int k + 1, rr_RetriesUsed = int k\<rparr>"
  using retry_loop_quiet [of E out 0 k cfg None s] assms by (simp add: WithRetry_def)

definition demo_env :: "unit retry_env" where
  "demo_env =
     \<lparr>ctx_err = (\<lambda>_. None), call = (\<lambda>a s. (if a = 1 then Some UnexpectedEOF else None, s)),
      allow = None, rand500 = (\<lambda>_. 7), wait = (\<lambda>_ s. (None, s))\<rparr>"

lemma WithRetry_first_decisive_witness:
  "fst (WithRetry \<lparr>NumRetries = 3, BackoffType = [], InitialMs = 1, MaxBackoffMs = 9\<rparr> demo_env ()) =
    \<lparr>rr_Err = None, rr_Attempts = 2, rr_RetriesUsed = 1\<rparr>"
  using WithRetry_first_decisive [of demo_env "\<lambda>a. if a = 1 then Some UnexpectedEOF else None"
      "\<lparr>NumRetries = 3, BackoffType = [], InitialMs = 1, MaxBackoffMs = 9\<rparr>" 1 "()"]
  by (simp add: demo_env_def quiet_def budget_allows_def IsRetryableError_def ClassifyError_def
      as_provider_def as_net_def err_is_def error_type_defs)

text \<open>
  The retry budget: of the calls of \<^verbatim>\<open>Allow\<close> that fall into one clock second (one key), at
  most \<^verbatim>\<open>rate\<close> are granted, as long as Redis answers.
\<close>

lemma Allow_at_most_rate:
  assumes "redis_live R t (budget_key fmt t) = None" and "0 \<le> rate b"
    and "\<forall>u \<in> set ts. budget_key fmt u = budget_key fmt t \<and> u < t + 2 * second"
  shows "int (length (filter (\<lambda>ok. ok) (allow_run fmt b (t # ts) R))) \<le> rate b"
proof -
  let ?R = "R(budget_key fmt t \<mapsto> (1, Some (t + 2 * second)))"
  have "int (length (filter (\<lambda>ok. ok) (allow_run fmt b ts ?R))) \<le> max 0 (rate b - 1)"
    using assms(3) by (intro allow_run_live [of _ _ "budget_key fmt t" "t + 2 * second"]) auto
  then show ?thesis using assms(2) by (auto simp: Allow_fresh [OF assms(1)])
qed

lemma Allow_at_most_rate_witness:
  "int (length (filter (\<lambda>ok. ok) (allow_run (\<lambda>_. ''1'') (NewRetryBudget 1) [5, 6, 7] Map.empty))) \<le> 1"
  using Allow_at_most_rate [of Map.empty 5 "\<lambda>_. ''1''" "NewRetryBudget 1" "[6, 7]"]
  by (simp add: redis_live_def budget_key_def second_def NewRetryBudget_def)

text \<open>
  Every upstream error response becomes a provider error that carries its status, a Retry-After
  between zero and five minutes, and a type that makes it retryable exactly when the status is none of
  400, 401, 403 and 404; it counts as a rate limit exactly for 429.
\<close>

lemma parseProviderError_class:
  "\<exists>pe. parseProviderError resp = ProviderErr pe \<and> pe_StatusCode pe = hr_StatusCode resp \<and>
     0 \<le> pe_RetryAfter pe \<and> pe_RetryAfter pe \<le> 300 * second \<and>
     (IsRetryableError (Some (parseProviderError resp)) \<longleftrightarrow> hr_StatusCode resp \<notin> {400, 401, 403, 404}) \<and>
     (ClassifyError (Some (parseProviderError resp)) = ErrorRateLimit \<longleftrightarrow> hr_StatusCode resp = 429)"
proof -
  have ra: "0 \<le> retry_after_header h \<and> retry_after_header h \<le> 300 * second" for h
    by (simp add: retry_after_header_def second_def split: option.split)
  show ?thesis
    using ra by (simp add: parseProviderError_def Let_def status_class_def IsRetryableError_def
        ClassifyError_def as_provider_def error_type_defs split: prod.split)
qed

end
