(* ===== verification/Health_Tracker.thy ===== *)
theory Health_Tracker
  imports Provider_Errors
begin

text \<open>
  The circuit breaker \<^verbatim>\<open>HealthTracker\<close> of \<^verbatim>\<open>internal/provider/health.go\<close>. The tracker is the
  record \<open>HealthTracker\<close>, its map of circuits a partial function from keys; every method is a function
  on it. Each method runs under the tracker's mutex, so a concurrent history is a sequence of the steps
  of \<open>ht_step\<close>. The time is read from an argument: \<^verbatim>\<open>now\<close> where a method reads the clock once,
  and a function from the call site to a time where it reads it several times. The zero time is None, and
  times are unbounded integers in nanoseconds. The counters are unbounded; cooldown shifts wrap at 64 bits.
\<close>

section \<open>State\<close>

datatype circuitKind = kindTransient | kindPersistent

datatype CircuitState = CircuitClosed | CircuitHalfOpen | CircuitOpen

fun CircuitState_String :: "CircuitState \<Rightarrow> bytes" where
  "CircuitState_String CircuitOpen = ''open''"
| "CircuitState_String CircuitHalfOpen = ''half_open''"
| "CircuitState_String CircuitClosed = ''closed''"

fun severity :: "CircuitState \<Rightarrow> nat" where
  "severity CircuitClosed = 0"
| "severity CircuitHalfOpen = 1"
| "severity CircuitOpen = 2"

record circuitState =
  kind :: circuitKind
  consecutiveFails :: int
  openUntil :: "instant option"
  probeInFlight :: bool
  openCount :: int
  lastErrType :: bytes
  lastErrMsg :: bytes

definition circuitState0 :: circuitState where
  "circuitState0 =
     \<lparr>kind = kindTransient, consecutiveFails = 0, openUntil = None, probeInFlight = False, openCount = 0,
      lastErrType = [], lastErrMsg = []\<rparr>"

record HealthTracker =
  states :: "bytes \<Rightarrow> circuitState option"
  transientThreshold :: int
  persistentCooldown :: duration
  transientCooldown :: duration
  maxEscalation :: duration
  retryAfterMin :: duration
  retryAfterMax :: duration

definition minute :: duration where "minute = 60 * second"

definition NewHealthTrackerWithConfig :: "int \<Rightarrow> duration \<Rightarrow> HealthTracker" where
  "NewHealthTrackerWithConfig failThreshold openDuration =
     \<lparr>states = Map.empty,
      transientThreshold = (if failThreshold \<le> 0 then 3 else failThreshold),
      persistentCooldown = 30 * minute,
      transientCooldown = (if openDuration \<le> 0 then 60 * second else openDuration),
      maxEscalation = 5 * minute,
      retryAfterMin = 5 * second,
      retryAfterMax = 5 * minute\<rparr>"

definition NewHealthTracker :: HealthTracker where
  "NewHealthTracker = NewHealthTrackerWithConfig 3 (60 * second)"

definition model_key :: "bytes \<Rightarrow> bytes \<Rightarrow> bytes" where
  "model_key name model = name @ ''|'' @ model"

definition key :: "bytes \<Rightarrow> bytes \<Rightarrow> bytes \<Rightarrow> bytes" where
  "key name model scope = (if scope = ''model'' \<and> model \<noteq> [] then model_key name model else name)"

definition keys :: "bytes \<Rightarrow> bytes \<Rightarrow> bytes list" where
  "keys name model = (if model \<noteq> [] then [name, model_key name model] else [name])"

text \<open>\<^verbatim>\<open>time.Now().Before(t)\<close> and \<^verbatim>\<open>After\<close>; the zero time is long past.\<close>

definition before :: "instant \<Rightarrow> instant option \<Rightarrow> bool" where
  "before now t \<longleftrightarrow> (case t of None \<Rightarrow> False | Some u \<Rightarrow> now < u)"

definition after :: "instant \<Rightarrow> instant option \<Rightarrow> bool" where
  "after now t \<longleftrightarrow> (case t of None \<Rightarrow> True | Some u \<Rightarrow> u < now)"

definition upd_state :: "bytes \<Rightarrow> (circuitState \<Rightarrow> circuitState) \<Rightarrow> HealthTracker \<Rightarrow> HealthTracker" where
  "upd_state k f h = (case states h k of None \<Rightarrow> h | Some s \<Rightarrow> h\<lparr>states := (states h)(k \<mapsto> f s)\<rparr>)"

definition delete_state :: "bytes \<Rightarrow> HealthTracker \<Rightarrow> HealthTracker" where
  "delete_state k h = h\<lparr>states := (states h)(k := None)\<rparr>"

section \<open>Admission\<close>

definition blockedOrProbed :: "HealthTracker \<Rightarrow> instant \<Rightarrow> bytes \<Rightarrow> bool" where
  "blockedOrProbed h now k =
     (case states h k of
        None \<Rightarrow> False
      | Some s \<Rightarrow>
          if openUntil s = None then False
          else if before now (openUntil s) then True
          else probeInFlight s)"

definition probe_if :: "instant \<Rightarrow> circuitState \<Rightarrow> circuitState" where
  "probe_if now s = (if openUntil s \<noteq> None \<and> after now (openUntil s) then s\<lparr>probeInFlight := True\<rparr> else s)"

definition become_probe :: "instant \<Rightarrow> bytes \<Rightarrow> HealthTracker \<Rightarrow> HealthTracker" where
  "become_probe now k h = upd_state k (probe_if now) h"

text \<open>
  \<^verbatim>\<open>clk i\<close> is the reading for the i-th key in pass 1, \<^verbatim>\<open>clk (2 + i)\<close> the one in pass 2.
\<close>

definition IsHealthyModel :: "(nat \<Rightarrow> instant) \<Rightarrow> bytes \<Rightarrow> bytes \<Rightarrow> HealthTracker \<Rightarrow> bool \<times> HealthTracker" where
  "IsHealthyModel clk name model h =
     (let ks = keys name model
      in if list_ex (\<lambda>(i, k). blockedOrProbed h (clk i) k) (enumerate 0 ks) then (False, h)
         else (True, fold (\<lambda>(i, k) h. become_probe (clk i) k h) (enumerate 2 ks) h))"

definition IsHealthy :: "(nat \<Rightarrow> instant) \<Rightarrow> bytes \<Rightarrow> HealthTracker \<Rightarrow> bool \<times> HealthTracker" where
  "IsHealthy clk name h = IsHealthyModel clk name [] h"

definition key_state :: "HealthTracker \<Rightarrow> instant \<Rightarrow> bytes \<Rightarrow> CircuitState" where
  "key_state h now k =
     (case states h k of
        None \<Rightarrow> CircuitClosed
      | Some s \<Rightarrow>
          if openUntil s = None then CircuitClosed
          else if before now (openUntil s) then CircuitOpen else CircuitHalfOpen)"

definition CircuitState_of :: "HealthTracker \<Rightarrow> instant \<Rightarrow> bytes \<Rightarrow> bytes \<Rightarrow> CircuitState" where
  "CircuitState_of h now name model =
     foldl (\<lambda>worst k. let st = key_state h now k in if severity st > severity worst then st else worst)
       CircuitClosed (keys name model)"

section \<open>Outcomes\<close>

definition RecordSuccessModel :: "instant \<Rightarrow> bytes \<Rightarrow> bytes \<Rightarrow> HealthTracker \<Rightarrow> HealthTracker" where
  "RecordSuccessModel now name model h =
     (let h1 = (if model \<noteq> [] then delete_state (model_key name model) h else h)
      in case states h1 name of
           None \<Rightarrow> h1
         | Some s \<Rightarrow>
             if kind s = kindPersistent \<and> before now (openUntil s) then h1 else delete_state name h1)"

definition RecordSuccess :: "instant \<Rightarrow> bytes \<Rightarrow> HealthTracker \<Rightarrow> HealthTracker" where
  "RecordSuccess now name h = RecordSuccessModel now name [] h"

definition clampRetryAfter :: "HealthTracker \<Rightarrow> duration \<Rightarrow> duration" where
  "clampRetryAfter h d =
     (if d \<le> 0 then transientCooldown h
      else if d < retryAfterMin h then retryAfterMin h
      else if d > retryAfterMax h then retryAfterMax h
      else d)"

definition escalatedCooldown :: "HealthTracker \<Rightarrow> int \<Rightarrow> duration" where
  "escalatedCooldown h n =
     (let s0 = n - 1;
          s1 = (if s0 < 0 then 0 else s0);
          shift = (if s1 > 16 then 16 else s1);
          d = wrap64 (transientCooldown h * 2 ^ nat shift)
      in if d \<le> 0 \<or> d > maxEscalation h then maxEscalation h else d)"

definition transient_on :: "HealthTracker \<Rightarrow> instant \<Rightarrow> duration \<Rightarrow> circuitState \<Rightarrow> circuitState" where
  "transient_on h now retryAfter s =
     (if openUntil s \<noteq> None \<and> after now (openUntil s) then
        s\<lparr>consecutiveFails := 1, openUntil := None, probeInFlight := False\<rparr>
      else
        let s1 = s\<lparr>consecutiveFails := consecutiveFails s + 1, probeInFlight := False\<rparr>
        in if consecutiveFails s1 \<ge> transientThreshold h then
             let n = openCount s1 + 1;
                 open_for = (if retryAfter > 0 then clampRetryAfter h retryAfter else escalatedCooldown h n)
             in s1\<lparr>kind := kindTransient, openCount := n, openUntil := Some (now + open_for)\<rparr>
           else s1)"

definition recordTransientOnKey :: "instant \<Rightarrow> bytes \<Rightarrow> duration \<Rightarrow> HealthTracker \<Rightarrow> HealthTracker" where
  "recordTransientOnKey now k retryAfter h =
     (let s = (case states h k of None \<Rightarrow> circuitState0 | Some s \<Rightarrow> s)
      in h\<lparr>states := (states h)(k \<mapsto> transient_on h now retryAfter s)\<rparr>)"

definition RecordTransientFailure :: "instant \<Rightarrow> bytes \<Rightarrow> bytes \<Rightarrow> duration \<Rightarrow> HealthTracker \<Rightarrow> HealthTracker" where
  "RecordTransientFailure now name model retryAfter h = recordTransientOnKey now name retryAfter h"

definition RecordFailure :: "instant \<Rightarrow> bytes \<Rightarrow> HealthTracker \<Rightarrow> HealthTracker" where
  "RecordFailure now name h = RecordTransientFailure now name [] 0 h"

definition RecordRateLimitFailure :: "instant \<Rightarrow> bytes \<Rightarrow> bytes \<Rightarrow> duration \<Rightarrow> HealthTracker \<Rightarrow> HealthTracker" where
  "RecordRateLimitFailure now name model retryAfter h =
     (if model = [] then recordTransientOnKey now name retryAfter h
      else recordTransientOnKey now (model_key name model) retryAfter h)"

definition RecordPersistentFailure ::
    "instant \<Rightarrow> bytes \<Rightarrow> bytes \<Rightarrow> bytes \<Rightarrow> duration \<Rightarrow> HealthTracker \<Rightarrow> HealthTracker" where
  "RecordPersistentFailure now name model scope cooldown h =
     (let cd = (if cooldown \<le> 0 then persistentCooldown h else cooldown);
          k = key name model scope;
          s = (case states h k of None \<Rightarrow> circuitState0 | Some s \<Rightarrow> s)
      in h\<lparr>states := (states h)(k \<mapsto>
           s\<lparr>kind := kindPersistent, openUntil := Some (now + cd), consecutiveFails := 0, probeInFlight := False\<rparr>)\<rparr>)"

definition ClearProbe :: "bytes \<Rightarrow> bytes \<Rightarrow> HealthTracker \<Rightarrow> HealthTracker" where
  "ClearProbe name model h =
     (let h1 = upd_state name (\<lambda>s. s\<lparr>probeInFlight := False\<rparr>) h
      in if model \<noteq> [] then upd_state (model_key name model) (\<lambda>s. s\<lparr>probeInFlight := False\<rparr>) h1 else h1)"

definition ResolveCircuit :: "bytes \<Rightarrow> bytes \<Rightarrow> HealthTracker \<Rightarrow> HealthTracker" where
  "ResolveCircuit name model h =
     (let h1 = delete_state name h in if model \<noteq> [] then delete_state (model_key name model) h1 else h1)"

definition RecordCause :: "bytes \<Rightarrow> bytes \<Rightarrow> bytes \<Rightarrow> bytes \<Rightarrow> HealthTracker \<Rightarrow> HealthTracker" where
  "RecordCause name model errType msg h =
     (let m = (if length msg > 200 then take 200 msg else msg);
          h1 = upd_state name (\<lambda>s. s\<lparr>lastErrType := errType, lastErrMsg := m\<rparr>) h
      in if model \<noteq> []
         then upd_state (model_key name model) (\<lambda>s. s\<lparr>lastErrType := errType, lastErrMsg := m\<rparr>) h1
         else h1)"

section \<open>Configuration\<close>

definition SetMaxEscalation :: "duration \<Rightarrow> HealthTracker \<Rightarrow> HealthTracker" where
  "SetMaxEscalation d h = h\<lparr>maxEscalation := d\<rparr>"

definition SetPersistentCooldown :: "duration \<Rightarrow> HealthTracker \<Rightarrow> HealthTracker" where
  "SetPersistentCooldown d h = h\<lparr>persistentCooldown := d\<rparr>"

definition SetRetryAfterBounds :: "duration \<Rightarrow> duration \<Rightarrow> HealthTracker \<Rightarrow> HealthTracker" where
  "SetRetryAfterBounds lo hi h = h\<lparr>retryAfterMin := lo, retryAfterMax := hi\<rparr>"

definition UpdateConfig :: "int \<Rightarrow> duration \<Rightarrow> HealthTracker \<Rightarrow> HealthTracker" where
  "UpdateConfig failThreshold openDuration h =
     (let h1 = (if failThreshold > 0 then h\<lparr>transientThreshold := failThreshold\<rparr> else h)
      in if openDuration > 0 then h1\<lparr>transientCooldown := openDuration\<rparr> else h1)"

section \<open>Reports\<close>

record ProviderHealthSnapshot =
  snap_Provider :: bytes
  snap_Model :: bytes
  snap_State :: bytes
  snap_Until :: "instant option"
  snap_OpenCount :: int
  snap_LastErrorType :: bytes
  snap_LastErrorMessage :: bytes

definition snapshot_of :: "instant \<Rightarrow> bytes \<Rightarrow> circuitState \<Rightarrow> ProviderHealthSnapshot" where
  "snapshot_of now k s =
     (let (name, model) = (case split_last CHR 0x7C k of None \<Rightarrow> (k, []) | Some nm \<Rightarrow> nm)
      in \<lparr>snap_Provider = name, snap_Model = model,
          snap_State =
            CircuitState_String
              (if openUntil s = None then CircuitClosed
               else if before now (openUntil s) then CircuitOpen else CircuitHalfOpen),
          snap_Until = openUntil s,
          snap_OpenCount = openCount s, snap_LastErrorType = lastErrType s, snap_LastErrorMessage = lastErrMsg s\<rparr>)"

text \<open>The order is the one in which Go iterates the map: any enumeration of its keys.\<close>

definition Snapshot :: "bytes list \<Rightarrow> instant \<Rightarrow> HealthTracker \<Rightarrow> ProviderHealthSnapshot list" where
  "Snapshot order now h =
     concat (map (\<lambda>k. case states h k of None \<Rightarrow> [] | Some s \<Rightarrow> [snapshot_of now k s]) order)"

text \<open>\<^verbatim>\<open>d.Round(unit)\<close> (half away from zero) and \<^verbatim>\<open>d.String()\<close>.\<close>

definition round_to :: "duration \<Rightarrow> duration \<Rightarrow> duration" where
  "round_to unit d =
     (if d < 0 then - ((- d + unit div 2) div unit * unit) else (d + unit div 2) div unit * unit)"

definition pad_left :: "nat \<Rightarrow> bytes \<Rightarrow> bytes" where
  "pad_left n s = replicate (n - length s) CHR ''0'' @ s"

definition fmt_frac :: "nat \<Rightarrow> nat \<Rightarrow> bytes" where
  "fmt_frac u prec =
     (let ds = rev (dropWhile (\<lambda>c. c = CHR ''0'') (rev (pad_left prec (dec (u mod 10 ^ prec)))))
      in if ds = [] then [] else ''.'' @ ds)"

definition duration_string :: "duration \<Rightarrow> bytes" where
  "duration_string d =
     (let u = nat \<bar>d\<bar>; secs = u div 10 ^ 9; m = secs div 60; hh = m div 60;
          s = dec (secs mod 60) @ fmt_frac u 9 @ ''s'';
          body = (if u = 0 then ''0s''
                  else if u < 10 ^ 3 then dec u @ ''ns''
                  else if u < 10 ^ 6 then dec (u div 10 ^ 3) @ fmt_frac u 3 @ [CHR 0xC2, CHR 0xB5] @ ''s''
                  else if u < 10 ^ 9 then dec (u div 10 ^ 6) @ fmt_frac u 6 @ ''ms''
                  else if m = 0 then s
                  else if hh = 0 then dec m @ ''m'' @ s
                  else dec hh @ ''h'' @ dec (m mod 60) @ ''m'' @ s)
      in if d < 0 then ''-'' @ body else body)"

definition best_open :: "HealthTracker \<Rightarrow> instant \<Rightarrow> bytes list \<Rightarrow> circuitState option" where
  "best_open h now ks =
     foldl (\<lambda>best k.
         case states h k of
           None \<Rightarrow> best
         | Some s \<Rightarrow>
             (case openUntil s of
                None \<Rightarrow> best
              | Some u \<Rightarrow>
                  if \<not> now < u then best
                  else case best of
                         None \<Rightarrow> Some s
                       | Some b \<Rightarrow> if after u (openUntil b) then Some s else best))
       None ks"

definition OpenCircuitDescription :: "instant \<Rightarrow> instant \<Rightarrow> HealthTracker \<Rightarrow> bytes \<Rightarrow> bytes \<Rightarrow> bytes" where
  "OpenCircuitDescription now later h name model =
     (case best_open h now (keys name model) of
        None \<Rightarrow> []
      | Some b \<Rightarrow>
          let remaining = duration_string (round_to second ((case openUntil b of None \<Rightarrow> 0 | Some u \<Rightarrow> u) - later));
              desc = name @ '' circuit open, reopens in '' @ remaining
          in if lastErrType b \<noteq> [] \<or> lastErrMsg b \<noteq> [] then
               desc @ '' (last error: '' @ lastErrType b @ '': '' @ lastErrMsg b @
               (if openCount b > 1 then '', open #'' @ itoa (openCount b) else []) @ '')''
             else desc)"

section \<open>Histories\<close>

text \<open>The methods that change the tracker, as steps of a history.\<close>

datatype ht_event =
    EvIsHealthy "nat \<Rightarrow> instant" bytes bytes
  | EvSuccess instant bytes bytes
  | EvTransient instant bytes bytes duration
  | EvRateLimit instant bytes bytes duration
  | EvPersistent instant bytes bytes bytes duration
  | EvClearProbe bytes bytes
  | EvResolve bytes bytes
  | EvCause bytes bytes bytes bytes
  | EvMaxEscalation duration
  | EvPersistentCooldown duration
  | EvRetryAfterBounds duration duration
  | EvUpdateConfig int duration

fun ht_apply :: "ht_event \<Rightarrow> HealthTracker \<Rightarrow> HealthTracker" where
  "ht_apply (EvIsHealthy clk name model) h = snd (IsHealthyModel clk name model h)"
| "ht_apply (EvSuccess now name model) h = RecordSuccessModel now name model h"
| "ht_apply (EvTransient now name model ra) h = RecordTransientFailure now name model ra h"
| "ht_apply (EvRateLimit now name model ra) h = RecordRateLimitFailure now name model ra h"
| "ht_apply (EvPersistent now name model scope cd) h = RecordPersistentFailure now name model scope cd h"
| "ht_apply (EvClearProbe name model) h = ClearProbe name model h"
| "ht_apply (EvResolve name model) h = ResolveCircuit name model h"
| "ht_apply (EvCause name model et msg) h = RecordCause name model et msg h"
| "ht_apply (EvMaxEscalation d) h = SetMaxEscalation d h"
| "ht_apply (EvPersistentCooldown d) h = SetPersistentCooldown d h"
| "ht_apply (EvRetryAfterBounds lo hi) h = SetRetryAfterBounds lo hi h"
| "ht_apply (EvUpdateConfig n d) h = UpdateConfig n d h"

definition ht_run :: "ht_event list \<Rightarrow> HealthTracker \<Rightarrow> HealthTracker" where
  "ht_run es h = fold ht_apply es h"

inductive ht_reachable :: "HealthTracker \<Rightarrow> bool" where
  init: "ht_reachable (NewHealthTrackerWithConfig n d)"
| step: "ht_reachable h \<Longrightarrow> ht_reachable (ht_apply e h)"

section \<open>What each method does to one circuit\<close>

lemma states_upd_state [simp]: "states (upd_state k f h) j = (if j = k then map_option f (states h k) else states h j)"
  by (simp add: upd_state_def split: option.split)

lemma states_delete_state [simp]: "states (delete_state k h) j = (if j = k then None else states h j)"
  by (simp add: delete_state_def)

lemma upd_state_sel [simp]:
  "transientThreshold (upd_state k f h) = transientThreshold h"
  "transientCooldown (upd_state k f h) = transientCooldown h"
  "transientThreshold (delete_state k h) = transientThreshold h"
  "transientCooldown (delete_state k h) = transientCooldown h"
  by (simp_all add: upd_state_def delete_state_def split: option.split)

lemma model_key_neq [simp]: "model_key n m \<noteq> n" "n \<noteq> model_key n m"
  by (simp_all add: model_key_def)

lemma model_key_inj: "model_key n m = model_key n m' \<longleftrightarrow> m = m'"
  by (simp add: model_key_def)

lemma model_key_split:
  assumes "CHR 0x7C \<notin> set n" "CHR 0x7C \<notin> set n'"
  shows "model_key n m = model_key n' m' \<longleftrightarrow> n = n' \<and> m = m'"
  using assms by (auto simp: model_key_def append_eq_append_conv2 append_eq_Cons_conv Cons_eq_append_conv)

lemma keys_cases: "k \<in> set (keys n m) \<longleftrightarrow> k = n \<or> m \<noteq> [] \<and> k = model_key n m"
  by (auto simp: keys_def)

lemma IsHealthyModel_blocked:
  "fst (IsHealthyModel clk n m h) \<longleftrightarrow>
     \<not> blockedOrProbed h (clk 0) n \<and> (m \<noteq> [] \<longrightarrow> \<not> blockedOrProbed h (clk 1) (model_key n m))"
  by (simp add: IsHealthyModel_def keys_def Let_def)

lemma snd_IsHealthyModel:
  "snd (IsHealthyModel clk n m h) =
     (if fst (IsHealthyModel clk n m h)
      then (let h1 = become_probe (clk 2) n h in if m = [] then h1 else become_probe (clk 3) (model_key n m) h1)
      else h)"
  by (simp add: IsHealthyModel_def keys_def Let_def numeral_3_eq_3)

lemma states_become_probe [simp]:
  "states (become_probe now k h) j = (if j = k then map_option (probe_if now) (states h k) else states h j)"
  by (simp add: become_probe_def)

lemma become_probe_sel [simp]:
  "transientThreshold (become_probe now k h) = transientThreshold h"
  "transientCooldown (become_probe now k h) = transientCooldown h"
  by (simp_all add: become_probe_def)

lemma probe_if_sel [simp]:
  "kind (probe_if now s) = kind s" "consecutiveFails (probe_if now s) = consecutiveFails s"
  "openUntil (probe_if now s) = openUntil s" "openCount (probe_if now s) = openCount s"
  "lastErrType (probe_if now s) = lastErrType s" "lastErrMsg (probe_if now s) = lastErrMsg s"
  by (simp_all add: probe_if_def)

lemma probe_if_flag [simp]:
  "probeInFlight (probe_if now s) \<longleftrightarrow> probeInFlight s \<or> openUntil s \<noteq> None \<and> after now (openUntil s)"
  by (simp add: probe_if_def)

lemma states_IsHealthyModel:
  "states (snd (IsHealthyModel clk n m h)) k =
     (if fst (IsHealthyModel clk n m h) \<and> k = n then map_option (probe_if (clk 2)) (states h k)
      else if fst (IsHealthyModel clk n m h) \<and> m \<noteq> [] \<and> k = model_key n m
        then map_option (probe_if (clk 3)) (states h k)
      else states h k)"
  by (simp add: snd_IsHealthyModel Let_def)

lemma states_ClearProbe:
  "states (ClearProbe n m h) k =
     (if k \<in> set (keys n m) then map_option (\<lambda>s. s\<lparr>probeInFlight := False\<rparr>) (states h k) else states h k)"
  by (auto simp: ClearProbe_def Let_def keys_def)

lemma states_RecordCause:
  "states (RecordCause n m et msg h) k =
     (if k \<in> set (keys n m) then map_option (\<lambda>s. s\<lparr>lastErrType := et, lastErrMsg := take 200 msg\<rparr>) (states h k)
      else states h k)"
  by (auto simp: RecordCause_def Let_def keys_def)

lemma states_ResolveCircuit:
  "states (ResolveCircuit n m h) k = (if k \<in> set (keys n m) then None else states h k)"
  by (auto simp: ResolveCircuit_def Let_def keys_def)

lemma states_RecordSuccessModel:
  "states (RecordSuccessModel now n m h) k =
     (if m \<noteq> [] \<and> k = model_key n m then None
      else if k = n \<and> \<not> (\<exists>s. states h n = Some s \<and> kind s = kindPersistent \<and> before now (openUntil s)) then None
      else states h k)"
  by (auto simp: RecordSuccessModel_def Let_def split: option.split)

lemma states_recordTransientOnKey:
  "states (recordTransientOnKey now k ra h) j =
     (if j = k then Some (transient_on h now ra (case states h k of None \<Rightarrow> circuitState0 | Some s \<Rightarrow> s))
      else states h j)"
  by (simp add: recordTransientOnKey_def Let_def)

lemma states_RecordPersistentFailure:
  "states (RecordPersistentFailure now n m sc cd h) j =
     (if j = key n m sc then
        Some ((case states h j of None \<Rightarrow> circuitState0 | Some s \<Rightarrow> s)\<lparr>kind := kindPersistent,
          openUntil := Some (now + (if cd \<le> 0 then persistentCooldown h else cd)),
          consecutiveFails := 0, probeInFlight := False\<rparr>)
      else states h j)"
  by (simp add: RecordPersistentFailure_def Let_def)

lemma states_config [simp]:
  "states (SetMaxEscalation d h) = states h" "states (SetPersistentCooldown d h) = states h"
  "states (SetRetryAfterBounds lo hi h) = states h" "states (UpdateConfig n d h) = states h"
  by (simp_all add: SetMaxEscalation_def SetPersistentCooldown_def SetRetryAfterBounds_def UpdateConfig_def Let_def)

lemmas method_states = states_IsHealthyModel states_ClearProbe states_RecordCause states_ResolveCircuit
  states_RecordSuccessModel states_recordTransientOnKey states_RecordPersistentFailure
  RecordTransientFailure_def RecordRateLimitFailure_def

section \<open>Invariant\<close>

definition circuit_ok :: "circuitState \<Rightarrow> bool" where
  "circuit_ok s \<longleftrightarrow> 0 \<le> consecutiveFails s \<and> 0 \<le> openCount s \<and> (probeInFlight s \<longrightarrow> openUntil s \<noteq> None) \<and>
     length (lastErrMsg s) \<le> 200"

definition ht_inv :: "HealthTracker \<Rightarrow> bool" where
  "ht_inv h \<longleftrightarrow> (\<forall>k s. states h k = Some s \<longrightarrow> circuit_ok s) \<and> 0 < transientThreshold h \<and> 0 < transientCooldown h"

lemma circuit_ok_circuitState0 [simp]: "circuit_ok circuitState0"
  by (simp add: circuit_ok_def circuitState0_def)

lemma circuit_ok_probe_if: "circuit_ok s \<Longrightarrow> circuit_ok (probe_if now s)"
  by (auto simp: circuit_ok_def probe_if_def)

lemma circuit_ok_transient_on: "circuit_ok s \<Longrightarrow> circuit_ok (transient_on h now ra s)"
  by (simp add: circuit_ok_def transient_on_def Let_def)

lemma circuit_ok_updates:
  "circuit_ok s \<Longrightarrow> circuit_ok (s\<lparr>probeInFlight := False\<rparr>)"
  "circuit_ok s \<Longrightarrow> circuit_ok (s\<lparr>lastErrType := et, lastErrMsg := take 200 msg\<rparr>)"
  "circuit_ok s \<Longrightarrow> circuit_ok (s\<lparr>kind := kd, openUntil := u, consecutiveFails := 0, probeInFlight := False\<rparr>)"
  by (simp_all add: circuit_ok_def)

lemma config_apply:
  "0 < transientThreshold h \<and> 0 < transientCooldown h \<Longrightarrow>
   0 < transientThreshold (ht_apply e h) \<and> 0 < transientCooldown (ht_apply e h)"
  by (cases e) (auto simp: snd_IsHealthyModel Let_def RecordSuccessModel_def RecordTransientFailure_def
      RecordRateLimitFailure_def recordTransientOnKey_def RecordPersistentFailure_def ClearProbe_def
      ResolveCircuit_def RecordCause_def SetMaxEscalation_def SetPersistentCooldown_def
      SetRetryAfterBounds_def UpdateConfig_def split: option.split)

lemma circuits_apply:
  assumes "\<And>k s. states h k = Some s \<Longrightarrow> circuit_ok s" and "states (ht_apply e h) k = Some s"
  shows "circuit_ok s"
proof -
  have z: "circuit_ok (case states h j of None \<Rightarrow> circuitState0 | Some s \<Rightarrow> s)" for j
    using assms(1) by (simp split: option.split)
  show ?thesis
    using assms z
    by (cases e) (auto simp: method_states split: if_splits
        intro!: circuit_ok_probe_if circuit_ok_transient_on circuit_ok_updates)
qed

lemma ht_inv_reachable: "ht_reachable h \<Longrightarrow> ht_inv h"
proof (induction rule: ht_reachable.induct)
  case (init n d)
  then show ?case by (simp add: ht_inv_def NewHealthTrackerWithConfig_def second_def)
next
  case (step h e)
  then show ?case using config_apply circuits_apply unfolding ht_inv_def by blast
qed

section \<open>Probe leases\<close>

definition lease :: "HealthTracker \<Rightarrow> bytes \<Rightarrow> bool" where
  "lease h k \<longleftrightarrow> (\<exists>s. states h k = Some s \<and> openUntil s \<noteq> None \<and> probeInFlight s)"

text \<open>The steps that end a probe on a circuit: an outcome recorded on it, or the release of the lease.\<close>

fun ends_probe :: "ht_event \<Rightarrow> bytes \<Rightarrow> bool" where
  "ends_probe (EvSuccess now n m) k \<longleftrightarrow> k \<in> set (keys n m)"
| "ends_probe (EvTransient now n m ra) k \<longleftrightarrow> k = n"
| "ends_probe (EvRateLimit now n m ra) k \<longleftrightarrow> k = (if m = [] then n else model_key n m)"
| "ends_probe (EvPersistent now n m sc cd) k \<longleftrightarrow> k = key n m sc"
| "ends_probe (EvClearProbe n m) k \<longleftrightarrow> k \<in> set (keys n m)"
| "ends_probe (EvResolve n m) k \<longleftrightarrow> k \<in> set (keys n m)"
| "ends_probe _ k \<longleftrightarrow> False"

lemma blocked_lease: "lease h k \<Longrightarrow> blockedOrProbed h now k"
  by (auto simp: lease_def blockedOrProbed_def)

lemma lease_apply: "lease h k \<Longrightarrow> \<not> ends_probe e k \<Longrightarrow> lease (ht_apply e h) k"
  by (cases e) (auto simp: lease_def method_states keys_cases split: if_splits)

lemma lease_run: "lease h k \<Longrightarrow> \<forall>e \<in> set es. \<not> ends_probe e k \<Longrightarrow> lease (ht_run es h) k"
  unfolding ht_run_def by (induction es arbitrary: h) (simp_all add: lease_apply)

lemma lease_blocks: "lease h k \<Longrightarrow> k \<in> set (keys n m) \<Longrightarrow> IsHealthyModel clk n m h = (False, h)"
  using blocked_lease [of h k] IsHealthyModel_blocked [of clk n m h] snd_IsHealthyModel [of clk n m h]
  by (auto simp: keys_cases prod_eq_iff)

lemma admission_leases:
  assumes "IsHealthyModel clk n m h = (True, h')" and "i < length (keys n m)" and "states h (keys n m ! i) = Some s"
    and "openUntil s = Some u" and "u < clk (2 + i)"
  shows "lease h' (keys n m ! i)"
proof -
  have h': "h' = snd (IsHealthyModel clk n m h)" and a: "fst (IsHealthyModel clk n m h)"
    using assms(1) by simp_all
  have "i = 0 \<or> i = 1 \<and> m \<noteq> []" using assms(2) by (auto simp: keys_def split: if_splits)
  then show ?thesis
    using a assms(3-5) unfolding h' lease_def
    by (auto simp: states_IsHealthyModel keys_def after_def eval_nat_numeral split: if_splits)
qed

section \<open>Calls in flight\<close>

text \<open>
  The calls that use the tracker. A call is in flight from its admission by \<^verbatim>\<open>IsHealthyModel\<close> until it is done; in between
  it records outcomes and releases its probe, in any order (the fallback engine releases the probe of a failed attempt before
  it records the failure). \<open>in_flight c\<close> is the provider and the model of call \<open>c\<close>. Besides the calls, the prober resolves
  circuits and the configuration changes.
\<close>

datatype call_step =
    CallStart nat "nat \<Rightarrow> instant" bytes bytes
  | CallAct nat ht_event
  | CallDone nat
  | ProberResolve bytes bytes
  | Reconfigure ht_event

type_synonym in_flight = "nat \<rightharpoonup> bytes \<times> bytes"

text \<open>What a call on a provider and a model may do, and the changes of the configuration.\<close>

fun act_on :: "bytes \<Rightarrow> bytes \<Rightarrow> ht_event \<Rightarrow> bool" where
  "act_on n m (EvSuccess now n' m') \<longleftrightarrow> n' = n \<and> m' = m"
| "act_on n m (EvTransient now n' m' ra) \<longleftrightarrow> n' = n \<and> m' = m"
| "act_on n m (EvRateLimit now n' m' ra) \<longleftrightarrow> n' = n \<and> m' = m"
| "act_on n m (EvPersistent now n' m' sc cd) \<longleftrightarrow> n' = n \<and> m' = m"
| "act_on n m (EvCause n' m' et msg) \<longleftrightarrow> n' = n \<and> m' = m"
| "act_on n m (EvClearProbe n' m') \<longleftrightarrow> n' = n \<and> m' = m"
| "act_on n m _ \<longleftrightarrow> False"

fun is_config :: "ht_event \<Rightarrow> bool" where
  "is_config (EvMaxEscalation d) \<longleftrightarrow> True"
| "is_config (EvPersistentCooldown d) \<longleftrightarrow> True"
| "is_config (EvRetryAfterBounds lo hi) \<longleftrightarrow> True"
| "is_config (EvUpdateConfig n d) \<longleftrightarrow> True"
| "is_config _ \<longleftrightarrow> False"

text \<open>A step that is not possible in the state changes nothing.\<close>

fun call_apply :: "call_step \<Rightarrow> HealthTracker \<times> in_flight \<Rightarrow> HealthTracker \<times> in_flight" where
  "call_apply (CallStart c clk n m) (h, cs) =
     (if cs c \<noteq> None then (h, cs)
      else case IsHealthyModel clk n m h of (ok, h') \<Rightarrow> (h', if ok then cs(c \<mapsto> (n, m)) else cs))"
| "call_apply (CallAct c e) (h, cs) =
     (case cs c of None \<Rightarrow> (h, cs) | Some (n, m) \<Rightarrow> (if act_on n m e then ht_apply e h else h, cs))"
| "call_apply (CallDone c) (h, cs) = (h, cs(c := None))"
| "call_apply (ProberResolve n m) (h, cs) = (ResolveCircuit n m h, cs)"
| "call_apply (Reconfigure e) (h, cs) = (if is_config e then ht_apply e h else h, cs)"

definition calls_run :: "call_step list \<Rightarrow> HealthTracker \<times> in_flight \<Rightarrow> HealthTracker \<times> in_flight" where
  "calls_run ls st = fold call_apply ls st"

text \<open>The calls in flight whose admission consulted a circuit.\<close>

definition users :: "in_flight \<Rightarrow> bytes \<Rightarrow> nat set" where
  "users cs k = {c. \<exists>n m. cs c = Some (n, m) \<and> k \<in> set (keys n m)}"

fun step_by :: "nat set \<Rightarrow> bytes \<Rightarrow> call_step \<Rightarrow> bool" where
  "step_by C k (CallStart c clk n m) \<longleftrightarrow> False"
| "step_by C k (CallAct c e) \<longleftrightarrow> c \<in> C"
| "step_by C k (CallDone c) \<longleftrightarrow> c \<in> C"
| "step_by C k (ProberResolve n m) \<longleftrightarrow> k \<in> set (keys n m)"
| "step_by C k (Reconfigure e) \<longleftrightarrow> False"

lemma act_on_keys: "act_on n m e \<Longrightarrow> k \<notin> set (keys n m) \<Longrightarrow> \<not> ends_probe e k"
  by (cases e) (auto simp: keys_cases key_def split: if_splits)

lemma config_keeps_lease: "is_config e \<Longrightarrow> \<not> ends_probe e k"
  by (cases e) auto

lemma users_refused: "k \<notin> set (keys n m) \<Longrightarrow> cs c = None \<Longrightarrow> users (cs(c \<mapsto> (n, m))) k = users cs k"
  by (auto simp: users_def)

lemma users_done: "c \<notin> users cs k \<Longrightarrow> users (cs(c := None)) k = users cs k"
  by (auto simp: users_def)

lemma call_step_keeps:
  assumes "lease h k" and "\<not> step_by (users cs k) k l" and "call_apply l (h, cs) = (h', cs')"
  shows "lease h' k \<and> users cs' k = users cs k"
proof (cases l)
  case (CallStart c clk n m)
  show ?thesis
  proof (cases "cs c = None \<and> fst (IsHealthyModel clk n m h)")
    case True
    then have k: "k \<notin> set (keys n m)" using lease_blocks [OF assms(1), of n m clk] by auto
    then show ?thesis using assms(1,3) True CallStart users_refused [OF k]
      lease_apply [of h k "EvIsHealthy clk n m"] by (auto split: prod.splits)
  next
    case False
    then show ?thesis using assms(1,3) CallStart lease_apply [of h k "EvIsHealthy clk n m"] by (auto split: prod.splits if_splits)
  qed
next
  case (CallAct c e)
  then show ?thesis using assms act_on_keys lease_apply [of h k e]
    by (auto simp: users_def split: option.splits if_splits)
next
  case (CallDone c)
  then show ?thesis using assms users_done [of c cs k] by auto
next
  case (ProberResolve n m)
  then show ?thesis using assms lease_apply [of h k "EvResolve n m"] by auto
next
  case (Reconfigure e)
  then show ?thesis using assms config_keeps_lease [of e k] lease_apply [of h k e] by (auto split: if_splits)
qed

lemma calls_run_keeps:
  assumes "lease h k" and "list_all (\<lambda>l. \<not> step_by (users cs k) k l) ls" and "calls_run ls (h, cs) = (h', cs')"
  shows "lease h' k \<and> users cs' k = users cs k"
  using assms
proof (induction ls arbitrary: h cs)
  case (Cons l ls)
  obtain h1 cs1 where l: "call_apply l (h, cs) = (h1, cs1)" by fastforce
  then show ?case using call_step_keeps [OF Cons.prems(1) _ l] Cons.IH [of h1 cs1] Cons.prems by (simp add: calls_run_def)
qed (simp add: calls_run_def)

section \<open>Persistent circuits\<close>






section \<open>Opening\<close>

lemma escalatedCooldown_bounds:
  assumes "0 < maxEscalation h"
  shows "0 < escalatedCooldown h n" and "escalatedCooldown h n \<le> maxEscalation h"
  using assms by (auto simp: escalatedCooldown_def Let_def)

lemma escalatedCooldown_exact:
  assumes "0 < transientCooldown h" and "transientCooldown h < 2 ^ 47" and "1 \<le> n"
  shows "escalatedCooldown h n = min (maxEscalation h) (transientCooldown h * 2 ^ nat (min (n - 1) 16))"
proof -
  let ?e = "nat (min (n - 1) 16)"
  have "(2 :: int) ^ ?e \<le> 2 ^ 16" by (rule power_increasing) auto
  then have "transientCooldown h * 2 ^ ?e < 2 ^ 47 * 2 ^ 16"
    using assms(1,2) by (intro mult_less_le_imp_less) auto
  moreover have pos: "0 < transientCooldown h * 2 ^ ?e" using assms(1) by simp
  ultimately have "wrap64 (transientCooldown h * 2 ^ ?e) = transientCooldown h * 2 ^ ?e"
    by (intro wrap64_id) simp_all
  then show ?thesis using pos assms(3) by (auto simp: escalatedCooldown_def Let_def min_def split: if_splits)
qed

text \<open>Transient failures of one account at the given times, with no Retry-After.\<close>

fun fail_run :: "bytes \<Rightarrow> instant list \<Rightarrow> HealthTracker \<Rightarrow> HealthTracker" where
  "fail_run name [] h = h"
| "fail_run name (t # ts) h = fail_run name ts (RecordTransientFailure t name [] 0 h)"

text \<open>A circuit that is not open, with its failures in a row and how often it has opened.\<close>

definition counting :: "int \<Rightarrow> int \<Rightarrow> HealthTracker \<Rightarrow> bytes \<Rightarrow> bool" where
  "counting n c h k \<longleftrightarrow>
     (case states h k of None \<Rightarrow> n = 0 \<and> c = 0
      | Some s \<Rightarrow> consecutiveFails s = n \<and> openUntil s = None \<and> openCount s = c)"

text \<open>How long the failure that reaches the threshold opens the circuit.\<close>

definition open_duration :: "HealthTracker \<Rightarrow> int \<Rightarrow> duration \<Rightarrow> duration" where
  "open_duration h c ra =
     (if 0 < ra then max (retryAfterMin h) (min ra (retryAfterMax h))
      else min (maxEscalation h) (transientCooldown h * 2 ^ nat (min c 16)))"

lemma transient_sel [simp]:
  "transientThreshold (RecordTransientFailure t n m ra h) = transientThreshold h"
  "transientCooldown (RecordTransientFailure t n m ra h) = transientCooldown h"
  "maxEscalation (RecordTransientFailure t n m ra h) = maxEscalation h"
  "retryAfterMin (RecordTransientFailure t n m ra h) = retryAfterMin h"
  "retryAfterMax (RecordTransientFailure t n m ra h) = retryAfterMax h"
  by (simp_all add: RecordTransientFailure_def recordTransientOnKey_def Let_def)

lemma transient_on_flag [simp]: "\<not> probeInFlight (transient_on h now ra s)"
  by (simp add: transient_on_def Let_def)

lemma counting_step:
  "counting n c h k \<Longrightarrow> n + 1 < transientThreshold h \<Longrightarrow> counting (n + 1) c (RecordTransientFailure t k m 0 h) k"
  by (auto simp: counting_def RecordTransientFailure_def states_recordTransientOnKey transient_on_def
      circuitState0_def split: option.splits)

lemma counting_open:
  assumes "counting n c h k" and "transientThreshold h \<le> n + 1"
  shows "\<exists>s. states (RecordTransientFailure t k m ra h) k = Some s \<and> openCount s = c + 1 \<and>
    openUntil s = Some (t + (if ra > 0 then clampRetryAfter h ra else escalatedCooldown h (c + 1)))"
  using assms
  by (auto simp: counting_def RecordTransientFailure_def states_recordTransientOnKey transient_on_def Let_def
      circuitState0_def split: option.splits)

lemma counting_admits: "counting n c h k \<Longrightarrow> \<not> blockedOrProbed h now k"
  by (auto simp: counting_def blockedOrProbed_def split: option.splits)

lemma counting_run:
  "counting n c h k \<Longrightarrow> n + int (length ts) < transientThreshold h \<Longrightarrow> counting (n + int (length ts)) c (fail_run k ts h) k"
proof (induction ts arbitrary: n h)
  case (Cons t ts)
  then show ?case using counting_step [of n c h k t "[]"] Cons.IH [of "n + 1" "RecordTransientFailure t k [] 0 h"]
    by (simp add: algebra_simps)
qed simp

lemma fail_run_sel [simp]:
  "transientThreshold (fail_run k ts h) = transientThreshold h"
  "transientCooldown (fail_run k ts h) = transientCooldown h"
  "maxEscalation (fail_run k ts h) = maxEscalation h"
  "retryAfterMin (fail_run k ts h) = retryAfterMin h"
  "retryAfterMax (fail_run k ts h) = retryAfterMax h"
  by (induction ts arbitrary: h) simp_all

lemma fail_run_snoc: "fail_run k (ts @ [t]) h = RecordTransientFailure t k [] 0 (fail_run k ts h)"
  by (induction ts arbitrary: h) simp_all

lemma open_duration_eq:
  assumes "0 < transientCooldown h" "transientCooldown h < 2 ^ 47" "retryAfterMin h \<le> retryAfterMax h" "0 \<le> c"
  shows "(if ra > 0 then clampRetryAfter h ra else escalatedCooldown h (c + 1)) = open_duration h c ra"
  using escalatedCooldown_exact [OF assms(1,2), of "c + 1"] assms(3,4) by (auto simp: open_duration_def clampRetryAfter_def)

section \<open>Properties\<close>

text \<open>
  C1: Half-open probing admits one caller. Once a call was admitted through an expired circuit, no further call is admitted
  through that circuit, in every interleaving of the starts, outcomes, releases and ends of other calls with the changes of
  the configuration, until one of the calls that were in flight on the circuit at that moment (the prober itself, or an older
  call that has not ended yet) acts or ends, or the circuit is resolved by the prober service. The calls in flight on the
  circuit stay the same until then. When no older call is in flight the prober is alone.
\<close>

theorem probe_single_flight:
  assumes "IsHealthyModel clk n m h = (True, h1)" and "i < length (keys n m)" and "k = keys n m ! i"
    and "states h k = Some s" and "openUntil s = Some u" and "u < clk (2 + i)"
    and "cs1 = cs(p \<mapsto> (n, m))" and "list_all (\<lambda>l. \<not> step_by (users cs1 k) k l) ls" and "calls_run ls (h1, cs1) = (h2, cs2)"
  shows "users cs2 k = users cs1 k \<and> p \<in> users cs2 k \<and>
    (k \<in> set (keys n' m') \<longrightarrow> call_apply (CallStart c clk' n' m') (h2, cs2) = (h2, cs2))"
proof -
  have "lease h1 k" using admission_leases [OF assms(1,2)] assms(3-6) by blast
  then have r: "lease h2 k" "users cs2 k = users cs1 k" using calls_run_keeps [OF _ assms(8,9)] by blast+
  have "p \<in> users cs1 k" using assms(2,3,7) by (auto simp: users_def)
  then show ?thesis using r lease_blocks [OF r(1), of n' m' clk'] by simp
qed

definition demo_open :: HealthTracker where
  "demo_open = RecordPersistentFailure 0 ''p'' [] ''account'' 10 NewHealthTracker"

lemmas demo_open_simps = demo_open_def RecordPersistentFailure_def NewHealthTracker_def NewHealthTrackerWithConfig_def
  key_def circuitState0_def

text \<open>Call 1 probes the account, call 2 is admitted and fails elsewhere, call 3 is refused.\<close>

definition demo_probing :: "HealthTracker \<times> in_flight" where
  "demo_probing = calls_run [CallStart 2 (\<lambda>_. 12) ''q'' ''m'', CallAct 2 (EvTransient 13 ''q'' ''m'' 0), CallAct 3 (EvClearProbe ''p'' [])]
     (snd (IsHealthyModel (\<lambda>_. 11) ''p'' [] demo_open), Map.empty(1 \<mapsto> (''p'', [])))"

lemma demo_admitted: "IsHealthyModel (\<lambda>_. 11) ''p'' [] demo_open = (True, snd (IsHealthyModel (\<lambda>_. 11) ''p'' [] demo_open))"
proof -
  have "fst (IsHealthyModel (\<lambda>_. 11) ''p'' [] demo_open)"
    by (simp add: IsHealthyModel_blocked blockedOrProbed_def before_def demo_open_simps)
  then show ?thesis by (simp add: prod_eq_iff)
qed

theorem probe_single_flight_witness:
  "users (snd demo_probing) ''p'' = {1} \<and> call_apply (CallStart 3 (\<lambda>_. 20) ''p'' ''m'') demo_probing = demo_probing"
proof -
  have s: "states demo_open ''p'' = Some (circuitState0\<lparr>kind := kindPersistent, openUntil := Some 10\<rparr>)"
      "openUntil (circuitState0\<lparr>kind := kindPersistent, openUntil := Some 10\<rparr>) = Some 10" by (simp_all add: demo_open_simps)
  have u: "users (Map.empty(1 \<mapsto> (''p'', []))) ''p'' = {1}" by (auto simp: users_def keys_def)
  have r: "calls_run [CallStart 2 (\<lambda>_. 12) ''q'' ''m'', CallAct 2 (EvTransient 13 ''q'' ''m'' 0), CallAct 3 (EvClearProbe ''p'' [])]
     (snd (IsHealthyModel (\<lambda>_. 11) ''p'' [] demo_open), Map.empty(1 \<mapsto> (''p'', []))) = (fst demo_probing, snd demo_probing)"
    by (simp add: demo_probing_def)
  have l: "list_all (\<lambda>l. \<not> step_by (users (Map.empty(1 \<mapsto> (''p'', []))) ''p'') ''p'' l)
     [CallStart 2 (\<lambda>_. 12) ''q'' ''m'', CallAct 2 (EvTransient 13 ''q'' ''m'' 0), CallAct 3 (EvClearProbe ''p'' [])]"
    unfolding u by simp
  from probe_single_flight [OF demo_admitted _ _ s(1) s(2) _ refl l r, of 0 "''p''" "''m''" 3 "\<lambda>_. 20"] u
  show ?thesis by (simp add: keys_def)
qed

text \<open>Every circuit that the check consults is absent, or expired and not being probed.\<close>

definition probe_ready :: "HealthTracker \<Rightarrow> instant \<Rightarrow> bytes list \<Rightarrow> bool" where
  "probe_ready h t ks = list_all (\<lambda>k. case states h k of None \<Rightarrow> True
     | Some s \<Rightarrow> (case openUntil s of None \<Rightarrow> False | Some u \<Rightarrow> u < t \<and> \<not> probeInFlight s)) ks"

lemma probe_ready_admits: "probe_ready h t (keys n m) \<Longrightarrow> fst (IsHealthyModel (\<lambda>_. t) n m h)"
  by (auto simp: probe_ready_def IsHealthyModel_blocked blockedOrProbed_def before_def keys_def split: option.splits if_splits)

lemma probe_released:
  "probe_ready h t (keys n m) \<Longrightarrow> probe_ready (ClearProbe n m (snd (IsHealthyModel clk n m h))) t (keys n m)"
  unfolding probe_ready_def list_all_iff
proof
  fix k assume a: "\<forall>k \<in> set (keys n m). case states h k of None \<Rightarrow> True
      | Some s \<Rightarrow> (case openUntil s of None \<Rightarrow> False | Some u \<Rightarrow> u < t \<and> \<not> probeInFlight s)" and k: "k \<in> set (keys n m)"
  show "case states (ClearProbe n m (snd (IsHealthyModel clk n m h))) k of None \<Rightarrow> True
      | Some s \<Rightarrow> (case openUntil s of None \<Rightarrow> False | Some u \<Rightarrow> u < t \<and> \<not> probeInFlight s)"
    using bspec [OF a k] k by (cases "states h k") (auto simp: states_ClearProbe states_IsHealthyModel split: option.splits)
qed

text \<open>
  A call that was admitted before a circuit opened can free the probe of another one. With call \<open>a\<close> in flight, \<open>b\<close>
  becomes the probe of the expired circuit and \<open>c\<close> is refused; when \<open>a\<close> ends, its unconditional \<^verbatim>\<open>ClearProbe\<close> releases
  the lease of \<open>b\<close>, and \<open>c\<close> is admitted while \<open>b\<close> is still in flight: two calls probe the same circuit.
\<close>

lemma straggler_admits_second_probe:
  assumes "cs a = Some (n, m)" and "k \<in> set (keys n m)" and "users cs k = {a}" and "cs b = None" and "cs c = None" and "b \<noteq> c"
    and "probe_ready h t (keys n m)" and "states h k \<noteq> None"
    and "st = call_apply (CallStart b (\<lambda>_. t) n m) (h, cs)"
  shows "users (snd st) k = {a, b} \<and> call_apply (CallStart c (\<lambda>_. t) n m) st = st \<and>
    users (snd (calls_run [CallAct a (EvClearProbe n m), CallDone a, CallStart c (\<lambda>_. t) n m] st)) k = {b, c}"
proof -
  define h1 where "h1 = snd (IsHealthyModel (\<lambda>_. t) n m h)"
  have a1: "IsHealthyModel (\<lambda>_. t) n m h = (True, h1)" using probe_ready_admits [OF assms(7)] by (simp add: h1_def prod_eq_iff)
  have st: "st = (h1, cs(b \<mapsto> (n, m)))" using assms(4,9) a1 by simp
  have u1: "users (cs(b \<mapsto> (n, m))) k = {a, b}" using assms(2,3) by (auto simp: users_def)
  obtain s u where "states h k = Some s" "openUntil s = Some u" "u < t"
    using bspec [OF assms(7) [unfolded probe_ready_def list_all_iff] assms(2)] assms(8) by (auto split: option.splits)
  moreover obtain i where "i < length (keys n m)" "k = keys n m ! i" using assms(2) by (metis in_set_conv_nth)
  ultimately have "lease h1 k" using admission_leases [OF a1] by blast
  then have c1: "call_apply (CallStart c (\<lambda>_. t) n m) st = st" using lease_blocks [OF _ assms(2), of h1 "\<lambda>_. t"] by (simp add: st)
  obtain h2 where a2: "IsHealthyModel (\<lambda>_. t) n m (ClearProbe n m h1) = (True, h2)"
    using probe_ready_admits [OF probe_released [OF assms(7), of "\<lambda>_. t"]] unfolding h1_def [symmetric] by (metis prod.collapse)
  have ab: "a \<noteq> b" "a \<noteq> c" using assms(1,4,5) by auto
  have e: "snd (calls_run [CallAct a (EvClearProbe n m), CallDone a, CallStart c (\<lambda>_. t) n m] st) = (cs(b \<mapsto> (n, m), a := None))(c \<mapsto> (n, m))"
    using assms(1,5,6) ab by (simp add: calls_run_def st a2)
  have "users ((cs(b \<mapsto> (n, m), a := None))(c \<mapsto> (n, m))) k = insert c ({a, b} - {a})" unfolding u1 [symmetric]
    using assms(2) by (auto simp: users_def)
  then have "users (snd (calls_run [CallAct a (EvClearProbe n m), CallDone a, CallStart c (\<lambda>_. t) n m] st)) k = {b, c}"
    unfolding e using ab(1) by (simp add: insert_commute)
  then show ?thesis using u1 c1 by (simp add: st)
qed

lemma straggler_admits_second_probe_witness:
  "users (snd (calls_run [CallAct 1 (EvClearProbe ''p'' []), CallDone 1, CallStart 3 (\<lambda>_. 11) ''p'' []]
     (call_apply (CallStart 2 (\<lambda>_. 11) ''p'' []) (demo_open, Map.empty(1 \<mapsto> (''p'', [])))))) ''p'' = {2, 3}"
proof -
  have u: "users (Map.empty(1 \<mapsto> (''p'', []))) ''p'' = {1}" by (auto simp: users_def keys_def)
  have r: "probe_ready demo_open 11 (keys ''p'' [])" "states demo_open ''p'' \<noteq> None"
    by (simp_all add: keys_def probe_ready_def demo_open_simps)
  from straggler_admits_second_probe [of "Map.empty(1 \<mapsto> (''p'', []))" 1 "''p''" "[]" "''p''" 2 3, OF _ _ u _ _ _ r refl]
  show ?thesis by (simp add: keys_def)
qed



lemma open_counts:
  assumes "states h k = Some s" "openUntil s = Some u" "list_all (\<lambda>t. t \<le> u) ts" "consecutiveFails s + int (length ts) < transientThreshold h"
  shows "\<exists>s'. states (fail_run k ts h) k = Some s' \<and> openUntil s' = Some u \<and> openCount s' = openCount s \<and>
    consecutiveFails s' = consecutiveFails s + int (length ts)"
  using assms
proof (induction ts arbitrary: h s)
  case (Cons t ts)
  let ?h = "RecordTransientFailure t k [] 0 h"
  obtain s1 where s1: "states ?h k = Some s1" "openUntil s1 = Some u" "openCount s1 = openCount s" "consecutiveFails s1 = consecutiveFails s + 1"
    using Cons.prems by (simp add: RecordTransientFailure_def states_recordTransientOnKey transient_on_def after_def)
  show ?case using Cons.IH [OF s1(1,2)] s1 Cons.prems by (simp add: algebra_simps)
qed simp

text \<open>
  Late transient failures shorten a persistent circuit. While it is open, the transient failures of calls that were
  admitted before it opened are counted, and the one that reaches the threshold turns it into a transient circuit: the
  account is admitted again after the transient cooldown, although its persistent deadline is still to come.
\<close>

lemma late_failures_shorten_persistent:
  assumes "states h name = Some s" and "kind s = kindPersistent" and "openUntil s = Some u" and "0 \<le> openCount s"
    and "list_all (\<lambda>t. t \<le> u) (ts @ [t])" and "consecutiveFails s + int (length ts) + 1 = transientThreshold h"
    and "0 < transientCooldown h" and "transientCooldown h < 2 ^ 47"
  shows "(fst (IsHealthy clk name h) \<longrightarrow> u \<le> clk 0) \<and>
    (fst (IsHealthy clk name (fail_run name (ts @ [t]) h)) \<longleftrightarrow> t + open_duration h (openCount s) 0 \<le> clk 0)"
proof
  show "fst (IsHealthy clk name h) \<longrightarrow> u \<le> clk 0"
    using assms(1,3) by (auto simp: IsHealthy_def IsHealthyModel_blocked blockedOrProbed_def before_def)
  obtain s1 where s1: "states (fail_run name ts h) name = Some s1" "openUntil s1 = Some u" "openCount s1 = openCount s"
      "consecutiveFails s1 = consecutiveFails s + int (length ts)"
    using open_counts [OF assms(1,3), of ts] assms(5,6) by auto
  have e: "escalatedCooldown (fail_run name ts h) (openCount s + 1) = open_duration h (openCount s) 0"
    using escalatedCooldown_exact [of "fail_run name ts h" "openCount s + 1"] assms(4,7,8) by (simp add: open_duration_def)
  obtain s2 where "states (fail_run name (ts @ [t]) h) name = Some s2" "openUntil s2 = Some (t + open_duration h (openCount s) 0)"
      "\<not> probeInFlight s2"
    using s1 assms(5,6) by (simp add: fail_run_snoc RecordTransientFailure_def states_recordTransientOnKey transient_on_def after_def Let_def e)
  then show "fst (IsHealthy clk name (fail_run name (ts @ [t]) h)) \<longleftrightarrow> t + open_duration h (openCount s) 0 \<le> clk 0"
    by (auto simp: IsHealthy_def IsHealthyModel_blocked blockedOrProbed_def before_def)
qed

text \<open>A quota circuit of thirty minutes is over after one minute.\<close>

lemma late_failures_shorten_persistent_witness:
  "fst (IsHealthy (\<lambda>_. 61 * second) ''p'' (fail_run ''p'' ([1, 2] @ [3]) (RecordPersistentFailure 0 ''p'' [] ''account'' 0 NewHealthTracker)))"
  using late_failures_shorten_persistent [of "RecordPersistentFailure 0 ''p'' [] ''account'' 0 NewHealthTracker" "''p''"
      "circuitState0\<lparr>kind := kindPersistent, openUntil := Some (30 * minute)\<rparr>" "30 * minute" "[1, 2]" 3 "\<lambda>_. 61 * second"]
  by (simp add: demo_open_simps minute_def second_def open_duration_def)

text \<open>
  C24: Transient failures open an account's circuit exactly at the threshold. While the failures in a row stay below it every
  call is admitted; the failure that reaches it, as the \<open>c + 1\<close>-th opening in a row, blocks the account for the base
  cooldown times \<open>2 ^ c\<close>, capped by the escalation limit, or for the upstream's Retry-After within its bounds when it
  sent one, and not an instant longer.
\<close>

theorem transient_threshold_opens:
  assumes "counting f c h name" and "0 \<le> c" and "f + int (length ts) + 1 = transientThreshold h"
    and "0 < transientCooldown h" and "transientCooldown h < 2 ^ 47" and "retryAfterMin h \<le> retryAfterMax h"
  shows "(\<forall>j \<le> length ts. fst (IsHealthy clk name (fail_run name (take j ts) h))) \<and>
    (fst (IsHealthy clk name (RecordTransientFailure t name m ra (fail_run name ts h))) \<longleftrightarrow> t + open_duration h c ra \<le> clk 0)"
proof
  have r: "counting (f + int (length (take j ts))) c (fail_run name (take j ts) h) name" for j
    using counting_run [OF assms(1), of "take j ts"] assms(3) by simp
  show "\<forall>j \<le> length ts. fst (IsHealthy clk name (fail_run name (take j ts) h))"
    using counting_admits [OF r] by (simp add: IsHealthy_def IsHealthyModel_blocked)
  let ?h = "fail_run name ts h"
  have ct: "counting (f + int (length ts)) c ?h name" using r [of "length ts"] by simp
  have d: "(if ra > 0 then clampRetryAfter ?h ra else escalatedCooldown ?h (c + 1)) = open_duration h c ra"
    using open_duration_eq [of ?h c ra] assms(2,4-6) by (simp add: open_duration_def)
  obtain s where s: "states (RecordTransientFailure t name m ra ?h) name = Some s" "openUntil s = Some (t + open_duration h c ra)"
    using counting_open [OF ct, of t m ra] assms(3) unfolding d by auto
  have "\<not> probeInFlight s" using s(1) by (auto simp: RecordTransientFailure_def states_recordTransientOnKey)
  then show "fst (IsHealthy clk name (RecordTransientFailure t name m ra ?h)) \<longleftrightarrow> t + open_duration h c ra \<le> clk 0"
    using s by (auto simp: IsHealthy_def IsHealthyModel_blocked blockedOrProbed_def before_def)
qed

text \<open>After one opening and a failed probe, two further failures block the account for two minutes.\<close>

definition demo_reopen :: HealthTracker where
  "demo_reopen = fail_run ''p'' [1, 2, 3, 100 * second] NewHealthTracker"

theorem transient_threshold_opens_witness:
  "fst (IsHealthy (\<lambda>_. 230 * second) ''p'' (RecordTransientFailure (110 * second) ''p'' ''m'' 0 (fail_run ''p'' [105 * second] demo_reopen))) \<longleftrightarrow> True"
proof -
  have "counting 1 1 demo_reopen ''p''" "transientThreshold demo_reopen = 3" "transientCooldown demo_reopen = 60 * second"
    "retryAfterMin demo_reopen = 5 * second" "retryAfterMax demo_reopen = 5 * minute" "maxEscalation demo_reopen = 5 * minute"
    by (simp_all add: demo_reopen_def counting_def RecordTransientFailure_def states_recordTransientOnKey transient_on_def Let_def after_def
      escalatedCooldown_def wrap64_def NewHealthTracker_def NewHealthTrackerWithConfig_def circuitState0_def second_def minute_def recordTransientOnKey_def)
  then show ?thesis
    using transient_threshold_opens [of 1 1 demo_reopen "''p''" "[105 * second]" "\<lambda>_. 230 * second" "110 * second" "''m''" 0]
    by (simp add: second_def minute_def open_duration_def)
qed

text \<open>
  The cooldown of the n-th consecutive open doubles each time from the base and is capped by the
  escalation limit; for a base below 2^47 ns (39 hours) the shift never overflows.
\<close>

lemma escalation_doubles_to_cap:
  assumes "0 < transientCooldown h" and "transientCooldown h < 2 ^ 47" and "1 \<le> n"
  shows "escalatedCooldown h n = min (maxEscalation h) (transientCooldown h * 2 ^ nat (min (n - 1) 16))"
  using escalatedCooldown_exact [OF assms] .

lemma escalation_doubles_to_cap_witness: "escalatedCooldown NewHealthTracker 3 = 240 * second"
  using escalation_doubles_to_cap [of NewHealthTracker 3]
  by (simp add: NewHealthTracker_def NewHealthTrackerWithConfig_def second_def minute_def)

text \<open>
  Rate limits are isolated per model: recording a rate-limit failure of one model leaves the
  admission of every other model of the account, and of every other account, as it was.
\<close>

lemma rate_limit_isolated:
  assumes "model \<noteq> []" and "CHR 0x7C \<notin> set name" and "CHR 0x7C \<notin> set n'" and "(n', m') \<noteq> (name, model)"
  shows "fst (IsHealthyModel clk n' m' (RecordRateLimitFailure now name model ra h)) = fst (IsHealthyModel clk n' m' h)"
proof -
  have "n' \<noteq> model_key name model" using assms(3) by (auto simp: model_key_def)
  moreover have "model_key n' m' \<noteq> model_key name model" using assms model_key_split by blast
  ultimately show ?thesis
    using assms(1) by (simp add: IsHealthyModel_blocked blockedOrProbed_def RecordRateLimitFailure_def
        states_recordTransientOnKey)
qed

lemma rate_limit_isolated_witness:
  "fst (IsHealthyModel (\<lambda>_. 5) ''p'' ''b'' (RecordRateLimitFailure 4 ''p'' ''a'' 0 demo_open)) =
   fst (IsHealthyModel (\<lambda>_. 5) ''p'' ''b'' demo_open)"
  by (rule rate_limit_isolated) simp_all

text \<open>
  A failed half-open probe does not reopen the circuit: the failure that arrives after the deadline
  clears the deadline and restarts the count at one, so the next call is admitted whatever the time.
\<close>

lemma half_open_failure_closes:
  assumes "states h name = Some s" and "openUntil s = Some u" and "u < now"
  shows "fst (IsHealthy clk name (RecordTransientFailure now name model ra h))"
  using assms by (simp add: IsHealthy_def IsHealthyModel_blocked blockedOrProbed_def RecordTransientFailure_def
      states_recordTransientOnKey transient_on_def after_def)

lemma half_open_failure_closes_witness:
  "fst (IsHealthy (\<lambda>_. 12) ''p'' (RecordTransientFailure 11 ''p'' [] 0 demo_open))"
  by (rule half_open_failure_closes [of _ _ "circuitState0\<lparr>kind := kindPersistent, openUntil := Some 10\<rparr>" 10])
    (simp_all add: demo_open_simps)

text \<open>
  No provider is locked out forever: in every reachable state, if no probe of the account or the
  model is in flight, there is an instant from which on every admission check succeeds.
\<close>

lemma circuits_recover:
  assumes "ht_reachable h" and "\<forall>k \<in> set (keys n m). \<not> lease h k"
  shows "\<exists>T. \<forall>clk. (\<forall>i. T \<le> clk i) \<longrightarrow> fst (IsHealthyModel clk n m h)"
proof -
  define until where "until k = (case states h k of None \<Rightarrow> 0 | Some s \<Rightarrow> (case openUntil s of None \<Rightarrow> 0 | Some u \<Rightarrow> u))" for k
  define T where "T = Max (until ` set (keys n m))"
  have T: "until k \<le> T" if "k \<in> set (keys n m)" for k
    unfolding T_def using that by (intro Max_ge) auto
  have "\<not> blockedOrProbed h now k" if "k \<in> set (keys n m)" "T \<le> now" for k now
  proof (cases "states h k")
    case (Some s)
    have "\<not> (openUntil s \<noteq> None \<and> probeInFlight s)" using assms(2) that(1) Some by (simp add: lease_def)
    moreover have "\<not> before now (openUntil s)"
      using T [OF that(1)] that(2) Some by (simp add: until_def before_def split: option.splits)
    ultimately show ?thesis using Some by (auto simp: blockedOrProbed_def)
  qed (simp add: blockedOrProbed_def)
  then show ?thesis by (intro exI [of _ T]) (auto simp: IsHealthyModel_blocked keys_cases)
qed

lemma circuits_recover_witness: "\<exists>T. fst (IsHealthyModel (\<lambda>_. T) ''p'' ''m'' demo_open)"
proof -
  have "ht_reachable demo_open"
    using ht_reachable.step [OF ht_reachable.init [of 3 "60 * second"], of "EvPersistent 0 ''p'' [] ''account'' 10"]
    by (simp add: demo_open_def NewHealthTracker_def)
  moreover have "\<forall>k \<in> set (keys ''p'' ''m''). \<not> lease demo_open k"
    by (simp add: lease_def demo_open_simps keys_def model_key_def)
  ultimately obtain T where "\<forall>clk. (\<forall>i. T \<le> clk i) \<longrightarrow> fst (IsHealthyModel clk ''p'' ''m'' demo_open)"
    using circuits_recover by blast
  then show ?thesis by (intro exI [of _ T]) simp
qed

text \<open>
  C35: In every state the tracker can reach, the counters are non-negative, a probe is in flight only on a
  circuit with a deadline, recorded causes are at most 200 bytes, and threshold and cooldown are positive.
\<close>

theorem tracker_invariant:
  assumes "ht_reachable h"
  shows "0 < transientThreshold h \<and> 0 < transientCooldown h \<and>
    (\<forall>k s. states h k = Some s \<longrightarrow> 0 \<le> consecutiveFails s \<and> 0 \<le> openCount s \<and>
       (probeInFlight s \<longrightarrow> openUntil s \<noteq> None) \<and> length (lastErrMsg s) \<le> 200)"
  using ht_inv_reachable [OF assms] by (simp add: ht_inv_def circuit_ok_def)

theorem tracker_invariant_witness: "0 < transientThreshold (ht_apply (EvUpdateConfig 0 5) NewHealthTracker)"
  using tracker_invariant [OF ht_reachable.step [OF ht_reachable.init [of 3 "60 * second"], of "EvUpdateConfig 0 5"]]
  by (simp add: NewHealthTracker_def)

text \<open>
  The read-only state report agrees with admission: a call is refused at an instant when the report
  says open, and admitted when it says closed.
\<close>

lemma circuit_state_agrees:
  "(CircuitState_of h now n m = CircuitOpen \<longrightarrow> \<not> fst (IsHealthyModel (\<lambda>_. now) n m h)) \<and>
   (CircuitState_of h now n m = CircuitClosed \<longrightarrow> fst (IsHealthyModel (\<lambda>_. now) n m h))"
  by (auto simp: CircuitState_of_def IsHealthyModel_blocked key_state_def blockedOrProbed_def keys_def Let_def
      split: if_splits option.splits)

lemma circuit_state_agrees_witness:
  "\<not> fst (IsHealthyModel (\<lambda>_. 9) ''p'' [] demo_open) \<and> fst (IsHealthyModel (\<lambda>_. 9) ''q'' [] demo_open)"
  using circuit_state_agrees [of demo_open 9 "''p''" "[]"] circuit_state_agrees [of demo_open 9 "''q''" "[]"]
  by (simp add: CircuitState_of_def keys_def key_state_def demo_open_simps before_def)

end
