(* ===== verification/Routing.thy ===== *)
theory Routing
  imports Provider_Errors
begin

text \<open>
  Route candidates, the routing strategies and the health filter: \<^verbatim>\<open>internal/router/strategy.go\<close>,
  \<^verbatim>\<open>strategy_weighted.go\<close>, \<^verbatim>\<open>strategy_roundrobin.go\<close>, \<^verbatim>\<open>health_filter.go\<close>. A provider is the
  name its \<^verbatim>\<open>Name()\<close> returns. Weights are integers; \<^verbatim>\<open>float64\<close> weights, scores and prices are
  rational numbers. The random numbers and the answer of the Redis counter are arguments.
\<close>

section \<open>Strategies by name\<close>

definition StrategyWeightedRandom :: bytes where "StrategyWeightedRandom = ''weighted_random''"
definition StrategyRoundRobin :: bytes where "StrategyRoundRobin = ''round_robin''"
definition StrategyLeastLatency :: bytes where "StrategyLeastLatency = ''least_latency''"
definition StrategyLeastCost :: bytes where "StrategyLeastCost = ''least_cost''"
definition StrategyCanary :: bytes where "StrategyCanary = ''canary''"
definition StrategyLeastBusy :: bytes where "StrategyLeastBusy = ''least_busy''"

record GateChecker =
  RequirePro :: "goerr option"
  RequireEnterprise :: "goerr option"

definition IsValidStrategy :: "bytes \<Rightarrow> GateChecker option \<Rightarrow> bool" where
  "IsValidStrategy name gate =
     (case gate of
        None \<Rightarrow> name \<in> {StrategyWeightedRandom, StrategyRoundRobin, StrategyLeastLatency, StrategyLeastCost,
                          StrategyCanary, StrategyLeastBusy}
      | Some g \<Rightarrow>
          if name \<in> {StrategyWeightedRandom, StrategyRoundRobin} then True
          else if name \<in> {StrategyLeastLatency, StrategyLeastBusy} then RequirePro g = None
          else if name \<in> {StrategyLeastCost, StrategyCanary} then RequireEnterprise g = None
          else False)"

section \<open>Candidates and routes\<close>

record Provider_row =
  pr_Name :: bytes
  pr_AdapterType :: bytes
  pr_APIKey :: bytes
  pr_Status :: int

record FallbackConfig =
  MaxRetries :: int
  RetryOn :: "bytes list"
  RetryDelayMs :: int

definition FallbackConfig0 :: FallbackConfig where
  "FallbackConfig0 = \<lparr>MaxRetries = 0, RetryOn = [], RetryDelayMs = 0\<rparr>"

record RouteCandidate =
  rc_Provider :: bytes
  rc_ProviderModel :: bytes
  rc_ProviderRow :: "Provider_row option"
  rc_InputPrice :: rat
  rc_OutputPrice :: rat
  rc_Currency :: bytes
  rc_Weight :: int
  rc_Priority :: int
  rc_ModelID :: int
  rc_ModelName :: bytes
  rc_AvgLatencyMs :: rat
  rc_CanaryPercent :: int
  rc_ActiveRequests :: int
  rc_RetryConfig :: RetryConfig
  rc_FallbackModels :: "bytes list"
  rc_FallbackCfg :: FallbackConfig
  rc_ExtraConfig :: bytes
  rc_MaxContext :: "int option"

record RouteResult =
  rr_Provider :: bytes
  rr_ProviderModel :: bytes
  rr_InputPrice :: rat
  rr_OutputPrice :: rat
  rr_Currency :: bytes
  rr_ProviderRow :: "Provider_row option"
  rr_RetryConfig :: RetryConfig
  rr_FallbackModels :: "bytes list"
  rr_FallbackConfig :: FallbackConfig
  rr_ExtraConfig :: bytes
  rr_Weight :: int
  rr_Priority :: int
  rr_MaxContext :: "int option"

definition splitPrimariesFallbacks :: "RouteCandidate list \<Rightarrow> RouteCandidate list \<times> RouteCandidate list" where
  "splitPrimariesFallbacks cs = (filter (\<lambda>c. rc_Weight c > 0) cs, filter (\<lambda>c. \<not> rc_Weight c > 0) cs)"

definition candidateToRouteResult :: "RouteCandidate \<Rightarrow> RouteResult" where
  "candidateToRouteResult c =
     \<lparr>rr_Provider = rc_Provider c, rr_ProviderModel = rc_ProviderModel c, rr_InputPrice = rc_InputPrice c,
      rr_OutputPrice = rc_OutputPrice c, rr_Currency = rc_Currency c, rr_ProviderRow = rc_ProviderRow c,
      rr_RetryConfig = rc_RetryConfig c, rr_FallbackModels = rc_FallbackModels c,
      rr_FallbackConfig = rc_FallbackCfg c, rr_ExtraConfig = rc_ExtraConfig c, rr_Weight = rc_Weight c,
      rr_Priority = rc_Priority c, rr_MaxContext = rc_MaxContext c\<rparr>"

definition candidatesToRouteResults :: "RouteCandidate list \<Rightarrow> RouteResult list" where
  "candidatesToRouteResults cs = map candidateToRouteResult cs"

section \<open>Extra configuration\<close>

record extraConfig =
  ec_CanaryPercent :: int
  ec_NumRetries :: int
  ec_BackoffType :: bytes
  ec_InitialMs :: int
  ec_MaxBackoffMs :: int
  ec_FallbackModels :: "bytes list option"
  ec_Fallback_MaxRetries :: int
  ec_Fallback_RetryOn :: "bytes list option"
  ec_Fallback_RetryDelayMs :: int
  ec_Concurrency :: int
  ec_RPM :: int

definition extraConfig0 :: extraConfig where
  "extraConfig0 =
     \<lparr>ec_CanaryPercent = 0, ec_NumRetries = 0, ec_BackoffType = [], ec_InitialMs = 0, ec_MaxBackoffMs = 0,
      ec_FallbackModels = None, ec_Fallback_MaxRetries = 0, ec_Fallback_RetryOn = None,
      ec_Fallback_RetryDelayMs = 0, ec_Concurrency = 0, ec_RPM = 0\<rparr>"

text \<open>
  The guardrail section of the struct decodes into a field of its own that this package does not
  read; decoding errors in it are ignored like all others.
\<close>

definition dec_extraConfig :: "extraConfig dec" where
  "dec_extraConfig =
     dec_struct
       [fld ''canary_percent'' dec_int ec_CanaryPercent ec_CanaryPercent_update,
        fld ''num_retries'' dec_int ec_NumRetries ec_NumRetries_update,
        fld ''backoff_type'' dec_string ec_BackoffType ec_BackoffType_update,
        fld ''initial_ms'' dec_int ec_InitialMs ec_InitialMs_update,
        fld ''max_backoff_ms'' dec_int ec_MaxBackoffMs ec_MaxBackoffMs_update,
        fld ''fallback_models'' (dec_slice [] dec_string) ec_FallbackModels ec_FallbackModels_update,
        (''fallback'',
          dec_struct
            [fld ''max_retries'' dec_int ec_Fallback_MaxRetries ec_Fallback_MaxRetries_update,
             fld ''retry_on'' (dec_slice [] dec_string) ec_Fallback_RetryOn ec_Fallback_RetryOn_update,
             fld ''retry_delay_ms'' dec_int ec_Fallback_RetryDelayMs ec_Fallback_RetryDelayMs_update]),
        (''guardrails'', \<lambda>n r. (r, False)),
        fld ''concurrency'' dec_int ec_Concurrency ec_Concurrency_update,
        fld ''rpm'' dec_int ec_RPM ec_RPM_update]"

definition parseExtraConfig :: "bytes \<Rightarrow> extraConfig" where
  "parseExtraConfig raw_config =
     (if raw_config = [] then extraConfig0
      else let cfg = fst (unmarshal dec_extraConfig raw_config extraConfig0)
           in if ec_CanaryPercent cfg < 0 \<or> ec_CanaryPercent cfg > 100 then cfg\<lparr>ec_CanaryPercent := 0\<rparr> else cfg)"

definition ParseGuardrailConfig :: "bytes \<Rightarrow> int \<times> int" where
  "ParseGuardrailConfig raw_config =
     (let cfg = parseExtraConfig raw_config in (ec_Concurrency cfg, ec_RPM cfg))"

definition nonnil :: "'a list option \<Rightarrow> 'a list" where
  "nonnil xs = (case xs of None \<Rightarrow> [] | Some ys \<Rightarrow> ys)"

definition parseFallbackModels :: "bytes \<Rightarrow> bytes list" where
  "parseFallbackModels ec =
     (if ec = [] then []
      else case unmarshal (dec_struct [(''fallback_models'', dec_slice [] dec_string)]) ec None of
             (fm, err) \<Rightarrow> if err then [] else nonnil fm)"

definition parseCanaryPercent :: "bytes \<Rightarrow> int" where
  "parseCanaryPercent ec =
     (if ec = [] then 0
      else case unmarshal (dec_struct [(''canary_percent'', dec_int)]) ec 0 of
             (p, err) \<Rightarrow> if err then 0 else if p < 0 \<or> p > 100 then 0 else p)"

section \<open>Health filter\<close>

type_synonym HealthScoreFn = "bytes \<Rightarrow> bytes \<Rightarrow> rat"

definition score_of :: "HealthScoreFn \<Rightarrow> RouteCandidate \<Rightarrow> rat" where
  "score_of hf c = hf (rc_Provider c) (rc_ProviderModel c)"

definition filterByHealth ::
    "HealthScoreFn option \<Rightarrow> RouteCandidate list \<Rightarrow> RouteCandidate list \<Rightarrow> RouteCandidate list \<times> RouteCandidate list" where
  "filterByHealth healthFn primaries fallbacks =
     (case healthFn of
        None \<Rightarrow> (primaries, fallbacks)
      | Some hf \<Rightarrow>
          if primaries = [] then (primaries, fallbacks)
          else let healthy = filter (\<lambda>p. score_of hf p > 0) primaries;
                   demoted = filter (\<lambda>p. \<not> score_of hf p > 0) primaries
               in if healthy = [] then (primaries, fallbacks) else (healthy, fallbacks @ demoted))"

section \<open>Weighted random\<close>

definition effectiveWeight :: "RouteCandidate \<Rightarrow> HealthScoreFn option \<Rightarrow> rat" where
  "effectiveWeight c healthFn =
     (case healthFn of None \<Rightarrow> of_int (rc_Weight c) | Some hf \<Rightarrow> of_int (rc_Weight c) * score_of hf c)"

text \<open>
  The scan both pick functions share: the first candidate whose running total exceeds the draw. Weights are rows of a 32-bit
  column, so the 64-bit running totals do not wrap around and are kept as integers.
\<close>

fun pick_scan :: "('c \<Rightarrow> 'n :: linordered_idom) \<Rightarrow> 'n \<Rightarrow> 'n \<Rightarrow> 'c list \<Rightarrow> 'c option" where
  "pick_scan w rng running [] = None"
| "pick_scan w rng running (c # cs) =
     (if rng < running + w c then Some c else pick_scan w rng (running + w c) cs)"

definition weightedPickCandidates :: "(int \<Rightarrow> int) \<Rightarrow> RouteCandidate list \<Rightarrow> RouteCandidate option" where
  "weightedPickCandidates randIntN cs =
     (if cs = [] then None
      else let total = sum_list (map rc_Weight cs)
           in if total = 0 then Some (hd cs)
              else case pick_scan rc_Weight (randIntN total) 0 cs of
                     Some c \<Rightarrow> Some c
                   | None \<Rightarrow> Some (hd cs))"

definition weightedPickByEffective ::
    "rat \<Rightarrow> RouteCandidate list \<Rightarrow> HealthScoreFn option \<Rightarrow> RouteCandidate option" where
  "weightedPickByEffective randFloat cs healthFn =
     (if cs = [] then None
      else let total = sum_list (map (\<lambda>c. effectiveWeight c healthFn) cs)
           in if total \<le> 0 then Some (hd cs)
              else case pick_scan (\<lambda>c. effectiveWeight c healthFn) (randFloat * total) 0 cs of
                     Some c \<Rightarrow> Some c
                   | None \<Rightarrow> Some (hd cs))"

definition heavier :: "HealthScoreFn option \<Rightarrow> RouteCandidate \<Rightarrow> RouteCandidate \<Rightarrow> bool" where
  "heavier healthFn a b =
     (if effectiveWeight a healthFn \<noteq> effectiveWeight b healthFn
      then effectiveWeight a healthFn > effectiveWeight b healthFn
      else rc_Priority a < rc_Priority b)"

definition WeightedRandom_Select ::
    "HealthScoreFn option \<Rightarrow> rat \<Rightarrow> RouteCandidate list \<Rightarrow> RouteCandidate option \<times> RouteResult list" where
  "WeightedRandom_Select healthFn randFloat cs =
     (let (p0, f0) = splitPrimariesFallbacks cs;
          (primaries, fallbacks) = filterByHealth healthFn p0 f0
      in case weightedPickByEffective randFloat primaries healthFn of
           None \<Rightarrow> (None, candidatesToRouteResults fallbacks)
         | Some picked \<Rightarrow>
             let remaining = filter (\<lambda>p. rc_ModelID p \<noteq> rc_ModelID picked) primaries
             in (Some picked,
                 candidateToRouteResult picked #
                 candidatesToRouteResults (slice_stable (heavier healthFn) remaining) @
                 candidatesToRouteResults fallbacks))"

section \<open>Round robin\<close>

text \<open>
  \<open>incr\<close> is what \<^verbatim>\<open>INCR rr:<model>\<close> returns, None on a Redis error; a missing Redis client and a
  Redis error take the same path. Only \<^verbatim>\<open>INCR\<close> and \<^verbatim>\<open>EXPIRE\<close> touch the counter, which starts at zero, so
  its value is positive, and Redis answers with an error before it would overflow; the remainder of the division is the
  one of the code for these values. (A counter set below zero by other means would make the index negative, and the
  code panics.)
\<close>

definition pick_then_rest ::
    "RouteCandidate \<Rightarrow> RouteCandidate list \<Rightarrow> RouteCandidate list \<Rightarrow> RouteCandidate option \<times> RouteResult list" where
  "pick_then_rest picked primaries fallbacks =
     (Some picked,
      candidateToRouteResult picked #
      candidatesToRouteResults (filter (\<lambda>p. rc_ModelID p \<noteq> rc_ModelID picked) primaries) @
      candidatesToRouteResults fallbacks)"

definition RoundRobin_Select ::
    "HealthScoreFn option \<Rightarrow> (bytes \<Rightarrow> nat option) option \<Rightarrow> (int \<Rightarrow> int) \<Rightarrow> RouteCandidate list \<Rightarrow>
     RouteCandidate option \<times> RouteResult list" where
  "RoundRobin_Select healthFn rdb randIntN cs =
     (let (p0, f0) = splitPrimariesFallbacks cs;
          (primaries, fallbacks) = filterByHealth healthFn p0 f0;
          by_weight = (case weightedPickCandidates randIntN primaries of
                         None \<Rightarrow> (None, candidatesToRouteResults fallbacks)
                       | Some picked \<Rightarrow> pick_then_rest picked primaries fallbacks)
      in if primaries = [] then (None, candidatesToRouteResults fallbacks)
         else case rdb of
                None \<Rightarrow> by_weight
              | Some incr \<Rightarrow>
                  (case incr (''rr:'' @ rc_ModelName (hd primaries)) of
                     None \<Rightarrow> by_weight
                   | Some idx \<Rightarrow>
                       let i = idx mod length primaries; picked = primaries ! i
                       in (Some picked,
                           candidateToRouteResult picked #
                           candidatesToRouteResults (take i primaries @ drop (Suc i) primaries) @
                           candidatesToRouteResults fallbacks)))"

section \<open>The contract of a strategy\<close>

text \<open>
  What the resolver relies on: the order a strategy returns is a rearrangement of all the candidates, so
  every candidate stays available as a fallback, and a pick is a candidate of positive weight at its head.
  Candidates are rows of one table, told apart by their id.
\<close>

definition distinct_ids :: "RouteCandidate list \<Rightarrow> bool" where
  "distinct_ids cs \<longleftrightarrow> distinct (map rc_ModelID cs)"

locale routing_strategy =
  fixes select :: "RouteCandidate list \<Rightarrow> RouteCandidate option \<times> RouteResult list"
  assumes select_mset: "distinct_ids cs \<Longrightarrow> mset (snd (select cs)) = mset (map candidateToRouteResult cs)"
    and select_pick: "fst (select cs) = Some c \<Longrightarrow>
      c \<in> set cs \<and> 0 < rc_Weight c \<and> (\<exists>rest. snd (select cs) = candidateToRouteResult c # rest)"
    and select_none: "fst (select cs) = None \<longleftrightarrow> (\<forall>c \<in> set cs. rc_Weight c \<le> 0)"
begin

lemma select_set: "distinct_ids cs \<Longrightarrow> set (snd (select cs)) = candidateToRouteResult ` set cs"
  using select_mset by (metis list.set_map set_mset_mset)

lemma select_length: "distinct_ids cs \<Longrightarrow> length (snd (select cs)) = length cs"
  using select_mset by (metis length_map size_mset)

lemma select_nonempty: "distinct_ids cs \<Longrightarrow> cs \<noteq> [] \<Longrightarrow> snd (select cs) \<noteq> []"
  using select_length by fastforce

lemma select_primary_first:
  assumes "distinct_ids cs" and "c \<in> set cs" and "0 < rc_Weight c"
  shows "0 < rr_Weight (hd (snd (select cs)))"
proof -
  from assms(2,3) select_none [of cs] obtain p where p: "fst (select cs) = Some p" by force
  from select_pick [OF this] show ?thesis by (auto simp: candidateToRouteResult_def)
qed

end

section \<open>Health filter and picks\<close>

lemma mset_filter_parts: "mset (filter P xs) + mset (filter (\<lambda>x. \<not> P x) xs) = mset xs"
  by (simp add: mset_filter)

lemma filterByHealth_parts:
  assumes "filterByHealth hf p0 f0 = (p, f)"
  shows "mset p + mset f = mset p0 + mset f0" and "set p \<subseteq> set p0" and "p = [] \<longleftrightarrow> p0 = []"
proof -
  show "mset p + mset f = mset p0 + mset f0"
    using assms mset_filter_parts [of "\<lambda>p. score_of (the hf) p > 0" p0]
    by (auto simp: filterByHealth_def Let_def split: option.splits if_splits)
  show "set p \<subseteq> set p0" "p = [] \<longleftrightarrow> p0 = []"
    using assms by (auto simp: filterByHealth_def Let_def split: option.splits if_splits)
qed

lemma pick_scan_set: "pick_scan w rng run cs = Some c \<Longrightarrow> c \<in> set cs"
  by (induction cs arbitrary: run) (auto split: if_splits)

lemma weightedPickCandidates_set: "weightedPickCandidates r cs = Some c \<Longrightarrow> c \<in> set cs"
  by (auto simp: weightedPickCandidates_def Let_def dest: pick_scan_set split: if_splits option.splits)

lemma weightedPickByEffective_set: "weightedPickByEffective u cs hf = Some c \<Longrightarrow> c \<in> set cs"
  by (auto simp: weightedPickByEffective_def Let_def dest: pick_scan_set split: if_splits option.splits)

lemma picks_none:
  "weightedPickCandidates r cs = None \<longleftrightarrow> cs = []"
  "weightedPickByEffective u cs hf = None \<longleftrightarrow> cs = []"
  by (auto simp: weightedPickCandidates_def weightedPickByEffective_def Let_def split: option.splits)

lemma mset_pick_rest:
  assumes "distinct_ids cs" and "c \<in> set cs"
  shows "add_mset c (mset (filter (\<lambda>p. rc_ModelID p \<noteq> rc_ModelID c) cs)) = mset cs"
  using assms
proof (induction cs)
  case (Cons d cs)
  show ?case
  proof (cases "rc_ModelID d = rc_ModelID c")
    case True
    then have "d = c" using Cons.prems by (auto simp: distinct_ids_def)
    moreover have "filter (\<lambda>p. rc_ModelID p \<noteq> rc_ModelID c) cs = cs"
      using Cons.prems True by (simp add: distinct_ids_def filter_id_conv) (metis imageI)
    ultimately show ?thesis by simp
  next
    case False
    then show ?thesis using Cons by (auto simp: distinct_ids_def add_mset_commute)
  qed
qed simp

lemma distinct_ids_mset: "distinct_ids cs \<Longrightarrow> mset p + mset f = mset cs \<Longrightarrow> distinct_ids p"
proof -
  assume d: "distinct_ids cs" and m: "mset p + mset f = mset cs"
  have "distinct (map rc_ModelID (p @ f))"
    using d m unfolding distinct_ids_def
    by (metis mset_append mset_eq_imp_distinct_iff mset_map)
  then show ?thesis by (simp add: distinct_ids_def)
qed

lemma split_mset:
  "splitPrimariesFallbacks cs = (p0, f0) \<Longrightarrow> mset p0 + mset f0 = mset cs \<and> p0 = filter (\<lambda>c. rc_Weight c > 0) cs"
  using mset_filter_parts [of "\<lambda>c. rc_Weight c > 0" cs] by (auto simp: splitPrimariesFallbacks_def)

lemma filter_parts:
  assumes "splitPrimariesFallbacks cs = (p0, f0)" and "filterByHealth hf p0 f0 = (p, f)"
  shows "mset p + mset f = mset cs" and "set p \<subseteq> {c \<in> set cs. 0 < rc_Weight c}"
    and "p = [] \<longleftrightarrow> (\<forall>c \<in> set cs. rc_Weight c \<le> 0)"
  using split_mset [OF assms(1)] filterByHealth_parts [OF assms(2)]
  by (auto simp: filter_empty_conv not_less)

lemma filter_partsD:
  assumes "splitPrimariesFallbacks cs = (p0, f0)" and "filterByHealth hf p0 f0 = (p, f)" and "c \<in> set p"
  shows "c \<in> set cs" and "0 < rc_Weight c"
  using filter_parts(2) [OF assms(1,2)] assms(3) by auto

lemma pick_head_mset:
  assumes "distinct_ids p" and "c \<in> set p" and "mset rest = mset (filter (\<lambda>q. rc_ModelID q \<noteq> rc_ModelID c) p)"
    and "mset p + mset f = mset cs"
  shows "mset (candidateToRouteResult c # candidatesToRouteResults rest @ candidatesToRouteResults f) =
    mset (map candidateToRouteResult cs)"
proof -
  have "mset (c # rest @ f) = add_mset c (mset rest) + mset f" by simp
  also have "\<dots> = mset cs" unfolding assms(3) mset_pick_rest [OF assms(1,2)] by (rule assms(4))
  finally have "mset (c # rest @ f) = mset cs" .
  then have "mset (map candidateToRouteResult (c # rest @ f)) = mset (map candidateToRouteResult cs)"
    by (simp only: mset_map)
  then show ?thesis by (simp add: candidatesToRouteResults_def)
qed

lemma nth_rest_mset: "i < length xs \<Longrightarrow> add_mset (xs ! i) (mset (take i xs @ drop (Suc i) xs)) = mset xs"
  by (metis append_take_drop_id Cons_nth_drop_Suc add_mset_add_single mset.simps(2) mset_append union_mset_add_mset_right)

lemma WeightedRandom_cases:
  obtains (none) p0 f0 f where "splitPrimariesFallbacks cs = (p0, f0)" "filterByHealth hf p0 f0 = ([], f)"
    "WeightedRandom_Select hf u cs = (None, candidatesToRouteResults f)"
  | (some) p0 f0 p f c where "splitPrimariesFallbacks cs = (p0, f0)" "filterByHealth hf p0 f0 = (p, f)" "c \<in> set p"
    "weightedPickByEffective u p hf = Some c"
    "WeightedRandom_Select hf u cs = (Some c, candidateToRouteResult c #
       candidatesToRouteResults (slice_stable (heavier hf) (filter (\<lambda>q. rc_ModelID q \<noteq> rc_ModelID c) p)) @
       candidatesToRouteResults f)"
proof -
  obtain p0 f0 p f where sp: "splitPrimariesFallbacks cs = (p0, f0)" "filterByHealth hf p0 f0 = (p, f)"
    by (metis prod.collapse)
  show thesis
  proof (cases "weightedPickByEffective u p hf")
    case None
    then have "p = []" by (simp add: picks_none)
    then show ?thesis using none sp None by (simp add: WeightedRandom_Select_def)
  next
    case (Some c)
    then show ?thesis using some sp weightedPickByEffective_set [OF Some] by (simp add: WeightedRandom_Select_def Let_def)
  qed
qed

interpretation wr: routing_strategy "WeightedRandom_Select hf u" for hf u
proof
  fix cs c
  show "distinct_ids cs \<Longrightarrow> mset (snd (WeightedRandom_Select hf u cs)) = mset (map candidateToRouteResult cs)"
  proof (cases rule: WeightedRandom_cases [of cs hf u])
    case none
    then show ?thesis using filter_parts(1) [OF none(1,2)] by (simp add: candidatesToRouteResults_def)
  next
    case (some p0 f0 p f c)
    assume d: "distinct_ids cs"
    have "distinct_ids p" using distinct_ids_mset [OF d filter_parts(1) [OF some(1,2)]] .
    then show ?thesis using pick_head_mset [OF _ some(3) _ filter_parts(1) [OF some(1,2)]] some(5) by simp
  qed
  show "fst (WeightedRandom_Select hf u cs) = Some c \<Longrightarrow>
    c \<in> set cs \<and> 0 < rc_Weight c \<and> (\<exists>rest. snd (WeightedRandom_Select hf u cs) = candidateToRouteResult c # rest)"
    by (cases rule: WeightedRandom_cases [of cs hf u]) (auto dest: filter_partsD)
  show "fst (WeightedRandom_Select hf u cs) = None \<longleftrightarrow> (\<forall>c \<in> set cs. rc_Weight c \<le> 0)"
    by (cases rule: WeightedRandom_cases [of cs hf u]) (use filter_parts(3) in fastforce)+
qed

lemma RoundRobin_cases:
  obtains (none) p0 f0 f where "splitPrimariesFallbacks cs = (p0, f0)" "filterByHealth hf p0 f0 = ([], f)"
    "RoundRobin_Select hf rdb r cs = (None, candidatesToRouteResults f)"
  | (weight) p0 f0 p f c where "splitPrimariesFallbacks cs = (p0, f0)" "filterByHealth hf p0 f0 = (p, f)" "c \<in> set p"
    "RoundRobin_Select hf rdb r cs = pick_then_rest c p f"
  | (turn) p0 f0 p f i where "splitPrimariesFallbacks cs = (p0, f0)" "filterByHealth hf p0 f0 = (p, f)" "i < length p"
    "RoundRobin_Select hf rdb r cs = (Some (p ! i), candidateToRouteResult (p ! i) #
       candidatesToRouteResults (take i p @ drop (Suc i) p) @ candidatesToRouteResults f)"
proof -
  obtain p0 f0 p f where sp: "splitPrimariesFallbacks cs = (p0, f0)" "filterByHealth hf p0 f0 = (p, f)"
    by (metis prod.collapse)
  show thesis
  proof (cases "p = []")
    case True
    then show ?thesis using none sp by (simp add: RoundRobin_Select_def)
  next
    case False
    then obtain c where c: "weightedPickCandidates r p = Some c" using picks_none(1) by fastforce
    show ?thesis
    proof (cases "case rdb of None \<Rightarrow> None | Some incr \<Rightarrow> incr (''rr:'' @ rc_ModelName (hd p))")
      case None
      then have "RoundRobin_Select hf rdb r cs = pick_then_rest c p f"
        using False c sp by (simp add: RoundRobin_Select_def split: option.splits)
      then show ?thesis using weight sp weightedPickCandidates_set [OF c] by blast
    next
      case (Some idx)
      have "idx mod length p < length p" using False by simp
      from turn [OF sp this] show ?thesis using Some False sp
        by (simp add: RoundRobin_Select_def Let_def split: option.splits)
    qed
  qed
qed

interpretation rr: routing_strategy "RoundRobin_Select hf rdb r" for hf rdb r
proof
  fix cs c
  show "distinct_ids cs \<Longrightarrow> mset (snd (RoundRobin_Select hf rdb r cs)) = mset (map candidateToRouteResult cs)"
  proof (cases rule: RoundRobin_cases [of cs hf rdb r])
    case none
    then show ?thesis using filter_parts(1) [OF none(1,2)] by (simp add: candidatesToRouteResults_def)
  next
    case (weight p0 f0 p f c)
    assume d: "distinct_ids cs"
    have "distinct_ids p" using distinct_ids_mset [OF d filter_parts(1) [OF weight(1,2)]] .
    then show ?thesis using pick_head_mset [OF _ weight(3) _ filter_parts(1) [OF weight(1,2)]] weight(4)
      by (simp add: pick_then_rest_def)
  next
    case (turn p0 f0 p f i)
    have "mset (p ! i # (take i p @ drop (Suc i) p) @ f) = add_mset (p ! i) (mset (take i p @ drop (Suc i) p)) + mset f"
      by simp
    also have "\<dots> = mset cs" unfolding nth_rest_mset [OF turn(3)] by (rule filter_parts(1) [OF turn(1,2)])
    finally have "mset (p ! i # (take i p @ drop (Suc i) p) @ f) = mset cs" .
    then have "mset (map candidateToRouteResult (p ! i # (take i p @ drop (Suc i) p) @ f)) =
      mset (map candidateToRouteResult cs)" by (simp only: mset_map)
    then show ?thesis using turn(4) by (simp add: candidatesToRouteResults_def)
  qed
  show "fst (RoundRobin_Select hf rdb r cs) = Some c \<Longrightarrow>
    c \<in> set cs \<and> 0 < rc_Weight c \<and> (\<exists>rest. snd (RoundRobin_Select hf rdb r cs) = candidateToRouteResult c # rest)"
    by (cases rule: RoundRobin_cases [of cs hf rdb r])
      (auto simp: pick_then_rest_def dest: filter_partsD [OF _ _ nth_mem] filter_partsD)
  show "fst (RoundRobin_Select hf rdb r cs) = None \<longleftrightarrow> (\<forall>c \<in> set cs. rc_Weight c \<le> 0)"
    by (cases rule: RoundRobin_cases [of cs hf rdb r])
      (use filter_parts(3) in \<open>fastforce simp: pick_then_rest_def\<close>)+
qed

section \<open>Properties\<close>

lemma pick_scan_interval:
  assumes "\<forall>c \<in> set cs. 0 \<le> w c" and "i < length cs"
    and "run + sum_list (map w (take i cs)) \<le> rng" and "rng < run + sum_list (map w (take (Suc i) cs))"
  shows "pick_scan w rng run cs = Some (cs ! i)"
  using assms
proof (induction cs arbitrary: run i)
  case (Cons c cs)
  show ?case
  proof (cases i)
    case 0
    then show ?thesis using Cons.prems by simp
  next
    case (Suc j)
    have "0 \<le> sum_list (map w (take j cs))"
      using Cons.prems(1) by (intro sum_list_nonneg) (auto dest: in_set_takeD)
    then have "\<not> rng < run + w c" using Cons.prems(3) Suc by simp
    then show ?thesis using Cons.IH [of j "run + w c"] Cons.prems Suc by (simp add: add.assoc)
  qed
qed simp

text \<open>
  C34: Both community strategies return a rearrangement of all candidates, each exactly once (given
  distinct row ids): no mapping is lost or tried twice; and the route tried first has positive weight
  whenever some candidate has.
\<close>

theorem strategies_rearrange:
  assumes "distinct_ids cs"
  shows "mset (snd (WeightedRandom_Select hf u cs)) = mset (map candidateToRouteResult cs) \<and>
    mset (snd (RoundRobin_Select hf rdb r cs)) = mset (map candidateToRouteResult cs) \<and>
    (\<forall>c \<in> set cs. 0 < rc_Weight c \<longrightarrow>
       0 < rr_Weight (hd (snd (WeightedRandom_Select hf u cs))) \<and>
       0 < rr_Weight (hd (snd (RoundRobin_Select hf rdb r cs))))"
  using wr.select_mset [OF assms] rr.select_mset [OF assms] wr.select_primary_first [OF assms]
    rr.select_primary_first [OF assms] by blast

definition demo_candidate :: "int \<Rightarrow> int \<Rightarrow> RouteCandidate" where
  "demo_candidate i w =
     \<lparr>rc_Provider = ''p'', rc_ProviderModel = ''m'', rc_ProviderRow = None, rc_InputPrice = 0, rc_OutputPrice = 0,
      rc_Currency = [], rc_Weight = w, rc_Priority = 1, rc_ModelID = i, rc_ModelName = ''x'', rc_AvgLatencyMs = 0,
      rc_CanaryPercent = 0, rc_ActiveRequests = 0, rc_RetryConfig = RetryConfig0, rc_FallbackModels = [],
      rc_FallbackCfg = FallbackConfig0, rc_ExtraConfig = [], rc_MaxContext = None\<rparr>"

theorem strategies_rearrange_witness:
  "0 < rr_Weight (hd (snd (WeightedRandom_Select None 0 [demo_candidate 1 0, demo_candidate 2 5])))"
  using strategies_rearrange [of "[demo_candidate 1 0, demo_candidate 2 5]" None 0 None id]
  by (simp add: distinct_ids_def demo_candidate_def)

text \<open>
  Weighted random selects each candidate on exactly its share of the unit interval: the draw
  selects the i-th candidate when it falls between the partial sums of the effective weights before and
  after it, divided by the total.
\<close>

lemma weighted_pick_share:
  assumes "\<forall>c \<in> set cs. 0 \<le> effectiveWeight c hf" and "i < length cs"
    and "tot = sum_list (map (\<lambda>c. effectiveWeight c hf) cs)" and "0 < tot"
    and "sum_list (map (\<lambda>c. effectiveWeight c hf) (take i cs)) / tot \<le> u"
    and "u < sum_list (map (\<lambda>c. effectiveWeight c hf) (take (Suc i) cs)) / tot"
  shows "weightedPickByEffective u cs hf = Some (cs ! i)"
proof -
  have "pick_scan (\<lambda>c. effectiveWeight c hf) (u * tot) 0 cs = Some (cs ! i)"
    using assms by (intro pick_scan_interval) (simp_all add: field_simps)
  then show ?thesis using assms(2-4) by (auto simp: weightedPickByEffective_def Let_def)
qed

lemma weighted_pick_share_witness:
  "weightedPickByEffective (1 / 2) [demo_candidate 1 1, demo_candidate 2 3] None = Some (demo_candidate 2 3)"
  using weighted_pick_share [of "[demo_candidate 1 1, demo_candidate 2 3]" None 1 4 "1 / 2"]
  by (simp add: effectiveWeight_def demo_candidate_def)

lemma RoundRobin_turn:
  assumes "splitPrimariesFallbacks cs = (p0, f0)" and "filterByHealth hf p0 f0 = (p, f)" and "p \<noteq> []"
  shows "fst (RoundRobin_Select hf (Some (\<lambda>_. Some idx)) r cs) = Some (p ! (idx mod length p))"
  using assms by (simp add: RoundRobin_Select_def Let_def)

lemma rotation_bij:
  assumes "0 < n"
  shows "bij_betw (\<lambda>j. (idx + j) mod n) {..<n} {..<n :: nat}"
proof -
  have inj: "inj_on (\<lambda>j. (idx + j) mod n) {..<n}"
  proof (rule inj_onI)
    fix x y assume xy: "x \<in> {..<n}" "y \<in> {..<n}" "(idx + x) mod n = (idx + y) mod n"
    then have "(int idx + int x) mod int n = (int idx + int y) mod int n" by (metis of_nat_add of_nat_mod)
    then have "int x mod int n = int y mod int n" by (metis add_diff_cancel_left' mod_diff_left_eq)
    then show "x = y" using xy(1,2) by simp
  qed
  moreover have "(\<lambda>j. (idx + j) mod n) ` {..<n} \<subseteq> {..<n}" using assms by auto
  ultimately show ?thesis by (simp add: bij_betw_def endo_inj_surj)
qed

text \<open>
  Round robin is fair: while the pool of healthy primaries stays the same, any run of as many
  consecutive counter values as there are primaries picks each primary exactly once.
\<close>

lemma round_robin_fair:
  assumes "splitPrimariesFallbacks cs = (p0, f0)" and "filterByHealth hf p0 f0 = (p, f)" and "p \<noteq> []"
  shows "mset (map (\<lambda>j. fst (RoundRobin_Select hf (Some (\<lambda>_. Some (idx + j))) r cs)) [0..<length p]) =
    mset (map Some p)"
proof -
  let ?\<pi> = "\<lambda>j. (idx + j) mod length p"
  have "mset (map (\<lambda>j. fst (RoundRobin_Select hf (Some (\<lambda>_. Some (idx + j))) r cs)) [0..<length p]) =
    mset (map (\<lambda>i. Some (p ! i)) (map ?\<pi> [0..<length p]))"
    by (simp add: RoundRobin_turn [OF assms] comp_def)
  also have "mset (map ?\<pi> [0..<length p]) = mset [0..<length p]"
  proof (rule set_eq_iff_mset_eq_distinct [THEN iffD1])
    have "bij_betw ?\<pi> {..<length p} {..<length p}" using assms(3) by (intro rotation_bij) simp
    then show "distinct (map ?\<pi> [0..<length p])" "set (map ?\<pi> [0..<length p]) = set [0..<length p]"
      by (simp_all add: distinct_map bij_betw_def atLeast0LessThan)
  qed simp
  then have "mset (map (\<lambda>i. Some (p ! i)) (map ?\<pi> [0..<length p])) = mset (map (\<lambda>i. Some (p ! i)) [0..<length p])"
    by (simp only: mset_map)
  also have "map (\<lambda>i. Some (p ! i)) [0..<length p] = map Some p"
    by (rule nth_equalityI) simp_all
  finally show ?thesis .
qed

lemma round_robin_fair_witness:
  "mset (map (\<lambda>j. fst (RoundRobin_Select None (Some (\<lambda>_. Some (7 + j))) id [demo_candidate 1 1, demo_candidate 2 3]))
     [0..<2]) = {# Some (demo_candidate 1 1), Some (demo_candidate 2 3) #}"
  using round_robin_fair [of "[demo_candidate 1 1, demo_candidate 2 3]" "[demo_candidate 1 1, demo_candidate 2 3]" "[]" None
      "[demo_candidate 1 1, demo_candidate 2 3]" "[]" 7 id]
  by (simp add: splitPrimariesFallbacks_def filterByHealth_def demo_candidate_def numeral_2_eq_2)

text \<open>
  Neither strategy ever tries a primary with health score zero first while another primary has a
  positive score; such primaries stay in the order, after the configured fallbacks.
\<close>

lemma unhealthy_not_first:
  assumes "q \<in> set cs" and "0 < rc_Weight q" and "0 < score_of hf q"
    and "fst (WeightedRandom_Select (Some hf) u cs) = Some c \<or> fst (RoundRobin_Select (Some hf) rdb r cs) = Some c"
  shows "0 < score_of hf c"
proof -
  have "0 < score_of hf d" if "splitPrimariesFallbacks cs = (p0, f0)" "filterByHealth (Some hf) p0 f0 = (p, f)" "d \<in> set p"
    for p0 f0 p f d
  proof -
    have "q \<in> set p0" using that(1) assms(1,2) by (auto simp: splitPrimariesFallbacks_def)
    then show ?thesis using that(2,3) assms(3)
      by (auto simp: filterByHealth_def Let_def filter_empty_conv split: if_splits)
  qed
  then show ?thesis using assms(4)
    by (cases rule: WeightedRandom_cases [of cs "Some hf" u]; cases rule: RoundRobin_cases [of cs "Some hf" rdb r])
      (auto simp: pick_then_rest_def)
qed

lemma unhealthy_not_first_witness:
  "0 < score_of (\<lambda>_ m. if m = ''m'' then 1 else 0)
     (the (fst (WeightedRandom_Select (Some (\<lambda>_ m. if m = ''m'' then 1 else 0)) 0 [demo_candidate 1 2])))"
proof -
  let ?hf = "\<lambda>_ m. if m = ''m'' then 1 else 0 :: rat"
  have "fst (WeightedRandom_Select (Some ?hf) 0 [demo_candidate 1 2]) \<noteq> None"
    using wr.select_none [of "Some ?hf" 0 "[demo_candidate 1 2]"] by (simp add: demo_candidate_def)
  then obtain c where "fst (WeightedRandom_Select (Some ?hf) 0 [demo_candidate 1 2]) = Some c" by auto
  with unhealthy_not_first [of "demo_candidate 1 2" "[demo_candidate 1 2]" ?hf 0 c None id] show ?thesis
    by (simp add: score_of_def demo_candidate_def)
qed

end
