(* ===== verification/Resolver.thy ===== *)
theory Resolver
  imports Health_Tracker Routing
begin

text \<open>
  The route resolver of \<^verbatim>\<open>internal/router/router.go\<close>: the route cache, the negative cache for lookup
  failures, the uncached resolution and the health filter. The resolver's mutable maps are the record
  \<open>Resolver\<close>; what it is wired with (repository, registry, strategies, secret store, licence tier) is the
  record \<open>resolver_env\<close>. Clock readings are numbered by call site. The tracker is only read here. The
  single-flight protocol around the uncached path is the theory \<open>Resolve_Probe\<close>; \<open>Resolve\<close> is the path
  of the caller that owns the probe, whose effect every waiter shares.
\<close>

section \<open>Definitions\<close>

definition ErrNoActiveProvider :: goerr where "ErrNoActiveProvider = OtherErr ''no active provider''"
definition ErrResolveDegraded :: goerr where "ErrResolveDegraded = OtherErr ''resolve degraded''"

record ProviderModel_row =
  pm_ID :: int
  pm_ModelName :: bytes
  pm_ProviderModel :: bytes
  pm_Weight :: int
  pm_Priority :: int
  pm_Status :: int
  pm_MaxContext :: "int option"
  pm_InputPrice :: rat
  pm_OutputPrice :: rat
  pm_Currency :: bytes
  pm_RoutingStrategy :: bytes
  pm_ExtraConfig :: bytes
  pm_Provider :: Provider_row

type_synonym select_fn = "RouteCandidate list \<Rightarrow> RouteCandidate option \<times> RouteResult list"

record resolver_env =
  env_registry :: "bytes \<Rightarrow> bytes option"
  env_find :: "bytes \<Rightarrow> int \<Rightarrow> goerr + ProviderModel_row list"
  env_alias :: "(bytes \<Rightarrow> int \<Rightarrow> (goerr + RouteResult list) option) option"
  env_health :: "HealthTracker option"
  env_ttl :: duration
  env_strategies :: "bytes \<Rightarrow> select_fn option"
  env_latency :: "(bytes \<Rightarrow> rat) option"
  env_active :: "(bytes \<Rightarrow> int) option"
  env_secret :: "(bytes \<Rightarrow> goerr + bytes) option"
  env_healthFn :: "HealthScoreFn option"
  env_resolveTimeout :: duration
  env_minimum_tier :: "bytes \<Rightarrow> bytes"
  env_tier :: bytes

record Resolver =
  cache :: "bytes \<Rightarrow> (RouteResult list \<times> instant) option"
  healthScoreCache :: "bytes \<Rightarrow> (rat \<times> instant) option"
  degraded :: "(bytes \<times> instant) list"

definition resolveDegradedTTL :: duration where "resolveDegradedTTL = 3 * second"
definition degradedCacheCap :: nat where "degradedCacheCap = 8192"
definition healthScoreCacheTTL :: duration where "healthScoreCacheTTL = 2 * second"

definition NewResolver :: Resolver where
  "NewResolver = \<lparr>cache = Map.empty, healthScoreCache = Map.empty, degraded = []\<rparr>"

definition tier_order :: "bytes \<Rightarrow> nat" where
  "tier_order t = (if t = ''pro'' then 1 else if t = ''enterprise'' then 2 else 0)"

definition tierSufficient :: "bytes \<Rightarrow> bytes \<Rightarrow> bool" where
  "tierSufficient current required \<longleftrightarrow> tier_order current \<ge> tier_order required"

definition healthAllows :: "resolver_env \<Rightarrow> instant \<Rightarrow> bytes \<Rightarrow> bytes \<Rightarrow> bool" where
  "healthAllows E now name model =
     (case env_health E of None \<Rightarrow> True | Some h \<Rightarrow> CircuitState_of h now name model \<noteq> CircuitOpen)"

subsection \<open>The negative cache\<close>

text \<open>
  The map of suppressed keys is the list of its entries in the order Go happens to iterate them.
\<close>

definition markDegraded :: "instant \<Rightarrow> instant \<Rightarrow> bytes \<Rightarrow> Resolver \<Rightarrow> Resolver" where
  "markDegraded now later cacheKey r =
     (let d = degraded r;
          d1 = (if length d \<ge> degradedCacheCap then
                  let live = filter (\<lambda>e. \<not> snd e < now) d
                  in drop (length live - (degradedCacheCap - 1)) live
                else d)
      in r\<lparr>degraded := (cacheKey, later + resolveDegradedTTL) # filter (\<lambda>e. fst e \<noteq> cacheKey) d1\<rparr>)"

definition clearDegraded :: "bytes \<Rightarrow> Resolver \<Rightarrow> Resolver" where
  "clearDegraded cacheKey r = r\<lparr>degraded := filter (\<lambda>e. fst e \<noteq> cacheKey) (degraded r)\<rparr>"

definition degradedError :: "instant \<Rightarrow> instant \<Rightarrow> bytes \<Rightarrow> bytes \<Rightarrow> Resolver \<Rightarrow> goerr option \<times> Resolver" where
  "degradedError now later cacheKey modelName r =
     (case map_of (degraded r) cacheKey of
        None \<Rightarrow> (None, r)
      | Some until \<Rightarrow>
          if until < now then (None, clearDegraded cacheKey r)
          else (Some (Wrapped (err_msg ErrResolveDegraded @ '': query model mappings for model '' @ modelName @
                  '': recently failed (suppressed '' @ duration_string (round_to millisecond (until - later)) @ '')'')
                  ErrResolveDegraded), r))"

subsection \<open>Cached routes\<close>

definition score_key :: "bytes \<Rightarrow> bytes \<Rightarrow> bytes" where
  "score_key providerName model = providerName @ ''|'' @ model"

definition cachedHealthScore :: "HealthScoreFn \<Rightarrow> instant \<Rightarrow> bytes \<Rightarrow> bytes \<Rightarrow> Resolver \<Rightarrow> rat \<times> Resolver" where
  "cachedHealthScore hf now providerName model r =
     (let k = score_key providerName model
      in case healthScoreCache r k of
           Some (score, expire) \<Rightarrow>
             if now < expire then (score, r)
             else (hf providerName model,
                   r\<lparr>healthScoreCache := (healthScoreCache r)(k \<mapsto> (hf providerName model, now + healthScoreCacheTTL))\<rparr>)
         | None \<Rightarrow>
             (hf providerName model,
              r\<lparr>healthScoreCache := (healthScoreCache r)(k \<mapsto> (hf providerName model, now + healthScoreCacheTTL))\<rparr>))"

fun score_routes :: "HealthScoreFn \<Rightarrow> instant \<Rightarrow> RouteResult list \<Rightarrow> Resolver \<Rightarrow> (RouteResult \<times> rat) list \<times> Resolver" where
  "score_routes hf now [] r = ([], r)"
| "score_routes hf now (rr # rrs) r =
     (case cachedHealthScore hf now (rr_Provider rr) (rr_ProviderModel rr) r of
        (score, r1) \<Rightarrow>
          (case score_routes hf now rrs r1 of
             (items, r2) \<Rightarrow> ((rr, of_int (rr_Weight rr) * score) # items, r2)))"

definition item_less :: "RouteResult \<times> rat \<Rightarrow> RouteResult \<times> rat \<Rightarrow> bool" where
  "item_less a b = (if snd a \<noteq> snd b then snd a > snd b else rr_Priority (fst a) < rr_Priority (fst b))"

definition reorderByHealth :: "HealthScoreFn \<Rightarrow> instant \<Rightarrow> RouteResult list \<Rightarrow> Resolver \<Rightarrow> RouteResult list \<times> Resolver" where
  "reorderByHealth hf now routes r =
     (case score_routes hf now routes r of (items, r1) \<Rightarrow> (map fst (slice_stable item_less items), r1))"

definition no_active :: "bytes \<Rightarrow> bytes list \<Rightarrow> goerr" where
  "no_active modelName open_descs =
     Wrapped (err_msg ErrNoActiveProvider @ '' for model: '' @ modelName @
       (if open_descs \<noteq> [] then '' ('' @ join ''; '' open_descs @ '')'' else [])) ErrNoActiveProvider"

definition open_descriptions :: "resolver_env \<Rightarrow> instant \<Rightarrow> instant \<Rightarrow> (bytes \<times> bytes) list \<Rightarrow> bytes list" where
  "open_descriptions E now later nms =
     (case env_health E of
        None \<Rightarrow> []
      | Some h \<Rightarrow> filter (\<lambda>d. d \<noteq> []) (map (\<lambda>(n, m). OpenCircuitDescription now later h n m) nms))"

definition unroutableFromCache :: "resolver_env \<Rightarrow> instant \<Rightarrow> instant \<Rightarrow> bytes \<Rightarrow> RouteResult list \<Rightarrow> goerr" where
  "unroutableFromCache E now later modelName results =
     no_active modelName (open_descriptions E now later (map (\<lambda>rr. (rr_Provider rr, rr_ProviderModel rr)) results))"

text \<open>Readings: 0 the expiry check, 1 the circuit states, 2 and 3 the descriptions, 4 the scores.\<close>

definition serveFromCache ::
    "resolver_env \<Rightarrow> (nat \<Rightarrow> instant) \<Rightarrow> bytes \<Rightarrow> bytes \<Rightarrow> Resolver \<Rightarrow> (goerr + RouteResult list) option \<times> Resolver" where
  "serveFromCache E clk cacheKey modelName r =
     (case cache r cacheKey of
        None \<Rightarrow> (None, r)
      | Some (results, expire) \<Rightarrow>
          if \<not> clk 0 < expire then (None, r\<lparr>cache := (cache r)(cacheKey := None)\<rparr>)
          else
            let healthy = filter (\<lambda>rr. healthAllows E (clk 1) (rr_Provider rr) (rr_ProviderModel rr)) results
            in if env_health E \<noteq> None \<and> healthy = [] then
                 (Some (Inl (unroutableFromCache E (clk 2) (clk 3) modelName results)), r)
               else case env_healthFn E of
                      None \<Rightarrow> (Some (Inr healthy), r)
                    | Some hf \<Rightarrow> (case reorderByHealth hf (clk 4) healthy r of (rs, r1) \<Rightarrow> (Some (Inr rs), r1)))"

definition Invalidate :: "Resolver \<Rightarrow> Resolver" where
  "Invalidate r = r\<lparr>cache := Map.empty\<rparr>"

subsection \<open>Uncached resolution\<close>

definition routable :: "resolver_env \<Rightarrow> instant \<Rightarrow> ProviderModel_row \<Rightarrow> bool" where
  "routable E now m \<longleftrightarrow>
     pm_Status m = 1 \<and> pr_Status (pm_Provider m) = 1 \<and>
     env_registry E (pr_Name (pm_Provider m)) \<noteq> None \<and>
     healthAllows E now (pr_Name (pm_Provider m)) (pm_ProviderModel m) \<and>
     (let t = env_minimum_tier E (pr_AdapterType (pm_Provider m)) in t = [] \<or> tierSufficient (env_tier E) t)"

definition circuit_rejected :: "resolver_env \<Rightarrow> instant \<Rightarrow> ProviderModel_row \<Rightarrow> bool" where
  "circuit_rejected E now m \<longleftrightarrow>
     pm_Status m = 1 \<and> pr_Status (pm_Provider m) = 1 \<and>
     env_registry E (pr_Name (pm_Provider m)) \<noteq> None \<and>
     \<not> healthAllows E now (pr_Name (pm_Provider m)) (pm_ProviderModel m)"

definition build_candidate :: "resolver_env \<Rightarrow> ProviderModel_row \<Rightarrow> RouteCandidate option" where
  "build_candidate E m =
     (case env_registry E (pr_Name (pm_Provider m)) of
        None \<Rightarrow> None
      | Some p \<Rightarrow>
          let ec = parseExtraConfig (pm_ExtraConfig m)
          in Some
               \<lparr>rc_Provider = p, rc_ProviderModel = pm_ProviderModel m, rc_ProviderRow = Some (pm_Provider m),
                rc_InputPrice = pm_InputPrice m, rc_OutputPrice = pm_OutputPrice m, rc_Currency = pm_Currency m,
                rc_Weight = pm_Weight m, rc_Priority = pm_Priority m, rc_ModelID = pm_ID m,
                rc_ModelName = pm_ModelName m,
                rc_AvgLatencyMs = (case env_latency E of None \<Rightarrow> 0 | Some f \<Rightarrow> f (pr_Name (pm_Provider m))),
                rc_CanaryPercent = ec_CanaryPercent ec,
                rc_ActiveRequests = (case env_active E of None \<Rightarrow> 0 | Some f \<Rightarrow> f (pr_Name (pm_Provider m))),
                rc_RetryConfig =
                  \<lparr>NumRetries = ec_NumRetries ec, BackoffType = ec_BackoffType ec, InitialMs = ec_InitialMs ec,
                   MaxBackoffMs = ec_MaxBackoffMs ec\<rparr>,
                rc_FallbackModels = nonnil (ec_FallbackModels ec),
                rc_FallbackCfg =
                  \<lparr>MaxRetries = ec_Fallback_MaxRetries ec, RetryOn = nonnil (ec_Fallback_RetryOn ec),
                   RetryDelayMs = ec_Fallback_RetryDelayMs ec\<rparr>,
                rc_ExtraConfig = pm_ExtraConfig m, rc_MaxContext = pm_MaxContext m\<rparr>)"

definition resolve_secret :: "resolver_env \<Rightarrow> RouteCandidate \<Rightarrow> RouteCandidate" where
  "resolve_secret E rc =
     (case env_secret E of
        None \<Rightarrow> rc
      | Some f \<Rightarrow>
          (case rc_ProviderRow rc of
             None \<Rightarrow> rc
           | Some row \<Rightarrow>
               if pr_APIKey row = [] then rc
               else case f (pr_APIKey row) of
                      Inl _ \<Rightarrow> rc
                    | Inr resolved \<Rightarrow> rc\<lparr>rc_ProviderRow := Some (row\<lparr>pr_APIKey := resolved\<rparr>)\<rparr>))"

definition strategy_for :: "resolver_env \<Rightarrow> ProviderModel_row \<Rightarrow> select_fn option" where
  "strategy_for E m =
     (let name = (if pm_RoutingStrategy m = [] then StrategyWeightedRandom else pm_RoutingStrategy m)
      in case env_strategies E name of
           Some s \<Rightarrow> Some s
         | None \<Rightarrow> env_strategies E StrategyWeightedRandom)"

definition row_names :: "ProviderModel_row \<Rightarrow> bytes \<times> bytes" where
  "row_names m = (pr_Name (pm_Provider m), pm_ProviderModel m)"

text \<open>
  \<open>ctx\<close> is the caller's context error after the lookup. A missing weighted-random strategy would be a
  nil call in Go; the wiring always installs it, and the model has no route then.
\<close>

definition resolveUncached ::
    "resolver_env \<Rightarrow> (nat \<Rightarrow> instant) \<Rightarrow> goerr option \<Rightarrow> bytes \<Rightarrow> int \<Rightarrow> goerr + RouteResult list" where
  "resolveUncached E clk ctx modelName orgID =
     (let lt = (if env_resolveTimeout E \<le> 0 then 2 * second else env_resolveTimeout E)
      in case env_find E modelName orgID of
           Inl err \<Rightarrow>
             (case ctx of
                Some ce \<Rightarrow> Inl ce
              | None \<Rightarrow>
                  Inl (Wrapped (err_msg ErrResolveDegraded @ '': query model mappings for model '' @ modelName @
                    '' (bounded '' @ duration_string lt @ ''): '' @ err_msg err) ErrResolveDegraded))
         | Inr models \<Rightarrow>
             if models = [] then Inl (OtherErr (''no provider found for model: '' @ modelName))
             else
               let candidates = filter (routable E (clk 0)) models;
                   open_descs = open_descriptions E (clk 1) (clk 2) (map row_names (filter (circuit_rejected E (clk 0)) models))
               in if candidates = [] then Inl (no_active modelName open_descs)
                  else
                    let rcs = List.map_filter (build_candidate E) candidates
                    in if rcs = [] then Inl (no_active modelName [])
                       else case strategy_for E (hd candidates) of
                              None \<Rightarrow> Inl (no_active modelName [])
                            | Some select \<Rightarrow> Inr (snd (select (map (resolve_secret E) rcs))))"

definition cache_key :: "bytes \<Rightarrow> int \<Rightarrow> bytes" where
  "cache_key modelName orgID = modelName @ '':'' @ itoa orgID"

definition alias_lookup :: "resolver_env \<Rightarrow> bytes \<Rightarrow> int \<Rightarrow> (goerr + RouteResult list) option" where
  "alias_lookup E modelName orgID = (case env_alias E of None \<Rightarrow> None | Some f \<Rightarrow> f modelName orgID)"

text \<open>
  Readings: \<open>clk 0\<close> the checks before the probe, \<open>clk 1\<close> those inside it, \<open>clk 2\<close> the uncached
  resolution, \<open>clk 3\<close> the stores.
\<close>

definition Resolve ::
    "resolver_env \<Rightarrow> (nat \<Rightarrow> nat \<Rightarrow> instant) \<Rightarrow> goerr option \<Rightarrow> bytes \<Rightarrow> int \<Rightarrow> Resolver \<Rightarrow>
     (goerr + RouteResult list) \<times> Resolver" where
  "Resolve E clk ctx modelName orgID r =
     (case alias_lookup E modelName orgID of
        Some res \<Rightarrow> (res, r)
      | None \<Rightarrow>
          let k = cache_key modelName orgID
          in case degradedError (clk 0 5) (clk 0 6) k modelName r of
               (Some e, r1) \<Rightarrow> (Inl e, r1)
             | (None, r1) \<Rightarrow>
                 (case serveFromCache E (clk 0) k modelName r1 of
                    (Some res, r2) \<Rightarrow> (res, r2)
                  | (None, r2) \<Rightarrow>
                      (case degradedError (clk 1 5) (clk 1 6) k modelName r2 of
                         (Some e, r3) \<Rightarrow> (Inl e, r3)
                       | (None, r3) \<Rightarrow>
                           (case serveFromCache E (clk 1) k modelName r3 of
                              (Some res, r4) \<Rightarrow> (res, r4)
                            | (None, r4) \<Rightarrow>
                                (case resolveUncached E (clk 2) ctx modelName orgID of
                                   Inl err \<Rightarrow>
                                     (Inl err,
                                      if err_is err ErrResolveDegraded then markDegraded (clk 3 0) (clk 3 1) k r4 else r4)
                                 | Inr ordered \<Rightarrow>
                                     (let r5 = clearDegraded k r4
                                      in (Inr ordered,
                                          r5\<lparr>cache := (cache r5)(k \<mapsto> (ordered, clk 3 2 + env_ttl E))\<rparr>)))))))"

definition ResolveSingle ::
    "resolver_env \<Rightarrow> (nat \<Rightarrow> nat \<Rightarrow> instant) \<Rightarrow> goerr option \<Rightarrow> bytes \<Rightarrow> int \<Rightarrow> Resolver \<Rightarrow>
     (goerr + RouteResult option) \<times> Resolver" where
  "ResolveSingle E clk ctx modelName orgID r =
     (case Resolve E clk ctx modelName orgID r of
        (Inl e, r1) \<Rightarrow> (Inl e, r1)
      | (Inr rs, r1) \<Rightarrow> (Inr (case rs of [] \<Rightarrow> None | x # _ \<Rightarrow> Some x), r1))"

section \<open>The negative cache\<close>

definition degraded_bounded :: "Resolver \<Rightarrow> bool" where
  "degraded_bounded r \<longleftrightarrow> length (degraded r) \<le> degradedCacheCap"

lemma markDegraded_bounded: "degraded_bounded r \<Longrightarrow> degraded_bounded (markDegraded now later k r)"
proof -
  assume "degraded_bounded r"
  have "length (drop (length live - (degradedCacheCap - 1)) live) \<le> degradedCacheCap - 1"
    for live :: "(bytes \<times> instant) list" by simp
  moreover have "0 < degradedCacheCap" by (simp add: degradedCacheCap_def)
  ultimately show ?thesis
    using \<open>degraded_bounded r\<close> length_filter_le
    by (auto simp: degraded_bounded_def markDegraded_def Let_def Suc_le_eq intro: le_less_trans [OF length_filter_le]
        intro!: le_less_trans [OF length_filter_le])
qed

lemma clearDegraded_bounded: "degraded_bounded r \<Longrightarrow> degraded_bounded (clearDegraded k r)"
  by (auto simp: degraded_bounded_def clearDegraded_def intro: order_trans [OF length_filter_le])

lemma degraded_cachedHealthScore [simp]: "degraded (snd (cachedHealthScore hf now n m r)) = degraded r"
  by (simp add: cachedHealthScore_def Let_def split: option.split prod.split)

lemma degraded_score_routes [simp]: "degraded (snd (score_routes hf now rrs r)) = degraded r"
  by (induction rrs arbitrary: r) (simp_all add: split_beta)

lemma degraded_serveFromCache [simp]: "degraded (snd (serveFromCache E clk k m r)) = degraded r"
  by (simp add: serveFromCache_def reorderByHealth_def split_beta Let_def split: option.split)

lemma degradedError_bounded: "degraded_bounded r \<Longrightarrow> degraded_bounded (snd (degradedError now later k m r))"
  by (simp add: degradedError_def clearDegraded_bounded split: option.split)

lemma cache_score_routes [simp]: "cache (snd (score_routes hf now rrs r)) = cache r"
  by (induction rrs arbitrary: r)
    (simp_all add: split_beta cachedHealthScore_def Let_def split: option.split)

section \<open>Paths of Resolve\<close>

lemma Resolve_cases:
  assumes "Resolve E clk ctx m org r = (res, r')" and "alias_lookup E m org = None"
  obtains (degraded) e i r1 where "degraded_bounded r \<longrightarrow> degraded_bounded r1" "i \<in> {0, 1}" "degradedError (clk i 5) (clk i 6) (cache_key m org) m r1 = (Some e, r')" "res = Inl e"
  | (cached) i r1 where "degraded_bounded r \<longrightarrow> degraded_bounded r1" "i \<in> {0, 1}" "serveFromCache E (clk i) (cache_key m org) m r1 = (Some res, r')"
  | (failed) err r4 where "degraded_bounded r \<longrightarrow> degraded_bounded r4" "resolveUncached E (clk 2) ctx m org = Inl err" "res = Inl err"
      "r' = (if err_is err ErrResolveDegraded then markDegraded (clk 3 0) (clk 3 1) (cache_key m org) r4 else r4)"
  | (fresh) ordered r4 where "degraded_bounded r \<longrightarrow> degraded_bounded r4" "resolveUncached E (clk 2) ctx m org = Inr ordered" "res = Inr ordered"
      "r' = (clearDegraded (cache_key m org) r4)\<lparr>cache :=
        (cache (clearDegraded (cache_key m org) r4))(cache_key m org \<mapsto> (ordered, clk 3 2 + env_ttl E))\<rparr>"
proof -
  let ?k = "cache_key m org"
  obtain d1 r1 where d1: "degradedError (clk 0 5) (clk 0 6) ?k m r = (d1, r1)" by (metis prod.collapse)
  obtain c1 r2 where c1: "serveFromCache E (clk 0) ?k m r1 = (c1, r2)" by (metis prod.collapse)
  obtain d2 r3 where d2: "degradedError (clk 1 5) (clk 1 6) ?k m r2 = (d2, r3)" by (metis prod.collapse)
  obtain c2 r4 where c2: "serveFromCache E (clk 1) ?k m r3 = (c2, r4)" by (metis prod.collapse)
  have b1: "degraded_bounded r \<longrightarrow> degraded_bounded r1" using degradedError_bounded [of r "clk 0 5" "clk 0 6" ?k m] d1 by simp
  have b2: "degraded_bounded r \<longrightarrow> degraded_bounded r2"
    using b1 degraded_serveFromCache [of E "clk 0" ?k m r1] c1 by (simp add: degraded_bounded_def)
  have b3: "degraded_bounded r \<longrightarrow> degraded_bounded r3" using b2 degradedError_bounded [of r2 "clk 1 5" "clk 1 6" ?k m] d2 by simp
  have b4: "degraded_bounded r \<longrightarrow> degraded_bounded r4"
    using b3 arg_cong [OF c2, of "degraded \<circ> snd"] by (simp add: degraded_bounded_def)
  note R = assms(1) [unfolded Resolve_def assms(2) option.case Let_def d1 prod.case]
  show thesis
  proof (cases d1)
    case (Some e)
    then show ?thesis using R d1 degraded [of r 0 e] by simp
  next
    case None
    note R = R [unfolded None option.case c1 prod.case]
    show ?thesis
    proof (cases c1)
      case (Some a)
      then show ?thesis using R c1 b1 cached [of r1 0] by simp
    next
      case None
      note R = R [unfolded None option.case d2 prod.case]
      show ?thesis
      proof (cases d2)
        case (Some e)
        then show ?thesis using R d2 b2 degraded [of r2 1 e] by simp
      next
        case None
        note R = R [unfolded None option.case c2 prod.case]
        show ?thesis
        proof (cases c2)
          case (Some a)
          then show ?thesis using R c2 b3 cached [of r3 1] by simp
        next
          case None
          note R = R [unfolded None option.case]
          show ?thesis
            using R b4 failed [of r4] fresh [of r4] by (auto split: sum.splits)
        qed
      qed
    qed
  qed
qed


section \<open>Which routes come back\<close>

definition own_names :: "resolver_env \<Rightarrow> bool" where
  "own_names E \<longleftrightarrow> (\<forall>n p. env_registry E n = Some p \<longrightarrow> p = n)"

definition good_strategies :: "resolver_env \<Rightarrow> bool" where
  "good_strategies E \<longleftrightarrow> (\<forall>n s. env_strategies E n = Some s \<longrightarrow> routing_strategy s)"

lemma resolve_secret_sel [simp]:
  "rc_Provider (resolve_secret E c) = rc_Provider c" "rc_ProviderModel (resolve_secret E c) = rc_ProviderModel c"
  "rc_ModelID (resolve_secret E c) = rc_ModelID c" "rc_Weight (resolve_secret E c) = rc_Weight c"
  by (simp_all add: resolve_secret_def split: option.split sum.split)

lemma build_candidate_sel:
  "build_candidate E m = Some c \<Longrightarrow> rc_ModelID c = pm_ID m \<and> rc_ProviderModel c = pm_ProviderModel m \<and>
     env_registry E (pr_Name (pm_Provider m)) = Some (rc_Provider c)"
  by (auto simp: build_candidate_def Let_def split: option.splits)

lemma build_candidates_all:
  assumes "\<forall>m \<in> set ms. env_registry E (pr_Name (pm_Provider m)) \<noteq> None"
  shows "map rc_ModelID (List.map_filter (build_candidate E) ms) = map pm_ID ms"
  using assms by (induction ms) (auto simp: List.map_filter_simps build_candidate_def Let_def)

lemma set_map_filter: "set (List.map_filter f xs) = {y. \<exists>x \<in> set xs. f x = Some y}"
  by (induction xs) (auto simp: List.map_filter_simps split: option.splits)

lemma resolveUncached_routes:
  assumes "resolveUncached E clk ctx m org = Inr ordered" and "env_find E m org = Inr models"
    and "distinct (map pm_ID models)" and "good_strategies E" and "own_names E" and "rr \<in> set ordered"
  shows "\<exists>row \<in> set models. routable E (clk 0) row \<and> rr_Provider rr = pr_Name (pm_Provider row) \<and>
    rr_ProviderModel rr = pm_ProviderModel row"
proof -
  let ?cs = "filter (routable E (clk 0)) models"
  let ?rcs = "map (resolve_secret E) (List.map_filter (build_candidate E) ?cs)"
  obtain select where "strategy_for E (hd ?cs) = Some select" and o: "ordered = snd (select ?rcs)"
    using assms(1,2) by (auto simp: resolveUncached_def Let_def split: if_splits option.splits)
  then have s: "routing_strategy select"
    using assms(4) by (auto simp: strategy_for_def good_strategies_def Let_def split: option.splits)
  have "map rc_ModelID ?rcs = map pm_ID ?cs"
    using build_candidates_all [of ?cs E] by (simp add: routable_def comp_def)
  then have "distinct_ids ?rcs"
    using assms(3) by (simp add: distinct_ids_def distinct_map_filter)
  then have "set ordered = candidateToRouteResult ` set ?rcs"
    unfolding o by (rule routing_strategy.select_set [OF s])
  then obtain c row where "rr = candidateToRouteResult (resolve_secret E c)" "row \<in> set ?cs" "build_candidate E row = Some c"
    using assms(6) by (auto simp: set_map_filter)
  then show ?thesis
    using build_candidate_sel [of E row c] assms(5) by (auto simp: candidateToRouteResult_def own_names_def)
qed

lemma score_routes_fst: "map fst (fst (score_routes hf now rrs r)) = rrs"
  by (induction rrs arbitrary: r) (simp_all add: split_beta)

lemma set_reorderByHealth: "set (fst (reorderByHealth hf now rrs r)) = set rrs"
proof -
  have "set (fst (reorderByHealth hf now rrs r)) = set (map fst (fst (score_routes hf now rrs r)))"
    by (simp add: reorderByHealth_def split_beta)
  then show ?thesis by (simp only: score_routes_fst)
qed

lemma serveFromCache_routes:
  assumes "serveFromCache E clk k m r = (Some (Inr rs), r')" and "rr \<in> set rs"
  shows "healthAllows E (clk 1) (rr_Provider rr) (rr_ProviderModel rr)"
proof -
  let ?healthy = "\<lambda>results. filter (\<lambda>rr. healthAllows E (clk 1) (rr_Provider rr) (rr_ProviderModel rr)) results"
  from assms(1) obtain results ex where c: "cache r k = Some (results, ex)"
    by (auto simp: serveFromCache_def split: option.splits)
  have "set rs = set (?healthy results)"
  proof (cases "env_healthFn E")
    case None
    then show ?thesis using assms(1) c by (auto simp: serveFromCache_def Let_def split: if_splits)
  next
    case (Some hf)
    then have "rs = fst (reorderByHealth hf (clk 4) (?healthy results) r)"
      using assms(1) c by (auto simp: serveFromCache_def Let_def split_beta split: if_splits)
    then show ?thesis by (simp only: set_reorderByHealth)
  qed
  then show ?thesis using assms(2) by simp
qed

lemma resolve_routes_allowed:
  assumes "Resolve E clk ctx m org r = (Inr rs, r')" and "alias_lookup E m org = None"
    and "good_strategies E" and "own_names E"
    and "\<And>models. env_find E m org = Inr models \<Longrightarrow> distinct (map pm_ID models)" and "rr \<in> set rs"
  shows "\<exists>t \<in> {clk 0 1, clk 1 1, clk 2 0}. healthAllows E t (rr_Provider rr) (rr_ProviderModel rr)"
  using assms(1,2)
proof (cases rule: Resolve_cases)
  case (cached i r1)
  then show ?thesis using serveFromCache_routes [OF _ assms(6)] by auto
next
  case (fresh ordered r4)
  then obtain models where f: "env_find E m org = Inr models"
    by (auto simp: resolveUncached_def Let_def split: sum.splits option.splits)
  then show ?thesis
    using resolveUncached_routes [OF fresh(2) f assms(5) [OF f] assms(3,4), of rr] assms(6) fresh(3)
    by (auto simp: routable_def)
qed simp_all

section \<open>Properties\<close>

text \<open>
  C25: A route the resolver returns, cached or freshly resolved, was not behind an open circuit when its
  circuits were read, provided the strategies keep their contract and providers are registered under
  their own names.
\<close>

theorem resolve_avoids_open_circuits:
  assumes "Resolve E clk ctx m org r = (Inr rs, r')" and "alias_lookup E m org = None"
    and "good_strategies E" and "own_names E"
    and "\<And>models. env_find E m org = Inr models \<Longrightarrow> distinct (map pm_ID models)" and "rr \<in> set rs" and "env_health E = Some h"
  shows "\<exists>t \<in> {clk 0 1, clk 1 1, clk 2 0}. CircuitState_of h t (rr_Provider rr) (rr_ProviderModel rr) \<noteq> CircuitOpen"
proof -
  obtain t where "t \<in> {clk 0 1, clk 1 1, clk 2 0}" "healthAllows E t (rr_Provider rr) (rr_ProviderModel rr)"
    using resolve_routes_allowed [OF assms(1-6)] by blast
  then show ?thesis using assms(7) by (auto simp: healthAllows_def)
qed

definition demo_row :: ProviderModel_row where
  "demo_row =
     \<lparr>pm_ID = 1, pm_ModelName = ''m'', pm_ProviderModel = ''um'', pm_Weight = 1, pm_Priority = 1, pm_Status = 1,
      pm_MaxContext = None, pm_InputPrice = 0, pm_OutputPrice = 0, pm_Currency = ''CNY'', pm_RoutingStrategy = [],
      pm_ExtraConfig = [],
      pm_Provider = \<lparr>pr_Name = ''p'', pr_AdapterType = ''openai'', pr_APIKey = [], pr_Status = 1\<rparr>\<rparr>"

definition demo_renv :: resolver_env where
  "demo_renv =
     \<lparr>env_registry = (\<lambda>n. if n = ''p'' then Some n else None),
      env_find = (\<lambda>m _. if m = ''m'' then Inr [demo_row] else Inl (OtherErr ''down'')),
      env_alias = None, env_health = Some NewHealthTracker, env_ttl = 30 * second,
      env_strategies = (\<lambda>n. if n = StrategyWeightedRandom then Some (WeightedRandom_Select None 0) else None),
      env_latency = None, env_active = None, env_secret = None, env_healthFn = None, env_resolveTimeout = 0,
      env_minimum_tier = (\<lambda>_. []), env_tier = ''community''\<rparr>"

lemma demo_renv_contract: "good_strategies demo_renv" "own_names demo_renv"
  by (auto simp: good_strategies_def own_names_def demo_renv_def wr.routing_strategy_axioms split: if_splits)

lemma demo_resolve:
  obtains rs r' where "Resolve demo_renv (\<lambda>_ _. 5) None ''m'' 1 NewResolver = (Inr rs, r')"
    and "rs = snd (WeightedRandom_Select None 0 [the (build_candidate demo_renv demo_row)])"
  by (simp add: Resolve_def alias_lookup_def Let_def degradedError_def NewResolver_def serveFromCache_def resolveUncached_def demo_renv_def
      routable_def demo_row_def healthAllows_def CircuitState_of_def keys_def key_state_def NewHealthTracker_def
      NewHealthTrackerWithConfig_def strategy_for_def List.map_filter_simps build_candidate_def resolve_secret_def)

theorem resolve_avoids_open_circuits_witness:
  "\<exists>rs r'. Resolve demo_renv (\<lambda>_ _. 5) None ''m'' 1 NewResolver = (Inr rs, r') \<and>
     list_all (\<lambda>rr. CircuitState_of NewHealthTracker 5 (rr_Provider rr) (rr_ProviderModel rr) \<noteq> CircuitOpen) rs"
proof -
  obtain rs r' where R: "Resolve demo_renv (\<lambda>_ _. 5) None ''m'' 1 NewResolver = (Inr rs, r')"
    by (rule demo_resolve)
  have "CircuitState_of NewHealthTracker 5 (rr_Provider rr) (rr_ProviderModel rr) \<noteq> CircuitOpen" if "rr \<in> set rs" for rr
    using resolve_avoids_open_circuits [OF R _ demo_renv_contract _ that, of NewHealthTracker]
    by (simp add: demo_renv_def demo_row_def alias_lookup_def)
  then show ?thesis using R by (auto simp: list_all_iff)
qed

lemma Resolve_miss:
  assumes "alias_lookup E m org = None" and "map_of (degraded r) (cache_key m org) = None" and "cache r (cache_key m org) = None"
  shows "Resolve E clk ctx m org r =
    (case resolveUncached E (clk 2) ctx m org of
       Inl err \<Rightarrow> (Inl err, if err_is err ErrResolveDegraded then markDegraded (clk 3 0) (clk 3 1) (cache_key m org) r else r)
     | Inr ordered \<Rightarrow>
         (let r5 = clearDegraded (cache_key m org) r
          in (Inr ordered, r5\<lparr>cache := (cache r5)(cache_key m org \<mapsto> (ordered, clk 3 2 + env_ttl E))\<rparr>)))"
  using assms by (simp add: Resolve_def Let_def degradedError_def serveFromCache_def)

lemma lookup_failure:
  "env_find E m org = Inl err \<Longrightarrow> \<exists>msg. resolveUncached E clk None m org = Inl (Wrapped msg ErrResolveDegraded)"
  by (simp add: resolveUncached_def Let_def)

lemma degraded_is [simp]: "err_is (Wrapped msg ErrResolveDegraded) ErrResolveDegraded"
  by (simp add: err_is_def ErrResolveDegraded_def)

text \<open>
  A failed mapping lookup suppresses further lookups, and only on the database's merits. When the
  repository fails and the caller was not cancelled, every \<^verbatim>\<open>Resolve\<close> of the same key within the next
  three seconds is answered with a degradation error whatever the repository would now answer; when the
  caller was cancelled, nothing is cached.
\<close>

lemma lookup_failure_suppresses:
  assumes "alias_lookup E m org = None" and "map_of (degraded r) (cache_key m org) = None"
    and "cache r (cache_key m org) = None" and "env_find E m org = Inl err"
    and "alias_lookup E2 m org = None" and "clk2 0 5 \<le> clk 3 1 + resolveDegradedTTL"
    and "\<not> err_is ce ErrResolveDegraded"
  shows "(\<exists>e e2 r'. Resolve E clk None m org r = (Inl e, r') \<and> err_is e ErrResolveDegraded \<and>
      Resolve E2 clk2 ctx2 m org r' = (Inl e2, r') \<and> err_is e2 ErrResolveDegraded) \<and>
    Resolve E clk (Some ce) m org r = (Inl ce, r)"
proof
  obtain msg where "resolveUncached E (clk 2) None m org = Inl (Wrapped msg ErrResolveDegraded)"
    using lookup_failure [OF assms(4)] by blast
  then have R: "Resolve E clk None m org r =
      (Inl (Wrapped msg ErrResolveDegraded), markDegraded (clk 3 0) (clk 3 1) (cache_key m org) r)"
    by (simp add: Resolve_miss [OF assms(1-3)])
  have "map_of (degraded (markDegraded (clk 3 0) (clk 3 1) (cache_key m org) r)) (cache_key m org) =
      Some (clk 3 1 + resolveDegradedTTL)"
    by (simp add: markDegraded_def Let_def)
  then have "\<exists>e2. Resolve E2 clk2 ctx2 m org (markDegraded (clk 3 0) (clk 3 1) (cache_key m org) r) =
      (Inl e2, markDegraded (clk 3 0) (clk 3 1) (cache_key m org) r) \<and> err_is e2 ErrResolveDegraded"
    using assms(5,6) by (simp add: Resolve_def Let_def degradedError_def)
  then show "\<exists>e e2 r'. Resolve E clk None m org r = (Inl e, r') \<and> err_is e ErrResolveDegraded \<and>
      Resolve E2 clk2 ctx2 m org r' = (Inl e2, r') \<and> err_is e2 ErrResolveDegraded"
    using R degraded_is by blast
  show "Resolve E clk (Some ce) m org r = (Inl ce, r)"
    using assms(4,7) by (simp add: Resolve_miss [OF assms(1-3)] resolveUncached_def Let_def)
qed

lemma lookup_failure_suppresses_witness:
  "\<exists>e e2 r'. Resolve demo_renv (\<lambda>_ _. 5) None ''x'' 1 NewResolver = (Inl e, r') \<and> err_is e ErrResolveDegraded \<and>
     Resolve demo_renv (\<lambda>_ _. 5 + 2 * second) None ''x'' 1 r' = (Inl e2, r') \<and> err_is e2 ErrResolveDegraded"
proof -
  have "\<not> err_is CtxCanceled ErrResolveDegraded" by (simp add: err_is_def ErrResolveDegraded_def)
  then show ?thesis
    using lookup_failure_suppresses [where E = demo_renv and r = NewResolver and m = "''x''" and org = 1
        and err = "OtherErr ''down''" and ?E2.0 = demo_renv and ?clk2.0 = "\<lambda>_ _. 5 + 2 * second" and clk = "\<lambda>_ _. 5"
        and ?ctx2.0 = None and ce = CtxCanceled]
    by (simp add: alias_lookup_def demo_renv_def NewResolver_def resolveDegradedTTL_def second_def)
qed

text \<open>
  The negative cache never holds more than its 8192 entries.
\<close>

lemma negative_cache_bounded:
  assumes "length (degraded r) \<le> degradedCacheCap" and "Resolve E clk ctx m org r = (res, r')"
  shows "length (degraded r') \<le> degradedCacheCap"
proof (cases "alias_lookup E m org")
  case None
  have b: "degraded_bounded r" using assms(1) by (simp add: degraded_bounded_def)
  from assms(2) None have "degraded_bounded r'"
  proof (cases rule: Resolve_cases)
    case (degraded e i r1)
    then show ?thesis using b degradedError_bounded by (metis snd_conv)
  next
    case (cached i r1)
    then show ?thesis using b degraded_serveFromCache by (metis degraded_bounded_def snd_conv)
  next
    case (failed err r4)
    then show ?thesis using b markDegraded_bounded by simp
  next
    case (fresh ordered r4)
    then show ?thesis using b clearDegraded_bounded [of r4] by (simp add: degraded_bounded_def)
  qed
  then show ?thesis by (simp add: degraded_bounded_def)
next
  case (Some a)
  then show ?thesis using assms by (simp add: Resolve_def)
qed

lemma negative_cache_bounded_witness:
  "length (degraded (snd (Resolve demo_renv (\<lambda>_ _. 5) None ''x'' 1 NewResolver))) \<le> degradedCacheCap"
  by (rule negative_cache_bounded [of NewResolver demo_renv "\<lambda>_ _. 5" None "''x''" 1 "fst (Resolve demo_renv (\<lambda>_ _. 5) None ''x'' 1 NewResolver)"])
    (simp_all add: NewResolver_def)

text \<open>
  The order a strategy produced is pinned by the route cache: for the whole lifetime of the cache
  entry (30 s), every further \<^verbatim>\<open>Resolve\<close> of the key returns the same routes in the same order, up to the
  circuit and health-score filters, whatever the strategies would answer now. Without a health score and
  with all circuits closed, round robin does not rotate and weighted random does not draw again.
\<close>

lemma cache_pins_order:
  assumes "alias_lookup E m org = None" and "map_of (degraded r) (cache_key m org) = None"
    and "cache r (cache_key m org) = None" and "resolveUncached E (clk 2) ctx m org = Inr ordered"
    and "alias_lookup E2 m org = None" and "env_health E2 = None" and "env_healthFn E2 = None"
    and "clk2 0 0 < clk 3 2 + env_ttl E"
  shows "\<exists>r'. Resolve E clk ctx m org r = (Inr ordered, r') \<and> Resolve E2 clk2 ctx2 m org r' = (Inr ordered, r')"
proof -
  let ?k = "cache_key m org"
  define r' where "r' = (clearDegraded ?k r)\<lparr>cache := (cache (clearDegraded ?k r))(?k \<mapsto> (ordered, clk 3 2 + env_ttl E))\<rparr>"
  have R: "Resolve E clk ctx m org r = (Inr ordered, r')"
    by (simp add: Resolve_miss [OF assms(1-3)] assms(4) r'_def Let_def)
  have "map_of (degraded r') ?k = None"
    by (auto simp: r'_def clearDegraded_def map_of_eq_None_iff)
  moreover have "cache r' ?k = Some (ordered, clk 3 2 + env_ttl E)" by (simp add: r'_def)
  ultimately have "Resolve E2 clk2 ctx2 m org r' = (Inr ordered, r')"
    using assms(5-8) by (simp add: Resolve_def Let_def degradedError_def serveFromCache_def healthAllows_def)
  with R show ?thesis by blast
qed

lemma cache_pins_order_witness:
  "\<exists>rs r'. Resolve demo_renv (\<lambda>_ _. 5) None ''m'' 1 NewResolver = (Inr rs, r') \<and>
     Resolve (demo_renv\<lparr>env_health := None, env_strategies := \<lambda>_. None\<rparr>) (\<lambda>_ _. 5 + 29 * second) None ''m'' 1 r' = (Inr rs, r')"
proof -
  obtain rs r' where "Resolve demo_renv (\<lambda>_ _. 5) None ''m'' 1 NewResolver = (Inr rs, r')" by (rule demo_resolve)
  moreover have "alias_lookup demo_renv ''m'' 1 = None" "map_of (degraded NewResolver) (cache_key ''m'' 1) = None"
    "cache NewResolver (cache_key ''m'' 1) = None"
    by (simp_all add: alias_lookup_def demo_renv_def NewResolver_def)
  ultimately have "resolveUncached demo_renv (\<lambda>_. 5) None ''m'' 1 = Inr rs"
    by (simp add: Resolve_miss Let_def split: sum.splits)
  then show ?thesis
    using cache_pins_order [where E = demo_renv and m = "''m''" and org = 1 and r = NewResolver and clk = "\<lambda>_ _. 5"
        and ctx = None and ordered = rs and ?E2.0 = "demo_renv\<lparr>env_health := None, env_strategies := \<lambda>_. None\<rparr>"
        and ?clk2.0 = "\<lambda>_ _. 5 + 29 * second" and ?ctx2.0 = None]
    by (auto simp: alias_lookup_def demo_renv_def NewResolver_def second_def)
qed

text \<open>
  The retry settings of a route are taken from the mapping's extra configuration as they are: the
  limits of \<^verbatim>\<open>ParseRetryConfig\<close> (20 retries, a minute of initial backoff, five minutes of maximal
  backoff) are not applied to them.
\<close>

lemma route_retry_config_unclamped:
  assumes "build_candidate E row = Some c"
  shows "NumRetries (rr_RetryConfig (candidateToRouteResult c)) = ec_NumRetries (parseExtraConfig (pm_ExtraConfig row)) \<and>
    InitialMs (rr_RetryConfig (candidateToRouteResult c)) = ec_InitialMs (parseExtraConfig (pm_ExtraConfig row)) \<and>
    MaxBackoffMs (rr_RetryConfig (candidateToRouteResult c)) = ec_MaxBackoffMs (parseExtraConfig (pm_ExtraConfig row))"
  using assms by (auto simp: build_candidate_def candidateToRouteResult_def Let_def split: option.splits)

definition demo_extra :: bytes where
  "demo_extra = [CHR 0x7B, CHR 0x22] @ ''num_retries'' @ [CHR 0x22] @ '':99'' @ [CHR 0x7D]"

lemma route_retry_config_unclamped_witness:
  "NumRetries (rr_RetryConfig (candidateToRouteResult (the (build_candidate demo_renv (demo_row\<lparr>pm_ExtraConfig := demo_extra\<rparr>))))) = 99 \<and>
   NumRetries (ParseRetryConfig demo_extra) = 20"
proof -
  let ?row = "demo_row\<lparr>pm_ExtraConfig := demo_extra\<rparr>"
  obtain c where c: "build_candidate demo_renv ?row = Some c"
    by (simp add: build_candidate_def demo_renv_def demo_row_def Let_def)
  have "ec_NumRetries (parseExtraConfig demo_extra) = 99"
    by (simp add: demo_extra_def parseExtraConfig_def unmarshal_def json_eval dec_extraConfig_def fld_def int_literal_def
        digits_val_def extraConfig0_def)
  moreover have "NumRetries (ParseRetryConfig demo_extra) = 20"
    by (simp add: demo_extra_def ParseRetryConfig_def unmarshal_def json_eval dec_RetryConfig_def fld_def int_literal_def
        digits_val_def RetryConfig0_def clamp_def)
  ultimately show ?thesis using route_retry_config_unclamped [OF c] c by simp
qed

end
