(* ===== verification/Resolve_Probe.thy ===== *)
theory Resolve_Probe
  imports Resolver
begin

text \<open>
  The single-flight protocol of \<^verbatim>\<open>probeResolve\<close> and \<^verbatim>\<open>forgetProbe\<close> in \<^verbatim>\<open>internal/router/router.go\<close>
  as a step relation. Threads are natural numbers, each resolving one key; \<open>probes\<close> is the map under
  \<^verbatim>\<open>probesMu\<close>, \<open>closed\<close> says which probes have published (their channel is closed) and with what.
  Every step is one critical section or one blocking operation of the code: the look-up that either joins
  or registers, the return of the resolution together with \<^verbatim>\<open>forgetProbe\<close>, the closing of the channel, and
  the two ways a waiter wakes up.
\<close>

section \<open>Definitions\<close>

text \<open>A verdict is the result or error of a resolution; Cancelled is the outcome of a cancelled owner.\<close>

datatype outcome = Verdict "goerr + RouteResult list" | Cancelled goerr

datatype pc =
    Looking nat
  | Waiting nat nat
  | Owning nat
  | Publishing nat outcome
  | Returned outcome

record probe_sys =
  probes :: "bytes \<Rightarrow> nat option"
  closed :: "nat \<Rightarrow> outcome option"
  fresh_probe :: nat
  pcs :: "nat \<Rightarrow> pc"

definition probe_init :: probe_sys where
  "probe_init = \<lparr>probes = Map.empty, closed = Map.empty, fresh_probe = 0, pcs = (\<lambda>_. Looking 0)\<rparr>"

definition go_to :: "nat \<Rightarrow> pc \<Rightarrow> probe_sys \<Rightarrow> probe_sys" where
  "go_to t c S = S\<lparr>pcs := (pcs S)(t := c)\<rparr>"

definition forgetProbe :: "bytes \<Rightarrow> nat \<Rightarrow> probe_sys \<Rightarrow> probe_sys" where
  "forgetProbe k p S = (if probes S k = Some p then S\<lparr>probes := (probes S)(k := None)\<rparr> else S)"

text \<open>
  \<open>key_of t\<close> is the key thread \<open>t\<close> resolves. The outcome of the resolution and the state of each
  thread's context are free: every behaviour of the repository and of the clients is covered.
\<close>

inductive probe_step :: "(nat \<Rightarrow> bytes) \<Rightarrow> probe_sys \<Rightarrow> probe_sys \<Rightarrow> bool" for key_of where
  join: "pcs S t = Looking a \<Longrightarrow> probes S (key_of t) = Some p \<Longrightarrow> probe_step key_of S (go_to t (Waiting a p) S)"
| own: "pcs S t = Looking a \<Longrightarrow> probes S (key_of t) = None \<Longrightarrow>
    probe_step key_of S
      (go_to t (Owning (fresh_probe S))
        (S\<lparr>probes := (probes S)(key_of t \<mapsto> fresh_probe S), fresh_probe := Suc (fresh_probe S)\<rparr>))"
| resolved: "pcs S t = Owning p \<Longrightarrow> probe_step key_of S (go_to t (Publishing p out) (forgetProbe (key_of t) p S))"
| publish: "pcs S t = Publishing p out \<Longrightarrow>
    probe_step key_of S (go_to t (Returned out) (S\<lparr>closed := (closed S)(p \<mapsto> out)\<rparr>))"
| wake_retry: "pcs S t = Waiting 0 p \<Longrightarrow> closed S p = Some (Cancelled e) \<Longrightarrow>
    probe_step key_of S (go_to t (Looking 1) S)"
| wake_return: "pcs S t = Waiting a p \<Longrightarrow> closed S p = Some out \<Longrightarrow> probe_step key_of S (go_to t (Returned out) S)"
| waiter_cancelled: "pcs S t = Waiting a p \<Longrightarrow> probe_step key_of S (go_to t (Returned (Cancelled e)) S)"

inductive probe_reach :: "(nat \<Rightarrow> bytes) \<Rightarrow> probe_sys \<Rightarrow> bool" for key_of where
  start: "probe_reach key_of probe_init"
| next_step: "probe_reach key_of S \<Longrightarrow> probe_step key_of S S' \<Longrightarrow> probe_reach key_of S'"

inductive_cases probe_stepE: "probe_step key_of S S'"

section \<open>Invariant\<close>

definition owns :: "probe_sys \<Rightarrow> nat \<Rightarrow> nat \<Rightarrow> bool" where
  "owns S t p \<longleftrightarrow> pcs S t = Owning p \<or> (\<exists>out. pcs S t = Publishing p out)"

definition attempt_of :: "pc \<Rightarrow> nat" where
  "attempt_of c = (case c of Looking a \<Rightarrow> a | Waiting a _ \<Rightarrow> a | _ \<Rightarrow> 0)"

definition probe_inv :: "(nat \<Rightarrow> bytes) \<Rightarrow> probe_sys \<Rightarrow> bool" where
  "probe_inv key_of S \<longleftrightarrow>
     (\<forall>t p. pcs S t = Owning p \<longrightarrow> probes S (key_of t) = Some p) \<and>
     (\<forall>k p. probes S k = Some p \<longrightarrow> p < fresh_probe S \<and> closed S p = None \<and> (\<exists>t. pcs S t = Owning p \<and> key_of t = k)) \<and>
     (\<forall>t p. owns S t p \<longrightarrow> p < fresh_probe S \<and> closed S p = None) \<and>
     (\<forall>t u p. owns S t p \<longrightarrow> owns S u p \<longrightarrow> t = u) \<and>
     (\<forall>t a p. pcs S t = Waiting a p \<longrightarrow> closed S p \<noteq> None \<or> (\<exists>u. owns S u p \<and> key_of u = key_of t)) \<and>
     (\<forall>t. attempt_of (pcs S t) \<le> 1) \<and> (\<forall>p. closed S p \<noteq> None \<longrightarrow> p < fresh_probe S)"

lemma go_to_sel [simp]:
  "probes (go_to t c S) = probes S" "closed (go_to t c S) = closed S" "fresh_probe (go_to t c S) = fresh_probe S"
  "pcs (go_to t c S) = (pcs S)(t := c)"
  by (simp_all add: go_to_def)

lemma forgetProbe_sel [simp]:
  "closed (forgetProbe k p S) = closed S" "fresh_probe (forgetProbe k p S) = fresh_probe S"
  "pcs (forgetProbe k p S) = pcs S"
  "probes (forgetProbe k p S) = (if probes S k = Some p then (probes S)(k := None) else probes S)"
  by (simp_all add: forgetProbe_def)

lemma probe_inv_init: "probe_inv key_of probe_init"
  by (simp add: probe_inv_def probe_init_def owns_def attempt_of_def)

lemma probe_invI:
  assumes "\<And>t p. pcs S t = Owning p \<Longrightarrow> probes S (key_of t) = Some p"
    and "\<And>k p. probes S k = Some p \<Longrightarrow> p < fresh_probe S \<and> closed S p = None \<and> (\<exists>t. pcs S t = Owning p \<and> key_of t = k)"
    and "\<And>t p. owns S t p \<Longrightarrow> p < fresh_probe S \<and> closed S p = None"
    and "\<And>t u p. owns S t p \<Longrightarrow> owns S u p \<Longrightarrow> t = u"
    and "\<And>t a p. pcs S t = Waiting a p \<Longrightarrow> closed S p \<noteq> None \<or> (\<exists>u. owns S u p \<and> key_of u = key_of t)"
    and "\<And>t. attempt_of (pcs S t) \<le> 1" and "\<And>p. closed S p \<noteq> None \<Longrightarrow> p < fresh_probe S"
  shows "probe_inv key_of S"
  using assms unfolding probe_inv_def by blast

lemma probe_invD:
  assumes "probe_inv key_of S"
  shows "pcs S t = Owning p \<Longrightarrow> probes S (key_of t) = Some p"
    and "probes S k = Some p \<Longrightarrow> p < fresh_probe S \<and> closed S p = None \<and> (\<exists>t. pcs S t = Owning p \<and> key_of t = k)"
    and "owns S t p \<Longrightarrow> p < fresh_probe S \<and> closed S p = None"
    and "owns S t p \<Longrightarrow> owns S u p \<Longrightarrow> t = u"
    and "pcs S t = Waiting a p \<Longrightarrow> closed S p \<noteq> None \<or> (\<exists>u. owns S u p \<and> key_of u = key_of t)"
    and "attempt_of (pcs S t) \<le> 1" and "closed S p \<noteq> None \<Longrightarrow> p < fresh_probe S"
  using assms unfolding probe_inv_def by blast+

text \<open>Steps of a thread that owns no probe before or after leave the ownership as it is.\<close>

lemma probe_inv_bystander:
  assumes I: "probe_inv key_of S" and "\<And>p. \<not> owns S t p" and "\<And>p. c \<noteq> Owning p" and "\<And>p out. c \<noteq> Publishing p out"
    and "attempt_of c \<le> 1" and w: "\<And>a p. c = Waiting a p \<Longrightarrow> closed S p \<noteq> None \<or> (\<exists>u. owns S u p \<and> key_of u = key_of t)"
  shows "probe_inv key_of (go_to t c S)"
proof -
  have o: "owns (go_to t c S) u p \<longleftrightarrow> owns S u p" for u p
    using assms(2-4) by (auto simp: owns_def)
  have ow: "pcs (go_to t c S) u = Owning p \<longleftrightarrow> pcs S u = Owning p" for u p
    using assms(2-4) by (auto simp: owns_def)
  show ?thesis
  proof (rule probe_invI, unfold o ow)
    fix u a p assume "pcs (go_to t c S) u = Waiting a p"
    then show "closed (go_to t c S) p \<noteq> None \<or> (\<exists>v. owns S v p \<and> key_of v = key_of u)"
      using w probe_invD(5) [OF I] by (auto split: if_splits)
  next
    fix u show "attempt_of (pcs (go_to t c S) u) \<le> 1" using assms(5) probe_invD(6) [OF I] by simp
  next
    fix u p assume "pcs S u = Owning p"
    then show "probes (go_to t c S) (key_of u) = Some p" using probe_invD(1) [OF I] by simp
  next
    fix k p assume "probes (go_to t c S) k = Some p"
    then show "p < fresh_probe (go_to t c S) \<and> closed (go_to t c S) p = None \<and> (\<exists>u. pcs S u = Owning p \<and> key_of u = k)"
      using probe_invD(2) [OF I] by simp
  next
    fix u p assume "owns S u p"
    then show "p < fresh_probe (go_to t c S) \<and> closed (go_to t c S) p = None" using probe_invD(3) [OF I] by simp
  next
    fix u v p assume "owns S u p" "owns S v p"
    then show "u = v" using probe_invD(4) [OF I] by blast
  next
    fix p assume "closed (go_to t c S) p \<noteq> None"
    then show "p < fresh_probe (go_to t c S)" using probe_invD(7) [OF I] by simp
  qed
qed

lemma owns_pc: "owns S t p \<Longrightarrow> (\<exists>out. pcs S t = Owning p \<or> pcs S t = Publishing p out)"
  by (auto simp: owns_def)

lemma probe_inv_own:
  assumes I: "probe_inv key_of S" and "pcs S t = Looking a" and "probes S (key_of t) = None"
  shows "probe_inv key_of (go_to t (Owning (fresh_probe S))
        (S\<lparr>probes := (probes S)(key_of t \<mapsto> fresh_probe S), fresh_probe := Suc (fresh_probe S)\<rparr>))" (is "probe_inv _ ?S")
proof -
  let ?f = "fresh_probe S"
  have o: "owns ?S u p \<longleftrightarrow> (if u = t then p = ?f else owns S u p)" for u p
    by (auto simp: owns_def)
  have old: "\<not> owns S u ?f" for u using probe_invD(3) [OF I] by blast
  have nc: "closed S ?f = None" using probe_invD(7) [OF I] by blast
  show ?thesis
  proof (rule probe_invI, unfold o)
    fix u p assume "pcs ?S u = Owning p"
    then show "probes ?S (key_of u) = Some p"
      using probe_invD(1) [OF I, of u p] assms(3) by (auto split: if_splits)
  next
    fix k p assume "probes ?S k = Some p"
    then show "p < fresh_probe ?S \<and> closed ?S p = None \<and> (\<exists>u. pcs ?S u = Owning p \<and> key_of u = k)"
      using probe_invD(2) [OF I, of k p] assms(2) nc by (auto split: if_splits)
  next
    fix u p assume "if u = t then p = ?f else owns S u p"
    then show "p < fresh_probe ?S \<and> closed ?S p = None" using probe_invD(3) [OF I, of u p] nc by (auto split: if_splits)
  next
    fix u v p assume "if u = t then p = ?f else owns S u p" "if v = t then p = ?f else owns S v p"
    then show "u = v" using probe_invD(4) [OF I, of u p v] old by (auto split: if_splits)
  next
    fix u b p assume "pcs ?S u = Waiting b p"
    then have "pcs S u = Waiting b p" by (auto split: if_splits)
    moreover have "v \<noteq> t" if "owns S v p" for v using that assms(2) by (auto simp: owns_def)
    ultimately show "closed ?S p \<noteq> None \<or> (\<exists>v. (if v = t then p = ?f else owns S v p) \<and> key_of v = key_of u)"
      using probe_invD(5) [OF I, of u b p] by auto
  next
    fix u show "attempt_of (pcs ?S u) \<le> 1" using probe_invD(6) [OF I, of u] by (simp add: attempt_of_def)
  next
    fix p assume "closed ?S p \<noteq> None"
    then show "p < fresh_probe ?S" using probe_invD(7) [OF I, of p] by simp
  qed
qed

lemma probe_inv_resolved:
  assumes I: "probe_inv key_of S" and "pcs S t = Owning p"
  shows "probe_inv key_of (go_to t (Publishing p out) (forgetProbe (key_of t) p S))" (is "probe_inv _ ?S")
proof -
  have k: "probes S (key_of t) = Some p" using probe_invD(1) [OF I assms(2)] .
  have o: "owns ?S u q \<longleftrightarrow> owns S u q" for u q
    using assms(2) by (auto simp: owns_def)
  have uq: "u = t" if "pcs S u = Owning p" for u
    using probe_invD(4) [OF I, of u p t] that assms(2) by (auto simp: owns_def)
  show ?thesis
  proof (rule probe_invI, unfold o)
    fix u q assume "pcs ?S u = Owning q"
    then have u: "u \<noteq> t" "pcs S u = Owning q" by (simp_all split: if_splits)
    have pu: "probes S (key_of u) = Some q" using probe_invD(1) [OF I u(2)] .
    have "key_of u \<noteq> key_of t"
    proof
      assume "key_of u = key_of t"
      then have "q = p" using pu k by simp
      then show False using uq u by simp
    qed
    then show "probes ?S (key_of u) = Some q" using pu k by simp
  next
    fix j q assume "probes ?S j = Some q"
    then have j: "probes S j = Some q" "j \<noteq> key_of t" using k by (simp_all split: if_splits)
    then obtain u where u: "q < fresh_probe S" "closed S q = None" "pcs S u = Owning q" "key_of u = j"
      using probe_invD(2) [OF I j(1)] by blast
    then have "u \<noteq> t" using j by blast
    then show "q < fresh_probe ?S \<and> closed ?S q = None \<and> (\<exists>u. pcs ?S u = Owning q \<and> key_of u = j)"
      using u by (intro conjI exI [of _ u]) simp_all
  next
    fix u q assume "owns S u q"
    then show "q < fresh_probe ?S \<and> closed ?S q = None" using probe_invD(3) [OF I] by simp
  next
    fix u v q assume "owns S u q" "owns S v q"
    then show "u = v" using probe_invD(4) [OF I] by blast
  next
    fix u b q assume "pcs ?S u = Waiting b q"
    then show "closed ?S q \<noteq> None \<or> (\<exists>v. owns S v q \<and> key_of v = key_of u)"
      using probe_invD(5) [OF I, of u b q] by (auto split: if_splits)
  next
    fix u show "attempt_of (pcs ?S u) \<le> 1" using probe_invD(6) [OF I, of u] by (simp add: attempt_of_def)
  next
    fix q assume "closed ?S q \<noteq> None"
    then show "q < fresh_probe ?S" using probe_invD(7) [OF I, of q] by simp
  qed
qed

lemma probe_inv_publish:
  assumes I: "probe_inv key_of S" and "pcs S t = Publishing p out"
  shows "probe_inv key_of (go_to t (Returned out) (S\<lparr>closed := (closed S)(p \<mapsto> out)\<rparr>))" (is "probe_inv _ ?S")
proof -
  have tp: "owns S t p" using assms(2) by (simp add: owns_def)
  have uq: "u = t" if "owns S u p" for u using probe_invD(4) [OF I that tp] .
  have o: "owns ?S u q \<longleftrightarrow> u \<noteq> t \<and> owns S u q" for u q
    by (auto simp: owns_def)
  show ?thesis
  proof (rule probe_invI, unfold o)
    fix u q assume "pcs ?S u = Owning q"
    then show "probes ?S (key_of u) = Some q" using probe_invD(1) [OF I, of u q] by (auto split: if_splits)
  next
    fix j q assume "probes ?S j = Some q"
    then obtain u where u: "q < fresh_probe S" "closed S q = None" "pcs S u = Owning q" "key_of u = j"
      using probe_invD(2) [OF I, of j q] by auto
    then have "u \<noteq> t" using assms(2) by auto
    moreover have "q \<noteq> p" using uq [of u] u(3) \<open>u \<noteq> t\<close> by (auto simp: owns_def)
    ultimately show "q < fresh_probe ?S \<and> closed ?S q = None \<and> (\<exists>u. pcs ?S u = Owning q \<and> key_of u = j)"
      using u by auto
  next
    fix u q assume "u \<noteq> t \<and> owns S u q"
    then show "q < fresh_probe ?S \<and> closed ?S q = None" using probe_invD(3) [OF I, of u q] uq by auto
  next
    fix u v q assume "u \<noteq> t \<and> owns S u q" "v \<noteq> t \<and> owns S v q"
    then show "u = v" using probe_invD(4) [OF I] by blast
  next
    fix u b q assume w: "pcs ?S u = Waiting b q"
    then have "pcs S u = Waiting b q" by (auto split: if_splits)
    moreover have "q = p" if "owns S t q" using that assms(2) by (auto simp: owns_def)
    ultimately show "closed ?S q \<noteq> None \<or> (\<exists>v. (v \<noteq> t \<and> owns S v q) \<and> key_of v = key_of u)"
      using probe_invD(5) [OF I, of u b q] by (cases "q = p") (simp, force)
  next
    fix u show "attempt_of (pcs ?S u) \<le> 1" using probe_invD(6) [OF I, of u] by (simp add: attempt_of_def)
  next
    fix q assume "closed ?S q \<noteq> None"
    then show "q < fresh_probe ?S" using probe_invD(7) [OF I, of q] probe_invD(3) [OF I tp] by (auto split: if_splits)
  qed
qed

lemma probe_inv_step:
  assumes "probe_step key_of S S'" and "probe_inv key_of S"
  shows "probe_inv key_of S'"
  using assms
proof (induction rule: probe_step.induct)
  case (join S t a p)
  then obtain u where "pcs S u = Owning p" "key_of u = key_of t" using probe_invD(2) [OF join(3) join(2)] by auto
  then have "\<exists>u. owns S u p \<and> key_of u = key_of t" by (auto simp: owns_def)
  moreover have "a \<le> 1" using probe_invD(6) [OF join(3), of t] join(1) by (simp add: attempt_of_def)
  ultimately show ?case
    using join by (intro probe_inv_bystander) (auto simp: owns_def attempt_of_def)
next
  case (own S t a)
  then show ?case using probe_inv_own by blast
next
  case (resolved S t p out)
  then show ?case using probe_inv_resolved by blast
next
  case (publish S t p out)
  then show ?case using probe_inv_publish by blast
qed (intro probe_inv_bystander; simp add: owns_def attempt_of_def)+

lemma probe_inv_reach: "probe_reach key_of S \<Longrightarrow> probe_inv key_of S"
  by (induction rule: probe_reach.induct) (simp add: probe_inv_init, blast intro: probe_inv_step)

section \<open>Properties\<close>

text \<open>
  C8: Uncached resolution is single-flight: in every reachable state at most one thread is resolving a
  given key.
\<close>

theorem resolve_single_flight:
  assumes "probe_reach key_of S" and "pcs S t = Owning p" and "pcs S u = Owning q" and "key_of t = key_of u"
  shows "t = u"
proof -
  note I = probe_inv_reach [OF assms(1)]
  have "p = q" using probe_invD(1) [OF I assms(2)] probe_invD(1) [OF I assms(3)] assms(4) by simp
  then show ?thesis using probe_invD(4) [OF I, of t p u] assms(2,3) by (simp add: owns_def)
qed

definition demo_owning :: probe_sys where
  "demo_owning = go_to 7 (Owning 0) (probe_init\<lparr>probes := Map.empty(''k'' \<mapsto> 0), fresh_probe := 1\<rparr>)"

lemma demo_owning_reach: "probe_reach (\<lambda>_. ''k'') demo_owning"
proof -
  have "probe_step (\<lambda>_. ''k'') probe_init demo_owning"
    using probe_step.own [of probe_init 7 0 "\<lambda>_. ''k''"] by (simp add: probe_init_def demo_owning_def)
  then show ?thesis using probe_reach.start probe_reach.next_step by blast
qed

theorem resolve_single_flight_witness: "{u. pcs demo_owning u = Owning 0} = {7}"
proof -
  have o: "pcs demo_owning 7 = Owning 0" by (simp add: demo_owning_def)
  have "7 = u" if "pcs demo_owning u = Owning 0" for u
    by (rule resolve_single_flight [OF demo_owning_reach o that refl])
  then show ?thesis using o by blast
qed

text \<open>
  C29: No waiter of a single-flight resolution is lost or misled: it waits on a probe that has already
  published or still has its owner on the same key; a probe that published is no longer registered, so a
  waiter that retries after a cancelled owner never finds the cancelled probe again; and it retries at
  most once.
\<close>

theorem waiters_not_stranded:
  assumes "probe_reach key_of S"
  shows "(pcs S t = Waiting a p \<longrightarrow> closed S p \<noteq> None \<or> (\<exists>u. owns S u p \<and> key_of u = key_of t)) \<and>
    (closed S p \<noteq> None \<longrightarrow> probes S k \<noteq> Some p) \<and> attempt_of (pcs S t) \<le> 1"
  using probe_invD(2) [OF probe_inv_reach [OF assms], of k p] probe_invD(5) [OF probe_inv_reach [OF assms], of t a p]
    probe_invD(6) [OF probe_inv_reach [OF assms], of t] by auto

definition demo_waiting :: probe_sys where
  "demo_waiting = go_to 3 (Waiting 0 0) demo_owning"

lemma demo_waiting_reach: "probe_reach (\<lambda>_. ''k'') demo_waiting"
proof -
  have "probe_step (\<lambda>_. ''k'') demo_owning demo_waiting"
    unfolding demo_waiting_def by (rule probe_step.join) (simp_all add: demo_owning_def probe_init_def)
  then show ?thesis using demo_owning_reach probe_reach.next_step by blast
qed

theorem waiters_not_stranded_witness:
  "pcs demo_waiting 3 = Waiting 0 0 \<and> (\<exists>u. owns demo_waiting u 0) \<and> attempt_of (pcs demo_waiting 3) \<le> 1"
proof -
  have w: "pcs demo_waiting 3 = Waiting 0 0" "closed demo_waiting 0 = None"
    by (simp_all add: demo_waiting_def demo_owning_def probe_init_def)
  note x = waiters_not_stranded [OF demo_waiting_reach, of 3 0 0 "''k''"]
  from x w show ?thesis by auto
qed

end
