(* ===== verification/Error_Classifier.thy ===== *)
theory Error_Classifier
  imports Provider_Errors "HOL-Library.Product_Lexorder"
begin

text \<open>
  The rule table that tells persistent (quota, billing) upstream errors from transient ones:
  \<^verbatim>\<open>internal/service/error_classifier.go\<close>. A classifier is its current rule set, None before the first
  successful load; the repository's answer to each load is an argument. Case folding and lower-casing are
  the Go runtime's (\<open>go_rt\<close>).
\<close>

section \<open>Definitions\<close>

record ClassifiedError =
  ce_ErrorType :: ErrorType
  ce_Persistent :: bool
  ce_Scope :: bytes
  ce_RuleID :: int

definition transient_error :: "ErrorType \<Rightarrow> ClassifiedError" where
  "transient_error et = \<lparr>ce_ErrorType = et, ce_Persistent = False, ce_Scope = [], ce_RuleID = 0\<rparr>"

record ruleView =
  rv_ID :: int
  rv_MatchField :: bytes
  rv_Pattern :: bytes
  rv_ProviderType :: "bytes option"
  rv_Scope :: bytes
  rv_Classification :: bytes
  rv_Priority :: int

definition rule_matches :: "go_rt \<Rightarrow> ruleView \<Rightarrow> bytes \<Rightarrow> ProviderError \<Rightarrow> bool" where
  "rule_matches G r adapterType pe =
     (if rv_ProviderType r \<noteq> None \<and> rv_ProviderType r \<noteq> Some adapterType then False
      else if rv_MatchField r = ''code'' then pe_Code pe \<noteq> [] \<and> rt_equal_fold G (pe_Code pe) (rv_Pattern r)
      else if rv_MatchField r = ''type'' then pe_Type pe \<noteq> [] \<and> rt_equal_fold G (pe_Type pe) (rv_Pattern r)
      else if rv_MatchField r = ''status'' then itoa (pe_StatusCode pe) = rv_Pattern r
      else if rv_MatchField r = ''message'' then
        rv_Pattern r \<noteq> [] \<and> contains (rt_to_lower G (pe_Message pe)) (rt_to_lower G (rv_Pattern r))
      else False)"

record ErrorClassificationRule =
  er_ID :: int
  er_MatchField :: bytes
  er_Pattern :: bytes
  er_Classification :: bytes
  er_ProviderType :: "bytes option"
  er_Scope :: bytes
  er_Priority :: int

definition rule_view :: "ErrorClassificationRule \<Rightarrow> ruleView" where
  "rule_view m =
     \<lparr>rv_ID = er_ID m, rv_MatchField = er_MatchField m, rv_Pattern = er_Pattern m,
      rv_ProviderType = er_ProviderType m, rv_Scope = er_Scope m, rv_Classification = er_Classification m,
      rv_Priority = er_Priority m\<rparr>"

text \<open>The repository's answer: an error or the enabled rules.\<close>

definition AdaptErrorRuleLoader ::
    "goerr + ErrorClassificationRule list \<Rightarrow> goerr + ruleView list" where
  "AdaptErrorRuleLoader res = (case res of Inl e \<Rightarrow> Inl e | Inr ms \<Rightarrow> Inr (map rule_view ms))"

definition rule_less :: "ruleView \<Rightarrow> ruleView \<Rightarrow> bool" where
  "rule_less a b =
     (if rv_Priority a \<noteq> rv_Priority b then rv_Priority a < rv_Priority b
      else if (rv_ProviderType a \<noteq> None) \<noteq> (rv_ProviderType b \<noteq> None) then rv_ProviderType a \<noteq> None
      else if rv_Scope a \<noteq> rv_Scope b then rv_Scope a = ''account''
      else rv_ID a < rv_ID b)"

record ErrorClassifier =
  rules :: "ruleView list option"
  interval :: duration

definition load :: "goerr + ruleView list \<Rightarrow> ErrorClassifier \<Rightarrow> goerr option \<times> ErrorClassifier" where
  "load res c =
     (case res of
        Inl e \<Rightarrow> (Some e, c)
      | Inr rs \<Rightarrow> (None, c\<lparr>rules := Some (slice_stable rule_less rs)\<rparr>))"

definition NewErrorClassifier :: "goerr + ruleView list \<Rightarrow> duration \<Rightarrow> ErrorClassifier" where
  "NewErrorClassifier res iv =
     snd (load res \<lparr>rules = None, interval = (if iv \<le> 0 then 30 * second else iv)\<rparr>)"

definition Classify :: "go_rt \<Rightarrow> ErrorClassifier \<Rightarrow> bytes \<Rightarrow> goerr \<Rightarrow> ClassifiedError" where
  "Classify G c adapterType err =
     (case provider_of err of
        None \<Rightarrow> transient_error (ClassifyError (Some err))
      | Some pe \<Rightarrow>
          (case rules c of
             None \<Rightarrow> transient_error (pe_ErrorType pe)
           | Some rs \<Rightarrow>
               (case find (\<lambda>r. rv_Classification r = ''quota'' \<and> rule_matches G r adapterType pe) rs of
                  Some r \<Rightarrow> \<lparr>ce_ErrorType = ErrorQuota, ce_Persistent = True, ce_Scope = rv_Scope r, ce_RuleID = rv_ID r\<rparr>
                | None \<Rightarrow> transient_error (pe_ErrorType pe))))"

text \<open>
  The refresh loop: the answers of the repository at the successive ticks before the context ends.
\<close>

fun RunRefreshLoop :: "(goerr + ruleView list) list \<Rightarrow> ErrorClassifier \<Rightarrow> ErrorClassifier" where
  "RunRefreshLoop [] c = c"
| "RunRefreshLoop (res # ticks) c = RunRefreshLoop ticks (snd (load res c))"

section \<open>The tie-break order\<close>

text \<open>
  On rules whose scope is \<^verbatim>\<open>account\<close> or \<^verbatim>\<open>model\<close>, the only two the table holds, the comparison
  is that of a strict weak order; with a third scope it would not be transitive.
\<close>

definition rule_key :: "ruleView \<Rightarrow> int \<times> nat \<times> nat \<times> int" where
  "rule_key r =
     (rv_Priority r, if rv_ProviderType r = None then 1 else 0, if rv_Scope r = ''account'' then 0 else 1, rv_ID r)"

definition rule_lt :: "ruleView \<Rightarrow> ruleView \<Rightarrow> bool" where
  "rule_lt a b \<longleftrightarrow> rule_key a < rule_key b"

definition scoped :: "ruleView \<Rightarrow> bool" where
  "scoped r \<longleftrightarrow> rv_Scope r = ''account'' \<or> rv_Scope r = ''model''"

lemma strict_weak_rule_lt: "strict_weak rule_lt"
  unfolding rule_lt_def [abs_def] by (rule strict_weak_key)

lemma rule_less_scoped: "scoped a \<Longrightarrow> scoped b \<Longrightarrow> rule_less a b = rule_lt a b"
  by (auto simp: scoped_def rule_less_def rule_lt_def rule_key_def)

lemma ordered_rules:
  assumes "\<forall>r \<in> set rs. scoped r"
  shows "ordered_by rule_lt (slice_stable rule_less rs)"
proof -
  have "slice_stable rule_less rs = slice_stable rule_lt rs"
    using assms by (intro slice_stable_cong) (simp add: rule_less_scoped)
  then show ?thesis using ordered_slice_stable [OF strict_weak_rule_lt] by simp
qed

lemma find_SomeD: "find P xs = Some x \<Longrightarrow> x \<in> set xs \<and> P x"
  by (induction xs) (auto split: if_splits)

lemma find_first:
  assumes "find P xs = Some x" and "sorted_wrt R xs" and "y \<in> set xs" and "P y" and "y \<noteq> x"
  shows "R x y"
  using assms by (induction xs) (auto split: if_splits)

section \<open>Properties\<close>

text \<open>
  With a rule table whose scopes are account or model, an upstream error is persistent exactly when
  some quota rule matches it, and the scope and id reported are those of the matching quota rule that is
  least in the tie-break order: priority, then provider-specific before global, then account before
  model, then id.
\<close>

lemma Classify_least_rule:
  assumes "\<forall>r \<in> set rs. scoped r" and "c = snd (load (Inr rs) c0)"
    and "P = (\<lambda>r. rv_Classification r = ''quota'' \<and> rule_matches G r adapterType pe)"
  shows "case Classify G c adapterType (ProviderErr pe) of ce \<Rightarrow>
    (ce_Persistent ce \<longleftrightarrow> (\<exists>r \<in> set rs. P r)) \<and>
    (ce_Persistent ce \<longrightarrow> ce_ErrorType ce = ErrorQuota \<and>
       (\<exists>r \<in> set rs. P r \<and> ce_Scope ce = rv_Scope r \<and> ce_RuleID ce = rv_ID r \<and>
          (\<forall>r' \<in> set rs. P r' \<longrightarrow> rule_key r \<le> rule_key r'))) \<and>
    (\<not> ce_Persistent ce \<longrightarrow> ce_ErrorType ce = pe_ErrorType pe)"
proof -
  let ?s = "slice_stable rule_less rs"
  have c: "rules c = Some ?s" using assms(2) by (simp add: load_def)
  show ?thesis
  proof (cases "find P ?s")
    case None
    then have "\<forall>r \<in> set rs. \<not> P r" by (simp add: find_None_iff)
    then show ?thesis using None c by (simp add: Classify_def transient_error_def assms(3))
  next
    case (Some r)
    then have r: "r \<in> set rs" "P r" using find_SomeD [OF Some] by simp_all
    have "rule_key r \<le> rule_key r'" if "r' \<in> set rs" "P r'" for r'
      using find_first [OF Some ordered_rules [OF assms(1)]] that by (cases "r' = r") (auto simp: rule_lt_def not_less)
    then show ?thesis using r Some c by (auto simp: Classify_def assms(3))
  qed
qed

definition demo_rule :: "int \<Rightarrow> bytes \<Rightarrow> ruleView" where
  "demo_rule i scope =
     \<lparr>rv_ID = i, rv_MatchField = ''code'', rv_Pattern = ''quota'', rv_ProviderType = None, rv_Scope = scope,
      rv_Classification = ''quota'', rv_Priority = 100\<rparr>"

definition demo_error :: ProviderError where
  "demo_error =
     \<lparr>pe_StatusCode = 429, pe_Message = [], pe_ErrorType = ErrorRateLimit, pe_Code = ''quota'', pe_Type = [],
      pe_Param = [], pe_RetryAfter = 0\<rparr>"

lemma Classify_least_rule_witness:
  "ce_Persistent (Classify ascii_rt (snd (load (Inr [demo_rule 1 ''model'', demo_rule 2 ''account''])
     \<lparr>rules = None, interval = 1\<rparr>)) ''openai'' (ProviderErr demo_error))"
proof -
  have m: "rule_matches ascii_rt (demo_rule 1 ''model'') ''openai'' demo_error"
    by (simp add: rule_matches_def demo_rule_def demo_error_def ascii_rt_def)
  show ?thesis
    using Classify_least_rule [of "[demo_rule 1 ''model'', demo_rule 2 ''account'']" _ "\<lparr>rules = None, interval = 1\<rparr>"
        _ ascii_rt "''openai''" demo_error, OF _ refl refl] m
    by (simp add: scoped_def) (simp add: demo_rule_def)
qed

text \<open>
  A failed refresh never loses rules: after any sequence of refreshes the table is that of the last
  successful load, sorted, or the initial one when none succeeded.
\<close>

lemma refresh_keeps_last_good:
  "rules (RunRefreshLoop ticks c) =
     (case filter (\<lambda>res. \<not> isl res) ticks of
        [] \<Rightarrow> rules c
      | good \<Rightarrow> Some (slice_stable rule_less (projr (last good))))"
proof (induction ticks arbitrary: c)
  case (Cons res ticks)
  then show ?case by (cases res) (auto simp: load_def split: list.split)
qed simp

text \<open>
  A provider error that reaches the classifier wrapped in another error is never recognised as
  persistent, whatever the rules, although the type of the error is still found through the wrapping.
\<close>

lemma wrapped_error_never_persistent:
  "\<not> ce_Persistent (Classify G c adapterType (Wrapped msg (ProviderErr pe))) \<and>
   ce_ErrorType (Classify G c adapterType (Wrapped msg (ProviderErr pe))) = pe_ErrorType pe"
  by (simp add: Classify_def transient_error_def ClassifyError_def as_provider_def)

end
