(* ===== verification/Fallback_Engine.thy ===== *)
theory Fallback_Engine
  imports Error_Classifier Resolver "HOL-Library.Sublist"
begin

text \<open>
  The fallback engine of \<^verbatim>\<open>internal/service/fallback_engine.go\<close>: one upstream call tried over an
  ordered list of routes. The engine uses the circuit breaker through the operations of the record
  \<open>breaker_ops\<close>: \<open>health_ops\<close> is the tracker, \<open>nil_ops\<close> an engine built without one. The call, the
  clock and the request's context are the record \<open>fb_env\<close>; the call threads an abstract world, so that
  what was called can be observed, and \<open>fb_interfere\<close> is what other requests did to the tracker while the
  call ran. Spans and logs have no effect on the result and are left out.
\<close>

section \<open>Operations on the breaker\<close>

record 'h breaker_ops =
  br_admit :: "(nat \<Rightarrow> instant) \<Rightarrow> bytes \<Rightarrow> bytes \<Rightarrow> 'h \<Rightarrow> bool \<times> 'h"
  br_describe :: "instant \<Rightarrow> instant \<Rightarrow> 'h \<Rightarrow> bytes \<Rightarrow> bytes \<Rightarrow> bytes"
  br_success :: "instant \<Rightarrow> bytes \<Rightarrow> bytes \<Rightarrow> 'h \<Rightarrow> 'h"
  br_transient :: "instant \<Rightarrow> bytes \<Rightarrow> bytes \<Rightarrow> duration \<Rightarrow> 'h \<Rightarrow> 'h"
  br_rate_limit :: "instant \<Rightarrow> bytes \<Rightarrow> bytes \<Rightarrow> duration \<Rightarrow> 'h \<Rightarrow> 'h"
  br_persistent :: "instant \<Rightarrow> bytes \<Rightarrow> bytes \<Rightarrow> bytes \<Rightarrow> duration \<Rightarrow> 'h \<Rightarrow> 'h"
  br_cause :: "bytes \<Rightarrow> bytes \<Rightarrow> bytes \<Rightarrow> bytes \<Rightarrow> 'h \<Rightarrow> 'h"
  br_clear :: "bytes \<Rightarrow> bytes \<Rightarrow> 'h \<Rightarrow> 'h"

definition health_ops :: "HealthTracker breaker_ops" where
  "health_ops =
     \<lparr>br_admit = IsHealthyModel, br_describe = OpenCircuitDescription, br_success = RecordSuccessModel,
      br_transient = RecordTransientFailure, br_rate_limit = RecordRateLimitFailure,
      br_persistent = RecordPersistentFailure, br_cause = RecordCause, br_clear = ClearProbe\<rparr>"

definition nil_ops :: "unit breaker_ops" where
  "nil_ops =
     \<lparr>br_admit = (\<lambda>_ _ _ h. (True, h)), br_describe = (\<lambda>_ _ _ _ _. []), br_success = (\<lambda>_ _ _ h. h),
      br_transient = (\<lambda>_ _ _ _ h. h), br_rate_limit = (\<lambda>_ _ _ _ h. h), br_persistent = (\<lambda>_ _ _ _ _ h. h),
      br_cause = (\<lambda>_ _ _ _ h. h), br_clear = (\<lambda>_ _ h. h)\<rparr>"

section \<open>Attempts and results\<close>

record FallbackAttempt =
  fa_ProviderName :: bytes
  fa_ProviderModel :: bytes
  fa_ErrorType :: ErrorType
  fa_Error :: "goerr option"
  fa_LatencyMs :: int
  fa_Success :: bool
  fa_Persistent :: bool
  fa_UpstreamStatus :: int

record 'r FallbackResult =
  fr_Response :: "'r option"
  fr_CancelStream :: bool
  fr_Route :: "RouteResult option"
  fr_Attempts :: "FallbackAttempt list"
  fr_FallbackCount :: int
  fr_FinalError :: "goerr option"

record FallbackEngine =
  fe_config :: FallbackConfig
  fe_classifier :: "ErrorClassifier option"

definition NewFallbackEngine :: "FallbackConfig \<Rightarrow> FallbackEngine" where
  "NewFallbackEngine config = \<lparr>fe_config = config, fe_classifier = None\<rparr>"

definition SetClassifier :: "ErrorClassifier option \<Rightarrow> FallbackEngine \<Rightarrow> FallbackEngine" where
  "SetClassifier c e = e\<lparr>fe_classifier := c\<rparr>"

record call_ctx =
  cc_deadline :: "instant option"
  cc_fallback :: bool

record ('h, 'w, 'r) fb_env =
  fb_clk :: "nat \<Rightarrow> nat \<Rightarrow> instant"
  fb_call :: "call_ctx \<Rightarrow> RouteResult \<Rightarrow> 'w \<Rightarrow> (goerr + 'r) \<times> 'w"
  fb_interfere :: "nat \<Rightarrow> 'h \<Rightarrow> 'h"
  fb_deadline :: "instant option"
  fb_cancelled :: "nat \<Rightarrow> goerr option"
  fb_perProviderTimeout :: duration
  fb_streamMaxDuration :: duration

definition classify :: "go_rt \<Rightarrow> FallbackEngine \<Rightarrow> RouteResult \<Rightarrow> goerr \<Rightarrow> ClassifiedError" where
  "classify G e route err =
     (case (fe_classifier e, rr_ProviderRow route) of
        (Some c, Some row) \<Rightarrow> Classify G c (pr_AdapterType row) err
      | _ \<Rightarrow> transient_error (ClassifyError (Some err)))"

definition retryAfterFrom :: "goerr \<Rightarrow> duration" where
  "retryAfterFrom err = (case as_provider err of Some pe \<Rightarrow> pe_RetryAfter pe | None \<Rightarrow> 0)"

definition upstreamStatusOf :: "goerr \<Rightarrow> int" where
  "upstreamStatusOf err = (case as_provider err of Some pe \<Rightarrow> pe_StatusCode pe | None \<Rightarrow> 0)"

definition defaultPerProviderTimeout :: duration where
  "defaultPerProviderTimeout = 30 * second"

definition SetPerProviderTimeout :: "duration \<Rightarrow> duration" where
  "SetPerProviderTimeout d = (if d \<le> 0 then 0 else d)"

definition effectivePerProviderTimeout :: "duration \<Rightarrow> duration" where
  "effectivePerProviderTimeout stored = (if stored > 0 then stored else defaultPerProviderTimeout)"

definition circuitSkipError :: "'h breaker_ops \<Rightarrow> instant \<Rightarrow> instant \<Rightarrow> 'h \<Rightarrow> bytes \<Rightarrow> bytes \<Rightarrow> goerr" where
  "circuitSkipError B now later h name model =
     (let d = br_describe B now later h name model
      in if d \<noteq> [] then OtherErr (''circuit breaker open, skipping provider: '' @ d)
         else OtherErr (''circuit breaker open, skipping provider '' @ name))"

text \<open>\<^verbatim>\<open>context.WithTimeout\<close>: the earlier of the parent's deadline and the timeout.\<close>

definition with_timeout :: "instant option \<Rightarrow> instant \<Rightarrow> duration \<Rightarrow> instant option" where
  "with_timeout parent now d = Some (case parent of None \<Rightarrow> now + d | Some p \<Rightarrow> min p (now + d))"

text \<open>Division of durations truncates toward zero.\<close>

definition go_quot :: "int \<Rightarrow> int \<Rightarrow> int" where
  "go_quot a b = (if a < 0 then - ((- a) div b) else a div b)"

definition perProvider :: "duration \<Rightarrow> duration \<Rightarrow> int \<Rightarrow> int \<Rightarrow> duration" where
  "perProvider stored remaining attempt totalAttempts =
     (let left = totalAttempts - attempt;
          left' = (if left < 1 then 1 else left);
          pp = go_quot remaining left';
          pp' = (if pp < 5 * second then 5 * second else pp);
          cap = effectivePerProviderTimeout stored
      in if pp' > cap then cap else pp')"

definition perProviderCtx :: "duration \<Rightarrow> instant option \<Rightarrow> instant \<Rightarrow> instant \<Rightarrow> int \<Rightarrow> int \<Rightarrow> instant option" where
  "perProviderCtx stored parent now later attempt totalAttempts =
     (case parent of
        Some deadline \<Rightarrow> with_timeout parent later (perProvider stored (deadline - now) attempt totalAttempts)
      | None \<Rightarrow> with_timeout parent later (effectivePerProviderTimeout stored))"

definition shouldRetry :: "bytes list \<Rightarrow> goerr \<Rightarrow> bool" where
  "shouldRetry retryOn err =
     (let errType = ClassifyError (Some err)
      in if errType = [] then False
         else if retryOn = [] then IsRetryableError (Some err)
         else errType \<in> set retryOn)"

section \<open>One attempt\<close>

text \<open>
  The outcome of an attempt: a classified error or the response and whether a stream timer was started;
  then the latency in milliseconds, the breaker and the world. The deferred \<^verbatim>\<open>ClearProbe\<close> comes last.
\<close>

type_synonym ('h, 'w, 'r) attempt_fn =
  "nat \<Rightarrow> RouteResult \<Rightarrow> 'h \<Rightarrow> 'w \<Rightarrow> ((ClassifiedError \<times> goerr) + ('r \<times> bool)) \<times> int \<times> 'h \<times> 'w"

definition attemptNonStream ::
    "'h breaker_ops \<Rightarrow> go_rt \<Rightarrow> FallbackEngine \<Rightarrow> ('h, 'w, 'r) fb_env \<Rightarrow> nat \<Rightarrow> ('h, 'w, 'r) attempt_fn" where
  "attemptNonStream B G e E maxAttempts i route h w =
     (let name = rr_Provider route; model = rr_ProviderModel route; clk = fb_clk E i;
          ctx = \<lparr>cc_deadline = perProviderCtx (fb_perProviderTimeout E) (fb_deadline E) (clk 11) (clk 12) (int i) (int maxAttempts),
                 cc_fallback = i > 0\<rparr>
      in case fb_call E ctx route w of
           (res, w1) \<Rightarrow>
             let h1 = fb_interfere E i h; latency = go_quot (clk 13 - clk 10) millisecond
             in (case res of
                   Inl err \<Rightarrow> (Inl (classify G e route err, err), latency, br_clear B name model h1, w1)
                 | Inr r \<Rightarrow> (Inr (r, False), latency, br_clear B name model (br_success B (clk 14) name model h1), w1)))"

definition attemptStream ::
    "'h breaker_ops \<Rightarrow> go_rt \<Rightarrow> FallbackEngine \<Rightarrow> ('h, 'w, 'r) fb_env \<Rightarrow> ('h, 'w, 'r) attempt_fn" where
  "attemptStream B G e E i route h w =
     (let name = rr_Provider route; model = rr_ProviderModel route; clk = fb_clk E i;
          timed = fb_streamMaxDuration E > 0;
          ctx = \<lparr>cc_deadline = (if timed then with_timeout (fb_deadline E) (clk 11) (fb_streamMaxDuration E) else fb_deadline E),
                 cc_fallback = i > 0\<rparr>
      in case fb_call E ctx route w of
           (res, w1) \<Rightarrow>
             let h1 = fb_interfere E i h
             in (case res of
                   Inl err \<Rightarrow> (Inl (classify G e route err, err), 0, br_clear B name model h1, w1)
                 | Inr r \<Rightarrow> (Inr (r, timed), 0, br_clear B name model (br_success B (clk 14) name model h1), w1)))"

section \<open>The loop over the routes\<close>

definition record_failure ::
    "'h breaker_ops \<Rightarrow> instant \<Rightarrow> bytes \<Rightarrow> bytes \<Rightarrow> ClassifiedError \<Rightarrow> goerr \<Rightarrow> 'h \<Rightarrow> 'h" where
  "record_failure B now name model ce err h =
     br_cause B name model (ce_ErrorType ce) (err_msg err)
       (if ce_Persistent ce then br_persistent B now name model (ce_Scope ce) 0 h
        else if ce_ErrorType ce = ErrorRateLimit then br_rate_limit B now name model (retryAfterFrom err) h
        else br_transient B now name model (retryAfterFrom err) h)"

definition skip_attempt :: "bytes \<Rightarrow> bytes \<Rightarrow> goerr \<Rightarrow> FallbackAttempt" where
  "skip_attempt name model err =
     \<lparr>fa_ProviderName = name, fa_ProviderModel = model, fa_ErrorType = ErrorServer, fa_Error = Some err,
      fa_LatencyMs = 0, fa_Success = False, fa_Persistent = False, fa_UpstreamStatus = 0\<rparr>"

definition failed_attempt :: "bytes \<Rightarrow> bytes \<Rightarrow> ClassifiedError \<Rightarrow> goerr \<Rightarrow> int \<Rightarrow> FallbackAttempt" where
  "failed_attempt name model ce err latency =
     \<lparr>fa_ProviderName = name, fa_ProviderModel = model, fa_ErrorType = ce_ErrorType ce, fa_Error = Some err,
      fa_LatencyMs = latency, fa_Success = False, fa_Persistent = ce_Persistent ce,
      fa_UpstreamStatus = upstreamStatusOf err\<rparr>"

definition success_attempt :: "bytes \<Rightarrow> bytes \<Rightarrow> int \<Rightarrow> FallbackAttempt" where
  "success_attempt name model latency =
     \<lparr>fa_ProviderName = name, fa_ProviderModel = model, fa_ErrorType = [], fa_Error = None,
      fa_LatencyMs = latency, fa_Success = True, fa_Persistent = False, fa_UpstreamStatus = 0\<rparr>"

definition failure_result :: "FallbackAttempt list \<Rightarrow> goerr option \<Rightarrow> 'r FallbackResult" where
  "failure_result atts err =
     \<lparr>fr_Response = None, fr_CancelStream = False, fr_Route = None, fr_Attempts = atts, fr_FallbackCount = 0,
      fr_FinalError = err\<rparr>"

text \<open>
  The loop of \<^verbatim>\<open>ExecuteNonStream\<close> and \<^verbatim>\<open>ExecuteStream\<close>, which differ in the attempt function only.
  \<open>routes\<close> are the routes still to be tried, \<open>i\<close> the index of the first of them.
\<close>

fun fallback_loop ::
    "'h breaker_ops \<Rightarrow> FallbackEngine \<Rightarrow> ('h, 'w, 'r) fb_env \<Rightarrow> ('h, 'w, 'r) attempt_fn \<Rightarrow> nat \<Rightarrow>
     nat \<Rightarrow> RouteResult list \<Rightarrow> FallbackAttempt list \<Rightarrow> goerr option \<Rightarrow> 'h \<Rightarrow> 'w \<Rightarrow> 'r FallbackResult \<times> 'h \<times> 'w" where
  "fallback_loop B e E attempt maxAttempts i [] atts lastErr h w = (failure_result atts lastErr, h, w)"
| "fallback_loop B e E attempt maxAttempts i (route # routes) atts lastErr h w =
     (let name = rr_Provider route; model = rr_ProviderModel route
      in case br_admit B (fb_clk E i) name model h of
           (False, h1) \<Rightarrow>
             let skipErr = circuitSkipError B (fb_clk E i 4) (fb_clk E i 5) h1 name model
             in fallback_loop B e E attempt maxAttempts (Suc i) routes (atts @ [skip_attempt name model skipErr])
                  (Some skipErr) h1 w
         | (True, h1) \<Rightarrow>
             (case attempt i route h1 w of
                (Inr (r, timed), latency, h2, w2) \<Rightarrow>
                  (\<lparr>fr_Response = Some r, fr_CancelStream = timed, fr_Route = Some route,
                    fr_Attempts = atts @ [success_attempt name model latency], fr_FallbackCount = int i,
                    fr_FinalError = None\<rparr>, h2, w2)
              | (Inl (ce, err), latency, h2, w2) \<Rightarrow>
                  let atts' = atts @ [failed_attempt name model ce err latency]
                  in if ce_ErrorType ce = [] then (failure_result atts' (Some err), h2, w2)
                     else
                       let h3 = record_failure B (fb_clk E i 15) name model ce err h2
                       in if ce_Persistent ce \<or> shouldRetry (RetryOn (fe_config e)) err then
                            (case (if RetryDelayMs (fe_config e) > 0 \<and> Suc i < maxAttempts then fb_cancelled E i else None) of
                               Some cerr \<Rightarrow> (failure_result atts' (Some cerr), h3, w2)
                             | None \<Rightarrow> fallback_loop B e E attempt maxAttempts (Suc i) routes atts' (Some err) h3 w2)
                          else (failure_result atts' (Some err), h3, w2)))"

definition max_attempts :: "FallbackEngine \<Rightarrow> RouteResult list \<Rightarrow> nat" where
  "max_attempts e routes =
     (let n = length routes; mr = MaxRetries (fe_config e)
      in if mr > 0 \<and> wrap64 (mr + 1) < int n then nat (wrap64 (mr + 1)) else n)"

definition ExecuteNonStream ::
    "'h breaker_ops \<Rightarrow> go_rt \<Rightarrow> FallbackEngine \<Rightarrow> ('h, 'w, 'r) fb_env \<Rightarrow> RouteResult list \<Rightarrow> 'h \<Rightarrow> 'w \<Rightarrow>
     'r FallbackResult \<times> 'h \<times> 'w" where
  "ExecuteNonStream B G e E routes h w =
     (let n = max_attempts e routes
      in fallback_loop B e E (attemptNonStream B G e E n) n 0 (take n routes) [] None h w)"

definition ExecuteStream ::
    "'h breaker_ops \<Rightarrow> go_rt \<Rightarrow> FallbackEngine \<Rightarrow> ('h, 'w, 'r) fb_env \<Rightarrow> RouteResult list \<Rightarrow> 'h \<Rightarrow> 'w \<Rightarrow>
     'r FallbackResult \<times> 'h \<times> 'w" where
  "ExecuteStream B G e E routes h w =
     (let n = max_attempts e routes
      in fallback_loop B e E (attemptStream B G e E) n 0 (take n routes) [] None h w)"

section \<open>Around the engine\<close>

definition ResolveFallbackConfig :: "RouteResult list \<Rightarrow> FallbackConfig" where
  "ResolveFallbackConfig routes =
     (case routes of
        [] \<Rightarrow> FallbackConfig0
      | r # _ \<Rightarrow>
          let cfg = rr_FallbackConfig r
          in if RetryOn cfg = [] then cfg\<lparr>RetryOn := [''rate_limit'', ''server'', ''network'', ''timeout'']\<rparr> else cfg)"

definition route_key :: "RouteResult \<Rightarrow> bytes" where
  "route_key r = rr_Provider r @ ''|'' @ rr_ProviderModel r"

fun append_new :: "RouteResult list \<Rightarrow> RouteResult list \<Rightarrow> RouteResult list" where
  "append_new routes [] = routes"
| "append_new routes (r # rs) =
     (if route_key r \<in> route_key ` set routes then append_new routes rs else append_new (routes @ [r]) rs)"

fun expand_models ::
    "(bytes \<Rightarrow> 'w \<Rightarrow> (goerr + RouteResult list) \<times> 'w) \<Rightarrow> bytes list \<Rightarrow> RouteResult list \<Rightarrow> 'w \<Rightarrow> RouteResult list \<times> 'w" where
  "expand_models resolve [] routes w = (routes, w)"
| "expand_models resolve (m # ms) routes w =
     (case resolve m w of
        (Inl _, w1) \<Rightarrow> expand_models resolve ms routes w1
      | (Inr rs, w1) \<Rightarrow> expand_models resolve ms (append_new routes rs) w1)"

definition ExpandFallbackRoutes ::
    "(bytes \<Rightarrow> 'w \<Rightarrow> (goerr + RouteResult list) \<times> 'w) option \<Rightarrow> RouteResult list \<Rightarrow> 'w \<Rightarrow> RouteResult list \<times> 'w" where
  "ExpandFallbackRoutes resolver routes w =
     (case (routes, resolver) of
        (r # _, Some resolve) \<Rightarrow> expand_models resolve (rr_FallbackModels r) routes w
      | _ \<Rightarrow> (routes, w))"

definition LastAttemptRoute :: "'r FallbackResult \<Rightarrow> RouteResult list \<Rightarrow> RouteResult option" where
  "LastAttemptRoute result routes =
     (case fr_Route result of
        Some r \<Rightarrow> Some r
      | None \<Rightarrow>
          let named = List.map_filter (\<lambda>a. if fa_Error a \<noteq> None then find (\<lambda>r. rr_Provider r = fa_ProviderName a) routes else None)
                        (rev (fr_Attempts result))
          in case named of
               r # _ \<Rightarrow> Some r
             | [] \<Rightarrow> (case routes of r # _ \<Rightarrow> Some r | [] \<Rightarrow> None))"

section \<open>Leases across an execution\<close>

text \<open>
  What the engine relies on: a refusal changes nothing, an admission takes leases on the circuits of the
  route only, the release gives them back, and recording an outcome takes none.
\<close>

locale breaker =
  fixes B :: "'h breaker_ops" and leased :: "'h \<Rightarrow> bytes \<Rightarrow> bool"
  assumes refusal: "br_admit B clk n m h = (False, h') \<Longrightarrow> h' = h"
    and admission: "br_admit B clk n m h = (True, h') \<Longrightarrow> leased h' k \<Longrightarrow> leased h k \<or> k \<in> set (keys n m)"
    and release: "leased (br_clear B n m h) k \<Longrightarrow> leased h k \<and> k \<notin> set (keys n m)"
    and success: "leased (br_success B now n m h) k \<Longrightarrow> leased h k"
    and transient: "leased (br_transient B now n m d h) k \<Longrightarrow> leased h k"
    and rate_limit: "leased (br_rate_limit B now n m d h) k \<Longrightarrow> leased h k"
    and persistent: "leased (br_persistent B now n m sc d h) k \<Longrightarrow> leased h k"
    and cause: "leased (br_cause B n m et msg h) k \<Longrightarrow> leased h k"
begin

lemma record_failure_leases: "leased (record_failure B now n m ce err h) k \<Longrightarrow> leased h k"
  by (auto simp: record_failure_def dest!: cause persistent rate_limit transient split: if_splits)

text \<open>An attempt gives back the leases of its route.\<close>

definition releases :: "('h, 'w, 'r) attempt_fn \<Rightarrow> bool" where
  "releases att \<longleftrightarrow>
     (\<forall>i route h w k. leased (fst (snd (snd (att i route h w)))) k \<longrightarrow>
        leased h k \<and> k \<notin> set (keys (rr_Provider route) (rr_ProviderModel route)))"

definition quiet :: "('h, 'w, 'r) fb_env \<Rightarrow> bool" where
  "quiet E \<longleftrightarrow> (\<forall>i h k. leased (fb_interfere E i h) k \<longrightarrow> leased h k)"

lemma releases_attemptNonStream: "quiet E \<Longrightarrow> releases (attemptNonStream B G e E n)"
  unfolding releases_def
proof (intro allI impI)
  fix i route h w k
  assume q: "quiet E" and l: "leased (fst (snd (snd (attemptNonStream B G e E n i route h w)))) k"
  let ?K = "set (keys (rr_Provider route) (rr_ProviderModel route))"
  have "leased (fb_interfere E i h) k \<and> k \<notin> ?K"
    using l by (auto simp: attemptNonStream_def Let_def dest!: release dest: success split: prod.splits sum.splits)
  then show "leased h k \<and> k \<notin> ?K" using q unfolding quiet_def by blast
qed

lemma releases_attemptStream: "quiet E \<Longrightarrow> releases (attemptStream B G e E)"
  unfolding releases_def
proof (intro allI impI)
  fix i route h w k
  assume q: "quiet E" and l: "leased (fst (snd (snd (attemptStream B G e E i route h w)))) k"
  let ?K = "set (keys (rr_Provider route) (rr_ProviderModel route))"
  have "leased (fb_interfere E i h) k \<and> k \<notin> ?K"
    using l by (auto simp: attemptStream_def Let_def dest!: release dest: success split: prod.splits sum.splits)
  then show "leased h k \<and> k \<notin> ?K" using q unfolding quiet_def by blast
qed

lemma fallback_loop_leases:
  assumes "releases att"
  shows "leased (fst (snd (fallback_loop B e E att n i routes atts lastErr h w))) k \<Longrightarrow> leased h k"
proof (induction routes arbitrary: i atts lastErr h w)
  case Nil
  then show ?case by simp
next
  case (Cons route routes)
  let ?n = "rr_Provider route" and ?m = "rr_ProviderModel route"
  obtain ok h1 where a: "br_admit B (fb_clk E i) ?n ?m h = (ok, h1)" by (cases "br_admit B (fb_clk E i) ?n ?m h")
  show ?case
  proof (cases ok)
    case False
    then show ?thesis using Cons.prems a refusal [of "fb_clk E i" ?n ?m h h1] by (auto simp: Let_def dest: Cons.IH)
  next
    case True
    obtain res lat h2 w2 where b: "att i route h1 w = (res, lat, h2, w2)" by (cases "att i route h1 w")
    have h2: "leased h2 k \<Longrightarrow> leased h k"
      using assms [unfolded releases_def, rule_format, of i route h1 w k] b a True
        admission [of "fb_clk E i" ?n ?m h h1 k] by auto
    have rec: "leased (record_failure B now ?n ?m ce err h2) k \<Longrightarrow> leased h k" for now ce err
      using record_failure_leases h2 by blast
    show ?thesis
    proof (cases res)
      case (Inl p)
      obtain ce err where "p = (ce, err)" by (cases p)
      then show ?thesis using Cons.prems a b True Inl
        by (auto simp: Let_def dest: h2 dest!: rec Cons.IH split: if_splits option.splits)
    next
      case (Inr p)
      then show ?thesis using Cons.prems a b True by (auto simp: Let_def dest: h2 split: prod.splits)
    qed
  qed
qed

lemma ExecuteNonStream_leases:
  "quiet E \<Longrightarrow> leased (fst (snd (ExecuteNonStream B G e E routes h w))) k \<Longrightarrow> leased h k"
  using fallback_loop_leases [OF releases_attemptNonStream [of E]]
  unfolding ExecuteNonStream_def Let_def by blast

lemma ExecuteStream_leases:
  "quiet E \<Longrightarrow> leased (fst (snd (ExecuteStream B G e E routes h w))) k \<Longrightarrow> leased h k"
  using fallback_loop_leases [OF releases_attemptStream [of E]]
  unfolding ExecuteStream_def Let_def by blast

end

lemma lease_recordTransientOnKey: "lease (recordTransientOnKey now j ra h) k \<Longrightarrow> lease h k"
  by (auto simp: lease_def method_states transient_on_def Let_def split: if_splits)

interpretation ht: breaker health_ops lease
proof unfold_locales
  show "br_admit health_ops clk n m h = (False, h') \<Longrightarrow> h' = h" for clk n m h h'
    using snd_IsHealthyModel [of clk n m h] by (auto simp: health_ops_def)
  show "lease h k \<or> k \<in> set (keys n m)" if "br_admit health_ops clk n m h = (True, h')" "lease h' k" for clk n m h h' k
  proof -
    have "h' = snd (IsHealthyModel clk n m h)" using that(1) by (simp add: health_ops_def)
    then show ?thesis using that(2) by (auto simp: lease_def states_IsHealthyModel keys_cases split: if_splits)
  qed
  show "lease (br_clear health_ops n m h) k \<Longrightarrow> lease h k \<and> k \<notin> set (keys n m)" for n m h k
    by (auto simp: health_ops_def lease_def states_ClearProbe split: if_splits)
  show "lease (br_success health_ops now n m h) k \<Longrightarrow> lease h k" for now n m h k
    by (auto simp: health_ops_def lease_def states_RecordSuccessModel split: if_splits)
  show "lease (br_transient health_ops now n m d h) k \<Longrightarrow> lease h k" for now n m d h k
    by (auto simp: health_ops_def RecordTransientFailure_def dest: lease_recordTransientOnKey)
  show "lease (br_rate_limit health_ops now n m d h) k \<Longrightarrow> lease h k" for now n m d h k
    by (auto simp: health_ops_def RecordRateLimitFailure_def dest: lease_recordTransientOnKey split: if_splits)
  show "lease (br_persistent health_ops now n m sc d h) k \<Longrightarrow> lease h k" for now n m sc d h k
    by (auto simp: health_ops_def lease_def states_RecordPersistentFailure split: if_splits)
  show "lease (br_cause health_ops n m et msg h) k \<Longrightarrow> lease h k" for n m et msg h k
    by (auto simp: health_ops_def lease_def states_RecordCause split: if_splits)
qed

interpretation nt: breaker nil_ops "\<lambda>_ _. False"
  by unfold_locales (auto simp: nil_ops_def)

section \<open>Outcome of an execution\<close>

definition tried_at :: "FallbackAttempt \<Rightarrow> bytes \<times> bytes" where
  "tried_at a = (fa_ProviderName a, fa_ProviderModel a)"

definition target_of :: "RouteResult \<Rightarrow> bytes \<times> bytes" where
  "target_of r = (rr_Provider r, rr_ProviderModel r)"

text \<open>
  The shape of a result: the attempts name a prefix of the routes, in their order; only the last of them may
  have succeeded, and then the result carries its route, its response and its index; otherwise the result
  carries no route but an error, unless no route was offered.
\<close>

definition outcome_ok :: "RouteResult list \<Rightarrow> 'r FallbackResult \<Rightarrow> bool" where
  "outcome_ok routes res \<longleftrightarrow>
     (let atts = fr_Attempts res; n = length atts
      in n \<le> length routes \<and> map tried_at atts = map target_of (take n routes) \<and>
         (case fr_Route res of
            Some r \<Rightarrow> fr_FinalError res = None \<and> fr_Response res \<noteq> None \<and> 0 < n \<and>
              fr_FallbackCount res = int (n - 1) \<and> r = routes ! (n - 1) \<and>
              map fa_Success atts = replicate (n - 1) False @ [True]
          | None \<Rightarrow> fr_Response res = None \<and> (fr_FinalError res = None \<longleftrightarrow> routes = []) \<and>
              map fa_Success atts = replicate n False))"

definition loop_inv :: "RouteResult list \<Rightarrow> nat \<Rightarrow> RouteResult list \<Rightarrow> FallbackAttempt list \<Rightarrow> goerr option \<Rightarrow> bool" where
  "loop_inv rs i routes atts lastErr \<longleftrightarrow>
     i \<le> length rs \<and> drop i rs = routes \<and> map tried_at atts = map target_of (take i rs) \<and>
     map fa_Success atts = replicate i False \<and> (lastErr = None \<longleftrightarrow> i = 0)"

lemma attempt_sel [simp]:
  "fa_Success (skip_attempt n m err) = False" "tried_at (skip_attempt n m err) = (n, m)"
  "fa_Success (failed_attempt n m ce err l) = False" "tried_at (failed_attempt n m ce err l) = (n, m)"
  "fa_Success (success_attempt n m l) = True" "tried_at (success_attempt n m l) = (n, m)"
  by (simp_all add: skip_attempt_def failed_attempt_def success_attempt_def tried_at_def)

lemma failure_result_sel [simp]:
  "fr_Route (failure_result atts err) = None" "fr_Response (failure_result atts err) = None"
  "fr_Attempts (failure_result atts err) = atts" "fr_FinalError (failure_result atts err) = err"
  by (simp_all add: failure_result_def)

text \<open>Induction over the loop: what holds of every result it can stop with holds of its result.\<close>

lemma fallback_loop_induct [consumes 1, case_names exhausted success stop skip retry]:
  assumes "I i routes atts lastErr"
    and "\<And>i atts lastErr. I i [] atts lastErr \<Longrightarrow> P (failure_result atts lastErr)"
    and "\<And>i route routes atts lastErr r timed latency. I i (route # routes) atts lastErr \<Longrightarrow>
           P \<lparr>fr_Response = Some r, fr_CancelStream = timed, fr_Route = Some route,
              fr_Attempts = atts @ [success_attempt (rr_Provider route) (rr_ProviderModel route) latency],
              fr_FallbackCount = int i, fr_FinalError = None\<rparr>"
    and "\<And>i route routes atts lastErr ce err latency err'. I i (route # routes) atts lastErr \<Longrightarrow>
           P (failure_result (atts @ [failed_attempt (rr_Provider route) (rr_ProviderModel route) ce err latency]) (Some err'))"
    and "\<And>i route routes atts lastErr err. I i (route # routes) atts lastErr \<Longrightarrow>
           I (Suc i) routes (atts @ [skip_attempt (rr_Provider route) (rr_ProviderModel route) err]) (Some err)"
    and "\<And>i route routes atts lastErr ce err latency. I i (route # routes) atts lastErr \<Longrightarrow>
           I (Suc i) routes (atts @ [failed_attempt (rr_Provider route) (rr_ProviderModel route) ce err latency]) (Some err)"
  shows "P (fst (fallback_loop B e E att n i routes atts lastErr h w))"
  using assms(1)
proof (induction routes arbitrary: i atts lastErr h w)
  case Nil
  then show ?case using assms(2) by simp
next
  case (Cons route routes)
  let ?n = "rr_Provider route" and ?m = "rr_ProviderModel route"
  obtain ok h1 where a: "br_admit B (fb_clk E i) ?n ?m h = (ok, h1)" by (cases "br_admit B (fb_clk E i) ?n ?m h")
  obtain res lat h2 w2 where b: "att i route h1 w = (res, lat, h2, w2)" by (cases "att i route h1 w")
  show ?case
  proof (cases ok)
    case False
    then show ?thesis using Cons.IH [OF assms(5) [OF Cons.prems]] a by (simp add: Let_def)
  next
    case True
    show ?thesis
    proof (cases res)
      case (Inl p)
      obtain ce err where "p = (ce, err)" by (cases p)
      then show ?thesis using Cons.IH [OF assms(6) [OF Cons.prems]] assms(4) [OF Cons.prems] a b True Inl
        by (auto simp: Let_def split: option.splits)
    next
      case (Inr p)
      obtain r timed where "p = (r, timed)" by (cases p)
      then show ?thesis using assms(3) [OF Cons.prems] a b True Inr by (simp add: Let_def)
    qed
  qed
qed

lemma loop_inv_length: "loop_inv rs i routes atts lastErr \<Longrightarrow> length atts = i"
  unfolding loop_inv_def by (metis length_map length_replicate)

lemma loop_inv_head:
  assumes "loop_inv rs i (route # routes) atts lastErr"
  shows "i < length rs" "rs ! i = route" "take (Suc i) rs = take i rs @ [route]" "drop (Suc i) rs = routes"
proof -
  have d: "drop i rs = route # routes" using assms by (simp add: loop_inv_def)
  then show l: "i < length rs" by (metis drop_all list.distinct(1) not_le)
  show n: "rs ! i = route" using nth_via_drop [OF d] .
  show "take (Suc i) rs = take i rs @ [route]" using take_Suc_conv_app_nth [OF l] n by simp
  show "drop (Suc i) rs = routes" using d by (metis drop_Suc list.sel(3) tl_drop)
qed

lemma loop_inv_next:
  assumes "loop_inv rs i (route # routes) atts lastErr" and "tried_at a = target_of route" and "\<not> fa_Success a"
  shows "loop_inv rs (Suc i) routes (atts @ [a]) (Some err)"
  using assms loop_inv_head [OF assms(1)] by (simp add: loop_inv_def replicate_append_same)

lemma loop_inv_exhausted:
  assumes "loop_inv rs i [] atts lastErr"
  shows "outcome_ok rs (failure_result atts lastErr)"
proof -
  have "i = length rs" using assms by (auto simp: loop_inv_def)
  then show ?thesis using assms loop_inv_length [OF assms] by (auto simp: loop_inv_def outcome_ok_def Let_def)
qed

lemma loop_inv_stop:
  assumes "loop_inv rs (Suc i) routes atts lastErr"
  shows "outcome_ok rs (failure_result atts (Some err))"
  using assms loop_inv_length [OF assms] by (auto simp: loop_inv_def outcome_ok_def Let_def)

lemma loop_inv_success:
  assumes "loop_inv rs i (route # routes) atts lastErr" and "tried_at a = target_of route" and "fa_Success a"
  shows "outcome_ok rs \<lparr>fr_Response = Some r, fr_CancelStream = timed, fr_Route = Some route, fr_Attempts = atts @ [a],
           fr_FallbackCount = int i, fr_FinalError = None\<rparr>"
  using assms loop_inv_head [OF assms(1)] loop_inv_length [OF assms(1)]
  by (simp add: outcome_ok_def Let_def loop_inv_def)

lemma fallback_loop_outcome: "outcome_ok rs (fst (fallback_loop B e E att n 0 rs [] None h w))"
proof -
  have "loop_inv rs 0 rs [] None" by (simp add: loop_inv_def)
  then show ?thesis
  proof (rule fallback_loop_induct [where P = "outcome_ok rs" and I = "loop_inv rs"], goal_cases exhausted success stop skip retry)
    case (exhausted i atts lastErr)
    then show ?case by (rule loop_inv_exhausted)
  next
    case (success i route routes atts lastErr r timed latency)
    then show ?case by (rule loop_inv_success) (simp_all add: target_of_def)
  next
    case (stop i route routes atts lastErr ce err latency err')
    show ?case by (rule loop_inv_stop, rule loop_inv_next [OF stop]) (simp_all add: target_of_def)
  next
    case (skip i route routes atts lastErr err)
    show ?case by (rule loop_inv_next [OF skip]) (simp_all add: target_of_def)
  next
    case (retry i route routes atts lastErr ce err latency)
    show ?case by (rule loop_inv_next [OF retry]) (simp_all add: target_of_def)
  qed
qed

lemma max_attempts_le: "max_attempts e routes \<le> length routes"
  by (auto simp: max_attempts_def Let_def)

section \<open>Calls made by an execution\<close>

text \<open>The environment that keeps a log of the calls, with their contexts.\<close>

definition logged :: "('h, 'w, 'r) fb_env \<Rightarrow> ('h, (call_ctx \<times> RouteResult) list \<times> 'w, 'r) fb_env" where
  "logged E =
     \<lparr>fb_clk = fb_clk E,
      fb_call = (\<lambda>ctx r (l, w). case fb_call E ctx r w of (res, w1) \<Rightarrow> (res, (l @ [(ctx, r)], w1))),
      fb_interfere = fb_interfere E, fb_deadline = fb_deadline E, fb_cancelled = fb_cancelled E,
      fb_perProviderTimeout = fb_perProviderTimeout E, fb_streamMaxDuration = fb_streamMaxDuration E\<rparr>"

definition inside :: "instant option \<Rightarrow> call_ctx \<Rightarrow> bool" where
  "inside parent ctx \<longleftrightarrow>
     (case parent of None \<Rightarrow> True | Some p \<Rightarrow> (case cc_deadline ctx of None \<Rightarrow> False | Some d \<Rightarrow> d \<le> p))"

definition calls_once :: "instant option \<Rightarrow> ('h, (call_ctx \<times> RouteResult) list \<times> 'w, 'r) attempt_fn \<Rightarrow> bool" where
  "calls_once parent att \<longleftrightarrow>
     (\<forall>i route h l w. \<exists>res lat h' ctx w'. att i route h (l, w) = (res, lat, h', (l @ [(ctx, route)], w')) \<and>
        inside parent ctx \<and> (cc_fallback ctx \<longleftrightarrow> 0 < i))"

lemma inside_with_timeout: "cc_deadline ctx = with_timeout parent now d \<Longrightarrow> inside parent ctx"
  by (auto simp: inside_def with_timeout_def split: option.splits)

lemma calls_once_attemptNonStream: "calls_once (fb_deadline E) (attemptNonStream B G e (logged E) n)"
  unfolding calls_once_def
proof (intro allI)
  fix i route h l w
  let ?ctx = "\<lparr>cc_deadline = perProviderCtx (fb_perProviderTimeout E) (fb_deadline E) (fb_clk E i 11) (fb_clk E i 12) (int i) (int n),
    cc_fallback = i > 0\<rparr>"
  have w: "inside (fb_deadline E) ?ctx"
    by (cases "fb_deadline E") (auto simp: perProviderCtx_def intro: inside_with_timeout)
  obtain res w1 where "fb_call E ?ctx route w = (res, w1)" by (cases "fb_call E ?ctx route w")
  then show "\<exists>res lat h' ctx w'. attemptNonStream B G e (logged E) n i route h (l, w) = (res, lat, h', (l @ [(ctx, route)], w')) \<and>
      inside (fb_deadline E) ctx \<and> (cc_fallback ctx \<longleftrightarrow> 0 < i)"
    using w by (auto simp: attemptNonStream_def logged_def Let_def split: sum.splits)
qed

lemma calls_once_attemptStream: "calls_once (fb_deadline E) (attemptStream B G e (logged E))"
  unfolding calls_once_def
proof (intro allI)
  fix i route h l w
  let ?ctx = "\<lparr>cc_deadline = (if fb_streamMaxDuration E > 0 then with_timeout (fb_deadline E) (fb_clk E i 11) (fb_streamMaxDuration E)
      else fb_deadline E), cc_fallback = i > 0\<rparr>"
  have w: "inside (fb_deadline E) ?ctx"
    by (cases "fb_streamMaxDuration E > 0") (auto simp: inside_def with_timeout_def split: option.splits)
  obtain res w1 where "fb_call E ?ctx route w = (res, w1)" by (cases "fb_call E ?ctx route w")
  then show "\<exists>res lat h' ctx w'. attemptStream B G e (logged E) i route h (l, w) = (res, lat, h', (l @ [(ctx, route)], w')) \<and>
      inside (fb_deadline E) ctx \<and> (cc_fallback ctx \<longleftrightarrow> 0 < i)"
    using w by (auto simp: attemptStream_def logged_def Let_def split: sum.splits)
qed

definition calls_fit :: "instant option \<Rightarrow> RouteResult list \<Rightarrow> (call_ctx \<times> RouteResult) list \<Rightarrow> bool" where
  "calls_fit parent routes cs \<longleftrightarrow> subseq (map snd cs) routes \<and> list_all (inside parent \<circ> fst) cs"

lemma calls_fit_Nil: "calls_fit parent routes []"
  by (simp add: calls_fit_def)

lemma calls_fit_skip: "calls_fit parent routes cs \<Longrightarrow> calls_fit parent (r # routes) cs"
  by (simp add: calls_fit_def list_emb_Cons)

lemma calls_fit_call: "calls_fit parent routes cs \<Longrightarrow> inside parent ctx \<Longrightarrow> calls_fit parent (r # routes) ((ctx, r) # cs)"
  by (simp add: calls_fit_def)

lemma fallback_loop_calls:
  assumes "calls_once parent att"
  shows "\<exists>cs w'. snd (snd (fallback_loop B e E att n i routes atts lastErr h (l, w))) = (l @ cs, w') \<and> calls_fit parent routes cs"
proof (induction routes arbitrary: i atts lastErr h l w)
  case Nil
  then show ?case by (simp add: calls_fit_Nil)
next
  case (Cons route routes)
  let ?n = "rr_Provider route" and ?m = "rr_ProviderModel route"
  obtain ok h1 where a: "br_admit B (fb_clk E i) ?n ?m h = (ok, h1)" by (cases "br_admit B (fb_clk E i) ?n ?m h")
  obtain res lat h2 ctx w2 where b: "att i route h1 (l, w) = (res, lat, h2, (l @ [(ctx, route)], w2))" and c: "inside parent ctx"
    using assms unfolding calls_once_def by metis
  have one: "\<exists>cs w'. (l @ [(ctx, route)], w2) = (l @ cs, w') \<and> calls_fit parent (route # routes) cs"
    using calls_fit_call [OF calls_fit_Nil c] by blast
  have more: "\<exists>cs w'. snd (snd (fallback_loop B e E att n i' routes atts' le' h' (l @ [(ctx, route)], w2))) = (l @ cs, w') \<and>
      calls_fit parent (route # routes) cs" for i' atts' le' h'
  proof -
    obtain cs w' where "snd (snd (fallback_loop B e E att n i' routes atts' le' h' (l @ [(ctx, route)], w2))) = ((l @ [(ctx, route)]) @ cs, w')"
      and "calls_fit parent routes cs" using Cons.IH by blast
    then show ?thesis using calls_fit_call [OF _ c, of routes cs route]
      by (intro exI [of _ "(ctx, route) # cs"] exI [of _ w']) simp
  qed
  show ?case
  proof (cases ok)
    case False
    obtain cs w' where "snd (snd (fallback_loop B e E att n (Suc i) routes
        (atts @ [skip_attempt ?n ?m (circuitSkipError B (fb_clk E i 4) (fb_clk E i 5) h1 ?n ?m)])
        (Some (circuitSkipError B (fb_clk E i 4) (fb_clk E i 5) h1 ?n ?m)) h1 (l, w))) = (l @ cs, w')"
      and "calls_fit parent routes cs" using Cons.IH by blast
    then show ?thesis using a False calls_fit_skip by (auto simp: Let_def)
  next
    case True
    show ?thesis
    proof (cases res)
      case (Inl p)
      obtain ce err where "p = (ce, err)" by (cases p)
      then show ?thesis using a b True Inl one more by (simp add: Let_def split: option.splits)
    next
      case (Inr p)
      obtain r timed where "p = (r, timed)" by (cases p)
      then show ?thesis using a b True Inr one by (simp add: Let_def)
    qed
  qed
qed

section \<open>Expanding the routes\<close>

lemma append_new_keys:
  "distinct (map route_key routes) \<Longrightarrow> distinct (map route_key (append_new routes rs)) \<and>
   (\<exists>extra. append_new routes rs = routes @ extra \<and> set extra \<subseteq> set rs)"
proof (induction routes rs rule: append_new.induct)
  case (1 routes)
  then show ?case by simp
next
  case (2 routes r rs)
  show ?case
  proof (cases "route_key r \<in> route_key ` set routes")
    case True
    then show ?thesis using 2 by fastforce
  next
    case False
    have d: "distinct (map route_key (routes @ [r]))" using False 2(3) by simp
    obtain extra where "append_new (routes @ [r]) rs = (routes @ [r]) @ extra" "set extra \<subseteq> set rs"
      using 2(2) [OF False d] by blast
    then show ?thesis using False 2(2) [OF False d]
      by (intro conjI exI [of _ "r # extra"]) auto
  qed
qed

lemma append_new_covers: "route_key ` (set routes \<union> set rs) \<subseteq> route_key ` set (append_new routes rs)"
  by (induction routes rs rule: append_new.induct) auto

lemma expand_models_keys:
  "distinct (map route_key routes) \<Longrightarrow> distinct (map route_key (fst (expand_models resolve ms routes w))) \<and>
   (\<exists>extra. fst (expand_models resolve ms routes w) = routes @ extra)"
proof (induction ms arbitrary: routes w)
  case Nil
  then show ?case by simp
next
  case (Cons m ms)
  obtain ans w1 where a: "resolve m w = (ans, w1)" by (cases "resolve m w")
  show ?case
  proof (cases ans)
    case (Inl err)
    then show ?thesis using Cons a by simp
  next
    case (Inr rs)
    obtain ex where e: "append_new routes rs = routes @ ex" and d: "distinct (map route_key (append_new routes rs))"
      using append_new_keys [OF Cons.prems] by blast
    show ?thesis using Cons.IH [OF d, of w1] a Inr e by auto
  qed
qed

text \<open>The time given to one attempt: the fair share of what remains, at least five seconds, at most the cap.\<close>

lemma perProvider_eq:
  "perProvider stored remaining attempt n =
     min (effectivePerProviderTimeout stored) (max (5 * second) (go_quot remaining (max 1 (n - attempt))))"
  by (auto simp: perProvider_def Let_def max_def min_def)

section \<open>Properties\<close>

text \<open>
  C23: Outcome of a failover. For either kind of call, the attempts of the result name a prefix of the offered
  routes in their order, at most as many as the retry limit allows; a successful result carries the response,
  the route and the index of the last attempt, which is the only successful one; a failed one carries no route,
  and an error unless nothing was offered.
\<close>

theorem fallback_outcome:
  "outcome_ok (take (max_attempts e routes) routes) (fst (ExecuteNonStream B G e E routes h w)) \<and>
   outcome_ok (take (max_attempts e routes) routes) (fst (ExecuteStream B G e E routes h w))"
  by (simp add: ExecuteNonStream_def ExecuteStream_def Let_def fallback_loop_outcome)

text \<open>
  Bounded, ordered calls. The calls an execution makes go to a subsequence of the first
  \<open>MaxRetries + 1\<close> routes (of all routes when no limit is set), so that no route is called twice, and
  each call gets a context that ends no later than the request's own.
\<close>

lemma calls_follow_routes:
  "\<exists>cs w'. snd (snd (ExecuteNonStream B G e (logged E) routes h ([], w))) = (cs, w') \<and>
     calls_fit (fb_deadline E) (take (max_attempts e routes) routes) cs"
  using fallback_loop_calls [OF calls_once_attemptNonStream [of E B G e "max_attempts e routes"], where B = B and e = e and
      E = "logged E" and n = "max_attempts e routes" and i = 0 and routes = "take (max_attempts e routes) routes" and
      atts = "[]" and lastErr = None and h = h and l = "[]" and w = w]
  unfolding ExecuteNonStream_def Let_def append_Nil .

text \<open>
  C7: No leaked probe. Whatever the calls answer, a circuit that is not leased before an execution over the
  tracker is not leased after it, provided the steps of other requests during its calls took no lease.
\<close>

theorem no_lease_leaked:
  assumes "\<And>i h k. lease (fb_interfere E i h) k \<Longrightarrow> lease h k" and "\<not> lease h k"
  shows "\<not> lease (fst (snd (ExecuteNonStream health_ops G e E routes h w))) k \<and>
    \<not> lease (fst (snd (ExecuteStream health_ops G e E routes h w))) k"
proof -
  have "ht.quiet E" using assms(1) by (simp add: ht.quiet_def)
  then show ?thesis using assms(2) ht.ExecuteNonStream_leases [of E G e routes h w k] ht.ExecuteStream_leases [of E G e routes h w k]
    by blast
qed

definition demo_route :: "bytes \<Rightarrow> RouteResult" where
  "demo_route p =
     \<lparr>rr_Provider = p, rr_ProviderModel = ''m'', rr_InputPrice = 0, rr_OutputPrice = 0, rr_Currency = ''USD'',
      rr_ProviderRow = None, rr_RetryConfig = RetryConfig0, rr_FallbackModels = [''n''], rr_FallbackConfig = FallbackConfig0,
      rr_ExtraConfig = [], rr_Weight = 1, rr_Priority = 0, rr_MaxContext = None\<rparr>"

definition demo_fb :: "instant \<Rightarrow> goerr + bytes \<Rightarrow> (HealthTracker, nat, bytes) fb_env" where
  "demo_fb t ans =
     \<lparr>fb_clk = (\<lambda>_ _. t), fb_call = (\<lambda>_ _ w. (ans, w + 1)), fb_interfere = (\<lambda>_ h. h), fb_deadline = None,
      fb_cancelled = (\<lambda>_. None), fb_perProviderTimeout = 0, fb_streamMaxDuration = 0\<rparr>"

definition demo_engine :: FallbackEngine where
  "demo_engine = NewFallbackEngine \<lparr>MaxRetries = 3, RetryOn = [], RetryDelayMs = 0\<rparr>"

lemmas demo_fb_simps = demo_fb_def demo_engine_def NewFallbackEngine_def demo_route_def

theorem no_lease_leaked_witness:
  "\<not> lease (fst (snd (ExecuteNonStream health_ops ascii_rt demo_engine (demo_fb 11 (Inl CtxCanceled)) [demo_route ''p''] demo_open 0))) ''p''"
  using no_lease_leaked [of "demo_fb 11 (Inl CtxCanceled)" demo_open "''p''" ascii_rt demo_engine "[demo_route ''p'']" 0]
  by (simp add: demo_fb_def lease_def demo_open_simps)

lemma refused_loop:
  assumes "\<forall>j < length routes. \<not> fst (IsHealthyModel (fb_clk E (i + j)) (rr_Provider (routes ! j)) (rr_ProviderModel (routes ! j)) h)"
  shows "snd (fallback_loop health_ops e E att n i routes atts lastErr h w) = (h, w) \<and>
    length (fr_Attempts (fst (fallback_loop health_ops e E att n i routes atts lastErr h w))) = length atts + length routes"
  using assms
proof (induction routes arbitrary: i atts lastErr)
  case Nil
  then show ?case by simp
next
  case (Cons route routes)
  have "\<not> fst (IsHealthyModel (fb_clk E i) (rr_Provider route) (rr_ProviderModel route) h)"
    using Cons.prems by force
  then have a: "br_admit health_ops (fb_clk E i) (rr_Provider route) (rr_ProviderModel route) h = (False, h)"
    using snd_IsHealthyModel [of "fb_clk E i" "rr_Provider route" "rr_ProviderModel route" h]
    by (auto simp: health_ops_def prod_eq_iff)
  have "\<forall>j < length routes. \<not> fst (IsHealthyModel (fb_clk E (Suc i + j)) (rr_Provider (routes ! j)) (rr_ProviderModel (routes ! j)) h)"
    using Cons.prems by (metis Suc_less_eq add_Suc_shift length_Cons nth_Cons_Suc)
  then show ?case using Cons.IH a by (simp add: Let_def)
qed

text \<open>
  Open circuits are not called. When the breaker refuses every offered route, no call is made, the tracker
  is unchanged, and every route of the attempt budget is reported as a failed attempt.
\<close>

lemma open_circuits_not_called:
  assumes "\<forall>j < length routes. \<not> fst (IsHealthyModel (fb_clk E j) (rr_Provider (routes ! j)) (rr_ProviderModel (routes ! j)) h)"
  shows "snd (ExecuteNonStream health_ops G e E routes h w) = (h, w) \<and>
    snd (ExecuteStream health_ops G e E routes h w) = (h, w) \<and>
    length (fr_Attempts (fst (ExecuteNonStream health_ops G e E routes h w))) = max_attempts e routes"
proof -
  have "\<forall>j < length (take (max_attempts e routes) routes).
      \<not> fst (IsHealthyModel (fb_clk E (0 + j)) (rr_Provider (take (max_attempts e routes) routes ! j))
          (rr_ProviderModel (take (max_attempts e routes) routes ! j)) h)"
    using assms by simp
  from refused_loop [OF this] show ?thesis
    using max_attempts_le [of e routes] by (simp add: ExecuteNonStream_def ExecuteStream_def Let_def)
qed

lemma open_circuits_not_called_witness:
  "snd (ExecuteNonStream health_ops ascii_rt demo_engine (demo_fb 9 (Inr ''ok'')) [demo_route ''p''] demo_open 0) = (demo_open, 0)"
  using open_circuits_not_called [of "[demo_route ''p'']" "demo_fb 9 (Inr ''ok'')" demo_open ascii_rt demo_engine 0]
  by (simp add: demo_fb_simps IsHealthyModel_blocked blockedOrProbed_def before_def demo_open_simps)

text \<open>
  A deadline ends the failover. When the first admitted call fails with an error that wraps the expiry of
  its deadline, no other route is tried and nothing is recorded on the breaker: the error is final. The deadline
  of an attempt is the engine's own per-attempt timeout, so a slow first provider is not failed over.
\<close>

lemma deadline_stops_failover:
  assumes "0 < max_attempts e (r # rs)" and "fb_call E \<lparr>cc_deadline = perProviderCtx (fb_perProviderTimeout E) (fb_deadline E)
      (fb_clk E 0 11) (fb_clk E 0 12) 0 (int (max_attempts e (r # rs))), cc_fallback = False\<rparr> r w = (Inl err, w1)"
    and "IsHealthyModel (fb_clk E 0) (rr_Provider r) (rr_ProviderModel r) h = (True, h1)"
    and "as_provider err = None" and "err_is err CtxDeadline"
  shows "fr_FinalError (fst (ExecuteNonStream health_ops G e E (r # rs) h w)) = Some err \<and>
    length (fr_Attempts (fst (ExecuteNonStream health_ops G e E (r # rs) h w))) = 1 \<and>
    snd (ExecuteNonStream health_ops G e E (r # rs) h w) =
      (ClearProbe (rr_Provider r) (rr_ProviderModel r) (fb_interfere E 0 h1), w1)"
proof -
  obtain n where n: "max_attempts e (r # rs) = Suc n" using assms(1) by (cases "max_attempts e (r # rs)") auto
  have p: "provider_of err = None" using assms(4) by (cases err) (simp_all add: as_provider_def)
  have c: "ce_ErrorType (classify G e r err) = []"
    using assms(4,5) p by (simp add: classify_def Classify_def ClassifyError_def transient_error_def split: option.splits)
  have a: "br_admit health_ops (fb_clk E 0) (rr_Provider r) (rr_ProviderModel r) h = (True, h1)"
    and cl: "br_clear health_ops = ClearProbe" using assms(3) by (simp_all add: health_ops_def)
  show ?thesis using assms(2) a c cl unfolding ExecuteNonStream_def n Let_def
    by (simp add: attemptNonStream_def Let_def)
qed

lemma deadline_stops_failover_witness:
  "fr_FinalError (fst (ExecuteNonStream health_ops ascii_rt demo_engine (demo_fb 9 (Inl (Wrapped ''post'' CtxDeadline)))
     [demo_route ''q'', demo_route ''r''] demo_open 0)) = Some (Wrapped ''post'' CtxDeadline)"
proof -
  have "0 < max_attempts demo_engine [demo_route ''q'', demo_route ''r'']"
    by (simp add: max_attempts_def demo_engine_def NewFallbackEngine_def wrap64_def)
  moreover have "IsHealthyModel (fb_clk (demo_fb 9 (Inl (Wrapped ''post'' CtxDeadline))) 0) ''q'' ''m'' demo_open =
      (True, snd (IsHealthyModel (\<lambda>_. 9) ''q'' ''m'' demo_open))"
    by (simp add: demo_fb_def prod_eq_iff IsHealthyModel_blocked blockedOrProbed_def model_key_def demo_open_simps)
  ultimately show ?thesis
    using deadline_stops_failover [of demo_engine "demo_route ''q''" "[demo_route ''r'']"
        "demo_fb 9 (Inl (Wrapped ''post'' CtxDeadline))" 0 "Wrapped ''post'' CtxDeadline" 1 demo_open
        "snd (IsHealthyModel (\<lambda>_. 9) ''q'' ''m'' demo_open)" ascii_rt]
    by (simp add: demo_fb_def demo_route_def as_provider_def err_is_def)
qed

lemma retrying_loop:
  assumes "\<And>i r h w. \<exists>ce err lat h' w'. att i r h w = (Inl (ce, err), lat, h', w') \<and> ce_ErrorType ce \<noteq> [] \<and> shouldRetry (RetryOn (fe_config e)) err"
    and "\<And>i. fb_cancelled E i = None"
  shows "length (fr_Attempts (fst (fallback_loop B e E att n i routes atts lastErr h w))) = length atts + length routes"
proof (induction routes arbitrary: i atts lastErr h w)
  case Nil
  then show ?case by simp
next
  case (Cons route routes)
  obtain ok h1 where a: "br_admit B (fb_clk E i) (rr_Provider route) (rr_ProviderModel route) h = (ok, h1)"
    by (cases "br_admit B (fb_clk E i) (rr_Provider route) (rr_ProviderModel route) h")
  obtain ce err lat h' w' where b: "att i route h1 w = (Inl (ce, err), lat, h', w')"
    and "ce_ErrorType ce \<noteq> []" "shouldRetry (RetryOn (fe_config e)) err" using assms(1) by metis
  then show ?case using a assms(2) Cons.IH by (cases ok) (simp_all add: Let_def)
qed

text \<open>
  Failover reaches every route. When every call fails with an error the configuration retries on and the
  request is not cancelled, every route of the attempt budget is attempted, on either path.
\<close>

lemma failover_reaches_every_route:
  assumes "\<And>ctx r w. \<exists>err w'. fb_call E ctx r w = (Inl err, w') \<and> shouldRetry (RetryOn (fe_config e)) err"
    and "\<And>i. fb_cancelled E i = None" and "fe_classifier e = None"
  shows "length (fr_Attempts (fst (ExecuteNonStream B G e E routes h w))) = max_attempts e routes \<and>
    length (fr_Attempts (fst (ExecuteStream B G e E routes h w))) = max_attempts e routes"
proof -
  have t: "shouldRetry ro err \<Longrightarrow> ce_ErrorType (classify G e r err) \<noteq> []" for ro err r
    using assms(3) by (auto simp: classify_def transient_error_def shouldRetry_def Let_def split: if_splits)
  have n: "\<exists>ce err lat h' w'. attemptNonStream B G e E k i r h w = (Inl (ce, err), lat, h', w') \<and> ce_ErrorType ce \<noteq> [] \<and>
      shouldRetry (RetryOn (fe_config e)) err" for k i r h w
  proof -
    let ?ctx = "\<lparr>cc_deadline = perProviderCtx (fb_perProviderTimeout E) (fb_deadline E) (fb_clk E i 11) (fb_clk E i 12) (int i) (int k),
      cc_fallback = i > 0\<rparr>"
    obtain err w' where "fb_call E ?ctx r w = (Inl err, w')" "shouldRetry (RetryOn (fe_config e)) err" using assms(1) by blast
    then show ?thesis using t by (auto simp: attemptNonStream_def Let_def)
  qed
  have s: "\<exists>ce err lat h' w'. attemptStream B G e E i r h w = (Inl (ce, err), lat, h', w') \<and> ce_ErrorType ce \<noteq> [] \<and>
      shouldRetry (RetryOn (fe_config e)) err" for i r h w
  proof -
    let ?ctx = "\<lparr>cc_deadline = (if fb_streamMaxDuration E > 0 then with_timeout (fb_deadline E) (fb_clk E i 11) (fb_streamMaxDuration E)
      else fb_deadline E), cc_fallback = i > 0\<rparr>"
    obtain err w' where "fb_call E ?ctx r w = (Inl err, w')" "shouldRetry (RetryOn (fe_config e)) err" using assms(1) by blast
    then show ?thesis using t by (auto simp: attemptStream_def Let_def)
  qed
  show ?thesis using retrying_loop [OF n assms(2)] retrying_loop [OF s assms(2)] max_attempts_le [of e routes]
    by (simp add: ExecuteNonStream_def ExecuteStream_def Let_def)
qed

lemma failover_reaches_every_route_witness:
  "length (fr_Attempts (fst (ExecuteNonStream health_ops ascii_rt demo_engine (demo_fb 9 (Inl UnexpectedEOF))
     [demo_route ''q'', demo_route ''r''] demo_open 0))) = 2"
  using failover_reaches_every_route [of "demo_fb 9 (Inl UnexpectedEOF)" demo_engine health_ops ascii_rt
      "[demo_route ''q'', demo_route ''r'']" demo_open 0]
  by (simp add: demo_fb_simps max_attempts_def wrap64_def shouldRetry_def IsRetryableError_def ClassifyError_def
      as_provider_def as_net_def err_is_def ErrorNetwork_def ErrorAuth_def ErrorNotFound_def ErrorBadRequest_def)

text \<open>
  Expanding the routes by the fallback models keeps the given routes first and adds no second route for a
  provider and model that is already there.
\<close>

lemma expand_no_duplicates:
  assumes "distinct (map route_key routes)"
  shows "distinct (map route_key (fst (ExpandFallbackRoutes resolver routes w))) \<and>
    take (length routes) (fst (ExpandFallbackRoutes resolver routes w)) = routes"
proof (cases "routes = [] \<or> resolver = None")
  case True
  then have "ExpandFallbackRoutes resolver routes w = (routes, w)"
    by (auto simp: ExpandFallbackRoutes_def split: list.split option.split)
  then show ?thesis using assms by simp
next
  case False
  then obtain r rs f where r: "routes = r # rs" and f: "resolver = Some f" by (cases routes) auto
  have e: "ExpandFallbackRoutes resolver routes w = expand_models f (rr_FallbackModels r) routes w"
    by (simp add: ExpandFallbackRoutes_def r f)
  obtain extra where x: "fst (expand_models f (rr_FallbackModels r) routes w) = routes @ extra"
    using expand_models_keys [OF assms, of f "rr_FallbackModels r" w] by blast
  show ?thesis using expand_models_keys [OF assms, of f "rr_FallbackModels r" w] unfolding e x by simp
qed

lemma expand_no_duplicates_witness:
  "distinct (map route_key (fst (ExpandFallbackRoutes (Some (\<lambda>m w. (Inr [demo_route ''p'', demo_route m], w))) [demo_route ''p''] ())))"
  using expand_no_duplicates [of "[demo_route ''p'']" "Some (\<lambda>m w. (Inr [demo_route ''p'', demo_route m], w))" "()"] by simp

end
