(* ===== verification/Scoring.thy ===== *)
theory Scoring
  imports Health_Tracker
begin

text \<open>
  Two small services around routing and billing: the unit price of an image
  (\<^verbatim>\<open>internal/service/pricing.go\<close>) and the health score of a provider
  (\<^verbatim>\<open>internal/service/health_score.go\<close>). Prices and scores are rationals. The answers of Redis are arguments;
  the commands a recording issues are its result.
\<close>

section \<open>Image prices\<close>

record ImagePriceTier =
  tier_Size :: bytes
  tier_Quality :: bytes
  tier_Price :: rat

record PricingRule =
  rule_Type :: bytes
  rule_Price :: rat
  rule_Currency :: bytes
  rule_Tiers :: "ImagePriceTier list"

text \<open>The loop over the tiers; the last two arguments are the partial matches found so far.\<close>

fun image_loop :: "go_rt \<Rightarrow> bytes \<Rightarrow> bytes \<Rightarrow> rat \<Rightarrow> ImagePriceTier list \<Rightarrow> ImagePriceTier option \<Rightarrow> ImagePriceTier option \<Rightarrow> rat" where
  "image_loop G sz quality dflt [] sizeMatch qualityMatch =
     (case sizeMatch of Some t \<Rightarrow> tier_Price t | None \<Rightarrow> (case qualityMatch of Some t \<Rightarrow> tier_Price t | None \<Rightarrow> dflt))"
| "image_loop G sz quality dflt (t # ts) sizeMatch qualityMatch =
     (if tier_Size t \<noteq> [] \<and> tier_Quality t \<noteq> [] then
        if rt_equal_fold G (tier_Size t) sz \<and> rt_equal_fold G (tier_Quality t) quality then tier_Price t
        else image_loop G sz quality dflt ts sizeMatch qualityMatch
      else
        image_loop G sz quality dflt ts
          (if tier_Size t \<noteq> [] \<and> rt_equal_fold G (tier_Size t) sz \<and> sizeMatch = None then Some t else sizeMatch)
          (if tier_Quality t \<noteq> [] \<and> rt_equal_fold G (tier_Quality t) quality \<and> qualityMatch = None then Some t else qualityMatch))"

definition ResolveImagePrice :: "go_rt \<Rightarrow> PricingRule option \<Rightarrow> bytes \<Rightarrow> bytes \<Rightarrow> rat" where
  "ResolveImagePrice G rule sz quality =
     (case rule of
        None \<Rightarrow> 0
      | Some r \<Rightarrow> if rule_Tiers r = [] then rule_Price r else image_loop G sz quality (rule_Price r) (rule_Tiers r) None None)"

text \<open>The documented precedence: exact tier, size-only tier, quality-only tier, default; the first of each kind.\<close>

definition exact_tier :: "go_rt \<Rightarrow> bytes \<Rightarrow> bytes \<Rightarrow> ImagePriceTier \<Rightarrow> bool" where
  "exact_tier G sz quality t \<longleftrightarrow> tier_Size t \<noteq> [] \<and> tier_Quality t \<noteq> [] \<and> rt_equal_fold G (tier_Size t) sz \<and>
     rt_equal_fold G (tier_Quality t) quality"

definition size_tier :: "go_rt \<Rightarrow> bytes \<Rightarrow> ImagePriceTier \<Rightarrow> bool" where
  "size_tier G sz t \<longleftrightarrow> tier_Size t \<noteq> [] \<and> tier_Quality t = [] \<and> rt_equal_fold G (tier_Size t) sz"

definition quality_tier :: "go_rt \<Rightarrow> bytes \<Rightarrow> ImagePriceTier \<Rightarrow> bool" where
  "quality_tier G quality t \<longleftrightarrow> tier_Quality t \<noteq> [] \<and> tier_Size t = [] \<and> rt_equal_fold G (tier_Quality t) quality"

definition first_price :: "ImagePriceTier option list \<Rightarrow> rat \<Rightarrow> rat" where
  "first_price cands dflt = (case find (\<lambda>c. c \<noteq> None) cands of Some (Some t) \<Rightarrow> tier_Price t | _ \<Rightarrow> dflt)"

definition price_spec :: "go_rt \<Rightarrow> PricingRule \<Rightarrow> bytes \<Rightarrow> bytes \<Rightarrow> rat" where
  "price_spec G r sz quality =
     first_price [find (exact_tier G sz quality) (rule_Tiers r), find (size_tier G sz) (rule_Tiers r),
       find (quality_tier G quality) (rule_Tiers r)] (rule_Price r)"

section \<open>Health scores\<close>

definition HealthScorePenaltyFactor :: rat where "HealthScorePenaltyFactor = 2"

definition HalfOpenProbeFloor :: rat where "HalfOpenProbeFloor = 1 / 20"

text \<open>\<open>limited\<close> is the number of limit flags set, \<open>total'\<close> and \<open>errs\<close> the counters of the current minute, 0 when absent.\<close>

definition soft_score :: "int \<Rightarrow> int \<Rightarrow> rat" where
  "soft_score total' errs =
     (if total' \<le> 0 then 1
      else let base = 1 - (of_int errs / of_int total') * HealthScorePenaltyFactor in if base < 0 then 0 else base)"

definition HealthScore :: "bool \<Rightarrow> HealthTracker option \<Rightarrow> instant \<Rightarrow> bytes \<Rightarrow> bytes \<Rightarrow> int \<Rightarrow> int \<Rightarrow> int \<Rightarrow> rat" where
  "HealthScore rdb health now providerName model limited total' errs =
     (case (rdb, health) of
        (True, Some h) \<Rightarrow>
          (case CircuitState_of h now providerName model of
             CircuitOpen \<Rightarrow> 0
           | CircuitHalfOpen \<Rightarrow> HalfOpenProbeFloor
           | CircuitClosed \<Rightarrow> if limited > 0 then 0 else soft_score total' errs)
      | _ \<Rightarrow> 1)"

datatype redis_cmd = Incr bytes | Expire bytes duration

definition guard_key :: "bytes \<Rightarrow> bytes \<Rightarrow> bytes \<Rightarrow> int \<Rightarrow> bytes" where
  "guard_key name providerName model minute' = ''guard:'' @ name @ '':'' @ providerName @ '':'' @ model @ '':'' @ itoa minute'"

definition incr_expire :: "bytes \<Rightarrow> bool \<Rightarrow> redis_cmd list" where
  "incr_expire k ok = Incr k # (if ok then [Expire k (2 * minute)] else [])"

text \<open>The two flags say whether the increments succeed.\<close>

definition RecordDispatchOutcome :: "bool \<Rightarrow> bytes \<Rightarrow> bytes \<Rightarrow> int \<Rightarrow> goerr option \<Rightarrow> bool \<Rightarrow> bool \<Rightarrow> redis_cmd list" where
  "RecordDispatchOutcome rdb providerName model minute' err ok1 ok2 =
     (if \<not> rdb then []
      else incr_expire (guard_key ''total'' providerName model minute') ok1 @
           (if err \<noteq> None then incr_expire (guard_key ''errs'' providerName model minute') ok2 else []))"

section \<open>Lemmas\<close>

lemma image_loop_spec:
  "image_loop G sz quality dflt ts sm qm =
     (case find (exact_tier G sz quality) ts of
        Some t \<Rightarrow> tier_Price t
      | None \<Rightarrow> first_price [if sm = None then find (size_tier G sz) ts else sm, if qm = None then find (quality_tier G quality) ts else qm] dflt)"
proof (induction ts arbitrary: sm qm)
  case Nil
  then show ?case by (cases sm; cases qm) (simp_all add: first_price_def)
next
  case (Cons t ts)
  show ?case
  proof (cases "tier_Size t \<noteq> [] \<and> tier_Quality t \<noteq> []")
    case True
    have x: "exact_tier G sz quality t = (rt_equal_fold G (tier_Size t) sz \<and> rt_equal_fold G (tier_Quality t) quality)"
      and n: "\<not> size_tier G sz t" "\<not> quality_tier G quality t"
      using True by (auto simp: exact_tier_def size_tier_def quality_tier_def)
    show ?thesis using True by (cases "find (exact_tier G sz quality) ts") (simp_all add: Cons x n)
  next
    case False
    have n: "\<not> exact_tier G sz quality t" using False by (auto simp: exact_tier_def)
    have s: "(tier_Size t \<noteq> [] \<and> rt_equal_fold G (tier_Size t) sz \<and> sm = None) = (size_tier G sz t \<and> sm = None)"
      and q: "(tier_Quality t \<noteq> [] \<and> rt_equal_fold G (tier_Quality t) quality \<and> qm = None) = (quality_tier G quality t \<and> qm = None)"
      using False by (auto simp: size_tier_def quality_tier_def)
    have "image_loop G sz quality dflt (t # ts) sm qm =
        image_loop G sz quality dflt ts (if size_tier G sz t \<and> sm = None then Some t else sm)
          (if quality_tier G quality t \<and> qm = None then Some t else qm)"
      by (simp only: image_loop.simps if_not_P [OF False] s q)
    then show ?thesis using n
      by (cases "find (exact_tier G sz quality) ts"; cases sm; cases qm) (simp_all add: Cons del: image_loop.simps)
  qed
qed

text \<open>
  The price of an image is the documented one: that of the first tier with the size and the quality, else of the
  first tier for the size alone, else of the first tier for the quality alone, else the default.
\<close>

lemma image_price_precedence: "ResolveImagePrice G (Some r) sz quality = price_spec G r sz quality"
  by (cases "find (exact_tier G sz quality) (rule_Tiers r)")
    (auto simp: ResolveImagePrice_def price_spec_def image_loop_spec first_price_def)

text \<open>A score lies between 0 and 1, and is 0 exactly when the circuit is open, a limit is hit or half of the calls fail.\<close>

lemma soft_score_range: "0 \<le> errs \<Longrightarrow> 0 \<le> soft_score n errs \<and> soft_score n errs \<le> 1"
  by (simp add: soft_score_def HealthScorePenaltyFactor_def Let_def)

lemma soft_score_zero:
  assumes "0 < n"
  shows "soft_score n errs = 0 \<longleftrightarrow> n \<le> 2 * errs"
proof -
  have "soft_score n errs = 0 \<longleftrightarrow> (1 :: rat) - of_int errs / of_int n * 2 \<le> 0"
    using assms by (auto simp: soft_score_def HealthScorePenaltyFactor_def Let_def)
  also have "\<dots> \<longleftrightarrow> (of_int n :: rat) \<le> of_int (2 * errs)" using assms by (simp add: field_simps)
  also have "\<dots> \<longleftrightarrow> n \<le> 2 * errs" by (simp only: of_int_le_iff)
  finally show ?thesis .
qed

text \<open>
  The health score of a provider and model lies between 0 and 1; with the infrastructure in place it is 0 exactly
  when the circuit is open, a limit flag is set on a closed circuit, or at least half of the calls of the minute
  failed on a closed circuit.
\<close>

lemma health_score_range:
  assumes "0 \<le> errs"
  shows "0 \<le> HealthScore rdb health now p m limited n errs \<and> HealthScore rdb health now p m limited n errs \<le> 1 \<and>
    (HealthScore True (Some h) now p m limited n errs = 0 \<longleftrightarrow> CircuitState_of h now p m = CircuitOpen \<or>
       CircuitState_of h now p m = CircuitClosed \<and> (0 < limited \<or> 0 < n \<and> n \<le> 2 * errs))"
proof -
  have z: "soft_score n errs = 0 \<longleftrightarrow> 0 < n \<and> n \<le> 2 * errs"
    using soft_score_zero [of n errs] by (cases "0 < n") (simp_all add: soft_score_def)
  show ?thesis using soft_score_range [OF assms, of n] z
    by (auto simp: HealthScore_def HalfOpenProbeFloor_def split: option.split bool.split CircuitState.split)
qed

lemma health_score_range_witness: "HealthScore True (Some NewHealthTracker) 5 ''p'' ''m'' 0 10 5 = 0"
  using health_score_range [of 5 True "Some NewHealthTracker" 5 "''p''" "''m''" 0 10 NewHealthTracker]
  by (simp add: CircuitState_of_def keys_def key_state_def NewHealthTracker_def NewHealthTrackerWithConfig_def)

end
