(* ===== verification/Domain.thy ===== *)
theory Domain
  imports Go_Decode
begin

text \<open>
  The wire types of \<^verbatim>\<open>internal/domain\<close>: OpenAI chat completions, Anthropic messages and OpenAI
  responses. A raw message is its bytes, with \<open>[]\<close> for nil: the decoder and the translators never produce
  an empty raw message that is not nil. A nil slice is told apart from an empty one nowhere in these types,
  so slices are lists. An interface value is a \<open>goany\<close>. Sampling parameters are only copied.
  For the types the translators read or write as JSON there is a decoder (\<open>dec_\<dots>\<close>) and an encoder
  (\<open>\<dots>_json\<close>) that follow the struct tags.
\<close>

section \<open>OpenAI chat completions\<close>

record OpenAIFunctionCall =
  fc_Name :: bytes
  fc_Arguments :: bytes

record OpenAIToolCall =
  tc_ID :: bytes
  tc_Type :: bytes
  tc_Function :: OpenAIFunctionCall

record OpenAIMessage =
  om_Role :: bytes
  om_Content :: goany
  om_ReasoningContent :: bytes
  om_ToolCalls :: "OpenAIToolCall list"
  om_ToolCallID :: bytes

definition OpenAIMessage0 :: OpenAIMessage where
  "OpenAIMessage0 =
     \<lparr>om_Role = [], om_Content = ANil, om_ReasoningContent = [], om_ToolCalls = [], om_ToolCallID = []\<rparr>"

record OpenAIFunctionDef =
  fd_Name :: bytes
  fd_Description :: bytes
  fd_Parameters :: bytes
  fd_Strict :: "bool option"

record OpenAITool =
  ot_Type :: bytes
  ot_Function :: OpenAIFunctionDef

record StreamOptions =
  IncludeUsage :: bool

record OpenAIRequest =
  oq_Model :: bytes
  oq_Messages :: "OpenAIMessage list"
  oq_MaxTokens :: "int option"
  oq_MaxCompletionTokens :: "int option"
  oq_N :: "int option"
  oq_Stream :: bool
  oq_Temperature :: "rat option"
  oq_TopP :: "rat option"
  oq_Stop :: goany
  oq_User :: bytes
  oq_StreamOptions :: "StreamOptions option"
  oq_Tools :: "OpenAITool list"
  oq_ToolChoice :: goany
  oq_ReasoningEffort :: bytes
  oq_Thinking :: bytes

definition OpenAIRequest0 :: OpenAIRequest where
  "OpenAIRequest0 =
     \<lparr>oq_Model = [], oq_Messages = [], oq_MaxTokens = None, oq_MaxCompletionTokens = None, oq_N = None,
      oq_Stream = False, oq_Temperature = None, oq_TopP = None, oq_Stop = ANil, oq_User = [],
      oq_StreamOptions = None, oq_Tools = [], oq_ToolChoice = ANil, oq_ReasoningEffort = [], oq_Thinking = []\<rparr>"

text \<open>\<^verbatim>\<open>m[k]\<close> on a map with interface values: nil when the key is missing.\<close>

definition any_get :: "(bytes \<times> goany) list \<Rightarrow> bytes \<Rightarrow> goany" where
  "any_get m k = (case map_of m k of Some v \<Rightarrow> v | None \<Rightarrow> ANil)"

definition text_part :: "goany \<Rightarrow> bytes option" where
  "text_part item =
     (case item of
        AObj m \<Rightarrow>
          if any_get m ''type'' = AStr ''text'' then
            (case any_get m ''text'' of AStr t \<Rightarrow> if t \<noteq> [] then Some t else None | _ \<Rightarrow> None)
          else None
      | _ \<Rightarrow> None)"

definition ContentText :: "go_rt \<Rightarrow> goany \<Rightarrow> bytes" where
  "ContentText G v =
     (case v of
        ANil \<Rightarrow> []
      | AStr c \<Rightarrow> c
      | AArr c \<Rightarrow> join [CHR 0x0A] (List.map_filter text_part c)
      | _ \<Rightarrow> fmt_v G v)"

record PromptTokensDetails =
  CachedTokens :: int

record CompletionTokensDetails =
  ReasoningTokens :: int

text \<open>\<^verbatim>\<open>OpenAIUsage\<close> and \<^verbatim>\<open>OpenAIChunkUsage\<close> have the same fields.\<close>

record OpenAIUsage =
  PromptTokens :: int
  CompletionTokens :: int
  TotalTokens :: int
  u_CompletionTokensDetails :: "CompletionTokensDetails option"
  u_PromptTokensDetails :: "PromptTokensDetails option"
  CacheCreationTokens :: int

definition OpenAIUsage0 :: OpenAIUsage where
  "OpenAIUsage0 =
     \<lparr>PromptTokens = 0, CompletionTokens = 0, TotalTokens = 0, u_CompletionTokensDetails = None,
      u_PromptTokensDetails = None, CacheCreationTokens = 0\<rparr>"

record OpenAIChoice =
  oc_Index :: int
  oc_Message :: OpenAIMessage
  oc_FinishReason :: bytes

record OpenAIResponse =
  or_ID :: bytes
  or_Object :: bytes
  or_Created :: int
  or_Model :: bytes
  or_Choices :: "OpenAIChoice list"
  or_Usage :: OpenAIUsage
  or_SystemFingerprint :: bytes
  or_ServiceTier :: bytes

record OpenAIChunkToolCall =
  ct_Index :: int
  ct_ID :: bytes
  ct_Type :: bytes
  ct_Function :: OpenAIFunctionCall

record OpenAIChunkDelta =
  cd_Role :: bytes
  cd_Content :: bytes
  cd_ReasoningContent :: bytes
  cd_ToolCalls :: "OpenAIChunkToolCall list"

definition OpenAIChunkDelta0 :: OpenAIChunkDelta where
  "OpenAIChunkDelta0 = \<lparr>cd_Role = [], cd_Content = [], cd_ReasoningContent = [], cd_ToolCalls = []\<rparr>"

record OpenAIChunkChoice =
  cc_Index :: int
  cc_Delta :: OpenAIChunkDelta
  cc_FinishReason :: "bytes option"

record OpenAIChunk =
  ck_ID :: bytes
  ck_Object :: bytes
  ck_Created :: int
  ck_Model :: bytes
  ck_Choices :: "OpenAIChunkChoice list"
  ck_Usage :: "OpenAIUsage option"
  ck_SystemFingerprint :: bytes

record SSEChunk =
  sc_Chunk :: "OpenAIChunk option"
  sc_Done :: bool

section \<open>Anthropic messages\<close>

record AnthropicMessage =
  am_Role :: bytes
  am_Content :: bytes

record AnthropicRequest =
  aq_Model :: bytes
  aq_MaxTokens :: int
  aq_Messages :: "AnthropicMessage list"
  aq_System :: bytes
  aq_Stream :: bool
  aq_Temperature :: "rat option"
  aq_TopP :: "rat option"
  aq_TopK :: "int option"
  aq_StopSequences :: "bytes list"
  aq_Metadata :: "bytes option"
  aq_Tools :: bytes
  aq_ToolChoice :: bytes
  aq_Thinking :: bytes

record ContentBlock =
  cb_Type :: bytes
  cb_Text :: bytes
  cb_ID :: bytes
  cb_Name :: bytes
  cb_Input :: bytes
  cb_Source :: bytes
  cb_ToolUseID :: bytes
  cb_Content :: bytes

definition ContentBlock0 :: ContentBlock where
  "ContentBlock0 =
     \<lparr>cb_Type = [], cb_Text = [], cb_ID = [], cb_Name = [], cb_Input = [], cb_Source = [], cb_ToolUseID = [],
      cb_Content = []\<rparr>"

definition dec_ContentBlock :: "ContentBlock dec" where
  "dec_ContentBlock = dec_struct
     [fld ''type'' dec_string cb_Type cb_Type_update, fld ''text'' dec_string cb_Text cb_Text_update,
      fld ''id'' dec_string cb_ID cb_ID_update, fld ''name'' dec_string cb_Name cb_Name_update,
      fld ''input'' dec_raw cb_Input cb_Input_update, fld ''source'' dec_raw cb_Source cb_Source_update,
      fld ''tool_use_id'' dec_string cb_ToolUseID cb_ToolUseID_update,
      fld ''content'' dec_raw cb_Content cb_Content_update]"

text \<open>The fields of an encoded struct; an omitted one is left out when it is empty.\<close>

definition str_field :: "bytes \<Rightarrow> bytes \<Rightarrow> (bytes \<times> json) list" where
  "str_field k s = (if s = [] then [] else [(k, JStr s)])"

definition raw_field :: "bytes \<Rightarrow> bytes \<Rightarrow> (bytes \<times> json) list" where
  "raw_field k b = (if b = [] then [] else [(k, JRaw b)])"

definition ContentBlock_json :: "ContentBlock \<Rightarrow> json" where
  "ContentBlock_json b =
     JObj ([(''type'', JStr (cb_Type b))] @ str_field ''text'' (cb_Text b) @ str_field ''id'' (cb_ID b) @
           str_field ''name'' (cb_Name b) @ raw_field ''input'' (cb_Input b) @ raw_field ''source'' (cb_Source b) @
           str_field ''tool_use_id'' (cb_ToolUseID b) @ raw_field ''content'' (cb_Content b))"

record AnthropicTool =
  at_Name :: bytes
  at_Description :: bytes
  at_InputSchema :: bytes

definition AnthropicTool0 :: AnthropicTool where
  "AnthropicTool0 = \<lparr>at_Name = [], at_Description = [], at_InputSchema = []\<rparr>"

definition dec_AnthropicTool :: "AnthropicTool dec" where
  "dec_AnthropicTool = dec_struct
     [fld ''name'' dec_string at_Name at_Name_update,
      fld ''description'' dec_string at_Description at_Description_update,
      fld ''input_schema'' dec_raw at_InputSchema at_InputSchema_update]"

definition AnthropicTool_json :: "AnthropicTool \<Rightarrow> json" where
  "AnthropicTool_json t =
     JObj ([(''name'', JStr (at_Name t))] @ str_field ''description'' (at_Description t) @
           [(''input_schema'', JRaw (at_InputSchema t))])"

record AnthropicToolChoice =
  ac_Type :: bytes
  ac_Name :: bytes
  ac_DisableParallelToolUse :: bool

definition AnthropicToolChoice0 :: AnthropicToolChoice where
  "AnthropicToolChoice0 = \<lparr>ac_Type = [], ac_Name = [], ac_DisableParallelToolUse = False\<rparr>"

definition dec_AnthropicToolChoice :: "AnthropicToolChoice dec" where
  "dec_AnthropicToolChoice = dec_struct
     [fld ''type'' dec_string ac_Type ac_Type_update, fld ''name'' dec_string ac_Name ac_Name_update,
      fld ''disable_parallel_tool_use'' dec_bool ac_DisableParallelToolUse ac_DisableParallelToolUse_update]"

record AnthropicUsage =
  InputTokens :: int
  OutputTokens :: int
  CacheReadInputTokens :: int
  CacheCreationInputTokens :: int

record AnthropicResponse =
  ar_ID :: bytes
  ar_Type :: bytes
  ar_Role :: bytes
  ar_Content :: "ContentBlock list"
  ar_Model :: bytes
  ar_StopReason :: bytes
  ar_StopSequence :: "bytes option"
  ar_Usage :: AnthropicUsage

record SSEEvent =
  se_Event :: bytes
  se_Data :: bytes

section \<open>OpenAI responses\<close>

record ResponsesRequest =
  rq_Model :: bytes
  rq_Input :: bytes
  rq_Instructions :: bytes
  rq_MaxOutputTokens :: "int option"
  rq_PreviousResponseID :: bytes
  rq_Store :: "bool option"
  rq_Stream :: bool
  rq_Tools :: "OpenAITool list"
  rq_ToolChoice :: goany
  rq_Temperature :: "rat option"
  rq_TopP :: "rat option"
  rq_Reasoning :: bytes
  rq_User :: bytes
  rq_Metadata :: bytes

record ResponsesInputItem =
  ri_Type :: bytes
  ri_Role :: bytes
  ri_Content :: bytes
  ri_CallID :: bytes
  ri_Name :: bytes
  ri_Arguments :: bytes
  ri_Output :: bytes
  ri_ID :: bytes

definition ResponsesInputItem0 :: ResponsesInputItem where
  "ResponsesInputItem0 =
     \<lparr>ri_Type = [], ri_Role = [], ri_Content = [], ri_CallID = [], ri_Name = [], ri_Arguments = [], ri_Output = [],
      ri_ID = []\<rparr>"

definition dec_ResponsesInputItem :: "ResponsesInputItem dec" where
  "dec_ResponsesInputItem = dec_struct
     [fld ''type'' dec_string ri_Type ri_Type_update, fld ''role'' dec_string ri_Role ri_Role_update,
      fld ''content'' dec_raw ri_Content ri_Content_update, fld ''call_id'' dec_string ri_CallID ri_CallID_update,
      fld ''name'' dec_string ri_Name ri_Name_update,
      fld ''arguments'' dec_string ri_Arguments ri_Arguments_update,
      fld ''output'' dec_string ri_Output ri_Output_update, fld ''id'' dec_string ri_ID ri_ID_update]"

record ResponsesContentPart =
  rp_Type :: bytes
  rp_Text :: bytes

record ResponsesOutputItem =
  ro_Type :: bytes
  ro_ID :: bytes
  ro_Role :: bytes
  ro_Status :: bytes
  ro_Content :: "ResponsesContentPart list"
  ro_CallID :: bytes
  ro_Name :: bytes
  ro_Arguments :: bytes

record ResponsesUsage =
  ru_InputTokens :: int
  ru_OutputTokens :: int
  ru_TotalTokens :: int
  ru_InputTokensDetails :: "int option"
  ru_OutputTokensDetails :: "int option"

record ResponsesResponse =
  rs_ID :: bytes
  rs_Object :: bytes
  rs_Status :: bytes
  rs_Model :: bytes
  rs_Output :: "ResponsesOutputItem list"
  rs_Usage :: ResponsesUsage
  rs_PreviousResponseID :: bytes

text \<open>A streamed event: its type and its payload, which the handler marshals.\<close>

record ResponsesEvent =
  re_Type :: bytes
  re_Payload :: json

section \<open>Reading back what was marshalled\<close>

lemma erase_JObj: "erase n = JObj ms \<Longrightarrow> \<exists>xs. val n = VObj xs \<and> map (\<lambda>m. (fst m, erase (snd m))) xs = ms"
  by (cases n; cases "val n") auto

lemma erase_JArr: "erase n = JArr js \<Longrightarrow> \<exists>xs. val n = VArr xs \<and> map erase xs = js"
  by (cases n; cases "val n") auto

text \<open>Objects whose members are known up to the bytes of their values.\<close>

lemma members_Cons [simp]:
  "map (\<lambda>m. (fst m, erase (snd m))) xs = (k, v) # ms \<longleftrightarrow>
   (\<exists>x ys. xs = (k, x) # ys \<and> erase x = v \<and> map (\<lambda>m. (fst m, erase (snd m))) ys = ms)"
  by (cases xs) auto

lemma valid_utf8_append: "valid_utf8 s \<Longrightarrow> valid_utf8 t \<Longrightarrow> valid_utf8 (s @ t)"
proof (induction s rule: valid_utf8.induct)
  case 1
  then show ?case by simp
next
  case (2 b bs)
  let ?n = "rune_len (b # bs)"
  have "?n \<le> Suc (length bs)" using rune_len_le [of "b # bs"] by simp
  then have "drop (?n - 1) (bs @ t) = drop (?n - 1) bs @ t" by simp
  moreover have "rune_len (b # bs @ t) = ?n"
    using rune_len_append [of "b # bs" ?n "drop ?n (b # bs) @ t"] 2(2)
    by (metis append_Cons append_assoc append_take_drop_id valid_utf8.simps(2))
  ultimately show ?case using 2 by simp
qed

lemma valid_utf8_join: "list_all valid_utf8 ss \<Longrightarrow> valid_utf8 sep \<Longrightarrow> valid_utf8 (join sep ss)"
  by (induction sep ss rule: join.induct) (simp_all add: valid_utf8_append)

text \<open>\<^verbatim>\<open>data, _ := json.Marshal(v)\<close>: nil when the value cannot be marshalled.\<close>

definition marshal_or_nil :: "json \<Rightarrow> bytes" where
  "marshal_or_nil j = (case marshal j of Some b \<Rightarrow> b | None \<Rightarrow> [])"

lemma marshal_or_nil_node:
  assumes "plain 0 j"
  obtains n where "unmarshal_node (marshal_or_nil j) = Some n" and "erase n = j" and "marshal_or_nil j \<noteq> []"
proof -
  obtain s v where s: "marshal j = Some s" "unmarshal_node s = Some (Node s v)" "erase (Node s v) = j"
    using json_roundtrip [OF assms] by blast
  have "s \<noteq> []" using starts_marshal [OF assms s(1)] by (auto simp: starts_def)
  then show ?thesis using that s by (simp add: marshal_or_nil_def)
qed

end
