(* ===== verification/Translate.thy ===== *)
theory Translate
  imports Domain
begin

text \<open>
  The translators between the OpenAI and the Anthropic formats for whole requests and responses:
  \<^verbatim>\<open>internal/translator/{mapper,request,response,reverse_request,reverse_response}.go\<close>. The random
  bytes of an identifier are an argument, an error is its text in the left summand. The theorems are about
  what survives a translation and what survives a round trip through the other format.
\<close>

section \<open>Identifiers and reasons\<close>

definition hex_encode :: "bytes \<Rightarrow> bytes" where
  "hex_encode b = concat (map (\<lambda>c. [hex_digit (code_of c div 16), hex_digit (code_of c mod 16)]) b)"

definition generateMessageID :: "bytes \<Rightarrow> bytes" where
  "generateMessageID rnd = ''msg_'' @ hex_encode rnd"

definition finishReasonMap :: "(bytes \<times> bytes) list" where
  "finishReasonMap = [(''stop'', ''end_turn''), (''length'', ''max_tokens''), (''content_filter'', ''end_turn''),
     (''tool_calls'', ''tool_use'')]"

definition finishReasonToStopReason :: "bytes \<Rightarrow> bytes" where
  "finishReasonToStopReason reason = (case map_of finishReasonMap reason of Some v \<Rightarrow> v | None \<Rightarrow> ''end_turn'')"

definition stopReasonToFinishReasonMap :: "(bytes \<times> bytes) list" where
  "stopReasonToFinishReasonMap = [(''end_turn'', ''stop''), (''max_tokens'', ''length''), (''stop_sequence'', ''stop''),
     (''tool_use'', ''tool_calls'')]"

definition stopReasonToFinishReason :: "bytes \<Rightarrow> bytes" where
  "stopReasonToFinishReason reason =
     (case map_of stopReasonToFinishReasonMap reason of Some v \<Rightarrow> v | None \<Rightarrow> ''stop'')"

section \<open>Anthropic request to OpenAI request\<close>

definition ErrMissingModel :: bytes where "ErrMissingModel = ''model is required''"
definition ErrMissingMessages :: bytes where "ErrMissingMessages = ''messages is required''"
definition ErrMissingMaxTokens :: bytes where "ErrMissingMaxTokens = ''max_tokens is required''"

abbreviation newline :: bytes where "newline \<equiv> [CHR 0x0A]"

definition unmarshal_string :: "bytes \<Rightarrow> bytes option" where
  "unmarshal_string data = (case unmarshal dec_string data [] of (s, e) \<Rightarrow> if e then None else Some s)"

definition unmarshal_blocks :: "bytes \<Rightarrow> ContentBlock list option" where
  "unmarshal_blocks data =
     (case unmarshal (dec_slice ContentBlock0 dec_ContentBlock) data None of
        (bs, e) \<Rightarrow> if e then None else Some (case bs of Some l \<Rightarrow> l | None \<Rightarrow> []))"

definition text_of :: "ContentBlock list \<Rightarrow> bytes list" where
  "text_of blocks = map cb_Text (filter (\<lambda>b. cb_Type b = ''text'') blocks)"

definition joinTextBlocks :: "ContentBlock list \<Rightarrow> bytes" where
  "joinTextBlocks blocks = join newline (text_of blocks)"

definition extractToolResultContent :: "bytes \<Rightarrow> bytes" where
  "extractToolResultContent data =
     (if data = [] then []
      else case unmarshal_string data of
             Some s \<Rightarrow> s
           | None \<Rightarrow> (case unmarshal_blocks data of Some bs \<Rightarrow> join newline (text_of bs) | None \<Rightarrow> data))"

definition extractSystemPrompt :: "bytes \<Rightarrow> bytes" where
  "extractSystemPrompt data =
     (if data = [] then []
      else case unmarshal_string data of
             Some s \<Rightarrow> s
           | None \<Rightarrow> (case unmarshal_blocks data of Some bs \<Rightarrow> joinTextBlocks bs | None \<Rightarrow> []))"

definition ExtractContentText :: "bytes \<Rightarrow> bytes" where
  "ExtractContentText data =
     (if data = [] then []
      else case unmarshal_string data of
             Some s \<Rightarrow> s
           | None \<Rightarrow> (case unmarshal_blocks data of Some bs \<Rightarrow> joinTextBlocks bs | None \<Rightarrow> data))"

definition text_message :: "bytes \<Rightarrow> bytes \<Rightarrow> OpenAIMessage" where
  "text_message role s = OpenAIMessage0\<lparr>om_Role := role, om_Content := AStr s\<rparr>"

definition tool_call_of :: "ContentBlock \<Rightarrow> OpenAIToolCall" where
  "tool_call_of b =
     \<lparr>tc_ID = cb_ID b, tc_Type = ''function'', tc_Function = \<lparr>fc_Name = cb_Name b, fc_Arguments = cb_Input b\<rparr>\<rparr>"

definition tool_result_of :: "ContentBlock \<Rightarrow> OpenAIMessage" where
  "tool_result_of b =
     OpenAIMessage0\<lparr>om_Role := ''tool'', om_Content := AStr (extractToolResultContent (cb_Content b)),
       om_ToolCallID := cb_ToolUseID b\<rparr>"

definition translateContentBlocks :: "bytes \<Rightarrow> ContentBlock list \<Rightarrow> OpenAIMessage list" where
  "translateContentBlocks role blocks =
     (let textParts = text_of blocks;
          toolCalls = map tool_call_of (filter (\<lambda>b. cb_Type b = ''tool_use'') blocks);
          results = map tool_result_of (filter (\<lambda>b. cb_Type b = ''tool_result'') blocks)
      in if toolCalls = [] \<and> results = [] then [text_message role (join newline textParts)]
         else (if textParts \<noteq> [] \<or> toolCalls \<noteq> []
               then [(text_message role (join newline textParts))\<lparr>om_ToolCalls := toolCalls\<rparr>] else []) @ results)"

definition translateMessage :: "AnthropicMessage \<Rightarrow> OpenAIMessage list" where
  "translateMessage msg =
     (if am_Content msg = [] then [text_message (am_Role msg) []]
      else case unmarshal_string (am_Content msg) of
             Some s \<Rightarrow> [text_message (am_Role msg) s]
           | None \<Rightarrow>
               (case unmarshal_blocks (am_Content msg) of
                  None \<Rightarrow> [text_message (am_Role msg) (am_Content msg)]
                | Some blocks \<Rightarrow> translateContentBlocks (am_Role msg) blocks))"

definition tool_of :: "AnthropicTool \<Rightarrow> OpenAITool" where
  "tool_of t =
     \<lparr>ot_Type = ''function'', ot_Function = \<lparr>fd_Name = at_Name t, fd_Description = at_Description t,
        fd_Parameters = at_InputSchema t, fd_Strict = None\<rparr>\<rparr>"

definition translateTools :: "bytes \<Rightarrow> OpenAITool list option" where
  "translateTools data =
     (case unmarshal (dec_slice AnthropicTool0 dec_AnthropicTool) data None of
        (ts, e) \<Rightarrow> if e then None else Some (map tool_of (case ts of Some l \<Rightarrow> l | None \<Rightarrow> [])))"

definition translateToolChoice :: "bytes \<Rightarrow> goany" where
  "translateToolChoice data =
     (case unmarshal dec_AnthropicToolChoice data AnthropicToolChoice0 of
        (tc, e) \<Rightarrow>
          if e then AStr ''auto''
          else if ac_Type tc = ''auto'' then AStr ''auto''
          else if ac_Type tc = ''any'' then AStr ''required''
          else if ac_Type tc = ''tool''
            then AObj [(''function'', AObj [(''name'', AStr (ac_Name tc))]), (''type'', AStr ''function'')]
          else AStr ''auto'')"

definition translateStopSequences :: "bytes list \<Rightarrow> goany" where
  "translateStopSequences seqs = (case seqs of [s] \<Rightarrow> AStr s | _ \<Rightarrow> AStrs seqs)"

definition system_messages :: "bytes \<Rightarrow> OpenAIMessage list" where
  "system_messages data =
     (let sys = extractSystemPrompt data in if sys \<noteq> [] then [text_message ''system'' sys] else [])"

definition AnthropicToOpenAI :: "AnthropicRequest \<Rightarrow> bytes \<Rightarrow> bytes + OpenAIRequest" where
  "AnthropicToOpenAI req modelName =
     (if aq_Model req = [] then Inl ErrMissingModel
      else if aq_Messages req = [] then Inl ErrMissingMessages
      else if aq_MaxTokens req \<le> 0 then Inl ErrMissingMaxTokens
      else Inr (OpenAIRequest0
        \<lparr>oq_Model := modelName,
         oq_Messages := system_messages (aq_System req) @ concat (map translateMessage (aq_Messages req)),
         oq_MaxTokens := Some (aq_MaxTokens req), oq_Stream := aq_Stream req,
         oq_Temperature := aq_Temperature req, oq_TopP := aq_TopP req,
         oq_StreamOptions := (if aq_Stream req then Some \<lparr>IncludeUsage = True\<rparr> else None),
         oq_Stop := (if aq_StopSequences req \<noteq> [] then translateStopSequences (aq_StopSequences req) else ANil),
         oq_User := (case aq_Metadata req of Some uid \<Rightarrow> uid | None \<Rightarrow> []),
         oq_Tools := (if aq_Tools req \<noteq> [] then (case translateTools (aq_Tools req) of Some ts \<Rightarrow> ts | None \<Rightarrow> []) else []),
         oq_ToolChoice := (if aq_ToolChoice req \<noteq> [] then translateToolChoice (aq_ToolChoice req) else ANil),
         oq_Thinking := aq_Thinking req\<rparr>))"

section \<open>OpenAI request to Anthropic request\<close>

definition jsonString :: "bytes \<Rightarrow> bytes" where
  "jsonString s = (if s = [] then [CHR 0x7B, CHR 0x7D] else s)"

definition tool_use_block :: "OpenAIToolCall \<Rightarrow> ContentBlock" where
  "tool_use_block tc =
     ContentBlock0\<lparr>cb_Type := ''tool_use'', cb_ID := tc_ID tc, cb_Name := fc_Name (tc_Function tc),
       cb_Input := jsonString (fc_Arguments (tc_Function tc))\<rparr>"

definition assistantToContentBlocks :: "go_rt \<Rightarrow> OpenAIMessage \<Rightarrow> ContentBlock list" where
  "assistantToContentBlocks G msg =
     (let text = ContentText G (om_Content msg);
          blocks = (if text \<noteq> [] then [ContentBlock0\<lparr>cb_Type := ''text'', cb_Text := text\<rparr>] else []) @
                   map tool_use_block (om_ToolCalls msg)
      in if blocks = [] then [ContentBlock0\<lparr>cb_Type := ''text''\<rparr>] else blocks)"

definition toolResultToContentBlocks :: "go_rt \<Rightarrow> OpenAIMessage \<Rightarrow> ContentBlock list" where
  "toolResultToContentBlocks G msg =
     [ContentBlock0\<lparr>cb_Type := ''tool_result'', cb_ToolUseID := om_ToolCallID msg,
        cb_Content := (if om_Content msg \<noteq> ANil then marshal_or_nil (any_json G (om_Content msg)) else [])\<rparr>]"

definition reverseToolChoice :: "goany \<Rightarrow> bytes" where
  "reverseToolChoice tc =
     (case tc of
        AStr v \<Rightarrow>
          if v = ''auto'' then marshal_or_nil (jmap [(''type'', JStr ''auto'')])
          else if v = ''required'' then marshal_or_nil (jmap [(''type'', JStr ''any'')])
          else []
      | AObj v \<Rightarrow>
          if any_get v ''type'' = AStr ''function'' then
            (case any_get v ''function'' of
               AObj fn \<Rightarrow>
                 (case any_get fn ''name'' of
                    AStr name \<Rightarrow> marshal_or_nil (jmap [(''type'', JStr ''tool''), (''name'', JStr name)])
                  | _ \<Rightarrow> [])
             | _ \<Rightarrow> [])
          else []
      | _ \<Rightarrow> [])"

definition reverseStopSequences :: "goany \<Rightarrow> bytes list" where
  "reverseStopSequences stop =
     (case stop of
        AStr v \<Rightarrow> [v]
      | AArr v \<Rightarrow> List.map_filter (\<lambda>s. case s of AStr str \<Rightarrow> Some str | _ \<Rightarrow> None) v
      | _ \<Rightarrow> [])"

definition reverse_message :: "go_rt \<Rightarrow> OpenAIMessage \<Rightarrow> AnthropicMessage list" where
  "reverse_message G msg =
     (if om_Role msg = ''user'' then
        [\<lparr>am_Role = ''user'', am_Content = marshal_or_nil (any_json G (om_Content msg))\<rparr>]
      else if om_Role msg = ''assistant'' then
        [\<lparr>am_Role = ''assistant'', am_Content = marshal_or_nil (JArr (map ContentBlock_json (assistantToContentBlocks G msg)))\<rparr>]
      else if om_Role msg = ''tool'' \<or> om_Role msg = ''function'' then
        [\<lparr>am_Role = ''user'', am_Content = marshal_or_nil (JArr (map ContentBlock_json (toolResultToContentBlocks G msg)))\<rparr>]
      else [])"

definition system_parts :: "go_rt \<Rightarrow> OpenAIMessage list \<Rightarrow> bytes list" where
  "system_parts G msgs =
     map (\<lambda>m. ContentText G (om_Content m)) (filter (\<lambda>m. om_Role m = ''system'' \<or> om_Role m = ''developer'') msgs)"

definition anthropic_tool_of :: "OpenAITool \<Rightarrow> AnthropicTool" where
  "anthropic_tool_of t =
     \<lparr>at_Name = fd_Name (ot_Function t), at_Description = fd_Description (ot_Function t),
      at_InputSchema = fd_Parameters (ot_Function t)\<rparr>"

definition OpenAIToAnthropicRequest :: "go_rt \<Rightarrow> OpenAIRequest \<Rightarrow> AnthropicRequest" where
  "OpenAIToAnthropicRequest G req =
     (let systemParts = system_parts G (oq_Messages req)
      in \<lparr>aq_Model = oq_Model req,
          aq_MaxTokens = (case oq_MaxTokens req of
                            Some n \<Rightarrow> n
                          | None \<Rightarrow> (case oq_MaxCompletionTokens req of Some n \<Rightarrow> n | None \<Rightarrow> 4096)),
          aq_Messages = concat (map (reverse_message G) (oq_Messages req)),
          aq_System = (if systemParts \<noteq> [] then marshal_or_nil (JStr (join newline systemParts)) else []),
          aq_Stream = oq_Stream req, aq_Temperature = oq_Temperature req, aq_TopP = oq_TopP req, aq_TopK = None,
          aq_StopSequences = (if oq_Stop req \<noteq> ANil then reverseStopSequences (oq_Stop req) else []),
          aq_Metadata = (if oq_User req \<noteq> [] then Some (oq_User req) else None),
          aq_Tools = (if oq_Tools req \<noteq> []
                      then marshal_or_nil (JArr (map (AnthropicTool_json \<circ> anthropic_tool_of) (oq_Tools req))) else []),
          aq_ToolChoice = (if oq_ToolChoice req \<noteq> ANil then reverseToolChoice (oq_ToolChoice req) else []),
          aq_Thinking = oq_Thinking req\<rparr>)"

section \<open>Responses\<close>

definition buildContentBlocks :: "bytes \<Rightarrow> bytes \<Rightarrow> OpenAIToolCall list \<Rightarrow> ContentBlock list" where
  "buildContentBlocks text reasoningContent toolCalls =
     (if reasoningContent \<noteq> [] then [ContentBlock0\<lparr>cb_Type := ''thinking'', cb_Text := reasoningContent\<rparr>] else []) @
     (if text \<noteq> [] \<or> toolCalls = [] then [ContentBlock0\<lparr>cb_Type := ''text'', cb_Text := text\<rparr>] else []) @
     map tool_use_block toolCalls"

definition OpenAIToAnthropic :: "go_rt \<Rightarrow> bytes \<Rightarrow> OpenAIResponse \<Rightarrow> bytes \<Rightarrow> AnthropicResponse" where
  "OpenAIToAnthropic G rnd resp requestedModel =
     (let (content, reasoningContent, finishReason, toolCalls) =
            (case or_Choices resp of
               [] \<Rightarrow> ([], [], [], [])
             | c # _ \<Rightarrow> (ContentText G (om_Content (oc_Message c)), om_ReasoningContent (oc_Message c), oc_FinishReason c,
                         om_ToolCalls (oc_Message c)))
      in \<lparr>ar_ID = generateMessageID rnd, ar_Type = ''message'', ar_Role = ''assistant'',
          ar_Content = buildContentBlocks content reasoningContent toolCalls, ar_Model = requestedModel,
          ar_StopReason = finishReasonToStopReason finishReason, ar_StopSequence = None,
          ar_Usage = \<lparr>InputTokens = PromptTokens (or_Usage resp), OutputTokens = CompletionTokens (or_Usage resp),
            CacheReadInputTokens = (case u_PromptTokensDetails (or_Usage resp) of Some d \<Rightarrow> CachedTokens d | None \<Rightarrow> 0),
            CacheCreationInputTokens = 0\<rparr>\<rparr>)"

definition blocks_text :: "bytes \<Rightarrow> ContentBlock list \<Rightarrow> bytes" where
  "blocks_text ty blocks = concat (map cb_Text (filter (\<lambda>b. cb_Type b = ty) blocks))"

definition AnthropicToOpenAIResponse :: "AnthropicResponse \<Rightarrow> OpenAIResponse" where
  "AnthropicToOpenAIResponse resp =
     (let u = ar_Usage resp;
          prompt = wrap64 (InputTokens u + CacheReadInputTokens u + CacheCreationInputTokens u)
      in \<lparr>or_ID = ar_ID resp, or_Object = ''chat.completion'', or_Created = 0, or_Model = ar_Model resp,
          or_Choices = [\<lparr>oc_Index = 0,
             oc_Message = \<lparr>om_Role = ''assistant'', om_Content = AStr (blocks_text ''text'' (ar_Content resp)),
               om_ReasoningContent = blocks_text ''thinking'' (ar_Content resp),
               om_ToolCalls = map tool_call_of (filter (\<lambda>b. cb_Type b = ''tool_use'') (ar_Content resp)),
               om_ToolCallID = []\<rparr>,
             oc_FinishReason = stopReasonToFinishReason (ar_StopReason resp)\<rparr>],
          or_Usage = \<lparr>PromptTokens = prompt, CompletionTokens = OutputTokens u,
             TotalTokens = wrap64 (InputTokens u + CacheReadInputTokens u + CacheCreationInputTokens u + OutputTokens u),
             u_CompletionTokensDetails = None,
             u_PromptTokensDetails = (if CacheReadInputTokens u > 0 then Some \<lparr>CachedTokens = CacheReadInputTokens u\<rparr> else None),
             CacheCreationTokens = CacheCreationInputTokens u\<rparr>,
          or_SystemFingerprint = [], or_ServiceTier = []\<rparr>)"

section \<open>Round trips\<close>

lemma unmarshal_string_quote:
  assumes "valid_utf8 s"
  shows "unmarshal_string (marshal_or_nil (JStr s)) = Some s" "marshal_or_nil (JStr s) \<noteq> []"
proof -
  have "plain 0 (JStr s)" using assms by simp
  then obtain n where "unmarshal_node (marshal_or_nil (JStr s)) = Some n" "erase n = JStr s" "marshal_or_nil (JStr s) \<noteq> []"
    by (rule marshal_or_nil_node)
  then show "unmarshal_string (marshal_or_nil (JStr s)) = Some s" "marshal_or_nil (JStr s) \<noteq> []"
    by (simp_all add: unmarshal_string_def unmarshal_def)
qed

lemma not_string:
  assumes "unmarshal_node b = Some n" and "erase n = JArr js"
  shows "unmarshal_string b = None"
  using assms erase_JArr [OF assms(2)] by (auto simp: unmarshal_string_def unmarshal_def)

definition text_block :: "bytes \<Rightarrow> ContentBlock" where
  "text_block s = ContentBlock0\<lparr>cb_Type := ''text'', cb_Text := s\<rparr>"

lemma dec_text_block:
  assumes "erase n = ContentBlock_json (text_block s)"
  shows "dec_ContentBlock n ContentBlock0 = (text_block s, False)"
proof -
  have e: "erase n = JObj ((''type'', JStr ''text'') # (if s = [] then [] else [(''text'', JStr s)]))"
    using assms by (simp add: ContentBlock_json_def str_field_def raw_field_def text_block_def ContentBlock0_def)
  show ?thesis
  proof (cases "s = []")
    case True
    then obtain x where "val n = VObj [(''type'', x)]" "val x = VStr ''text''" using erase_JObj [OF e] by auto
    then show ?thesis using True by (simp add: dec_ContentBlock_def fld_def text_block_def ContentBlock0_def)
  next
    case False
    then obtain x y where "val n = VObj [(''type'', x), (''text'', y)]" "val x = VStr ''text''" "val y = VStr s"
      using erase_JObj [OF e] by auto
    then show ?thesis by (simp add: dec_ContentBlock_def fld_def text_block_def ContentBlock0_def)
  qed
qed

lemma unmarshal_text_block:
  assumes "valid_utf8 s"
  shows "unmarshal_string (marshal_or_nil (JArr [ContentBlock_json (text_block s)])) = None"
    and "unmarshal_blocks (marshal_or_nil (JArr [ContentBlock_json (text_block s)])) = Some [text_block s]"
    and "marshal_or_nil (JArr [ContentBlock_json (text_block s)]) \<noteq> []"
proof -
  let ?j = "JArr [ContentBlock_json (text_block s)]"
  have v: "valid_utf8 ''type''" "valid_utf8 ''text''" by (simp_all add: rune_len_def)
  have "plain 0 ?j" using assms v
    by (simp add: ContentBlock_json_def str_field_def raw_field_def text_block_def ContentBlock0_def max_depth_def)
  then obtain n where n: "unmarshal_node (marshal_or_nil ?j) = Some n" "erase n = ?j" "marshal_or_nil ?j \<noteq> []"
    by (rule marshal_or_nil_node)
  obtain x where x: "val n = VArr [x]" "erase x = ContentBlock_json (text_block s)" using erase_JArr [OF n(2)] by auto
  show "unmarshal_string (marshal_or_nil ?j) = None" by (rule not_string [OF n(1,2)])
  show "marshal_or_nil ?j \<noteq> []" by (rule n(3))
  show "unmarshal_blocks (marshal_or_nil ?j) = Some [text_block s]"
    using n(1) x(1) dec_text_block [OF x(2)] by (simp add: unmarshal_blocks_def unmarshal_def)
qed

lemma translateContentBlocks_text: "translateContentBlocks role [text_block s] = [text_message role s]"
  by (simp add: translateContentBlocks_def text_block_def text_of_def Let_def)

text \<open>A message with plain text content.\<close>

definition text_turn :: "OpenAIMessage \<Rightarrow> bool" where
  "text_turn m \<longleftrightarrow>
     (case om_Content m of AStr s \<Rightarrow> valid_utf8 s \<and> m = text_message (om_Role m) s | _ \<Rightarrow> False) \<and>
     om_Role m \<in> {''system'', ''developer'', ''user'', ''assistant''}"

definition is_system :: "OpenAIMessage \<Rightarrow> bool" where
  "is_system m \<longleftrightarrow> om_Role m = ''system'' \<or> om_Role m = ''developer''"

lemma text_turnE:
  assumes "text_turn m"
  obtains s where "m = text_message (om_Role m) s" "om_Content m = AStr s" "valid_utf8 s"
    "om_Role m \<in> {''system'', ''developer'', ''user'', ''assistant''}"
  using assms by (cases "om_Content m") (auto simp: text_turn_def)

lemma reverse_message_roundtrip:
  assumes "text_turn m"
  shows "concat (map translateMessage (reverse_message G m)) = (if is_system m then [] else [m])"
proof -
  obtain s where s: "m = text_message (om_Role m) s" "om_Content m = AStr s" "valid_utf8 s"
    "om_Role m \<in> {''system'', ''developer'', ''user'', ''assistant''}" by (rule text_turnE [OF assms])
  consider "is_system m" | "om_Role m = ''user''" | "om_Role m = ''assistant''" using s(4) by (auto simp: is_system_def)
  then show ?thesis
  proof cases
    case 1
    then show ?thesis by (auto simp: is_system_def reverse_message_def)
  next
    case 2
    then have "\<not> is_system m" by (simp add: is_system_def)
    then show ?thesis using 2 s(1,2) unmarshal_string_quote [OF s(3)]
      by (simp add: reverse_message_def translateMessage_def)
  next
    case 3
    have c: "om_ToolCalls m = []" by (subst s(1)) (simp add: text_message_def OpenAIMessage0_def)
    have b: "assistantToContentBlocks G m = [text_block s]"
      using c s(2) by (simp add: assistantToContentBlocks_def ContentText_def text_block_def ContentBlock0_def)
    have r: "reverse_message G m =
        [\<lparr>am_Role = ''assistant'', am_Content = marshal_or_nil (JArr [ContentBlock_json (text_block s)])\<rparr>]"
      using 3 b by (simp add: reverse_message_def)
    have "translateMessage \<lparr>am_Role = ''assistant'', am_Content = marshal_or_nil (JArr [ContentBlock_json (text_block s)])\<rparr> =
        [text_message ''assistant'' s]"
      using unmarshal_text_block [OF s(3)] by (simp add: translateMessage_def translateContentBlocks_text)
    moreover have "\<not> is_system m" using 3 by (simp add: is_system_def)
    ultimately show ?thesis using r s(1) 3 by simp
  qed
qed

lemma reverse_messages_roundtrip:
  "list_all text_turn ms \<Longrightarrow>
   concat (map translateMessage (concat (map (reverse_message G) ms))) = filter (\<lambda>m. \<not> is_system m) ms"
  by (induction ms) (simp_all add: reverse_message_roundtrip)


lemma valid_newline: "valid_utf8 newline"
  by (simp add: rune_len_def)

lemma system_roundtrip:
  assumes "list_all text_turn ms"
  shows "system_messages (if system_parts G ms \<noteq> [] then marshal_or_nil (JStr (join newline (system_parts G ms))) else []) =
    (let sys = join newline (system_parts G ms) in if sys \<noteq> [] then [text_message ''system'' sys] else [])"
proof -
  have "list_all valid_utf8 (system_parts G ms)"
    using assms by (induction ms) (auto simp: system_parts_def ContentText_def elim!: text_turnE)
  then have "valid_utf8 (join newline (system_parts G ms))" using valid_newline by (rule valid_utf8_join)
  from unmarshal_string_quote [OF this] show ?thesis
    by (auto simp: system_messages_def extractSystemPrompt_def Let_def)
qed

text \<open>
  C26: Round trip of a text conversation. An OpenAI request with text messages translated to the Anthropic
  format and back keeps its user and assistant messages in order, its limit and its sampling and user
  parameters; its system and developer messages come back as one leading system message, joined by newlines.
\<close>

theorem text_request_roundtrip:
  assumes "list_all text_turn (oq_Messages req)" and "filter (\<lambda>m. \<not> is_system m) (oq_Messages req) \<noteq> []"
    and "oq_Model req \<noteq> []" and "oq_MaxTokens req = Some n" and "0 < n"
  shows "\<exists>r. AnthropicToOpenAI (OpenAIToAnthropicRequest G req) (oq_Model req) = Inr r \<and>
    oq_Messages r = (let sys = join newline (map (\<lambda>m. ContentText G (om_Content m))
             (filter (\<lambda>m. om_Role m = ''system'' \<or> om_Role m = ''developer'') (oq_Messages req))) in
           if sys \<noteq> [] then [text_message ''system'' sys] else []) @ filter (\<lambda>m. \<not> is_system m) (oq_Messages req) \<and>
    oq_Model r = oq_Model req \<and> oq_MaxTokens r = oq_MaxTokens req \<and> oq_Stream r = oq_Stream req \<and>
    oq_Temperature r = oq_Temperature req \<and> oq_TopP r = oq_TopP req \<and> oq_User r = oq_User req \<and>
    oq_Thinking r = oq_Thinking req"
proof -
  let ?a = "OpenAIToAnthropicRequest G req"
  have m: "concat (map translateMessage (aq_Messages ?a)) = filter (\<lambda>m. \<not> is_system m) (oq_Messages req)"
    using reverse_messages_roundtrip [OF assms(1)] by (simp add: OpenAIToAnthropicRequest_def Let_def)
  then have ne: "aq_Messages ?a \<noteq> []" using assms(2) by auto
  have s: "system_messages (aq_System ?a) = (let sys = join newline (system_parts G (oq_Messages req)) in
      if sys \<noteq> [] then [text_message ''system'' sys] else [])"
    using system_roundtrip [OF assms(1), of G] by (simp add: OpenAIToAnthropicRequest_def Let_def)
  have f: "aq_Model ?a = oq_Model req" "aq_MaxTokens ?a = n" "aq_Stream ?a = oq_Stream req"
    "aq_Temperature ?a = oq_Temperature req" "aq_TopP ?a = oq_TopP req" "aq_Thinking ?a = oq_Thinking req"
    "aq_Metadata ?a = (if oq_User req \<noteq> [] then Some (oq_User req) else None)"
    using assms(4) by (simp_all add: OpenAIToAnthropicRequest_def Let_def)
  show ?thesis using assms(3-5) m ne s [unfolded system_parts_def] f by (simp add: AnthropicToOpenAI_def)
qed

definition demo_request :: OpenAIRequest where
  "demo_request = OpenAIRequest0\<lparr>oq_Model := ''m'', oq_MaxTokens := Some 9, oq_Messages :=
     [text_message ''system'' ''s'', text_message ''user'' ''hi'', text_message ''assistant'' ''yo'']\<rparr>"

theorem text_request_roundtrip_witness:
  "\<exists>r. AnthropicToOpenAI (OpenAIToAnthropicRequest ascii_rt demo_request) ''m'' = Inr r \<and> oq_Messages r = oq_Messages demo_request"
  using text_request_roundtrip [of demo_request 9 ascii_rt]
  by (auto simp: demo_request_def text_turn_def text_message_def OpenAIMessage0_def is_system_def rune_len_def
      system_parts_def ContentText_def OpenAIRequest0_def)

text \<open>
  Translating an Anthropic request fails exactly when the model, the messages or a positive limit is missing;
  otherwise the OpenAI request has at least one message, the limit, the given model name, and asks for usage
  when it streams.
\<close>

lemma AnthropicToOpenAI_total:
  "case AnthropicToOpenAI req name of
     Inl e \<Rightarrow> e = (if aq_Model req = [] then ErrMissingModel else if aq_Messages req = [] then ErrMissingMessages
                  else ErrMissingMaxTokens) \<and> (aq_Model req = [] \<or> aq_Messages req = [] \<or> aq_MaxTokens req \<le> 0)
   | Inr r \<Rightarrow> oq_Messages r \<noteq> [] \<and> oq_Model r = name \<and> oq_MaxTokens r = Some (aq_MaxTokens req) \<and> 0 < aq_MaxTokens req \<and>
       length (aq_Messages req) \<le> length (oq_Messages r) \<and> (oq_StreamOptions r \<noteq> None) = oq_Stream r"
proof -
  have one: "translateContentBlocks role bs \<noteq> []" for role bs
    by (auto simp: translateContentBlocks_def Let_def)
  have ne: "translateMessage m \<noteq> []" for m using one by (auto simp: translateMessage_def split: option.split)
  have len: "length ms \<le> length (concat (map translateMessage ms))" for ms
  proof (induction ms)
    case (Cons m ms)
    have "1 \<le> length (translateMessage m)" using ne [of m] by (cases "translateMessage m") auto
    then show ?case using Cons by simp
  qed simp
  show ?thesis using len [of "aq_Messages req"] ne
    by (auto simp: AnthropicToOpenAI_def trans_le_add2 dest: hd_in_set)
qed

lemma blocks_text_append: "blocks_text ty (a @ b) = blocks_text ty a @ blocks_text ty b"
  by (simp add: blocks_text_def)

lemma tool_use_blocks:
  "filter (\<lambda>b. cb_Type b = ''tool_use'') (map tool_use_block tcs) = map tool_use_block tcs"
  "ty \<noteq> ''tool_use'' \<Longrightarrow> blocks_text ty (map tool_use_block tcs) = []"
  by (induction tcs) (simp_all add: tool_use_block_def blocks_text_def ContentBlock0_def)

text \<open>
  C27: Round trip of a response. Text, reasoning, the tool calls with their ids, names and arguments, and the reasons
  stop, length and tool_calls survive the way to the Anthropic format and back, except that empty tool arguments become an empty object. The prompt count
  does not: the cached tokens, which the OpenAI count includes, are counted again.
\<close>

theorem response_roundtrip:
  assumes "or_Choices resp = c # cs"
  shows "let r = AnthropicToOpenAIResponse (OpenAIToAnthropic G rnd resp model); c' = hd (or_Choices r)
    in length (or_Choices r) = 1 \<and> om_Content (oc_Message c') = AStr (ContentText G (om_Content (oc_Message c))) \<and>
       om_ReasoningContent (oc_Message c') = om_ReasoningContent (oc_Message c) \<and>
       om_ToolCalls (oc_Message c') = map (\<lambda>tc. \<lparr>tc_ID = tc_ID tc, tc_Type = ''function'', tc_Function = \<lparr>fc_Name = fc_Name (tc_Function tc),
         fc_Arguments = (if fc_Arguments (tc_Function tc) = [] then [CHR 0x7B, CHR 0x7D] else fc_Arguments (tc_Function tc))\<rparr>\<rparr>)
         (om_ToolCalls (oc_Message c)) \<and>
       (oc_FinishReason c' = oc_FinishReason c) = (oc_FinishReason c \<in> {''stop'', ''length'', ''tool_calls''}) \<and>
       CompletionTokens (or_Usage r) = CompletionTokens (or_Usage resp) \<and>
       PromptTokens (or_Usage r) = wrap64 (PromptTokens (or_Usage resp) +
         (case u_PromptTokensDetails (or_Usage resp) of Some d \<Rightarrow> CachedTokens d | None \<Rightarrow> 0))"
proof -
  let ?r = "AnthropicToOpenAIResponse (OpenAIToAnthropic G rnd resp model)"
  let ?b = "buildContentBlocks (ContentText G (om_Content (oc_Message c))) (om_ReasoningContent (oc_Message c)) (om_ToolCalls (oc_Message c))"
  note tu = tool_use_blocks(2) [of _ "om_ToolCalls (oc_Message c)"]
  have t: "blocks_text ''text'' ?b = ContentText G (om_Content (oc_Message c))"
    unfolding buildContentBlocks_def blocks_text_append by (simp add: tu) (simp add: blocks_text_def ContentBlock0_def)
  have th: "blocks_text ''thinking'' ?b = om_ReasoningContent (oc_Message c)"
    unfolding buildContentBlocks_def blocks_text_append by (simp add: tu) (simp add: blocks_text_def ContentBlock0_def)
  have u: "filter (\<lambda>b. cb_Type b = ''tool_use'') ?b = map tool_use_block (om_ToolCalls (oc_Message c))"
    by (simp add: buildContentBlocks_def tool_use_blocks(1) ContentBlock0_def)
  have f: "(stopReasonToFinishReason (finishReasonToStopReason x) = x) = (x \<in> {''stop'', ''length'', ''tool_calls''})" for x
    by (cases "x = ''stop''"; cases "x = ''length''"; cases "x = ''tool_calls''"; cases "x = ''content_filter''")
      (simp_all add: stopReasonToFinishReason_def finishReasonToStopReason_def finishReasonMap_def stopReasonToFinishReasonMap_def)
  have c: "or_Choices ?r = [\<lparr>oc_Index = 0,
      oc_Message = \<lparr>om_Role = ''assistant'', om_Content = AStr (blocks_text ''text'' ?b),
        om_ReasoningContent = blocks_text ''thinking'' ?b,
        om_ToolCalls = map tool_call_of (filter (\<lambda>b. cb_Type b = ''tool_use'') ?b), om_ToolCallID = []\<rparr>,
      oc_FinishReason = stopReasonToFinishReason (finishReasonToStopReason (oc_FinishReason c))\<rparr>]"
    using assms by (simp add: AnthropicToOpenAIResponse_def OpenAIToAnthropic_def Let_def)
  have p: "PromptTokens (or_Usage ?r) = wrap64 (PromptTokens (or_Usage resp) +
         (case u_PromptTokensDetails (or_Usage resp) of Some d \<Rightarrow> CachedTokens d | None \<Rightarrow> 0))"
    "CompletionTokens (or_Usage ?r) = CompletionTokens (or_Usage resp)"
    using assms by (simp_all add: AnthropicToOpenAIResponse_def OpenAIToAnthropic_def Let_def)
  show ?thesis unfolding Let_def c t th u p by (simp add: f tool_call_of_def tool_use_block_def jsonString_def ContentBlock0_def)
qed

definition demo_response :: OpenAIResponse where
  "demo_response =
     \<lparr>or_ID = ''r'', or_Object = ''chat.completion'', or_Created = 0, or_Model = ''m'',
      or_Choices = [\<lparr>oc_Index = 0, oc_Message = text_message ''assistant'' ''hi'', oc_FinishReason = ''stop''\<rparr>],
      or_Usage = OpenAIUsage0\<lparr>PromptTokens := 10, u_PromptTokensDetails := Some \<lparr>CachedTokens = 8\<rparr>\<rparr>,
      or_SystemFingerprint = [], or_ServiceTier = []\<rparr>"

theorem response_roundtrip_witness:
  "PromptTokens (or_Usage (AnthropicToOpenAIResponse (OpenAIToAnthropic ascii_rt [] demo_response ''m''))) = 18"
  using response_roundtrip [of demo_response "hd (or_Choices demo_response)" "[]" ascii_rt "[]" "''m''"]
  by (simp add: demo_response_def OpenAIUsage0_def wrap64_def Let_def)

text \<open>
  Two or more stop sequences of an Anthropic client are lost on the way to an Anthropic provider: the forward
  translation stores them as a string slice, which the reverse translation does not recognise.
\<close>

lemma stop_sequences_lost:
  assumes "AnthropicToOpenAI req name = Inr r"
  shows "aq_StopSequences (OpenAIToAnthropicRequest G r) =
    (if length (aq_StopSequences req) = 1 then aq_StopSequences req else [])"
  using assms
  by (auto simp: AnthropicToOpenAI_def OpenAIToAnthropicRequest_def Let_def translateStopSequences_def
      reverseStopSequences_def length_Suc_conv split: list.splits if_splits)

definition demo_anthropic :: "bytes list \<Rightarrow> AnthropicRequest" where
  "demo_anthropic ss =
     \<lparr>aq_Model = ''c'', aq_MaxTokens = 5, aq_Messages = [\<lparr>am_Role = ''user'', am_Content = []\<rparr>], aq_System = [], aq_Stream = False,
      aq_Temperature = None, aq_TopP = None, aq_TopK = None, aq_StopSequences = ss, aq_Metadata = None, aq_Tools = [],
      aq_ToolChoice = [], aq_Thinking = []\<rparr>"

lemma stop_sequences_lost_witness:
  "aq_StopSequences (OpenAIToAnthropicRequest ascii_rt (projr (AnthropicToOpenAI (demo_anthropic [''a'', ''b'']) ''m''))) = []"
  using stop_sequences_lost [of "demo_anthropic [''a'', ''b'']" "''m''" "projr (AnthropicToOpenAI (demo_anthropic [''a'', ''b'']) ''m'')" ascii_rt]
  by (simp add: AnthropicToOpenAI_def demo_anthropic_def)

end
