(* ===== verification/Stream_Forward.thy ===== *)
theory Stream_Forward
  imports Translate
begin

text \<open>
  The streaming translator from OpenAI chunks to Anthropic events:
  \<^verbatim>\<open>internal/translator/{stream,stream_events}.go\<close> and the token estimate of
  \<^verbatim>\<open>pkg/token/estimate.go\<close>. The builder functions of stream_events.go are the constructors of
  \<open>stream_event\<close>; \<open>sse\<close> gives the event each of them marshals. An operation of the translator returns the
  events and the new state.
\<close>

section \<open>Token estimate\<close>

definition Estimate :: "go_rt \<Rightarrow> bytes \<Rightarrow> int" where
  "Estimate G text =
     (let rs = runes text; cjk = length (filter (rt_is_cjk G) rs); ascii = length (filter (\<lambda>r. \<not> rt_is_cjk G r) rs)
      in \<lfloor>(of_nat cjk :: rat) / (3 / 2) + 1 / 2\<rfloor> + int ascii div 4)"

section \<open>Events\<close>

datatype stream_event =
    MessageStart bytes bytes int
  | ContentBlockStart int
  | ThinkingBlockStart int
  | ThinkingBlockDelta int bytes
  | ToolUseBlockStart int bytes bytes
  | ToolUseArgumentsDelta int bytes
  | ContentBlockDelta int bytes
  | ContentBlockStop int
  | MessageDelta bytes int
  | MessageStop
  | StreamInterruptedError

definition block_start_json :: "int \<Rightarrow> (bytes \<times> json) list \<Rightarrow> json" where
  "block_start_json index block =
     jmap [(''type'', JStr ''content_block_start''), (''index'', jint index), (''content_block'', jmap block)]"

definition block_delta_json :: "int \<Rightarrow> (bytes \<times> json) list \<Rightarrow> json" where
  "block_delta_json index d =
     jmap [(''type'', JStr ''content_block_delta''), (''index'', jint index), (''delta'', jmap d)]"

fun event_json :: "stream_event \<Rightarrow> json" where
  "event_json (MessageStart msgID model inputTokens) =
     jmap [(''type'', JStr ''message_start''),
       (''message'', jmap [(''id'', JStr msgID), (''type'', JStr ''message''), (''role'', JStr ''assistant''), (''content'', JArr []),
          (''model'', JStr model), (''stop_reason'', JNull), (''stop_sequence'', JNull),
          (''usage'', jmap [(''input_tokens'', jint inputTokens), (''output_tokens'', jint 0)])])]"
| "event_json (ContentBlockStart index) = block_start_json index [(''type'', JStr ''text''), (''text'', JStr [])]"
| "event_json (ThinkingBlockStart index) = block_start_json index [(''type'', JStr ''thinking''), (''thinking'', JStr [])]"
| "event_json (ThinkingBlockDelta index text) =
     block_delta_json index [(''type'', JStr ''thinking_delta''), (''thinking'', JStr text)]"
| "event_json (ToolUseBlockStart index id' name) =
     block_start_json index [(''type'', JStr ''tool_use''), (''id'', JStr id'), (''name'', JStr name), (''input'', jmap [])]"
| "event_json (ToolUseArgumentsDelta index argsChunk) =
     block_delta_json index [(''type'', JStr ''input_json_delta''), (''partial_json'', JStr argsChunk)]"
| "event_json (ContentBlockDelta index text) =
     block_delta_json index [(''type'', JStr ''text_delta''), (''text'', JStr text)]"
| "event_json (ContentBlockStop index) = jmap [(''type'', JStr ''content_block_stop''), (''index'', jint index)]"
| "event_json (MessageDelta stopReason outputTokens) =
     jmap [(''type'', JStr ''message_delta''),
       (''delta'', jmap [(''stop_reason'', JStr stopReason), (''stop_sequence'', JNull)]),
       (''usage'', jmap [(''output_tokens'', jint outputTokens)])]"
| "event_json MessageStop = jmap [(''type'', JStr ''message_stop'')]"
| "event_json StreamInterruptedError =
     jmap [(''type'', JStr ''error''),
       (''error'', jmap [(''type'', JStr ''stream_interrupted''), (''message'', JStr ''upstream stream ended unexpectedly'')])]"

fun event_name :: "stream_event \<Rightarrow> bytes" where
  "event_name (MessageStart _ _ _) = ''message_start''"
| "event_name (ContentBlockStart _) = ''content_block_start''"
| "event_name (ThinkingBlockStart _) = ''content_block_start''"
| "event_name (ToolUseBlockStart _ _ _) = ''content_block_start''"
| "event_name (ThinkingBlockDelta _ _) = ''content_block_delta''"
| "event_name (ToolUseArgumentsDelta _ _) = ''content_block_delta''"
| "event_name (ContentBlockDelta _ _) = ''content_block_delta''"
| "event_name (ContentBlockStop _) = ''content_block_stop''"
| "event_name (MessageDelta _ _) = ''message_delta''"
| "event_name MessageStop = ''message_stop''"
| "event_name StreamInterruptedError = ''error''"

definition sse :: "stream_event \<Rightarrow> SSEEvent" where
  "sse e = \<lparr>se_Event = event_name e, se_Data = marshal_or_nil (event_json e)\<rparr>"

section \<open>The translator\<close>

datatype streamState = stateInit | stateStarted | stateBlockActive | stateDone

record toolStreamState =
  ts_id :: bytes
  ts_name :: bytes
  ts_args :: bytes
  ts_blockIndex :: int
  ts_opened :: bool
  ts_closed :: bool

record StreamTranslator =
  st_state :: streamState
  st_messageID :: bytes
  st_requestedModel :: bytes
  st_inputTokens :: int
  st_outputTokens :: int
  st_usageSeen :: bool
  st_reasoningTokens :: int
  st_cacheReadTokens :: int
  st_cacheCreationTokens :: int
  st_blockIndex :: int
  st_activeBlockType :: bytes
  st_tools :: "int \<rightharpoonup> toolStreamState"
  st_toolOrder :: "int list"
  st_activeToolIdx :: int

definition NewStreamTranslator :: "bytes \<Rightarrow> bytes \<Rightarrow> int \<Rightarrow> StreamTranslator" where
  "NewStreamTranslator messageID requestedModel inputTokens =
     \<lparr>st_state = stateInit, st_messageID = messageID, st_requestedModel = requestedModel, st_inputTokens = inputTokens,
      st_outputTokens = 0, st_usageSeen = False, st_reasoningTokens = 0, st_cacheReadTokens = 0,
      st_cacheCreationTokens = 0, st_blockIndex = 0, st_activeBlockType = [], st_tools = Map.empty, st_toolOrder = [],
      st_activeToolIdx = -1\<rparr>"

type_synonym 'e stream_op = "StreamTranslator \<Rightarrow> 'e list \<times> StreamTranslator"

definition andthen :: "'e stream_op \<Rightarrow> 'e stream_op \<Rightarrow> 'e stream_op" where
  "andthen f g t = (case f t of (es, t1) \<Rightarrow> (case g t1 of (es', t2) \<Rightarrow> (es @ es', t2)))"

definition openToolBlock :: "int \<Rightarrow> stream_event stream_op" where
  "openToolBlock idx t =
     (case st_tools t idx of
        None \<Rightarrow> ([], t)
      | Some tool \<Rightarrow>
          ([ToolUseBlockStart (st_blockIndex t) (ts_id tool) (ts_name tool)],
           t\<lparr>st_tools := (st_tools t)(idx \<mapsto> tool\<lparr>ts_blockIndex := st_blockIndex t, ts_opened := True\<rparr>),
             st_activeToolIdx := idx\<rparr>))"

definition close_one :: "int \<Rightarrow> stream_event stream_op" where
  "close_one idx t =
     (case st_tools t idx of
        None \<Rightarrow> ([], t)
      | Some tool \<Rightarrow>
          if ts_closed tool then ([], t)
          else
            (let (es, t1) = (if ts_opened tool then ([], t) else openToolBlock idx t);
                 bi = (if ts_opened tool then ts_blockIndex tool else st_blockIndex t);
                 args = (if \<not> ts_opened tool \<and> ts_args tool \<noteq> [] then [ToolUseArgumentsDelta bi (ts_args tool)] else [])
             in (es @ args @ [ContentBlockStop bi],
                 t1\<lparr>st_tools := (st_tools t1)(idx \<mapsto> tool\<lparr>ts_blockIndex := bi, ts_opened := True, ts_closed := True\<rparr>),
                    st_blockIndex := st_blockIndex t1 + 1\<rparr>)))"

fun close_all :: "int list \<Rightarrow> stream_event stream_op" where
  "close_all [] t = ([], t)"
| "close_all (idx # idxs) t = andthen (close_one idx) (close_all idxs) t"

definition closeActiveToolBlock :: "stream_event stream_op" where
  "closeActiveToolBlock t =
     (case close_all (st_toolOrder t) t of
        (es, t1) \<Rightarrow>
          (es, t1\<lparr>st_activeToolIdx := -1, st_state := (if st_toolOrder t1 \<noteq> [] then stateStarted else st_state t1)\<rparr>))"

definition tool_header :: "OpenAIChunkToolCall \<Rightarrow> stream_event stream_op" where
  "tool_header tc t =
     (let (es, t1) =
            (if st_state t = stateBlockActive \<and> st_activeBlockType t \<noteq> [] then
               ([ContentBlockStop (st_blockIndex t)],
                t\<lparr>st_blockIndex := st_blockIndex t + 1, st_activeBlockType := [], st_state := stateStarted\<rparr>)
             else ([], t));
          t2 = t1\<lparr>st_tools := (st_tools t1)(ct_Index tc \<mapsto>
                   \<lparr>ts_id = ct_ID tc, ts_name = fc_Name (ct_Function tc), ts_args = [], ts_blockIndex = 0, ts_opened = False,
                    ts_closed = False\<rparr>),
                  st_toolOrder := st_toolOrder t1 @ [ct_Index tc], st_state := stateBlockActive\<rparr>
      in if st_activeToolIdx t2 < 0 then (case openToolBlock (ct_Index tc) t2 of (es', t3) \<Rightarrow> (es @ es', t3)) else (es, t2))"

definition tool_args :: "OpenAIChunkToolCall \<Rightarrow> stream_event stream_op" where
  "tool_args tc t =
     (let args = fc_Arguments (ct_Function tc)
      in if args = [] then ([], t)
         else case st_tools t (ct_Index tc) of
                None \<Rightarrow> ([], t)
              | Some tool \<Rightarrow>
                  ((if st_activeToolIdx t = ct_Index tc then [ToolUseArgumentsDelta (ts_blockIndex tool) args] else []),
                   (if length (ts_args tool) \<le> 2 ^ 20
                    then t\<lparr>st_tools := (st_tools t)(ct_Index tc \<mapsto> tool\<lparr>ts_args := ts_args tool @ args\<rparr>)\<rparr> else t)))"

definition tool_call_delta :: "OpenAIChunkToolCall \<Rightarrow> stream_event stream_op" where
  "tool_call_delta tc t =
     (if ct_ID tc \<noteq> [] then
        (case st_tools t (ct_Index tc) of
           Some prev \<Rightarrow> if ts_id prev = ct_ID tc then ([], t) else andthen (tool_header tc) (tool_args tc) t
         | None \<Rightarrow> andthen (tool_header tc) (tool_args tc) t)
      else tool_args tc t)"

fun translateToolCallDelta :: "OpenAIChunkToolCall list \<Rightarrow> stream_event stream_op" where
  "translateToolCallDelta [] t = ([], t)"
| "translateToolCallDelta (tc # tcs) t = andthen (tool_call_delta tc) (translateToolCallDelta tcs) t"

definition start_message :: "OpenAIChunk \<Rightarrow> stream_event stream_op" where
  "start_message chunk t =
     (if st_state t = stateInit then
        (let t1 = (case ck_Usage chunk of
                     Some u \<Rightarrow> if PromptTokens u > 0 then t\<lparr>st_inputTokens := PromptTokens u, st_usageSeen := True\<rparr> else t
                   | None \<Rightarrow> t)
         in ([MessageStart (st_messageID t1) (st_requestedModel t1) (st_inputTokens t1)], t1\<lparr>st_state := stateStarted\<rparr>))
      else ([], t))"

definition usage_details :: "OpenAIUsage \<Rightarrow> StreamTranslator \<Rightarrow> StreamTranslator" where
  "usage_details u t =
     t\<lparr>st_reasoningTokens := (case u_CompletionTokensDetails u of Some d \<Rightarrow> ReasoningTokens d | None \<Rightarrow> st_reasoningTokens t),
       st_cacheReadTokens := (case u_PromptTokensDetails u of Some d \<Rightarrow> CachedTokens d | None \<Rightarrow> st_cacheReadTokens t),
       st_cacheCreationTokens := CacheCreationTokens u\<rparr>"

definition usage_chunk :: "OpenAIUsage \<Rightarrow> StreamTranslator \<Rightarrow> StreamTranslator" where
  "usage_chunk u t =
     usage_details u (t\<lparr>st_inputTokens := PromptTokens u, st_usageSeen := True, st_outputTokens := CompletionTokens u\<rparr>)"

definition usage_finish :: "OpenAIUsage \<Rightarrow> StreamTranslator \<Rightarrow> StreamTranslator" where
  "usage_finish u t =
     (let t1 = (if PromptTokens u > 0 then t\<lparr>st_inputTokens := PromptTokens u, st_usageSeen := True\<rparr> else t);
          t2 = (if CompletionTokens u > 0 then t1\<lparr>st_outputTokens := CompletionTokens u\<rparr> else t1)
      in usage_details u t2)"

definition reasoning_step :: "go_rt \<Rightarrow> bytes \<Rightarrow> stream_event stream_op" where
  "reasoning_step G text t =
     (if text = [] then ([], t)
      else
        let (es, t1) = (if st_state t = stateStarted
                        then ([ThinkingBlockStart (st_blockIndex t)], t\<lparr>st_activeBlockType := ''thinking'', st_state := stateBlockActive\<rparr>)
                        else ([], t))
        in if st_state t1 = stateBlockActive \<and> st_activeBlockType t1 = ''thinking''
           then (es @ [ThinkingBlockDelta (st_blockIndex t1) text], t1\<lparr>st_outputTokens := st_outputTokens t1 + Estimate G text\<rparr>)
           else (es, t1))"

definition text_step :: "go_rt \<Rightarrow> bytes \<Rightarrow> stream_event stream_op" where
  "text_step G text t =
     (if text = [] then ([], t)
      else
        let (es, t1) = (if st_state t = stateBlockActive \<and> st_activeBlockType t = ''thinking''
                        then ([ContentBlockStop (st_blockIndex t)],
                              t\<lparr>st_blockIndex := st_blockIndex t + 1, st_activeBlockType := [], st_state := stateStarted\<rparr>)
                        else ([], t));
            (es', t2) = (if st_state t1 = stateStarted
                         then ([ContentBlockStart (st_blockIndex t1)], t1\<lparr>st_activeBlockType := ''text'', st_state := stateBlockActive\<rparr>)
                         else ([], t1))
        in if st_state t2 = stateBlockActive \<and> st_activeBlockType t2 = ''text''
           then (es @ es' @ [ContentBlockDelta (st_blockIndex t2) text], t2\<lparr>st_outputTokens := st_outputTokens t2 + Estimate G text\<rparr>)
           else (es @ es', t2))"

definition finish_step :: "bytes \<Rightarrow> OpenAIUsage option \<Rightarrow> stream_event stream_op" where
  "finish_step reason usage t =
     (case closeActiveToolBlock t of
        (es, t1) \<Rightarrow>
          let (es', t2) = (if st_state t1 = stateBlockActive
                           then ([ContentBlockStop (st_blockIndex t1)], t1\<lparr>st_activeBlockType := []\<rparr>) else ([], t1));
              t3 = (case usage of Some u \<Rightarrow> usage_finish u t2 | None \<Rightarrow> t2)
          in (es @ es' @ [MessageDelta (finishReasonToStopReason reason) (st_outputTokens t3), MessageStop],
              t3\<lparr>st_state := stateDone\<rparr>))"

definition choice_step :: "go_rt \<Rightarrow> OpenAIChunkChoice \<Rightarrow> OpenAIUsage option \<Rightarrow> stream_event stream_op" where
  "choice_step G c usage =
     andthen (andthen (reasoning_step G (cd_ReasoningContent (cc_Delta c)))
                (andthen (translateToolCallDelta (cd_ToolCalls (cc_Delta c))) (text_step G (cd_Content (cc_Delta c)))))
       (case cc_FinishReason c of
          Some reason \<Rightarrow> if reason \<noteq> [] then finish_step reason usage else (\<lambda>t. ([], t))
        | None \<Rightarrow> (\<lambda>t. ([], t)))"

definition translate_chunk :: "go_rt \<Rightarrow> OpenAIChunk \<Rightarrow> stream_event stream_op" where
  "translate_chunk G chunk =
     andthen (start_message chunk)
       (case ck_Choices chunk of
          [] \<Rightarrow> (\<lambda>t. ([], case ck_Usage chunk of Some u \<Rightarrow> usage_chunk u t | None \<Rightarrow> t))
        | c # _ \<Rightarrow> choice_step G c (ck_Usage chunk))"

definition translate_sse :: "go_rt \<Rightarrow> SSEChunk \<Rightarrow> stream_event stream_op" where
  "translate_sse G sseChunk t =
     (if sc_Done sseChunk then ([], t)
      else case sc_Chunk sseChunk of None \<Rightarrow> ([], t) | Some chunk \<Rightarrow> translate_chunk G chunk t)"

definition TranslateChunk :: "go_rt \<Rightarrow> SSEChunk \<Rightarrow> SSEEvent stream_op" where
  "TranslateChunk G sseChunk t = (case translate_sse G sseChunk t of (es, t1) \<Rightarrow> (map sse es, t1))"

definition close_block :: "stream_event stream_op" where
  "close_block t =
     (if st_toolOrder t \<noteq> [] then closeActiveToolBlock t
      else ([ContentBlockStop (st_blockIndex t)], t\<lparr>st_activeBlockType := []\<rparr>))"

definition on_disconnect :: "bool \<Rightarrow> stream_event stream_op" where
  "on_disconnect cleanTerminal t =
     (if st_state t = stateDone then ([], t)
      else if \<not> cleanTerminal then
        (let (es, t1) = (case st_state t of
                           stateBlockActive \<Rightarrow> close_block t
                         | stateInit \<Rightarrow> ([MessageStart (st_messageID t) (st_requestedModel t) 0], t)
                         | _ \<Rightarrow> ([], t))
         in (es @ [StreamInterruptedError, MessageStop], t1\<lparr>st_state := stateDone\<rparr>))
      else
        (let (es, t1) = (case st_state t of
                           stateBlockActive \<Rightarrow>
                             (case close_block t of (es, t1) \<Rightarrow> (es @ [MessageDelta ''end_turn'' (st_outputTokens t1), MessageStop], t1))
                         | stateStarted \<Rightarrow> ([MessageDelta ''end_turn'' (st_outputTokens t), MessageStop], t)
                         | stateInit \<Rightarrow> ([MessageStart (st_messageID t) (st_requestedModel t) 0, MessageDelta ''end_turn'' 0, MessageStop], t)
                         | stateDone \<Rightarrow> ([], t))
         in (es, t1\<lparr>st_state := stateDone\<rparr>)))"

definition OnProviderDisconnect :: "bool \<Rightarrow> SSEEvent stream_op" where
  "OnProviderDisconnect cleanTerminal t = (case on_disconnect cleanTerminal t of (es, t1) \<Rightarrow> (map sse es, t1))"

fun translate_all :: "go_rt \<Rightarrow> SSEChunk list \<Rightarrow> stream_event stream_op" where
  "translate_all G [] t = ([], t)"
| "translate_all G (c # cs) t = andthen (translate_sse G c) (translate_all G cs) t"

section \<open>The event protocol\<close>

text \<open>
  The order of events a client of the messages stream accepts: a message start, blocks numbered from zero without
  overlap, each with deltas of its own kind, then a message delta or an error, and the message stop.
\<close>

datatype block_kind = TextBlock | ThinkingBlock | ToolBlock

datatype protocol = Fresh | Idle int | Open int block_kind | Ending | Finished

fun accept :: "protocol \<Rightarrow> stream_event \<Rightarrow> protocol option" where
  "accept Fresh (MessageStart _ _ _) = Some (Idle 0)"
| "accept (Idle i) (ContentBlockStart j) = (if i = j then Some (Open i TextBlock) else None)"
| "accept (Idle i) (ThinkingBlockStart j) = (if i = j then Some (Open i ThinkingBlock) else None)"
| "accept (Idle i) (ToolUseBlockStart j _ _) = (if i = j then Some (Open i ToolBlock) else None)"
| "accept (Open i k) (ContentBlockDelta j _) = (if i = j \<and> k = TextBlock then Some (Open i k) else None)"
| "accept (Open i k) (ThinkingBlockDelta j _) = (if i = j \<and> k = ThinkingBlock then Some (Open i k) else None)"
| "accept (Open i k) (ToolUseArgumentsDelta j _) = (if i = j \<and> k = ToolBlock then Some (Open i k) else None)"
| "accept (Open i k) (ContentBlockStop j) = (if i = j then Some (Idle (i + 1)) else None)"
| "accept (Idle i) (MessageDelta _ _) = Some Ending"
| "accept (Idle i) StreamInterruptedError = Some Ending"
| "accept Ending MessageStop = Some Finished"
| "accept _ _ = None"

fun accepts :: "protocol \<Rightarrow> stream_event list \<Rightarrow> protocol option" where
  "accepts g [] = Some g"
| "accepts g (e # es) = (case accept g e of None \<Rightarrow> None | Some g' \<Rightarrow> accepts g' es)"

lemma accepts_append: "accepts g (es @ es') = (case accepts g es of None \<Rightarrow> None | Some g' \<Rightarrow> accepts g' es')"
  by (induction es arbitrary: g) (simp_all split: option.split)

text \<open>How the state of the translator stands in the protocol; \<open>ids\<close> are the identifiers of the tool calls.\<close>

definition no_tools :: "StreamTranslator \<Rightarrow> bool" where
  "no_tools t \<longleftrightarrow> st_tools t = Map.empty \<and> st_toolOrder t = [] \<and> st_activeToolIdx t = -1"

definition tools_ok :: "(int \<Rightarrow> bytes) \<Rightarrow> StreamTranslator \<Rightarrow> bool" where
  "tools_ok ids t \<longleftrightarrow>
     distinct (st_toolOrder t) \<and> dom (st_tools t) = set (st_toolOrder t) \<and>
     st_activeToolIdx t = hd (st_toolOrder t) \<and> 0 \<le> st_activeToolIdx t \<and>
     (\<forall>i tool. st_tools t i = Some tool \<longrightarrow> ts_id tool = ids i \<and> \<not> ts_closed tool \<and>
        (if i = st_activeToolIdx t then ts_opened tool \<and> ts_blockIndex tool = st_blockIndex t else \<not> ts_opened tool))"

definition stands :: "(int \<Rightarrow> bytes) \<Rightarrow> StreamTranslator \<Rightarrow> protocol \<Rightarrow> bool" where
  "stands ids t g \<longleftrightarrow>
     (case st_state t of
        stateInit \<Rightarrow> g = Fresh \<and> no_tools t \<and> st_blockIndex t = 0 \<and> st_activeBlockType t = []
      | stateStarted \<Rightarrow> g = Idle (st_blockIndex t) \<and> no_tools t \<and> st_activeBlockType t = []
      | stateBlockActive \<Rightarrow>
          if st_toolOrder t = [] then
            no_tools t \<and> (st_activeBlockType t = ''text'' \<and> g = Open (st_blockIndex t) TextBlock \<or>
                          st_activeBlockType t = ''thinking'' \<and> g = Open (st_blockIndex t) ThinkingBlock)
          else tools_ok ids t \<and> st_activeBlockType t = [] \<and> g = Open (st_blockIndex t) ToolBlock
      | stateDone \<Rightarrow> g = Finished)"

text \<open>An operation that keeps to the protocol from every state in which the message runs.\<close>

definition running :: "StreamTranslator \<Rightarrow> bool" where
  "running t \<longleftrightarrow> st_state t = stateStarted \<or> st_state t = stateBlockActive"

definition keeps :: "(int \<Rightarrow> bytes) \<Rightarrow> stream_event stream_op \<Rightarrow> bool" where
  "keeps ids f \<longleftrightarrow>
     (\<forall>t g. running t \<and> stands ids t g \<longrightarrow>
        (\<exists>g'. accepts g (fst (f t)) = Some g' \<and> stands ids (snd (f t)) g' \<and> running (snd (f t))))"

lemma keepsI:
  assumes "\<And>t g. running t \<Longrightarrow> stands ids t g \<Longrightarrow>
    \<exists>g'. accepts g (fst (f t)) = Some g' \<and> stands ids (snd (f t)) g' \<and> running (snd (f t))"
  shows "keeps ids f"
  using assms by (auto simp: keeps_def)

lemma andthen_sel:
  "fst (andthen f g t) = fst (f t) @ fst (g (snd (f t)))" "snd (andthen f g t) = snd (g (snd (f t)))"
  by (simp_all add: andthen_def split: prod.split)

lemma keeps_andthen:
  assumes "keeps ids f" and "keeps ids g"
  shows "keeps ids (andthen f g)"
proof (rule keepsI)
  fix t p
  assume r: "running t" and s: "stands ids t p"
  obtain p' where p': "accepts p (fst (f t)) = Some p'" "stands ids (snd (f t)) p'" "running (snd (f t))"
    using assms(1) r s unfolding keeps_def by blast
  obtain q where "accepts p' (fst (g (snd (f t)))) = Some q" "stands ids (snd (g (snd (f t)))) q" "running (snd (g (snd (f t))))"
    using assms(2) p'(2,3) unfolding keeps_def by blast
  then show "\<exists>g'. accepts p (fst (andthen f g t)) = Some g' \<and> stands ids (snd (andthen f g t)) g' \<and> running (snd (andthen f g t))"
    using p'(1) by (auto simp: andthen_sel accepts_append)
qed

lemma keeps_id: "keeps ids (\<lambda>t. ([], t))"
  by (simp add: keeps_def)

text \<open>The three situations of a running message.\<close>

lemma standsE:
  assumes "running t" and "stands ids t g"
  obtains (idle) "st_state t = stateStarted" "no_tools t" "st_activeBlockType t = []" "g = Idle (st_blockIndex t)"
    | (texting) "st_state t = stateBlockActive" "no_tools t" "st_activeBlockType t = ''text''" "g = Open (st_blockIndex t) TextBlock"
    | (thinking) "st_state t = stateBlockActive" "no_tools t" "st_activeBlockType t = ''thinking''" "g = Open (st_blockIndex t) ThinkingBlock"
    | (tool) "st_state t = stateBlockActive" "st_toolOrder t \<noteq> []" "tools_ok ids t" "st_activeBlockType t = []" "g = Open (st_blockIndex t) ToolBlock"
  using assms by (cases "st_state t") (auto simp: running_def stands_def split: if_splits)

lemma keeps_reasoning_step: "keeps ids (reasoning_step G text)"
proof (rule keepsI)
  fix t g assume r: "running t" and s: "stands ids t g"
  from r s show "\<exists>g'. accepts g (fst (reasoning_step G text t)) = Some g' \<and> stands ids (snd (reasoning_step G text t)) g' \<and>
      running (snd (reasoning_step G text t))"
  proof (cases rule: standsE)
    case tool
    then show ?thesis using r s by (simp add: reasoning_step_def)
  qed (auto simp: reasoning_step_def stands_def running_def no_tools_def)
qed

lemma keeps_text_step: "keeps ids (text_step G text)"
proof (rule keepsI)
  fix t g assume r: "running t" and s: "stands ids t g"
  from r s show "\<exists>g'. accepts g (fst (text_step G text t)) = Some g' \<and> stands ids (snd (text_step G text t)) g' \<and>
      running (snd (text_step G text t))"
  proof (cases rule: standsE)
    case tool
    then show ?thesis using r s by (simp add: text_step_def)
  qed (auto simp: text_step_def stands_def running_def no_tools_def)
qed

lemma tool_args_none: "fc_Arguments (ct_Function tc) = [] \<or> st_tools t (ct_Index tc) = None \<Longrightarrow> tool_args tc t = ([], t)"
  by (auto simp: tool_args_def Let_def)

lemma tool_args_some:
  assumes "tools_ok ids t" and "st_tools t (ct_Index tc) = Some x" and "fc_Arguments (ct_Function tc) \<noteq> []"
  shows "accepts (Open (st_blockIndex t) ToolBlock) (fst (tool_args tc t)) = Some (Open (st_blockIndex t) ToolBlock)"
proof (cases "st_activeToolIdx t = ct_Index tc")
  case True
  then have "ts_blockIndex x = st_blockIndex t" using assms(1,2) by (simp add: tools_ok_def)
  then show ?thesis using assms(2,3) by (simp add: tool_args_def Let_def)
next
  case False
  then show ?thesis using assms(2,3) by (simp add: tool_args_def Let_def)
qed

lemma keeps_tool_args: "keeps ids (tool_args tc)"
proof (rule keepsI)
  fix t g assume r: "running t" and s: "stands ids t g"
  show "\<exists>g'. accepts g (fst (tool_args tc t)) = Some g' \<and> stands ids (snd (tool_args tc t)) g' \<and> running (snd (tool_args tc t))"
  proof (cases "fc_Arguments (ct_Function tc) = [] \<or> st_tools t (ct_Index tc) = None")
    case True
    then show ?thesis using r s by (simp add: tool_args_none)
  next
    case False
    then obtain tl where tl: "st_tools t (ct_Index tc) = Some tl" and ne: "fc_Arguments (ct_Function tc) \<noteq> []" by auto
    from r s have ok: "tools_ok ids t" "st_toolOrder t \<noteq> []" "st_state t = stateBlockActive" "st_activeBlockType t = []"
      "g = Open (st_blockIndex t) ToolBlock"
      using tl by (auto elim!: standsE simp: no_tools_def)
    let ?t = "t\<lparr>st_tools := (st_tools t)(ct_Index tc \<mapsto> tl\<lparr>ts_args := ts_args tl @ fc_Arguments (ct_Function tc)\<rparr>)\<rparr>"
    have "ct_Index tc \<in> set (st_toolOrder t)" using ok(1) tl by (auto simp: tools_ok_def)
    then have "tools_ok ids ?t" using ok(1) tl by (simp add: tools_ok_def insert_absorb)
    then have st: "stands ids ?t g" and rn: "running ?t" using ok by (simp_all add: stands_def running_def)
    have "snd (tool_args tc t) = ?t \<or> snd (tool_args tc t) = t" using tl ne by (simp add: tool_args_def Let_def)
    then show ?thesis using tool_args_some [OF ok(1) tl ne] ok(5) st rn r s by auto
  qed
qed

definition fresh_tool :: "OpenAIChunkToolCall \<Rightarrow> toolStreamState" where
  "fresh_tool tc =
     \<lparr>ts_id = ct_ID tc, ts_name = fc_Name (ct_Function tc), ts_args = [], ts_blockIndex = 0, ts_opened = False, ts_closed = False\<rparr>"

lemma tool_header_first:
  assumes "no_tools t" and "0 \<le> ct_Index tc" and "ct_ID tc = ids (ct_Index tc)"
    and "st_state t = stateStarted \<and> st_activeBlockType t = [] \<and> g = Idle (st_blockIndex t) \<or>
      st_state t = stateBlockActive \<and> st_activeBlockType t \<noteq> [] \<and> (\<exists>k. g = Open (st_blockIndex t) k)"
  shows "\<exists>g'. accepts g (fst (tool_header tc t)) = Some g' \<and> stands ids (snd (tool_header tc t)) g' \<and> running (snd (tool_header tc t))"
proof -
  define b where "b = (if st_state t = stateStarted then st_blockIndex t else st_blockIndex t + 1)"
  define tl where "tl = (fresh_tool tc)\<lparr>ts_blockIndex := b, ts_opened := True\<rparr>"
  define pre where "pre = (if st_state t = stateStarted then [] else [ContentBlockStop (st_blockIndex t)])"
  have n: "st_tools t = Map.empty" "st_toolOrder t = []" "st_activeToolIdx t = -1" using assms(1) by (simp_all add: no_tools_def)
  have e: "fst (tool_header tc t) = pre @ [ToolUseBlockStart b (ct_ID tc) (fc_Name (ct_Function tc))]"
    and f: "st_state (snd (tool_header tc t)) = stateBlockActive" "st_toolOrder (snd (tool_header tc t)) = [ct_Index tc]"
      "st_activeToolIdx (snd (tool_header tc t)) = ct_Index tc" "st_activeBlockType (snd (tool_header tc t)) = []"
      "st_blockIndex (snd (tool_header tc t)) = b" "st_tools (snd (tool_header tc t)) = [ct_Index tc \<mapsto> tl]"
    using assms(4) n by (auto simp: tool_header_def openToolBlock_def b_def tl_def pre_def fresh_tool_def)
  have p: "accepts g (fst (tool_header tc t)) = Some (Open b ToolBlock)"
    using assms(4) unfolding e by (auto simp: pre_def b_def)
  have "tools_ok ids (snd (tool_header tc t))"
    using f assms(2,3) by (simp add: tools_ok_def tl_def fresh_tool_def)
  then have "stands ids (snd (tool_header tc t)) (Open b ToolBlock)" using f by (simp add: stands_def)
  then show ?thesis using p f(1) by (auto simp: running_def)
qed

lemma tool_header_more:
  assumes "st_state t = stateBlockActive" "st_toolOrder t \<noteq> []" "tools_ok ids t" "st_activeBlockType t = []"
    and "st_tools t (ct_Index tc) = None" and "ct_ID tc = ids (ct_Index tc)"
  shows "fst (tool_header tc t) = [] \<and> stands ids (snd (tool_header tc t)) (Open (st_blockIndex t) ToolBlock) \<and> running (snd (tool_header tc t))"
proof -
  let ?t = "t\<lparr>st_tools := (st_tools t)(ct_Index tc \<mapsto> fresh_tool tc), st_toolOrder := st_toolOrder t @ [ct_Index tc],
    st_state := stateBlockActive\<rparr>"
  have h: "tool_header tc t = ([], ?t)" using assms(3,4) by (simp add: tool_header_def tools_ok_def fresh_tool_def)
  have ni: "ct_Index tc \<notin> set (st_toolOrder t)" using assms(3,5) by (auto simp: tools_ok_def)
  have na: "ct_Index tc \<noteq> st_activeToolIdx t" using ni assms(2,3) by (auto simp: tools_ok_def)
  have "tools_ok ids ?t" using assms(2,3,6) ni na by (auto simp: tools_ok_def fresh_tool_def)
  then show ?thesis using h assms(2,4) by (simp add: stands_def running_def)
qed

definition header_ok :: "(int \<Rightarrow> bytes) \<Rightarrow> OpenAIChunkToolCall \<Rightarrow> bool" where
  "header_ok ids tc \<longleftrightarrow> ct_ID tc = [] \<or> 0 \<le> ct_Index tc \<and> ct_ID tc = ids (ct_Index tc)"

lemma tool_header_protocol:
  assumes "running t" "stands ids t g" "st_tools t (ct_Index tc) = None" "header_ok ids tc" "ct_ID tc \<noteq> []"
  shows "\<exists>g'. accepts g (fst (tool_header tc t)) = Some g' \<and> stands ids (snd (tool_header tc t)) g' \<and> running (snd (tool_header tc t))"
proof -
  have h: "0 \<le> ct_Index tc" "ct_ID tc = ids (ct_Index tc)" using assms(4,5) by (simp_all add: header_ok_def)
  from assms(1,2) show ?thesis
  proof (cases rule: standsE)
    case tool
    then show ?thesis using tool_header_more [OF tool(1-4) assms(3) h(2)] by simp
  qed (rule tool_header_first [where tc = tc and ids = ids, OF _ h(1) h(2)]; simp)+
qed

lemma keeps_tool_call_delta:
  assumes "header_ok ids tc"
  shows "keeps ids (tool_call_delta tc)"
proof (rule keepsI)
  fix t g assume r: "running t" and s: "stands ids t g"
  have a: "\<exists>g'. accepts g (fst (tool_args tc t)) = Some g' \<and> stands ids (snd (tool_args tc t)) g' \<and> running (snd (tool_args tc t))"
    using keeps_tool_args r s unfolding keeps_def by blast
  show "\<exists>g'. accepts g (fst (tool_call_delta tc t)) = Some g' \<and> stands ids (snd (tool_call_delta tc t)) g' \<and>
      running (snd (tool_call_delta tc t))"
  proof (cases "ct_ID tc = []")
    case True
    then show ?thesis using a by (simp add: tool_call_delta_def)
  next
    case False
    show ?thesis
    proof (cases "st_tools t (ct_Index tc)")
      case None
      obtain g' where g': "accepts g (fst (tool_header tc t)) = Some g'" "stands ids (snd (tool_header tc t)) g'"
        "running (snd (tool_header tc t))" using tool_header_protocol [OF r s None assms False] by blast
      obtain g'' where "accepts g' (fst (tool_args tc (snd (tool_header tc t)))) = Some g''"
        "stands ids (snd (tool_args tc (snd (tool_header tc t)))) g''" "running (snd (tool_args tc (snd (tool_header tc t))))"
        using keeps_tool_args g'(2,3) unfolding keeps_def by blast
      then show ?thesis using False None g'(1) by (simp add: tool_call_delta_def andthen_sel accepts_append)
    next
      case (Some prev)
      from r s have "ts_id prev = ids (ct_Index tc)"
        using Some by (cases rule: standsE) (auto simp: no_tools_def tools_ok_def)
      then show ?thesis using False Some r s assms by (auto simp: tool_call_delta_def header_ok_def)
    qed
  qed
qed

lemma keeps_translateToolCallDelta: "list_all (header_ok ids) tcs \<Longrightarrow> keeps ids (translateToolCallDelta tcs)"
proof (induction tcs)
  case Nil
  have "translateToolCallDelta [] = (\<lambda>t. ([], t))" by (rule ext) simp
  then show ?case by (simp add: keeps_id)
next
  case (Cons tc tcs)
  have "translateToolCallDelta (tc # tcs) = andthen (tool_call_delta tc) (translateToolCallDelta tcs)" by (rule ext) simp
  then show ?case using Cons by (simp add: keeps_andthen keeps_tool_call_delta)
qed

text \<open>Closing the tool blocks: the open one is stopped, the deferred ones are written out in order.\<close>

lemma close_all_deferred:
  assumes "distinct idxs" and "\<forall>i \<in> set idxs. \<exists>tool. st_tools t i = Some tool \<and> \<not> ts_opened tool \<and> \<not> ts_closed tool"
  shows "accepts (Idle (st_blockIndex t)) (fst (close_all idxs t)) = Some (Idle (st_blockIndex (snd (close_all idxs t)))) \<and>
    st_toolOrder (snd (close_all idxs t)) = st_toolOrder t \<and> st_outputTokens (snd (close_all idxs t)) = st_outputTokens t"
  using assms
proof (induction idxs arbitrary: t)
  case Nil
  then show ?case by simp
next
  case (Cons i idxs)
  obtain tool where tl: "st_tools t i = Some tool" "\<not> ts_opened tool" "\<not> ts_closed tool" using Cons.prems(2) by auto
  let ?t1 = "snd (close_one i t)"
  have t1: "st_blockIndex ?t1 = st_blockIndex t + 1" "st_toolOrder ?t1 = st_toolOrder t" "st_outputTokens ?t1 = st_outputTokens t"
    "\<And>j. j \<noteq> i \<Longrightarrow> st_tools ?t1 j = st_tools t j"
    using tl by (simp_all add: close_one_def openToolBlock_def Let_def)
  have e: "accepts (Idle (st_blockIndex t)) (fst (close_one i t)) = Some (Idle (st_blockIndex t + 1))"
    using tl by (simp add: close_one_def openToolBlock_def Let_def)
  have "\<forall>j \<in> set idxs. \<exists>tool. st_tools ?t1 j = Some tool \<and> \<not> ts_opened tool \<and> \<not> ts_closed tool"
  proof
    fix j assume j: "j \<in> set idxs"
    then have "j \<noteq> i" using Cons.prems(1) by auto
    then have "st_tools ?t1 j = st_tools t j" by (rule t1(4))
    then show "\<exists>tool. st_tools ?t1 j = Some tool \<and> \<not> ts_opened tool \<and> \<not> ts_closed tool" using Cons.prems(2) j by simp
  qed
  moreover have "distinct idxs" using Cons.prems(1) by simp
  ultimately show ?case using Cons.IH [of ?t1] e t1 by (simp add: andthen_sel accepts_append)
qed

lemma closeActive_tools:
  assumes "st_toolOrder t \<noteq> []" and "tools_ok ids t"
  shows "accepts (Open (st_blockIndex t) ToolBlock) (fst (closeActiveToolBlock t)) =
      Some (Idle (st_blockIndex (snd (closeActiveToolBlock t)))) \<and> st_state (snd (closeActiveToolBlock t)) = stateStarted"
proof -
  obtain i js where ord: "st_toolOrder t = i # js" using assms(1) by (cases "st_toolOrder t") auto
  have act: "st_activeToolIdx t = i" and d: "distinct (i # js)" and dm: "dom (st_tools t) = set (i # js)"
    using assms(2) ord by (auto simp: tools_ok_def)
  obtain tool where tl: "st_tools t i = Some tool" using dm by auto
  have op: "ts_opened tool" "\<not> ts_closed tool" "ts_blockIndex tool = st_blockIndex t"
    using assms(2) tl act by (auto simp: tools_ok_def)
  let ?t1 = "snd (close_one i t)"
  have t1: "st_blockIndex ?t1 = st_blockIndex t + 1" "st_toolOrder ?t1 = st_toolOrder t" "\<And>j. j \<noteq> i \<Longrightarrow> st_tools ?t1 j = st_tools t j"
    and e: "fst (close_one i t) = [ContentBlockStop (st_blockIndex t)]"
    using tl op by (simp_all add: close_one_def Let_def)
  have "\<exists>tool. st_tools ?t1 j = Some tool \<and> \<not> ts_opened tool \<and> \<not> ts_closed tool" if "j \<in> set js" for j
  proof -
    have "j \<noteq> i" using d that by auto
    have "j \<in> dom (st_tools t)" using dm that by simp
    then obtain tj where tj: "st_tools t j = Some tj" by auto
    have "\<not> ts_opened tj \<and> \<not> ts_closed tj" using assms(2) act tj \<open>j \<noteq> i\<close> unfolding tools_ok_def by metis
    then show ?thesis using tj t1(3) [OF \<open>j \<noteq> i\<close>] by simp
  qed
  then have c: "accepts (Idle (st_blockIndex ?t1)) (fst (close_all js ?t1)) = Some (Idle (st_blockIndex (snd (close_all js ?t1)))) \<and>
      st_toolOrder (snd (close_all js ?t1)) = st_toolOrder ?t1"
    using close_all_deferred [of "js" ?t1] d by auto
  have "fst (closeActiveToolBlock t) = [ContentBlockStop (st_blockIndex t)] @ fst (close_all js ?t1)"
    "st_blockIndex (snd (closeActiveToolBlock t)) = st_blockIndex (snd (close_all js ?t1))"
    "st_state (snd (closeActiveToolBlock t)) = stateStarted"
    using ord e c t1(2) by (simp_all add: closeActiveToolBlock_def split_beta andthen_sel)
  then show ?thesis using c t1(1) by simp
qed

lemma closeActive_none: "st_toolOrder t = [] \<Longrightarrow> closeActiveToolBlock t = ([], t\<lparr>st_activeToolIdx := -1\<rparr>)"
  by (simp add: closeActiveToolBlock_def)

lemma usage_finish_state [simp]: "st_state (usage_finish u t) = st_state t"
  by (simp add: usage_finish_def usage_details_def Let_def)

lemma finish_step_protocol:
  assumes "running t" and "stands ids t g"
  shows "accepts g (fst (finish_step reason usage t)) = Some Finished \<and> st_state (snd (finish_step reason usage t)) = stateDone"
  using assms
proof (cases rule: standsE)
  case tool
  obtain es t1 where c: "closeActiveToolBlock t = (es, t1)" by (cases "closeActiveToolBlock t")
  then have "accepts g es = Some (Idle (st_blockIndex t1))" "st_state t1 = stateStarted"
    using closeActive_tools [OF tool(2,3)] tool(5) by simp_all
  then show ?thesis using c by (simp add: finish_step_def Let_def accepts_append split: option.split)
qed (simp_all add: finish_step_def closeActive_none no_tools_def Let_def accepts_append)

lemma on_disconnect_protocol:
  assumes "stands ids t g"
  shows "accepts g (fst (on_disconnect clean t)) = Some Finished"
proof (cases "st_state t")
  case stateBlockActive
  then have r: "running t" by (simp add: running_def)
  obtain es t1 where c: "close_block t = (es, t1)" by (cases "close_block t")
  have "\<exists>i. accepts g es = Some (Idle i)"
    using r assms
  proof (cases rule: standsE)
    case tool
    then show ?thesis using closeActive_tools [OF tool(2,3)] c by (auto simp: close_block_def)
  qed (use c stateBlockActive in \<open>auto simp: close_block_def no_tools_def\<close>)
  then show ?thesis using stateBlockActive c by (auto simp: on_disconnect_def accepts_append)
qed (use assms in \<open>auto simp: on_disconnect_def stands_def\<close>)

lemma stands_cong:
  assumes "st_state t' = st_state t" "st_tools t' = st_tools t" "st_toolOrder t' = st_toolOrder t"
    "st_activeToolIdx t' = st_activeToolIdx t" "st_blockIndex t' = st_blockIndex t" "st_activeBlockType t' = st_activeBlockType t"
  shows "stands ids t' g = stands ids t g"
proof -
  have "no_tools t' = no_tools t" "tools_ok ids t' = tools_ok ids t" using assms by (simp_all add: no_tools_def tools_ok_def)
  then show ?thesis using assms by (cases "st_state t") (simp_all add: stands_def)
qed

lemma start_message_protocol:
  assumes "stands ids t g" and "st_state t \<noteq> stateDone"
  shows "\<exists>g'. accepts g (fst (start_message chunk t)) = Some g' \<and> stands ids (snd (start_message chunk t)) g' \<and>
    running (snd (start_message chunk t))"
proof (cases "st_state t = stateInit")
  case True
  let ?t = "snd (start_message chunk t)"
  have f: "st_state ?t = stateStarted" "st_tools ?t = st_tools t" "st_toolOrder ?t = st_toolOrder t"
    "st_activeToolIdx ?t = st_activeToolIdx t" "st_blockIndex ?t = st_blockIndex t" "st_activeBlockType ?t = st_activeBlockType t"
    using True by (simp_all add: start_message_def Let_def split: option.split)
  have g: "g = Fresh" "no_tools t" "st_blockIndex t = 0" "st_activeBlockType t = []" using assms(1) True by (simp_all add: stands_def)
  have "\<exists>a b c. fst (start_message chunk t) = [MessageStart a b c]" using True by (simp add: start_message_def Let_def)
  then have "accepts g (fst (start_message chunk t)) = Some (Idle 0)" using g(1) by auto
  moreover have "stands ids ?t (Idle 0)" using f g by (simp add: stands_def no_tools_def)
  ultimately show ?thesis using f(1) by (auto simp: running_def)
next
  case False
  then show ?thesis using assms by (cases "st_state t") (auto simp: start_message_def running_def)
qed

definition sse_choice :: "SSEChunk \<Rightarrow> OpenAIChunkChoice option" where
  "sse_choice c =
     (if sc_Done c then None
      else case sc_Chunk c of None \<Rightarrow> None | Some ck \<Rightarrow> (case ck_Choices ck of [] \<Rightarrow> None | ch # _ \<Rightarrow> Some ch))"

text \<open>The tool-call headers of a chunk carry the identifier of their index; a chunk with a finish reason.\<close>

definition chunk_ok :: "(int \<Rightarrow> bytes) \<Rightarrow> SSEChunk \<Rightarrow> bool" where
  "chunk_ok ids c = (case sse_choice c of None \<Rightarrow> True | Some ch \<Rightarrow> list_all (header_ok ids) (cd_ToolCalls (cc_Delta ch)))"

definition finishes :: "SSEChunk \<Rightarrow> bool" where
  "finishes c = (case sse_choice c of None \<Rightarrow> False | Some ch \<Rightarrow> cc_FinishReason ch \<noteq> None \<and> cc_FinishReason ch \<noteq> Some [])"

lemma keeps_delta:
  assumes "list_all (header_ok ids) (cd_ToolCalls d)"
  shows "keeps ids (andthen (reasoning_step G (cd_ReasoningContent d)) (andthen (translateToolCallDelta (cd_ToolCalls d)) (text_step G (cd_Content d))))"
  by (intro keeps_andthen keeps_reasoning_step keeps_text_step keeps_translateToolCallDelta assms)

lemma choice_step_protocol:
  assumes "running t" "stands ids t g" and "list_all (header_ok ids) (cd_ToolCalls (cc_Delta c))"
  shows "\<exists>g'. accepts g (fst (choice_step G c usage t)) = Some g' \<and> stands ids (snd (choice_step G c usage t)) g' \<and>
    (running (snd (choice_step G c usage t)) \<or> cc_FinishReason c \<noteq> None \<and> cc_FinishReason c \<noteq> Some [])"
proof -
  define d where "d = andthen (reasoning_step G (cd_ReasoningContent (cc_Delta c)))
    (andthen (translateToolCallDelta (cd_ToolCalls (cc_Delta c))) (text_step G (cd_Content (cc_Delta c))))"
  obtain g' where g': "accepts g (fst (d t)) = Some g'" "stands ids (snd (d t)) g'" "running (snd (d t))"
    using keeps_delta [OF assms(3), of G] assms(1,2) unfolding keeps_def d_def [symmetric] by blast
  show ?thesis
  proof (cases "cc_FinishReason c = None \<or> cc_FinishReason c = Some []")
    case True
    then have "choice_step G c usage = andthen d (\<lambda>t. ([], t))" by (auto simp: choice_step_def d_def)
    then show ?thesis using g' by (simp add: andthen_sel)
  next
    case False
    then obtain reason where r: "cc_FinishReason c = Some reason" "reason \<noteq> []" by auto
    then have "choice_step G c usage = andthen d (finish_step reason usage)" by (simp add: choice_step_def d_def)
    then show ?thesis using g'(1) finish_step_protocol [OF g'(3,2), of reason usage] r
      by (simp add: andthen_sel accepts_append stands_def)
  qed
qed

lemma translate_sse_protocol:
  assumes "stands ids t g" and "st_state t \<noteq> stateDone" and "chunk_ok ids c"
  shows "\<exists>g'. accepts g (fst (translate_sse G c t)) = Some g' \<and> stands ids (snd (translate_sse G c t)) g' \<and>
    (finishes c \<or> st_state (snd (translate_sse G c t)) \<noteq> stateDone)"
proof (cases "sc_Done c \<or> sc_Chunk c = None")
  case True
  then have "translate_sse G c t = ([], t)" by (auto simp: translate_sse_def)
  then show ?thesis using assms by simp
next
  case False
  then obtain ck where ck: "sc_Chunk c = Some ck" "\<not> sc_Done c" by auto
  let ?t = "snd (start_message ck t)"
  obtain g' where g': "accepts g (fst (start_message ck t)) = Some g'" "stands ids ?t g'" "running ?t"
    using start_message_protocol [OF assms(1,2)] by blast
  have rd: "running x \<Longrightarrow> st_state x \<noteq> stateDone" for x by (auto simp: running_def)
  show ?thesis
  proof (cases "ck_Choices ck")
    case Nil
    let ?u = "case ck_Usage ck of Some u \<Rightarrow> usage_chunk u ?t | None \<Rightarrow> ?t"
    have t: "translate_sse G c t = (fst (start_message ck t), ?u)"
      using ck Nil by (simp add: translate_sse_def translate_chunk_def andthen_def split_beta)
    have f: "st_state ?u = st_state ?t" by (simp add: usage_chunk_def usage_details_def split: option.split)
    have "stands ids ?u g' = stands ids ?t g'"
      by (rule stands_cong) (simp_all add: usage_chunk_def usage_details_def split: option.split)
    then show ?thesis using g' f rd [OF g'(3)] unfolding t by simp
  next
    case (Cons ch chs)
    have s: "sse_choice c = Some ch" using ck Cons by (simp add: sse_choice_def)
    then have h: "list_all (header_ok ids) (cd_ToolCalls (cc_Delta ch))" using assms(3) by (simp add: chunk_ok_def)
    have t: "translate_sse G c t = andthen (start_message ck) (choice_step G ch (ck_Usage ck)) t"
      using ck Cons by (simp add: translate_sse_def translate_chunk_def)
    obtain g'' where "accepts g' (fst (choice_step G ch (ck_Usage ck) ?t)) = Some g''"
      "stands ids (snd (choice_step G ch (ck_Usage ck) ?t)) g''"
      "running (snd (choice_step G ch (ck_Usage ck) ?t)) \<or> finishes c"
      using choice_step_protocol [OF g'(3,2) h, of G "ck_Usage ck"] s unfolding finishes_def by auto
    then show ?thesis unfolding t using g'(1) rd by (auto simp: andthen_sel accepts_append)
  qed
qed

lemma translate_all_protocol:
  assumes "stands ids t g" and "st_state t \<noteq> stateDone \<or> cs = []" and "list_all (chunk_ok ids) cs"
    and "list_all (\<lambda>c. \<not> finishes c) (butlast cs)"
  shows "\<exists>g'. accepts g (fst (translate_all G cs t)) = Some g' \<and> stands ids (snd (translate_all G cs t)) g'"
  using assms
proof (induction cs arbitrary: t g)
  case Nil
  then show ?case by simp
next
  case (Cons c cs)
  obtain g' where g': "accepts g (fst (translate_sse G c t)) = Some g'" "stands ids (snd (translate_sse G c t)) g'"
    "finishes c \<or> st_state (snd (translate_sse G c t)) \<noteq> stateDone"
    using translate_sse_protocol [of ids t g c G] Cons.prems by auto
  have "st_state (snd (translate_sse G c t)) \<noteq> stateDone \<or> cs = []" using g'(3) Cons.prems(4) by (auto split: if_splits)
  moreover have "list_all (chunk_ok ids) cs" "list_all (\<lambda>c. \<not> finishes c) (butlast cs)"
    using Cons.prems(3,4) by (simp_all split: if_splits)
  ultimately obtain g'' where "accepts g' (fst (translate_all G cs (snd (translate_sse G c t)))) = Some g''"
    "stands ids (snd (translate_all G cs (snd (translate_sse G c t)))) g''" using Cons.IH [OF g'(2)] by blast
  then show ?case using g'(1) by (simp add: andthen_sel accepts_append)
qed

lemma stands_New: "stands ids (NewStreamTranslator messageID model n) Fresh"
  by (simp add: stands_def NewStreamTranslator_def no_tools_def)

section \<open>Properties\<close>

text \<open>
  C22: Event protocol. For every chunk stream in which a tool-call index is non-negative and keeps its identifier and
  only the last chunk finishes, the events up to and including the disconnect, clean or not, form a complete
  message: one start, content blocks numbered from zero that never overlap, with deltas of their own kind, then
  the terminal events.
\<close>

theorem stream_protocol:
  assumes "list_all (chunk_ok ids) cs" and "list_all (\<lambda>c. \<not> finishes c) (butlast cs)"
  shows "accepts Fresh (fst (andthen (translate_all G cs) (on_disconnect clean) (NewStreamTranslator messageID model n))) =
    Some Finished"
proof -
  let ?t = "NewStreamTranslator messageID model n"
  have "st_state ?t \<noteq> stateDone" by (simp add: NewStreamTranslator_def)
  then obtain g where "accepts Fresh (fst (translate_all G cs ?t)) = Some g" "stands ids (snd (translate_all G cs ?t)) g"
    using translate_all_protocol [OF stands_New _ assms] by blast
  then show ?thesis using on_disconnect_protocol by (simp add: andthen_sel accepts_append)
qed

definition demo_chunk :: "OpenAIChunkDelta \<Rightarrow> bytes option \<Rightarrow> SSEChunk" where
  "demo_chunk d finish =
     \<lparr>sc_Chunk = Some \<lparr>ck_ID = ''c'', ck_Object = [], ck_Created = 0, ck_Model = ''m'',
        ck_Choices = [\<lparr>cc_Index = 0, cc_Delta = d, cc_FinishReason = finish\<rparr>], ck_Usage = None, ck_SystemFingerprint = []\<rparr>,
      sc_Done = False\<rparr>"

definition demo_call :: "int \<Rightarrow> bytes \<Rightarrow> bytes \<Rightarrow> OpenAIChunkDelta" where
  "demo_call i cid args =
     OpenAIChunkDelta0\<lparr>cd_ToolCalls := [\<lparr>ct_Index = i, ct_ID = cid, ct_Type = ''function'',
       ct_Function = \<lparr>fc_Name = ''f'', fc_Arguments = args\<rparr>\<rparr>]\<rparr>"

theorem stream_protocol_witness:
  "accepts Fresh (fst (andthen (translate_all ascii_rt
      [demo_chunk (demo_call 0 ''a'' []) None, demo_chunk (demo_call 1 ''b'' ''x'') None, demo_chunk OpenAIChunkDelta0 (Some ''tool_calls'')])
      (on_disconnect False) (NewStreamTranslator ''id'' ''m'' 3))) = Some Finished"
  by (rule stream_protocol [where ids = "\<lambda>i. if i = 0 then ''a'' else ''b''"])
    (simp_all add: chunk_ok_def finishes_def sse_choice_def demo_chunk_def demo_call_def header_ok_def OpenAIChunkDelta0_def)

end
