(* ===== verification/Stream_Reverse.thy ===== *)
theory Stream_Reverse
  imports Stream_Forward
begin

text \<open>
  The streaming translator from Anthropic events to OpenAI chunks:
  \<^verbatim>\<open>internal/translator/reverse_stream.go\<close>. The anonymous structs the handlers decode into are flat
  records here; the nested objects of a struct are decoders on the same record.
\<close>

record ReverseStreamTranslator =
  rv_messageID :: bytes
  rv_model :: bytes
  rv_inputTokens :: int
  rv_outputTokens :: int
  rv_cacheReadTokens :: int
  rv_cacheCreationTokens :: int
  rv_activeToolID :: bytes

definition NewReverseStreamTranslator :: ReverseStreamTranslator where
  "NewReverseStreamTranslator =
     \<lparr>rv_messageID = [], rv_model = [], rv_inputTokens = 0, rv_outputTokens = 0, rv_cacheReadTokens = 0,
      rv_cacheCreationTokens = 0, rv_activeToolID = []\<rparr>"

type_synonym reverse_op = "ReverseStreamTranslator \<Rightarrow> SSEChunk list \<times> ReverseStreamTranslator"

definition reverse_chunk :: "ReverseStreamTranslator \<Rightarrow> OpenAIChunkDelta \<Rightarrow> bytes option \<Rightarrow> OpenAIUsage option \<Rightarrow> SSEChunk" where
  "reverse_chunk t d finish usage =
     \<lparr>sc_Chunk = Some \<lparr>ck_ID = rv_messageID t, ck_Object = ''chat.completion.chunk'', ck_Created = 0, ck_Model = rv_model t,
        ck_Choices = [\<lparr>cc_Index = 0, cc_Delta = d, cc_FinishReason = finish\<rparr>], ck_Usage = usage, ck_SystemFingerprint = []\<rparr>,
      sc_Done = False\<rparr>"

definition prompt_total :: "ReverseStreamTranslator \<Rightarrow> int" where
  "prompt_total t = wrap64 (rv_inputTokens t + rv_cacheReadTokens t + rv_cacheCreationTokens t)"

section \<open>Message start\<close>

record start_evt =
  sv_ID :: bytes
  sv_Model :: bytes
  sv_InputTokens :: int
  sv_CacheReadInputTokens :: int
  sv_CacheCreationInputTokens :: int

definition start_evt0 :: start_evt where
  "start_evt0 = \<lparr>sv_ID = [], sv_Model = [], sv_InputTokens = 0, sv_CacheReadInputTokens = 0, sv_CacheCreationInputTokens = 0\<rparr>"

definition dec_start_evt :: "start_evt dec" where
  "dec_start_evt = dec_struct
     [(''message'', dec_struct
        [fld ''id'' dec_string sv_ID sv_ID_update, fld ''model'' dec_string sv_Model sv_Model_update,
         (''usage'', dec_struct
            [fld ''input_tokens'' dec_int sv_InputTokens sv_InputTokens_update,
             fld ''cache_read_input_tokens'' dec_int sv_CacheReadInputTokens sv_CacheReadInputTokens_update,
             fld ''cache_creation_input_tokens'' dec_int sv_CacheCreationInputTokens sv_CacheCreationInputTokens_update])])]"

definition handleMessageStart :: "bytes \<Rightarrow> reverse_op" where
  "handleMessageStart data t =
     (case unmarshal dec_start_evt data start_evt0 of
        (evt, err) \<Rightarrow>
          if err then ([], t)
          else
            let t1 = t\<lparr>rv_messageID := sv_ID evt, rv_model := sv_Model evt, rv_inputTokens := sv_InputTokens evt,
                       rv_cacheReadTokens := sv_CacheReadInputTokens evt,
                       rv_cacheCreationTokens := sv_CacheCreationInputTokens evt\<rparr>
            in ([reverse_chunk t1 (OpenAIChunkDelta0\<lparr>cd_Role := ''assistant''\<rparr>) None
                   (Some (OpenAIUsage0\<lparr>PromptTokens := prompt_total t1, TotalTokens := prompt_total t1\<rparr>))], t1))"

section \<open>Blocks\<close>

record block_evt =
  bv_Index :: int
  bv_Type :: bytes
  bv_ID :: bytes
  bv_Name :: bytes

definition block_evt0 :: block_evt where
  "block_evt0 = \<lparr>bv_Index = 0, bv_Type = [], bv_ID = [], bv_Name = []\<rparr>"

definition dec_block_evt :: "block_evt dec" where
  "dec_block_evt = dec_struct
     [fld ''index'' dec_int bv_Index bv_Index_update,
      (''content_block'', dec_struct
         [fld ''type'' dec_string bv_Type bv_Type_update, fld ''id'' dec_string bv_ID bv_ID_update,
          fld ''name'' dec_string bv_Name bv_Name_update])]"

definition chunk_tool_call :: "int \<Rightarrow> bytes \<Rightarrow> bytes \<Rightarrow> bytes \<Rightarrow> bytes \<Rightarrow> OpenAIChunkDelta" where
  "chunk_tool_call index id' ty name args =
     OpenAIChunkDelta0\<lparr>cd_ToolCalls := [\<lparr>ct_Index = index, ct_ID = id', ct_Type = ty,
       ct_Function = \<lparr>fc_Name = name, fc_Arguments = args\<rparr>\<rparr>]\<rparr>"

definition handleContentBlockStart :: "bytes \<Rightarrow> reverse_op" where
  "handleContentBlockStart data t =
     (case unmarshal dec_block_evt data block_evt0 of
        (evt, err) \<Rightarrow>
          if err then ([], t)
          else if bv_Type evt = ''tool_use'' then
            let t1 = t\<lparr>rv_activeToolID := bv_ID evt\<rparr>
            in ([reverse_chunk t1 (chunk_tool_call (bv_Index evt) (bv_ID evt) ''function'' (bv_Name evt) []) None None], t1)
          else ([], t))"

record delta_evt =
  dv_Index :: int
  dv_Type :: bytes
  dv_Text :: bytes
  dv_PartialJSON :: bytes

definition delta_evt0 :: delta_evt where
  "delta_evt0 = \<lparr>dv_Index = 0, dv_Type = [], dv_Text = [], dv_PartialJSON = []\<rparr>"

definition dec_delta_evt :: "delta_evt dec" where
  "dec_delta_evt = dec_struct
     [fld ''index'' dec_int dv_Index dv_Index_update,
      (''delta'', dec_struct
         [fld ''type'' dec_string dv_Type dv_Type_update, fld ''text'' dec_string dv_Text dv_Text_update,
          fld ''partial_json'' dec_string dv_PartialJSON dv_PartialJSON_update])]"

definition handleContentBlockDelta :: "bytes \<Rightarrow> reverse_op" where
  "handleContentBlockDelta data t =
     (case unmarshal dec_delta_evt data delta_evt0 of
        (evt, err) \<Rightarrow>
          if err then ([], t)
          else if dv_Type evt = ''thinking_delta'' then
            ([reverse_chunk t (OpenAIChunkDelta0\<lparr>cd_ReasoningContent := dv_Text evt\<rparr>) None None], t)
          else if dv_Type evt = ''text_delta'' then
            ([reverse_chunk t (OpenAIChunkDelta0\<lparr>cd_Content := dv_Text evt\<rparr>) None None], t)
          else if dv_Type evt = ''input_json_delta'' \<and> rv_activeToolID t \<noteq> [] then
            ([reverse_chunk t (chunk_tool_call (dv_Index evt) [] [] [] (dv_PartialJSON evt)) None None], t)
          else ([], t))"

section \<open>Message delta\<close>

record mdelta_evt =
  mv_StopReason :: bytes
  mv_OutputTokens :: int

definition mdelta_evt0 :: mdelta_evt where
  "mdelta_evt0 = \<lparr>mv_StopReason = [], mv_OutputTokens = 0\<rparr>"

definition dec_mdelta_evt :: "mdelta_evt dec" where
  "dec_mdelta_evt = dec_struct
     [(''delta'', dec_struct [fld ''stop_reason'' dec_string mv_StopReason mv_StopReason_update]),
      (''usage'', dec_struct [fld ''output_tokens'' dec_int mv_OutputTokens mv_OutputTokens_update])]"

definition handleMessageDelta :: "bytes \<Rightarrow> reverse_op" where
  "handleMessageDelta data t =
     (case unmarshal dec_mdelta_evt data mdelta_evt0 of
        (evt, err) \<Rightarrow>
          if err then ([], t)
          else
            let t1 = t\<lparr>rv_outputTokens := mv_OutputTokens evt\<rparr>
            in ([reverse_chunk t1 OpenAIChunkDelta0 (Some (stopReasonToFinishReason (mv_StopReason evt)))
                   (Some \<lparr>PromptTokens = prompt_total t1, CompletionTokens = rv_outputTokens t1,
                      TotalTokens = wrap64 (prompt_total t1 + rv_outputTokens t1), u_CompletionTokensDetails = None,
                      u_PromptTokensDetails = (if rv_cacheReadTokens t1 > 0 then Some \<lparr>CachedTokens = rv_cacheReadTokens t1\<rparr> else None),
                      CacheCreationTokens = rv_cacheCreationTokens t1\<rparr>)], t1))"

definition TranslateEvent :: "bytes \<Rightarrow> bytes \<Rightarrow> reverse_op" where
  "TranslateEvent eventType data t =
     (if eventType = ''message_start'' then handleMessageStart data t
      else if eventType = ''content_block_start'' then handleContentBlockStart data t
      else if eventType = ''content_block_delta'' then handleContentBlockDelta data t
      else if eventType = ''message_delta'' then handleMessageDelta data t
      else if eventType = ''message_stop'' then ([\<lparr>sc_Chunk = None, sc_Done = True\<rparr>], t)
      else ([], t))"

fun translate_events :: "SSEEvent list \<Rightarrow> reverse_op" where
  "translate_events [] t = ([], t)"
| "translate_events (e # es) t =
     (case TranslateEvent (se_Event e) (se_Data e) t of
        (cs, t1) \<Rightarrow> (case translate_events es t1 of (cs', t2) \<Rightarrow> (cs @ cs', t2)))"

section \<open>Reading back the events of the forward translator\<close>

lemma valid_keys:
  "valid_utf8 ''type''" "valid_utf8 ''index''" "valid_utf8 ''delta''" "valid_utf8 ''text''" "valid_utf8 ''thinking''"
  "valid_utf8 ''partial_json''" "valid_utf8 ''content_block_delta''" "valid_utf8 ''text_delta''" "valid_utf8 ''thinking_delta''"
  "valid_utf8 ''input_json_delta''"
  by (simp_all add: rune_len_def)

lemma block_delta_json_members:
  "k < ''type'' \<Longrightarrow> block_delta_json i [(''type'', JStr ty), (k, JStr s)] =
     JObj [(''delta'', JObj [(k, JStr s), (''type'', JStr ty)]), (''index'', jint i), (''type'', JStr ''content_block_delta'')]"
  using leD [of "''type''" k] by (auto simp: block_delta_json_def jmap_def)

lemma delta_members:
  assumes "k < ''type''" and "valid_utf8 k" "valid_utf8 ty" "valid_utf8 s"
  obtains n d x y z v where "unmarshal_node (marshal_or_nil (block_delta_json i [(''type'', JStr ty), (k, JStr s)])) = Some n"
    and "val n = VObj [(''delta'', d), (''index'', x), (''type'', y)]" and "val d = VObj [(k, z), (''type'', v)]"
    and "erase x = jint i" and "val z = VStr s" and "val v = VStr ty"
proof -
  let ?j = "block_delta_json i [(''type'', JStr ty), (k, JStr s)]"
  have "plain 0 ?j" using assms unfolding block_delta_json_members [OF assms(1)] by (simp add: valid_keys max_depth_def del: valid_utf8.simps)
  then obtain n where n: "unmarshal_node (marshal_or_nil ?j) = Some n" "erase n = ?j" by (rule marshal_or_nil_node)
  obtain d x y where m: "val n = VObj [(''delta'', d), (''index'', x), (''type'', y)]"
    and d: "erase d = JObj [(k, JStr s), (''type'', JStr ty)]" and x: "erase x = jint i"
    using erase_JObj [OF n(2) [unfolded block_delta_json_members [OF assms(1)]]] by auto
  obtain z v where "val d = VObj [(k, z), (''type'', v)]" "val z = VStr s" "val v = VStr ty" using erase_JObj [OF d] by auto
  then show ?thesis using that n(1) m x by blast
qed

definition int64 :: "int \<Rightarrow> bool" where
  "int64 i \<longleftrightarrow> - (2 ^ 63) \<le> i \<and> i < 2 ^ 63"

lemma read_text_delta:
  assumes "valid_utf8 s" and "int64 i"
  shows "TranslateEvent (se_Event (sse (ContentBlockDelta i s))) (se_Data (sse (ContentBlockDelta i s))) t =
    ([reverse_chunk t (OpenAIChunkDelta0\<lparr>cd_Content := s\<rparr>) None None], t)"
proof -
  have k: "''text'' < ''type''" by simp
  obtain n d x y z v where n: "unmarshal_node (marshal_or_nil (block_delta_json i [(''type'', JStr ''text_delta''), (''text'', JStr s)])) = Some n"
    "val n = VObj [(''delta'', d), (''index'', x), (''type'', y)]" "val d = VObj [(''text'', z), (''type'', v)]"
    "erase x = jint i" "val z = VStr s" "val v = VStr ''text_delta''"
    by (rule delta_members [OF k valid_keys(4) valid_keys(8) assms(1), of i])
  have x: "dec_int x old = (i, False)" for old using dec_int_node [OF n(4)] assms(2) by (simp add: int64_def del: dec_int.simps)
  have "dec_delta_evt n delta_evt0 = (\<lparr>dv_Index = i, dv_Type = ''text_delta'', dv_Text = s, dv_PartialJSON = []\<rparr>, False)"
    using n x by (simp add: dec_delta_evt_def delta_evt0_def fld_def del: dec_int.simps)
  then show ?thesis using n(1) by (simp add: TranslateEvent_def sse_def handleContentBlockDelta_def unmarshal_def)
qed

lemma read_thinking_delta:
  assumes "valid_utf8 s" and "int64 i"
  shows "TranslateEvent (se_Event (sse (ThinkingBlockDelta i s))) (se_Data (sse (ThinkingBlockDelta i s))) t =
    ([reverse_chunk t OpenAIChunkDelta0 None None], t)"
proof -
  have k: "''thinking'' < ''type''" by simp
  obtain n d x y z v where n: "unmarshal_node (marshal_or_nil (block_delta_json i [(''type'', JStr ''thinking_delta''), (''thinking'', JStr s)])) = Some n"
    "val n = VObj [(''delta'', d), (''index'', x), (''type'', y)]" "val d = VObj [(''thinking'', z), (''type'', v)]"
    "erase x = jint i" "val z = VStr s" "val v = VStr ''thinking_delta''"
    by (rule delta_members [OF k valid_keys(5) valid_keys(9) assms(1), of i])
  have x: "dec_int x old = (i, False)" for old using dec_int_node [OF n(4)] assms(2) by (simp add: int64_def del: dec_int.simps)
  have "dec_delta_evt n delta_evt0 = (\<lparr>dv_Index = i, dv_Type = ''thinking_delta'', dv_Text = [], dv_PartialJSON = []\<rparr>, False)"
    using n x by (simp add: dec_delta_evt_def delta_evt0_def fld_def ascii_lower_def del: dec_int.simps)
  then show ?thesis using n(1)
    by (simp add: TranslateEvent_def sse_def handleContentBlockDelta_def unmarshal_def OpenAIChunkDelta0_def)
qed

lemma read_arguments_delta:
  assumes "valid_utf8 s" and "int64 i"
  shows "TranslateEvent (se_Event (sse (ToolUseArgumentsDelta i s))) (se_Data (sse (ToolUseArgumentsDelta i s))) t =
    (if rv_activeToolID t \<noteq> [] then [reverse_chunk t (chunk_tool_call i [] [] [] s) None None] else [], t)"
proof -
  have k: "''partial_json'' < ''type''" by simp
  obtain n d x y z v where n: "unmarshal_node (marshal_or_nil (block_delta_json i [(''type'', JStr ''input_json_delta''), (''partial_json'', JStr s)])) = Some n"
    "val n = VObj [(''delta'', d), (''index'', x), (''type'', y)]" "val d = VObj [(''partial_json'', z), (''type'', v)]"
    "erase x = jint i" "val z = VStr s" "val v = VStr ''input_json_delta''"
    by (rule delta_members [OF k valid_keys(6) valid_keys(10) assms(1), of i])
  have x: "dec_int x old = (i, False)" for old using dec_int_node [OF n(4)] assms(2) by (simp add: int64_def del: dec_int.simps)
  have "dec_delta_evt n delta_evt0 = (\<lparr>dv_Index = i, dv_Type = ''input_json_delta'', dv_Text = [], dv_PartialJSON = s\<rparr>, False)"
    using n x by (simp add: dec_delta_evt_def delta_evt0_def fld_def del: dec_int.simps)
  then show ?thesis using n(1)
    by (simp add: TranslateEvent_def sse_def handleContentBlockDelta_def unmarshal_def)
qed

text \<open>The text and the reasoning a chunk stream carries, and the text an event stream carries.\<close>

definition carried :: "(OpenAIChunkDelta \<Rightarrow> bytes) \<Rightarrow> SSEChunk list \<Rightarrow> bytes" where
  "carried f cs = concat (map (\<lambda>c. case sse_choice c of Some ch \<Rightarrow> f (cc_Delta ch) | None \<Rightarrow> []) cs)"

fun event_text :: "stream_event \<Rightarrow> bytes" where
  "event_text (ContentBlockDelta _ s) = s"
| "event_text _ = []"

fun event_valid :: "stream_event \<Rightarrow> bool" where
  "event_valid (ContentBlockDelta i s) \<longleftrightarrow> valid_utf8 s \<and> int64 i"
| "event_valid (ThinkingBlockDelta i s) \<longleftrightarrow> valid_utf8 s \<and> int64 i"
| "event_valid (ToolUseArgumentsDelta i s) \<longleftrightarrow> valid_utf8 s \<and> int64 i"
| "event_valid _ \<longleftrightarrow> True"

lemma sse_choice_reverse_chunk: "sse_choice (reverse_chunk t d fin u) = Some \<lparr>cc_Index = 0, cc_Delta = d, cc_FinishReason = fin\<rparr>"
  by (simp add: sse_choice_def reverse_chunk_def)

lemma carried_simps [simp]:
  "carried f [] = []" "carried f (reverse_chunk t d fin u # cs) = f d @ carried f cs"
  "carried f (\<lparr>sc_Chunk = None, sc_Done = True\<rparr> # cs) = carried f cs" "carried f (as @ cs) = carried f as @ carried f cs"
  by (simp_all add: carried_def sse_choice_reverse_chunk) (simp add: sse_choice_def)

lemma handlers_carry_nothing:
  "carried cd_Content (fst (handleMessageStart b t)) = []" "carried cd_ReasoningContent (fst (handleMessageStart b t)) = []"
  "carried cd_Content (fst (handleContentBlockStart b t)) = []" "carried cd_ReasoningContent (fst (handleContentBlockStart b t)) = []"
  "carried cd_Content (fst (handleMessageDelta b t)) = []" "carried cd_ReasoningContent (fst (handleMessageDelta b t)) = []"
  by (simp_all add: handleMessageStart_def handleContentBlockStart_def handleMessageDelta_def chunk_tool_call_def
      OpenAIChunkDelta0_def Let_def split_beta)

lemma event_carries:
  assumes "event_valid e"
  shows "carried cd_Content (fst (TranslateEvent (se_Event (sse e)) (se_Data (sse e)) t)) = event_text e"
    and "carried cd_ReasoningContent (fst (TranslateEvent (se_Event (sse e)) (se_Data (sse e)) t)) = []"
proof -
  have d: "OpenAIChunkDelta0 = \<lparr>cd_Role = [], cd_Content = [], cd_ReasoningContent = [], cd_ToolCalls = []\<rparr>"
    by (simp add: OpenAIChunkDelta0_def)
  show "carried cd_Content (fst (TranslateEvent (se_Event (sse e)) (se_Data (sse e)) t)) = event_text e"
    using assms by (cases e) (simp_all add: read_text_delta read_thinking_delta read_arguments_delta d chunk_tool_call_def,
      simp_all add: TranslateEvent_def sse_def handlers_carry_nothing)
  show "carried cd_ReasoningContent (fst (TranslateEvent (se_Event (sse e)) (se_Data (sse e)) t)) = []"
    using assms by (cases e) (simp_all add: read_text_delta read_thinking_delta read_arguments_delta d chunk_tool_call_def,
      simp_all add: TranslateEvent_def sse_def handlers_carry_nothing)
qed

lemma reverse_stream_reads:
  assumes "list_all event_valid es"
  shows "carried cd_Content (fst (translate_events (map sse es) t)) = concat (map event_text es) \<and>
    carried cd_ReasoningContent (fst (translate_events (map sse es) t)) = []"
  using assms
proof (induction es arbitrary: t)
  case Nil
  then show ?case by simp
next
  case (Cons e es)
  then show ?case using event_carries [of e t] by (simp add: split_beta)
qed

section \<open>Properties\<close>

text \<open>
  Reading back a stream. The chunks the reverse translator makes of the events the forward translator wrote
  carry exactly the text of its text deltas, in order; of its thinking deltas they carry nothing, since the reverse
  translator looks for the thinking text in a field the events do not have.
\<close>

lemma reverse_stream_text:
  assumes "list_all event_valid es"
  shows "carried cd_Content (fst (translate_events (map sse es) t)) = concat (map event_text es) \<and>
    carried cd_ReasoningContent (fst (translate_events (map sse es) t)) = []"
  using assms by (rule reverse_stream_reads)

lemma reverse_stream_text_witness:
  "carried cd_Content (fst (translate_events (map sse [ThinkingBlockDelta 0 ''hm'', ContentBlockDelta 1 ''hi'', MessageStop])
     NewReverseStreamTranslator)) = ''hi''"
  using reverse_stream_text [of "[ThinkingBlockDelta 0 ''hm'', ContentBlockDelta 1 ''hi'', MessageStop]" NewReverseStreamTranslator]
  by (simp add: int64_def rune_len_def)

end
