(* ===== verification/Responses.thy ===== *)
theory Responses
  imports Translate "HOL-Library.Multiset"
begin

text \<open>
  The translation of the OpenAI Responses API, whole and streamed:
  \<^verbatim>\<open>internal/translator/{responses,responses_stream}.go\<close>. Generated identifiers come from \<open>ids\<close>, the
  n-th identifier generated. The map of tool items is the list of its entries in insertion order; \<open>iter\<close> is the
  order in which a range loop visits them.
\<close>

section \<open>Requests\<close>

definition generateResponseID :: "bytes \<Rightarrow> bytes" where
  "generateResponseID rnd = ''resp_'' @ hex_encode rnd"

definition dec_supports :: "bool dec" where
  "dec_supports = dec_struct [(''supports_responses'', dec_bool)]"

definition SupportsResponses :: "bytes \<Rightarrow> bool" where
  "SupportsResponses data = (if data = [] then False else fst (unmarshal dec_supports data False))"

record text_part_struct =
  tp_Type :: bytes
  tp_Text :: bytes

definition dec_part :: "text_part_struct dec" where
  "dec_part = dec_struct [fld ''type'' dec_string tp_Type tp_Type_update, fld ''text'' dec_string tp_Text tp_Text_update]"

definition starts_quote :: "bytes \<Rightarrow> bool" where
  "starts_quote data = (case data of c # _ \<Rightarrow> c = CHR 0x22 | [] \<Rightarrow> False)"

definition rawContentToAny :: "go_rt \<Rightarrow> bytes \<Rightarrow> goany" where
  "rawContentToAny G data =
     (if data = [] then AStr []
      else case unmarshal_string data of
             Some s \<Rightarrow> if starts_quote data then AStr s
                        else if snd (unmarshal (dec_slice \<lparr>tp_Type = [], tp_Text = []\<rparr> dec_part) data None) then AStr data
                        else AStr (ContentText G (ARaw data))
           | None \<Rightarrow> if snd (unmarshal (dec_slice \<lparr>tp_Type = [], tp_Text = []\<rparr> dec_part) data None) then AStr data
                     else AStr (ContentText G (ARaw data)))"

definition item_messages :: "go_rt \<Rightarrow> ResponsesInputItem \<Rightarrow> OpenAIMessage list" where
  "item_messages G it =
     (if ri_Type it = ''message'' then
        [OpenAIMessage0\<lparr>om_Role := (if ri_Role it = [] then ''user'' else ri_Role it), om_Content := rawContentToAny G (ri_Content it)\<rparr>]
      else if ri_Type it = ''function_call'' then
        [OpenAIMessage0\<lparr>om_Role := ''assistant'', om_ToolCalls := [\<lparr>tc_ID = ri_CallID it, tc_Type = ''function'',
           tc_Function = \<lparr>fc_Name = ri_Name it, fc_Arguments = ri_Arguments it\<rparr>\<rparr>]\<rparr>]
      else if ri_Type it = ''function_call_output'' then
        [OpenAIMessage0\<lparr>om_Role := ''tool'', om_ToolCallID := ri_CallID it, om_Content := AStr (ri_Output it)\<rparr>]
      else [])"

definition input_items :: "go_rt \<Rightarrow> bytes \<Rightarrow> bytes + OpenAIMessage list" where
  "input_items G data =
     (case unmarshal (dec_slice ResponsesInputItem0 dec_ResponsesInputItem) data None of
        (items, err) \<Rightarrow>
          if err then Inl ''responses input must be string or array''
          else Inr (concat (map (item_messages G) (case items of Some l \<Rightarrow> l | None \<Rightarrow> []))))"

definition responsesInputToMessages :: "go_rt \<Rightarrow> bytes \<Rightarrow> bytes + OpenAIMessage list" where
  "responsesInputToMessages G data =
     (if data = [] then Inr []
      else case unmarshal_string data of
             Some s \<Rightarrow> if starts_quote data then Inr [text_message ''user'' s] else input_items G data
           | None \<Rightarrow> input_items G data)"

definition dec_effort :: "bytes dec" where
  "dec_effort = dec_struct [(''effort'', dec_string)]"

definition reasoning_effort :: "bytes \<Rightarrow> bytes" where
  "reasoning_effort data =
     (if data = [] then [] else case unmarshal dec_effort data [] of (e, err) \<Rightarrow> if err then [] else e)"

definition ResponsesToOpenAI :: "go_rt \<Rightarrow> ResponsesRequest \<Rightarrow> bytes + OpenAIRequest" where
  "ResponsesToOpenAI G req =
     (case responsesInputToMessages G (rq_Input req) of
        Inl e \<Rightarrow> Inl e
      | Inr msgs \<Rightarrow>
          Inr (OpenAIRequest0
            \<lparr>oq_Model := rq_Model req, oq_Stream := rq_Stream req, oq_Temperature := rq_Temperature req, oq_TopP := rq_TopP req,
             oq_User := rq_User req, oq_MaxTokens := rq_MaxOutputTokens req,
             oq_Messages := (if rq_Instructions req \<noteq> [] then [text_message ''system'' (rq_Instructions req)] else []) @ msgs,
             oq_Tools := map (\<lambda>t. t\<lparr>ot_Type := ''function''\<rparr>) (filter (\<lambda>t. ot_Type t = ''function'' \<or> ot_Type t = []) (rq_Tools req)),
             oq_ToolChoice := rq_ToolChoice req, oq_ReasoningEffort := reasoning_effort (rq_Reasoning req)\<rparr>))"

section \<open>Responses\<close>

definition finishReasonToResponsesStatus :: "(bytes \<times> bytes) list" where
  "finishReasonToResponsesStatus = [(''stop'', ''completed''), (''tool_calls'', ''completed''), (''length'', ''incomplete''),
     (''content_filter'', ''incomplete'')]"

definition ResponsesUsageFromOpenAI :: "OpenAIUsage \<Rightarrow> ResponsesUsage" where
  "ResponsesUsageFromOpenAI u =
     \<lparr>ru_InputTokens = PromptTokens u, ru_OutputTokens = CompletionTokens u, ru_TotalTokens = TotalTokens u,
      ru_InputTokensDetails = map_option CachedTokens (u_PromptTokensDetails u),
      ru_OutputTokensDetails = map_option ReasoningTokens (u_CompletionTokensDetails u)\<rparr>"

definition call_item :: "bytes \<Rightarrow> OpenAIToolCall \<Rightarrow> ResponsesOutputItem" where
  "call_item i tc =
     \<lparr>ro_Type = ''function_call'', ro_ID = i, ro_Role = [], ro_Status = ''completed'', ro_Content = [], ro_CallID = tc_ID tc,
      ro_Name = fc_Name (tc_Function tc), ro_Arguments = fc_Arguments (tc_Function tc)\<rparr>"

definition OpenAIToResponses :: "go_rt \<Rightarrow> bytes \<Rightarrow> (nat \<Rightarrow> bytes) \<Rightarrow> OpenAIResponse \<Rightarrow> bytes \<Rightarrow> ResponsesResponse" where
  "OpenAIToResponses G respID ids resp model =
     (let out = \<lparr>rs_ID = respID, rs_Object = ''response'', rs_Status = ''completed'', rs_Model = model, rs_Output = [],
                 rs_Usage = ResponsesUsageFromOpenAI (or_Usage resp), rs_PreviousResponseID = []\<rparr>
      in case or_Choices resp of
           [] \<Rightarrow> out
         | ch # _ \<Rightarrow>
             let text = ContentText G (om_Content (oc_Message ch))
             in out\<lparr>rs_Status := (case map_of finishReasonToResponsesStatus (oc_FinishReason ch) of Some st \<Rightarrow> st | None \<Rightarrow> ''completed''),
                   rs_Output :=
                     (if text \<noteq> [] then
                        [\<lparr>ro_Type = ''message'', ro_ID = ids 0, ro_Role = ''assistant'', ro_Status = ''completed'',
                          ro_Content = [\<lparr>rp_Type = ''output_text'', rp_Text = text\<rparr>], ro_CallID = [], ro_Name = [], ro_Arguments = []\<rparr>]
                      else []) @
                     map (\<lambda>(n, tc). call_item (ids n) tc) (enumerate 1 (om_ToolCalls (oc_Message ch)))\<rparr>)"

section \<open>The stream builder\<close>

record toolItem =
  ti_id :: bytes
  ti_outIndex :: int
  ti_argsBuf :: bytes
  ti_added :: bool
  ti_name :: bytes
  ti_callID :: bytes

record ResponsesStreamBuilder =
  sb_respID :: bytes
  sb_model :: bytes
  sb_started :: bool
  sb_itemID :: bytes
  sb_textAdded :: bool
  sb_textBuf :: bytes
  sb_toolItems :: "(int \<times> toolItem) list"
  sb_messageEmitted :: bool
  sb_nextOutIndex :: int
  sb_generated :: nat

definition NewResponsesStreamBuilder :: "bytes \<Rightarrow> bytes \<Rightarrow> bytes \<Rightarrow> ResponsesStreamBuilder" where
  "NewResponsesStreamBuilder rnd respID model =
     \<lparr>sb_respID = (if respID = [] then generateResponseID rnd else respID), sb_model = model, sb_started = False, sb_itemID = [],
      sb_textAdded = False, sb_textBuf = [], sb_toolItems = [], sb_messageEmitted = False, sb_nextOutIndex = 0, sb_generated = 0\<rparr>"

type_synonym builder_op = "ResponsesStreamBuilder \<Rightarrow> ResponsesEvent list \<times> ResponsesStreamBuilder"

definition event_of :: "bytes \<Rightarrow> (bytes \<times> json) list \<Rightarrow> ResponsesEvent" where
  "event_of ty kvs = \<lparr>re_Type = ty, re_Payload = jmap ((''type'', JStr ty) # kvs)\<rparr>"

definition Start :: builder_op where
  "Start b =
     (if sb_started b then ([], b)
      else ([event_of ''response.created''
               [(''response'', jmap [(''id'', JStr (sb_respID b)), (''object'', JStr ''response''), (''status'', JStr ''in_progress''),
                  (''model'', JStr (sb_model b)), (''output'', JArr [])])]], b\<lparr>sb_started := True\<rparr>))"

definition outputItemAdded :: "bytes \<Rightarrow> int \<Rightarrow> bytes \<Rightarrow> ResponsesEvent" where
  "outputItemAdded itemID outIndex itemType =
     event_of ''response.output_item.added''
       [(''output_index'', jint outIndex),
        (''item'', jmap [(''type'', JStr itemType), (''id'', JStr itemID), (''role'', JStr ''assistant''), (''status'', JStr ''in_progress''),
           (''content'', JArr [])])]"

definition contentPartAdded :: "bytes \<Rightarrow> int \<Rightarrow> ResponsesEvent" where
  "contentPartAdded itemID outIndex =
     event_of ''response.content_part.added''
       [(''item_id'', JStr itemID), (''output_index'', jint outIndex), (''content_index'', jint 0),
        (''part'', jmap [(''type'', JStr ''output_text''), (''text'', JStr [])])]"

definition functionCallItemAdded :: "toolItem \<Rightarrow> ResponsesEvent" where
  "functionCallItemAdded ti =
     event_of ''response.output_item.added''
       [(''output_index'', jint (ti_outIndex ti)),
        (''item'', jmap [(''type'', JStr ''function_call''), (''id'', JStr (ti_id ti)), (''status'', JStr ''in_progress''),
           (''call_id'', JStr (ti_callID ti)), (''name'', JStr (ti_name ti)), (''arguments'', JStr [])])]"

definition text_content :: "bytes \<Rightarrow> json" where
  "text_content s = JArr [jmap [(''type'', JStr ''output_text''), (''text'', JStr s)]]"

definition message_item :: "ResponsesStreamBuilder \<Rightarrow> json" where
  "message_item b =
     jmap [(''type'', JStr ''message''), (''id'', JStr (sb_itemID b)), (''role'', JStr ''assistant''), (''status'', JStr ''completed''),
       (''content'', text_content (sb_textBuf b))]"

definition messageItemDone :: "ResponsesStreamBuilder \<Rightarrow> ResponsesEvent" where
  "messageItemDone b = event_of ''response.output_item.done'' [(''output_index'', jint 0), (''item'', message_item b)]"

definition call_json :: "toolItem \<Rightarrow> json" where
  "call_json ti =
     jmap [(''type'', JStr ''function_call''), (''id'', JStr (ti_id ti)), (''status'', JStr ''completed''),
       (''call_id'', JStr (ti_callID ti)), (''name'', JStr (ti_name ti)), (''arguments'', JStr (ti_argsBuf ti))]"

definition text_next :: "(nat \<Rightarrow> bytes) \<Rightarrow> bytes \<Rightarrow> builder_op" where
  "text_next ids content b =
     (if content = [] then ([], b)
      else
        let (es, b1) =
              (if \<not> sb_messageEmitted b then
                 let i = ids (sb_generated b)
                 in ([outputItemAdded i 0 ''message'', contentPartAdded i 0],
                     b\<lparr>sb_itemID := i, sb_generated := Suc (sb_generated b), sb_messageEmitted := True, sb_nextOutIndex := 1,
                       sb_textAdded := True\<rparr>)
               else ([], b));
            b2 = b1\<lparr>sb_textBuf := sb_textBuf b1 @ content\<rparr>
        in (es @ [event_of ''response.output_text.delta''
              [(''item_id'', JStr (sb_itemID b2)), (''output_index'', jint 0), (''content_index'', jint 0), (''delta'', JStr content)]], b2))"

text \<open>An entry of the map is replaced in place or added at the end.\<close>

fun put_item :: "int \<Rightarrow> toolItem \<Rightarrow> (int \<times> toolItem) list \<Rightarrow> (int \<times> toolItem) list" where
  "put_item k v [] = [(k, v)]"
| "put_item k v ((k', v') # m) = (if k = k' then (k, v) # m else (k', v') # put_item k v m)"

definition tool_next :: "(nat \<Rightarrow> bytes) \<Rightarrow> OpenAIChunkToolCall \<Rightarrow> builder_op" where
  "tool_next ids tc b =
     (let (ti, b1) =
            (case map_of (sb_toolItems b) (ct_Index tc) of
               Some ti \<Rightarrow> (ti, b)
             | None \<Rightarrow>
                 (\<lparr>ti_id = ids (sb_generated b), ti_outIndex = sb_nextOutIndex b, ti_argsBuf = [], ti_added = False,
                   ti_name = fc_Name (ct_Function tc), ti_callID = ct_ID tc\<rparr>,
                  b\<lparr>sb_generated := Suc (sb_generated b), sb_nextOutIndex := sb_nextOutIndex b + 1\<rparr>));
          ti1 = (if fc_Name (ct_Function tc) \<noteq> [] then ti\<lparr>ti_name := fc_Name (ct_Function tc)\<rparr> else ti);
          ti2 = (if ct_ID tc \<noteq> [] then ti1\<lparr>ti_callID := ct_ID tc\<rparr> else ti1);
          (es, ti3) = (if ti_added ti2 then ([], ti2)
                       else ([functionCallItemAdded (ti2\<lparr>ti_added := True\<rparr>)], ti2\<lparr>ti_added := True\<rparr>));
          args = fc_Arguments (ct_Function tc);
          (es', ti4) = (if args = [] then ([], ti3)
                        else ([event_of ''response.function_call_arguments.delta''
                                 [(''item_id'', JStr (ti_id ti3)), (''output_index'', jint (ti_outIndex ti3)), (''delta'', JStr args)]],
                              ti3\<lparr>ti_argsBuf := ti_argsBuf ti3 @ args\<rparr>))
      in (es @ es', b1\<lparr>sb_toolItems := put_item (ct_Index tc) ti4 (sb_toolItems b1)\<rparr>))"

fun tools_next :: "(nat \<Rightarrow> bytes) \<Rightarrow> OpenAIChunkToolCall list \<Rightarrow> builder_op" where
  "tools_next ids [] b = ([], b)"
| "tools_next ids (tc # tcs) b =
     (case tool_next ids tc b of (es, b1) \<Rightarrow> (case tools_next ids tcs b1 of (es', b2) \<Rightarrow> (es @ es', b2)))"

definition Next :: "(nat \<Rightarrow> bytes) \<Rightarrow> OpenAIChunk option \<Rightarrow> builder_op" where
  "Next ids chunk b =
     (case chunk of
        None \<Rightarrow> ([], b)
      | Some ck \<Rightarrow>
          (case ck_Choices ck of
             [] \<Rightarrow> ([], b)
           | ch # _ \<Rightarrow>
               (case text_next ids (cd_Content (cc_Delta ch)) b of
                  (es, b1) \<Rightarrow> (case tools_next ids (cd_ToolCalls (cc_Delta ch)) b1 of (es', b2) \<Rightarrow> (es @ es', b2)))))"

definition orderedToolItems :: "((int \<times> toolItem) list \<Rightarrow> (int \<times> toolItem) list) \<Rightarrow> ResponsesStreamBuilder \<Rightarrow> toolItem list" where
  "orderedToolItems iter b =
     concat (map (\<lambda>oi. map snd (filter (\<lambda>e. ti_outIndex (snd e) = oi) (iter (sb_toolItems b)))) [0..sb_nextOutIndex b - 1])"

definition finalOutput :: "((int \<times> toolItem) list \<Rightarrow> (int \<times> toolItem) list) \<Rightarrow> ResponsesStreamBuilder \<Rightarrow> json list" where
  "finalOutput iter b =
     (if sb_messageEmitted b then [message_item b] else []) @ map call_json (orderedToolItems iter b)"

definition usage_json :: "ResponsesUsage \<Rightarrow> json" where
  "usage_json u =
     JObj ([(''input_tokens'', jint (ru_InputTokens u)), (''output_tokens'', jint (ru_OutputTokens u)), (''total_tokens'', jint (ru_TotalTokens u))] @
       (case ru_InputTokensDetails u of Some c \<Rightarrow> [(''input_tokens_details'', JObj [(''cached_tokens'', jint c)])] | None \<Rightarrow> []) @
       (case ru_OutputTokensDetails u of Some c \<Rightarrow> [(''output_tokens_details'', JObj [(''reasoning_tokens'', jint c)])] | None \<Rightarrow> []))"

definition final_json :: "json list \<Rightarrow> json" where
  "final_json out = (if out = [] then JNull else JArr out)"

definition Finish ::
    "((int \<times> toolItem) list \<Rightarrow> (int \<times> toolItem) list) \<Rightarrow> OpenAIUsage \<Rightarrow> bytes \<Rightarrow> bytes \<Rightarrow> ResponsesStreamBuilder \<Rightarrow> ResponsesEvent list" where
  "Finish iter usage finishReason model b =
     (let model' = (if model = [] then sb_model b else model);
          status = (if finishReason = ''length'' \<or> finishReason = ''content_filter'' then ''incomplete'' else ''completed'')
      in (if sb_textAdded b then
            [event_of ''response.output_text.done''
               [(''item_id'', JStr (sb_itemID b)), (''output_index'', jint 0), (''content_index'', jint 0), (''text'', JStr (sb_textBuf b))],
             event_of ''response.content_part.done''
               [(''item_id'', JStr (sb_itemID b)), (''output_index'', jint 0), (''content_index'', jint 0),
                (''part'', jmap [(''type'', JStr ''output_text''), (''text'', JStr (sb_textBuf b))])]]
          else []) @
         (if sb_messageEmitted b then [messageItemDone b] else []) @
         concat (map (\<lambda>ti.
           [event_of ''response.function_call_arguments.done''
              [(''item_id'', JStr (ti_id ti)), (''output_index'', jint (ti_outIndex ti)), (''arguments'', JStr (ti_argsBuf ti))],
            event_of ''response.output_item.done'' [(''output_index'', jint (ti_outIndex ti)), (''item'', call_json ti)]])
           (orderedToolItems iter b)) @
         [event_of ''response.completed''
            [(''response'', jmap [(''id'', JStr (sb_respID b)), (''object'', JStr ''response''), (''status'', JStr status), (''model'', JStr model'),
               (''output'', final_json (finalOutput iter b)), (''usage'', usage_json (ResponsesUsageFromOpenAI usage))])]])"

section \<open>Numbering of the output items\<close>

text \<open>The tool items are numbered consecutively, after the message item when there is one.\<close>

definition numbered :: "ResponsesStreamBuilder \<Rightarrow> bool" where
  "numbered b \<longleftrightarrow>
     (let k = (if sb_messageEmitted b then 1 else 0)
      in map (\<lambda>e. ti_outIndex (snd e)) (sb_toolItems b) = [k..sb_nextOutIndex b - 1] \<and> k \<le> sb_nextOutIndex b \<and>
         distinct (map fst (sb_toolItems b)))"

lemma pick_by_index:
  fixes f :: "'a \<Rightarrow> int"
  assumes "map f xs = [k..m - 1]" and "0 \<le> k" and "k \<le> m"
  shows "int j \<le> m \<Longrightarrow> concat (map (\<lambda>i. filter (\<lambda>e. f e = i) xs) [0..int j - 1]) = take (nat (int j - k)) xs"
proof (induction j)
  case 0
  then show ?case using assms(2) by simp
next
  case (Suc j)
  have len: "int (length xs) = m - k" using arg_cong [OF assms(1), of length] assms(3) by simp
  have up: "[0..int (Suc j) - 1] = [0..int j - 1] @ [int j]" using upto_rec2 [of 0 "int j"] by simp
  have nth: "f (xs ! i) = k + int i" if "i < length xs" for i
  proof -
    have "f (xs ! i) = map f xs ! i" using that by simp
    also have "\<dots> = k + int i" using that len unfolding assms(1) by (simp add: nth_upto)
    finally show ?thesis .
  qed
  have sel: "filter (\<lambda>e. f e = int j) xs = (if k \<le> int j then [xs ! nat (int j - k)] else [])"
  proof (cases "k \<le> int j")
    case True
    define n where "n = nat (int j - k)"
    have n: "n < length xs" using True Suc.prems len by (simp add: n_def)
    have "filter (\<lambda>e. f e = int j) (take n xs) = []" "filter (\<lambda>e. f e = int j) (drop (Suc n) xs) = []"
      using True nth n by (auto simp: filter_empty_conv in_set_conv_nth n_def)
    moreover have "f (xs ! n) = int j" using nth [OF n] True by (simp add: n_def)
    ultimately have "filter (\<lambda>e. f e = int j) (take n xs @ xs ! n # drop (Suc n) xs) = [xs ! n]" by simp
    then have "filter (\<lambda>e. f e = int j) xs = [xs ! n]" by (simp only: id_take_nth_drop [OF n, symmetric])
    then show ?thesis using True by (simp add: n_def)
  next
    case False
    then have "filter (\<lambda>e. f e = int j) xs = []" using nth by (auto simp: filter_empty_conv in_set_conv_nth)
    then show ?thesis using False by simp
  qed
  have IH: "concat (map (\<lambda>i. filter (\<lambda>e. f e = i) xs) [0..int j - 1]) = take (nat (int j - k)) xs" using Suc by simp
  show ?case
  proof (cases "k \<le> int j")
    case True
    have "nat (int (Suc j) - k) = Suc (nat (int j - k))" "nat (int j - k) < length xs" using True Suc.prems len by simp_all
    then show ?thesis unfolding up using IH sel True by (simp add: take_Suc_conv_app_nth)
  next
    case False
    then show ?thesis unfolding up using IH sel by simp
  qed
qed

lemma filter_perm:
  assumes "mset ys = mset xs" and "length (filter P xs) \<le> 1"
  shows "filter P ys = filter P xs"
proof -
  have m: "mset (filter P ys) = mset (filter P xs)" using assms(1) by simp
  show ?thesis
  proof (cases "filter P xs")
    case Nil
    then show ?thesis using m by simp
  next
    case (Cons x r)
    then have x: "filter P xs = [x]" using assms(2) by simp
    have "mset (filter P ys) = {#x#}" using m x by (simp del: mset_filter)
    then show ?thesis using x by (simp only: mset_single_iff_right mset_single_iff)
  qed
qed

lemma distinct_filter_one:
  assumes "distinct (map f xs)"
  shows "length (filter (\<lambda>e. f e = i) xs) \<le> 1"
  using assms
proof (induction xs)
  case (Cons x xs)
  show ?case
  proof (cases "f x = i")
    case True
    then have "filter (\<lambda>e. f e = i) xs = []" using Cons.prems by (auto simp: filter_empty_conv image_iff)
    then show ?thesis using True by simp
  next
    case False
    then show ?thesis using Cons by simp
  qed
qed simp

lemma ordered_pick:
  fixes b
  assumes "map (\<lambda>e. ti_outIndex (snd e)) (sb_toolItems b) = [k..m - 1]" and "0 \<le> k" "k \<le> m" "0 \<le> sb_nextOutIndex b" "sb_nextOutIndex b \<le> m"
    and "mset (iter (sb_toolItems b)) = mset (sb_toolItems b)"
  shows "orderedToolItems iter b = map snd (take (nat (sb_nextOutIndex b - k)) (sb_toolItems b))"
proof -
  have "distinct (map (\<lambda>e. ti_outIndex (snd e)) (sb_toolItems b))" unfolding assms(1) by simp
  then have f: "filter (\<lambda>e. ti_outIndex (snd e) = i) (iter (sb_toolItems b)) = filter (\<lambda>e. ti_outIndex (snd e) = i) (sb_toolItems b)" for i
    by (intro filter_perm assms(6) distinct_filter_one)
  have "orderedToolItems iter b = map snd (concat (map (\<lambda>i. filter (\<lambda>e. ti_outIndex (snd e) = i) (sb_toolItems b)) [0..int (nat (sb_nextOutIndex b)) - 1]))"
    using assms(4) by (simp add: orderedToolItems_def f map_concat comp_def)
  also have "\<dots> = map snd (take (nat (sb_nextOutIndex b - k)) (sb_toolItems b))"
    using pick_by_index [OF assms(1-3), of "nat (sb_nextOutIndex b)"] assms(4,5) by simp
  finally show ?thesis .
qed

lemma map_of_None_put: "map_of m k = None \<Longrightarrow> put_item k v m = m @ [(k, v)]"
  by (induction m) auto

lemma put_item_keeps:
  "map_of m k = Some w \<Longrightarrow> g v = g w \<Longrightarrow> map (\<lambda>e. g (snd e)) (put_item k v m) = map (\<lambda>e. g (snd e)) m \<and> map fst (put_item k v m) = map fst m"
  by (induction m) auto

definition upd_item :: "OpenAIChunkToolCall \<Rightarrow> toolItem \<Rightarrow> toolItem" where
  "upd_item tc ti =
     ti\<lparr>ti_name := (if fc_Name (ct_Function tc) \<noteq> [] then fc_Name (ct_Function tc) else ti_name ti),
        ti_callID := (if ct_ID tc \<noteq> [] then ct_ID tc else ti_callID ti), ti_added := True,
        ti_argsBuf := ti_argsBuf ti @ fc_Arguments (ct_Function tc)\<rparr>"

lemma tool_next_old:
  "map_of (sb_toolItems b) (ct_Index tc) = Some w \<Longrightarrow>
   snd (tool_next ids tc b) = b\<lparr>sb_toolItems := put_item (ct_Index tc) (upd_item tc w) (sb_toolItems b)\<rparr>"
  by (cases w) (simp add: tool_next_def Let_def upd_item_def split_beta)

lemma tool_next_new:
  "map_of (sb_toolItems b) (ct_Index tc) = None \<Longrightarrow>
   snd (tool_next ids tc b) = b\<lparr>sb_generated := Suc (sb_generated b), sb_nextOutIndex := sb_nextOutIndex b + 1,
     sb_toolItems := put_item (ct_Index tc) (upd_item tc \<lparr>ti_id = ids (sb_generated b), ti_outIndex = sb_nextOutIndex b, ti_argsBuf = [],
       ti_added = False, ti_name = fc_Name (ct_Function tc), ti_callID = ct_ID tc\<rparr>) (sb_toolItems b)\<rparr>"
  by (simp add: tool_next_def Let_def upd_item_def split_beta)

lemma numbered_tool_next:
  assumes "numbered b"
  shows "numbered (snd (tool_next ids tc b)) \<and> sb_messageEmitted (snd (tool_next ids tc b)) = sb_messageEmitted b"
proof (cases "map_of (sb_toolItems b) (ct_Index tc)")
  case None
  have "ct_Index tc \<notin> fst ` set (sb_toolItems b)" using None by (simp add: map_of_eq_None_iff)
  then show ?thesis using assms unfolding tool_next_new [OF None] map_of_None_put [OF None]
    by (auto simp: numbered_def Let_def upd_item_def upto_rec2)
next
  case (Some w)
  show ?thesis using assms put_item_keeps [OF Some, of ti_outIndex "upd_item tc w"] unfolding tool_next_old [OF Some]
    by (simp add: numbered_def Let_def upd_item_def)
qed

lemma numbered_tools_next:
  "numbered b \<Longrightarrow> numbered (snd (tools_next ids tcs b)) \<and> sb_messageEmitted (snd (tools_next ids tcs b)) = sb_messageEmitted b"
proof (induction tcs arbitrary: b)
  case (Cons tc tcs)
  then show ?case using numbered_tool_next [of b ids tc] by (simp add: split_beta)
qed simp

lemma text_tool_next: "sb_textBuf (snd (tool_next ids tc b)) = sb_textBuf b"
  by (cases "map_of (sb_toolItems b) (ct_Index tc)") (simp_all add: tool_next_old tool_next_new)

lemma text_tools_next: "sb_textBuf (snd (tools_next ids tcs b)) = sb_textBuf b"
  by (induction tcs arbitrary: b) (simp_all add: split_beta text_tool_next)

lemma text_next_sel:
  "sb_toolItems (snd (text_next ids s b)) = sb_toolItems b" "sb_textBuf (snd (text_next ids s b)) = sb_textBuf b @ s"
  "sb_messageEmitted (snd (text_next ids s b)) = (sb_messageEmitted b \<or> s \<noteq> [])"
  "sb_nextOutIndex (snd (text_next ids s b)) = (if s \<noteq> [] \<and> \<not> sb_messageEmitted b then 1 else sb_nextOutIndex b)"
  by (simp_all add: text_next_def Let_def)

lemma numbered_text_next:
  "numbered b \<Longrightarrow> s = [] \<or> sb_messageEmitted b \<or> sb_toolItems b = [] \<Longrightarrow> numbered (snd (text_next ids s b))"
  by (auto simp: numbered_def Let_def text_next_sel)

definition delta_of :: "OpenAIChunk \<Rightarrow> OpenAIChunkDelta" where
  "delta_of ck = (case ck_Choices ck of [] \<Rightarrow> OpenAIChunkDelta0 | ch # _ \<Rightarrow> cc_Delta ch)"

fun next_all :: "(nat \<Rightarrow> bytes) \<Rightarrow> OpenAIChunk list \<Rightarrow> ResponsesStreamBuilder \<Rightarrow> ResponsesStreamBuilder" where
  "next_all ids [] b = b"
| "next_all ids (c # cs) b = next_all ids cs (snd (Next ids (Some c) b))"

text \<open>No first text after a tool call: \<open>t\<close> says that there was text, \<open>u\<close> that there was a tool call.\<close>

fun text_leads :: "bool \<Rightarrow> bool \<Rightarrow> OpenAIChunkDelta list \<Rightarrow> bool" where
  "text_leads t u [] = True"
| "text_leads t u (d # ds) =
     ((cd_Content d = [] \<or> t \<or> \<not> u) \<and> text_leads (t \<or> cd_Content d \<noteq> []) (u \<or> cd_ToolCalls d \<noteq> []) ds)"

lemma Next_eq:
  "snd (Next ids (Some c) b) = snd (tools_next ids (cd_ToolCalls (delta_of c)) (snd (text_next ids (cd_Content (delta_of c)) b)))"
  by (cases "ck_Choices c") (simp_all add: Next_def delta_of_def split_beta OpenAIChunkDelta0_def text_next_def)

lemma next_all_numbered:
  assumes "numbered b" and "text_leads t u (map delta_of cs)" and "t \<Longrightarrow> sb_messageEmitted b" and "\<not> u \<Longrightarrow> sb_toolItems b = []"
  shows "numbered (next_all ids cs b) \<and> sb_textBuf (next_all ids cs b) = sb_textBuf b @ concat (map (cd_Content \<circ> delta_of) cs)"
  using assms
proof (induction cs arbitrary: b t u)
  case Nil
  then show ?case by simp
next
  case (Cons c cs)
  let ?d = "delta_of c" and ?b1 = "snd (text_next ids (cd_Content (delta_of c)) b)"
  let ?b2 = "snd (tools_next ids (cd_ToolCalls ?d) ?b1)"
  have lead: "cd_Content ?d = [] \<or> t \<or> \<not> u" and rest: "text_leads (t \<or> cd_Content ?d \<noteq> []) (u \<or> cd_ToolCalls ?d \<noteq> []) (map delta_of cs)"
    using Cons.prems(2) by simp_all
  have "numbered ?b1" using numbered_text_next [OF Cons.prems(1)] lead Cons.prems(3,4) by blast
  then have b2: "numbered ?b2" "sb_messageEmitted ?b2 = (sb_messageEmitted b \<or> cd_Content ?d \<noteq> [])"
    using numbered_tools_next by (simp_all add: text_next_sel)
  have "sb_toolItems ?b2 = []" if "\<not> (u \<or> cd_ToolCalls ?d \<noteq> [])" using that Cons.prems(4) by (simp add: text_next_sel)
  moreover have "sb_messageEmitted ?b2" if "t \<or> cd_Content ?d \<noteq> []" using that b2(2) Cons.prems(3) by auto
  ultimately have "numbered (next_all ids cs ?b2) \<and> sb_textBuf (next_all ids cs ?b2) = sb_textBuf ?b2 @ concat (map (cd_Content \<circ> delta_of) cs)"
    by (intro Cons.IH [OF b2(1) rest]) auto
  then show ?case by (simp add: Next_eq text_tools_next text_next_sel comp_def)
qed

lemma numbered_New: "numbered (NewResponsesStreamBuilder rnd respID model)"
  by (simp add: numbered_def NewResponsesStreamBuilder_def)

section \<open>Properties\<close>

text \<open>
  Complete final output. When the first text of a stream does not come after a tool call, the final output lists
  every tool call, in the order of their first appearance, whatever order the map is iterated in, and the message
  item carries the whole text.
\<close>

lemma responses_output_complete:
  assumes "text_leads False False (map delta_of cs)" and "\<And>xs. mset (iter xs) = mset xs"
  shows "let b = next_all ids cs (NewResponsesStreamBuilder rnd respID model)
    in orderedToolItems iter b = map snd (sb_toolItems b) \<and> sb_textBuf b = concat (map (cd_Content \<circ> delta_of) cs)"
proof -
  let ?n = "NewResponsesStreamBuilder rnd respID model" let ?b = "next_all ids cs ?n"
  have n: "numbered ?b" "sb_textBuf ?b = concat (map (cd_Content \<circ> delta_of) cs)"
    using next_all_numbered [OF numbered_New assms(1)] by (simp_all add: NewResponsesStreamBuilder_def)
  let ?k = "(if sb_messageEmitted ?b then 1 else 0) :: int"
  have m: "map (\<lambda>e. ti_outIndex (snd e)) (sb_toolItems ?b) = [?k..sb_nextOutIndex ?b - 1]" "?k \<le> sb_nextOutIndex ?b"
    using n(1) by (simp_all add: numbered_def Let_def)
  have "length (sb_toolItems ?b) = nat (sb_nextOutIndex ?b - ?k)" using arg_cong [OF m(1), of length] by simp
  moreover have "orderedToolItems iter ?b = map snd (take (nat (sb_nextOutIndex ?b - ?k)) (sb_toolItems ?b))"
    using m(2) by (intro ordered_pick [where m = "sb_nextOutIndex ?b"] m assms(2)) (auto split: if_splits)
  ultimately show ?thesis using n(2) by (simp add: Let_def)
qed

definition demo_delta_chunk :: "bytes \<Rightarrow> OpenAIChunkToolCall list \<Rightarrow> OpenAIChunk" where
  "demo_delta_chunk s tcs =
     \<lparr>ck_ID = ''c'', ck_Object = [], ck_Created = 0, ck_Model = ''m'',
      ck_Choices = [\<lparr>cc_Index = 0, cc_Delta = OpenAIChunkDelta0\<lparr>cd_Content := s, cd_ToolCalls := tcs\<rparr>, cc_FinishReason = None\<rparr>],
      ck_Usage = None, ck_SystemFingerprint = []\<rparr>"

definition demo_tool_call :: "int \<Rightarrow> OpenAIChunkToolCall" where
  "demo_tool_call i = \<lparr>ct_Index = i, ct_ID = ''x'', ct_Type = ''function'', ct_Function = \<lparr>fc_Name = ''f'', fc_Arguments = ''{}''\<rparr>\<rparr>"

lemma responses_output_complete_witness:
  "sb_textBuf (next_all (\<lambda>_. ''i'') [demo_delta_chunk ''hi'' [], demo_delta_chunk ''!'' [demo_tool_call 4, demo_tool_call 2]]
     (NewResponsesStreamBuilder [] ''r'' ''m'')) = ''hi!''"
  using responses_output_complete [of "[demo_delta_chunk ''hi'' [], demo_delta_chunk ''!'' [demo_tool_call 4, demo_tool_call 2]]" rev
      "\<lambda>_. ''i''" "[]" "''r''" "''m''"]
  by (simp add: demo_delta_chunk_def delta_of_def OpenAIChunkDelta0_def Let_def)

text \<open>
  Text after tool calls drops calls. When the first text arrives after tool calls, the numbering restarts at one:
  the final output keeps only the first of the tool calls seen so far.
\<close>

lemma text_after_tools_drops_calls:
  assumes "numbered b" and "\<not> sb_messageEmitted b" and "sb_toolItems b \<noteq> []" and "content \<noteq> []" and "\<And>xs. mset (iter xs) = mset xs"
  shows "orderedToolItems iter (snd (text_next ids content b)) = [snd (hd (sb_toolItems b))]"
proof -
  let ?b = "snd (text_next ids content b)"
  have m: "map (\<lambda>e. ti_outIndex (snd e)) (sb_toolItems ?b) = [0..sb_nextOutIndex b - 1]" "0 \<le> sb_nextOutIndex b"
    using assms(1,2) by (simp_all add: numbered_def Let_def text_next_sel)
  have "0 < length [0..sb_nextOutIndex b - 1]" using m(1) assms(3) by (metis length_greater_0_conv length_map text_next_sel(1))
  then have p: "1 \<le> sb_nextOutIndex b" by simp
  have nx: "sb_nextOutIndex ?b = 1" using assms(2,4) by (simp add: text_next_sel)
  have "orderedToolItems iter ?b = map snd (take (nat (sb_nextOutIndex ?b - 0)) (sb_toolItems ?b))"
    by (intro ordered_pick [where m = "sb_nextOutIndex b"] m assms(5)) (simp_all add: nx p)
  then show ?thesis using assms(3) nx by (cases "sb_toolItems b") (simp_all add: text_next_sel)
qed

definition demo_item :: "int \<Rightarrow> toolItem" where
  "demo_item i = \<lparr>ti_id = ''t'', ti_outIndex = i, ti_argsBuf = [], ti_added = True, ti_name = ''f'', ti_callID = ''x''\<rparr>"

definition demo_builder :: ResponsesStreamBuilder where
  "demo_builder = (NewResponsesStreamBuilder [] ''r'' ''m'')\<lparr>sb_toolItems := [(0, demo_item 0), (1, demo_item 1)], sb_nextOutIndex := 2\<rparr>"

lemma text_after_tools_drops_calls_witness:
  "orderedToolItems rev (snd (text_next (\<lambda>_. ''i'') ''hi'' demo_builder)) = [demo_item 0]"
  using text_after_tools_drops_calls [of demo_builder "''hi''" rev "\<lambda>_. ''i''"]
  by (simp add: demo_builder_def demo_item_def numbered_def NewResponsesStreamBuilder_def upto_rec1)

end
