(* ===== verification/Guardrail_Spans.thy ===== *)
theory Guardrail_Spans
  imports CL_Prelude
begin

text \<open>
  Masking by spans, from \<^verbatim>\<open>internal/guardrail/types.go\<close> and \<^verbatim>\<open>service.go\<close>: a span is a region
  of the checked content with its replacement; \<open>composeSpans\<close> merges the spans of several rules
  into a list without overlaps and \<open>applySpans\<close> rewrites the content. Offsets are Go \<^verbatim>\<open>int\<close>s and may
  be negative, which the code checks. The types that the engines share are here too.
\<close>

section \<open>Spans\<close>

record Span =
  sp_Start :: int
  sp_End :: int
  sp_Replacement :: bytes
  sp_Reversible :: bool

record GuardrailResult =
  gr_Blocked :: bool
  gr_RuleName :: bytes
  gr_Reason :: bytes
  gr_Severity :: bytes
  gr_MaskedContent :: bytes
  gr_ContentSnippet :: bytes
  gr_MaskedSpans :: "Span list"

abbreviation pass_result :: GuardrailResult where
  "pass_result \<equiv> \<lparr>gr_Blocked = False, gr_RuleName = [], gr_Reason = [], gr_Severity = [],
     gr_MaskedContent = [], gr_ContentSnippet = [], gr_MaskedSpans = []\<rparr>"

text \<open>The errors of the guardrails, and what an incremental session reads and answers (\<^verbatim>\<open>incremental.go\<close>).\<close>

datatype gerr = Err bytes | Wrap bytes gerr | CtxErr bytes | ErrStreamUnsupported

record StreamFragment =
  sf_Key :: bytes
  sf_Text :: bytes
  sf_Final :: bool
  sf_Tool :: bool

record StreamVerdict =
  sv_CheckedThrough :: int
  sv_ReleaseThrough :: int
  sv_Result :: "GuardrailResult option"
  sv_Spans :: "Span list"
  sv_BlockStart :: "int option"

definition slice :: "bytes \<Rightarrow> int \<Rightarrow> int \<Rightarrow> bytes" where
  "slice s a b = take (nat (b - a)) (drop (nat a) s)"

definition span_less :: "Span \<Rightarrow> Span \<Rightarrow> bool" where
  "span_less a b =
     (if sp_Start a \<noteq> sp_Start b then sp_Start a < sp_Start b else sp_End a > sp_End b)"

text \<open>The loop body of \<open>composeSpans\<close>; the output is kept last span first.\<close>

definition compose_step :: "Span list \<Rightarrow> Span \<Rightarrow> Span list" where
  "compose_step out sp =
     (if sp_Start sp < 0 \<or> sp_End sp \<le> sp_Start sp then out
      else case out of
        [] \<Rightarrow> [sp]
      | l # r \<Rightarrow>
          if sp_Start sp < sp_End l then
            (let l1 = (if sp_Start sp \<noteq> sp_Start l \<or> sp_End sp \<noteq> sp_End l \<or> \<not> sp_Reversible sp
                       then l\<lparr>sp_Reversible := False\<rparr> else l);
                 l2 = (if sp_End sp > sp_End l1 then l1\<lparr>sp_End := sp_End sp\<rparr> else l1)
             in l2 # r)
          else sp # out)"

definition composeSpans :: "Span list \<Rightarrow> Span list" where
  "composeSpans spans = rev (foldl compose_step [] (slice_stable span_less spans))"

text \<open>The loop of \<open>applySpans\<close>: \<open>pos\<close> (\<^verbatim>\<open>last\<close> in the source) is the end of the content already written.\<close>

fun apply_loop :: "bytes \<Rightarrow> int \<Rightarrow> Span list \<Rightarrow> bytes" where
  "apply_loop content pos [] =
     (if pos < int (length content) then drop (nat pos) content else [])"
| "apply_loop content pos (sp # sps) =
     (if sp_Start sp < pos \<or> sp_End sp > int (length content) \<or> sp_Start sp \<ge> sp_End sp
      then apply_loop content pos sps
      else slice content pos (sp_Start sp) @ sp_Replacement sp @ apply_loop content (sp_End sp) sps)"

definition applySpans :: "bytes \<Rightarrow> Span list \<Rightarrow> bytes" where
  "applySpans content spans = (if spans = [] then content else apply_loop content 0 spans)"

lemma find_ex: "(\<exists>y. find P xs = Some y) \<longleftrightarrow> (\<exists>x\<in>set xs. P x)"
  by (induction xs) auto

lemma find_Some_in: "find P xs = Some y \<Longrightarrow> y \<in> set xs \<and> P y"
  by (induction xs) (auto split: if_splits)

section \<open>Composition\<close>

text \<open>The spans the loop does not skip, the offsets a span covers, and order without overlap.\<close>

definition proper :: "Span \<Rightarrow> bool" where
  "proper s \<longleftrightarrow> 0 \<le> sp_Start s \<and> sp_Start s < sp_End s"

definition covers :: "Span \<Rightarrow> int \<Rightarrow> bool" where
  "covers s i \<longleftrightarrow> sp_Start s \<le> i \<and> i < sp_End s"

definition covered :: "Span list \<Rightarrow> int \<Rightarrow> bool" where
  "covered ss i = list_ex (\<lambda>s. proper s \<and> covers s i) ss"

abbreviation disjoint_spans :: "Span list \<Rightarrow> bool" where
  "disjoint_spans \<equiv> sorted_wrt (\<lambda>a b. sp_End a \<le> sp_Start b)"

definition overlaps :: "Span \<Rightarrow> Span \<Rightarrow> bool" where
  "overlaps a b \<longleftrightarrow> sp_Start a < sp_End b \<and> sp_Start b < sp_End a"

definition same_reversible :: "Span \<Rightarrow> Span \<Rightarrow> bool" where
  "same_reversible r s \<longleftrightarrow> sp_Start s = sp_Start r \<and> sp_End s = sp_End r \<and> sp_Reversible s"

definition agrees :: "Span list \<Rightarrow> Span \<Rightarrow> bool" where
  "agrees ss r \<longleftrightarrow> (\<forall>s\<in>set ss. proper s \<longrightarrow> overlaps s r \<longrightarrow> same_reversible r s)"

text \<open>What the loop keeps of the spans \<open>xs\<close> it has seen, in the order of their starts.\<close>

definition composed :: "Span list \<Rightarrow> Span list \<Rightarrow> bool" where
  "composed xs out \<longleftrightarrow>
     sorted_wrt (\<lambda>a b. sp_End b \<le> sp_Start a) out \<and> (\<forall>r\<in>set out. proper r) \<and>
     (\<forall>i. covered xs i = covered out i) \<and>
     (\<forall>r\<in>set out. \<exists>s\<in>set xs. sp_Start s = sp_Start r \<and> sp_Replacement s = sp_Replacement r) \<and>
     (\<forall>s\<in>set xs. proper s \<longrightarrow> (\<exists>r\<in>set out. sp_Start r \<le> sp_Start s \<and> sp_End s \<le> sp_End r)) \<and>
     (\<forall>r\<in>set out. sp_Reversible r \<longrightarrow> agrees xs r)"

lemma strict_weak_span_less: "strict_weak span_less"
  unfolding strict_weak_def span_less_def by auto

lemma covered_append [simp]: "covered (xs @ ys) i = (covered xs i \<or> covered ys i)"
  by (simp add: covered_def)

lemma covered_Cons [simp]: "covered (x # ys) i = (proper x \<and> covers x i \<or> covered ys i)"
  by (simp add: covered_def)

lemma covered_Nil [simp]: "\<not> covered [] i"
  by (simp add: covered_def)

lemma covered_set: "set xs = set ys \<Longrightarrow> covered xs i = covered ys i"
  by (auto simp: covered_def list_ex_iff)

lemma covered_rev [simp]: "covered (rev xs) i = covered xs i"
  by (rule covered_set) simp

lemma agrees_append [simp]: "agrees (xs @ ys) r \<longleftrightarrow> agrees xs r \<and> agrees ys r"
  by (auto simp: agrees_def)

lemma composed_step:
  assumes c: "composed xs out" and start: "\<forall>s\<in>set xs. sp_Start s \<le> sp_Start x"
  shows "composed (xs @ [x]) (compose_step out x)"
proof (cases "proper x")
  case False
  then have "compose_step out x = out" by (auto simp: compose_step_def proper_def)
  moreover have "agrees [x] r" for r using False by (simp add: agrees_def)
  ultimately show ?thesis using c False by (auto simp: composed_def)
next
  case px: True
  then have pre: "\<not> (sp_Start x < 0 \<or> sp_End x \<le> sp_Start x)" by (auto simp: proper_def)
  show ?thesis
  proof (cases out)
    case Nil
    have "agrees xs x"
    proof -
      have "\<not> proper s" if "s \<in> set xs" for s
        using c that by (auto simp: composed_def Nil covered_def list_ex_iff covers_def proper_def)
      then show ?thesis by (auto simp: agrees_def)
    qed
    then show ?thesis using c px pre
      by (auto simp: composed_def Nil compose_step_def agrees_def same_reversible_def)
  next
    case (Cons l r)
    have sl: "sp_Start l \<le> sp_Start x" and pl: "proper l"
      using c start by (auto simp: composed_def Cons)
    have below: "sp_End s \<le> sp_Start l" if "s \<in> set r" for s
      using c that by (auto simp: composed_def Cons)
    show ?thesis
    proof (cases "sp_Start x < sp_End l")
      case True
      define l2 where "l2 = (let l1 = (if sp_Start x \<noteq> sp_Start l \<or> sp_End x \<noteq> sp_End l \<or> \<not> sp_Reversible x
          then l\<lparr>sp_Reversible := False\<rparr> else l)
        in if sp_End x > sp_End l1 then l1\<lparr>sp_End := sp_End x\<rparr> else l1)"
      have step: "compose_step out x = l2 # r"
        using pre True by (auto simp: compose_step_def Cons l2_def Let_def)
      have l2: "sp_Start l2 = sp_Start l" "sp_End l2 = max (sp_End l) (sp_End x)"
        "sp_Replacement l2 = sp_Replacement l"
        "sp_Reversible l2 \<Longrightarrow> sp_Reversible l \<and> same_reversible l x \<and> sp_End l2 = sp_End l"
        by (auto simp: l2_def Let_def same_reversible_def)
      have rev2: "agrees (xs @ [x]) l2" if "sp_Reversible l2"
        using c l2(1,2) l2(4) [OF that] that
        by (auto simp: composed_def Cons agrees_def overlaps_def same_reversible_def)
      have revr: "agrees [x] s" if "s \<in> set r" for s
        using below [OF that] sl by (auto simp: agrees_def overlaps_def)
      have cov: "covered (xs @ [x]) i = covered (l2 # r) i" for i
        using c pl px sl True l2 by (auto simp: composed_def Cons covers_def proper_def)
      have "proper l2" using pl l2 by (auto simp: proper_def)
      moreover have "\<exists>q\<in>set (l2 # r). sp_Start q \<le> sp_Start s \<and> sp_End s \<le> sp_End q"
        if m: "s \<in> set (xs @ [x])" "proper s" for s
      proof (cases "s \<in> set xs")
        case True
        then obtain q where q: "q \<in> set (l # r)" "sp_Start q \<le> sp_Start s" "sp_End s \<le> sp_End q"
          using c m(2) unfolding composed_def Cons by blast
        then show ?thesis using l2(1,2) by (cases "q = l") auto
      next
        case False
        then show ?thesis using m(1) sl l2(1,2) by auto
      qed
      ultimately show ?thesis
        unfolding step composed_def
        using c cov rev2 revr l2(1-3) unfolding composed_def Cons by simp
    next
      case False
      then have step: "compose_step out x = x # out"
        using pre by (auto simp: compose_step_def Cons)
      have far: "sp_End s \<le> sp_Start x" if "s \<in> set out" for s
        using that below [of s] pl sl False by (force simp: Cons proper_def)
      have "agrees xs x"
      proof -
        have "\<not> overlaps s x" if s: "s \<in> set xs" "proper s" for s
        proof
          assume o: "overlaps s x"
          let ?i = "sp_End s - 1"
          have "covered xs ?i" using s by (auto simp: covered_def list_ex_iff covers_def proper_def)
          then have "covered out ?i" using c by (simp add: composed_def)
          then obtain t where "t \<in> set out" "covers t ?i" by (auto simp: covered_def list_ex_iff)
          with far [of t] o show False by (auto simp: covers_def overlaps_def)
        qed
        then show ?thesis by (auto simp: agrees_def)
      qed
      moreover have "agrees [x] s" if "s \<in> set out" for s
        using far [OF that] by (auto simp: agrees_def overlaps_def)
      ultimately show ?thesis
        unfolding step using c px far
        by (auto simp: composed_def agrees_def same_reversible_def)
    qed
  qed
qed

lemma composed_foldl:
  "sorted_wrt (\<lambda>a b. sp_Start a \<le> sp_Start b) xs \<Longrightarrow> composed xs (foldl compose_step [] xs)"
proof (induction xs rule: rev_induct)
  case Nil
  then show ?case by (simp add: composed_def)
next
  case (snoc x xs)
  then show ?case using composed_step [of xs "foldl compose_step [] xs" x]
    by (simp add: sorted_wrt_append)
qed

lemma sorted_spans: "sorted_wrt (\<lambda>a b. sp_Start a \<le> sp_Start b) (slice_stable span_less xs)"
  by (rule sorted_wrt_mono_rel [OF _ ordered_slice_stable [OF strict_weak_span_less]])
    (auto simp: span_less_def split: if_splits)

lemma composed_composeSpans:
  "composed (slice_stable span_less spans) (rev (composeSpans spans))"
  by (simp add: composeSpans_def composed_foldl sorted_spans)

lemma composeSpans_disjoint: "disjoint_spans (composeSpans spans)"
  using composed_composeSpans [of spans] by (simp add: composed_def sorted_wrt_rev)

lemma composeSpans_proper: "r \<in> set (composeSpans spans) \<Longrightarrow> proper r"
  using composed_composeSpans [of spans] by (simp add: composed_def)

lemma composeSpans_covered: "covered (composeSpans spans) i = covered spans i"
  using composed_composeSpans [of spans] covered_set [of "slice_stable span_less spans" spans i]
  by (simp add: composed_def)

lemma composeSpans_reversible:
  "r \<in> set (composeSpans spans) \<Longrightarrow> sp_Reversible r \<Longrightarrow> agrees spans r"
  using composed_composeSpans [of spans] by (simp add: composed_def agrees_def)

lemma composeSpans_start:
  "r \<in> set (composeSpans spans) \<Longrightarrow> \<exists>s\<in>set spans. sp_Start s = sp_Start r"
  using composed_composeSpans [of spans] by (fastforce simp: composed_def)

lemma composeSpans_contains:
  "s \<in> set spans \<Longrightarrow> proper s \<Longrightarrow>
   \<exists>r\<in>set (composeSpans spans). sp_Start r \<le> sp_Start s \<and> sp_End s \<le> sp_End r"
  using composed_composeSpans [of spans] by (simp add: composed_def)

text \<open>
  C14: Masking composed from several rules: for every list of spans, the composed spans are proper,
  ordered and without overlap; an offset is covered by one of them exactly when it is covered by a
  proper input span, so no matched byte is left exposed and no other byte is masked; and a
  composed span is reversible only when every proper input span that overlaps it has the same
  bounds and is reversible, so a value another rule masked can never be restored.
\<close>

theorem composed_masks_union:
  "disjoint_spans (composeSpans spans) \<and>
   list_all proper (composeSpans spans) \<and>
   covered (composeSpans spans) i = covered spans i \<and>
   list_all (\<lambda>r. sp_Reversible r \<longrightarrow> agrees spans r) (composeSpans spans)"
  using composeSpans_disjoint composeSpans_proper composeSpans_covered composeSpans_reversible
  by (auto simp: list_all_iff)

theorem composed_masks_union_witness:
  "composeSpans
     [\<lparr>sp_Start = 4, sp_End = 9, sp_Replacement = ''[B]'', sp_Reversible = True\<rparr>,
      \<lparr>sp_Start = 0, sp_End = 5, sp_Replacement = ''[A]'', sp_Reversible = False\<rparr>,
      \<lparr>sp_Start = 12, sp_End = 14, sp_Replacement = ''[C]'', sp_Reversible = True\<rparr>] =
     [\<lparr>sp_Start = 0, sp_End = 9, sp_Replacement = ''[A]'', sp_Reversible = False\<rparr>,
      \<lparr>sp_Start = 12, sp_End = 14, sp_Replacement = ''[C]'', sp_Reversible = True\<rparr>] \<and>
   covered
     [\<lparr>sp_Start = 4, sp_End = 9, sp_Replacement = ''[B]'', sp_Reversible = True\<rparr>,
      \<lparr>sp_Start = 0, sp_End = 5, sp_Replacement = ''[A]'', sp_Reversible = False\<rparr>,
      \<lparr>sp_Start = 12, sp_End = 14, sp_Replacement = ''[C]'', sp_Reversible = True\<rparr>] 8"
  using composed_masks_union [of
     "[\<lparr>sp_Start = 4, sp_End = 9, sp_Replacement = ''[B]'', sp_Reversible = True\<rparr>,
      \<lparr>sp_Start = 0, sp_End = 5, sp_Replacement = ''[A]'', sp_Reversible = False\<rparr>,
      \<lparr>sp_Start = 12, sp_End = 14, sp_Replacement = ''[C]'', sp_Reversible = True\<rparr>]" 8]
  by (simp add: composeSpans_def slice_stable_def ins_back_def span_less_def compose_step_def
      covered_def proper_def covers_def)

section \<open>Application\<close>

text \<open>What masking makes of the byte at one offset.\<close>

definition mask_at :: "bytes \<Rightarrow> Span list \<Rightarrow> int \<Rightarrow> bytes" where
  "mask_at content spans i =
     (case find (\<lambda>s. sp_Start s = i) spans of
        Some s \<Rightarrow> sp_Replacement s
      | None \<Rightarrow> if covered spans i then [] else [content ! nat i])"

lemma upt_append3:
  "i \<le> j \<Longrightarrow> j \<le> k \<Longrightarrow> k \<le> n \<Longrightarrow> [i..<n] = [i..<j] @ [j..<k] @ [k..<n]"
  by (metis le_add_diff_inverse le_trans upt_add_eq_append)

lemma find_None_ex: "(\<And>s. s \<in> set xs \<Longrightarrow> \<not> P s) \<Longrightarrow> find P xs = None"
  by (auto simp: find_None_iff)

lemma concat_map_eq: "(\<And>i. i \<in> set xs \<Longrightarrow> f i = g i) \<Longrightarrow> concat (map f xs) = concat (map g xs)"
  by (induction xs) auto

lemma concat_singletons: "concat (map (\<lambda>i. [f i]) xs) = map f xs"
  by (induction xs) auto

lemma slice_upt:
  assumes "0 \<le> a" "a \<le> b" "b \<le> int (length s)"
  shows "slice s a b = map (\<lambda>i. s ! i) [nat a..<nat b]"
  using assms by (auto simp: slice_def list_eq_iff_nth_eq nat_diff_distrib)

lemma apply_loop_spec:
  assumes "disjoint_spans sps" "\<forall>s\<in>set sps. proper s \<and> sp_End s \<le> int (length content)"
    "\<forall>s\<in>set sps. p \<le> sp_Start s" "0 \<le> p" "p \<le> int (length content)"
  shows "apply_loop content p sps =
         concat (map (\<lambda>i. mask_at content sps (int i)) [nat p..<length content])"
  using assms
proof (induction sps arbitrary: p)
  case Nil
  then show ?case
    by (auto simp: mask_at_def concat_singletons list_eq_iff_nth_eq)
next
  case (Cons x sps)
  let ?n = "length content" and ?m = "mask_at content (x # sps)"
  have x: "proper x" "sp_End x \<le> int ?n" "p \<le> sp_Start x" "sp_Start x < sp_End x" "0 \<le> sp_Start x"
    using Cons.prems by (auto simp: proper_def)
  have later: "sp_End x \<le> sp_Start s" if "s \<in> set sps" for s using Cons.prems that by simp
  have split: "[nat p..<?n] = [nat p..<nat (sp_Start x)] @ [nat (sp_Start x)..<nat (sp_End x)] @ [nat (sp_End x)..<?n]"
    using x Cons.prems(4) by (intro upt_append3) auto
  have uncov: "\<not> covered sps i" "find (\<lambda>s. sp_Start s = i) sps = None" if "i < sp_End x" for i
    using later that by (force simp: covered_def list_ex_iff covers_def intro!: find_None_ex)+
  have before: "?m (int i) = [content ! i]" if "i \<in> set [nat p..<nat (sp_Start x)]" for i
  proof -
    have "int i < sp_Start x" using that x by auto
    then show ?thesis using x uncov [of "int i"] by (simp add: mask_at_def covers_def)
  qed
  have first: "?m (sp_Start x) = sp_Replacement x" by (simp add: mask_at_def)
  have inside: "?m (int i) = []" if "i \<in> set [Suc (nat (sp_Start x))..<nat (sp_End x)]" for i
  proof -
    have "sp_Start x < int i \<and> int i < sp_End x" using that x by auto
    then show ?thesis using x uncov [of "int i"] by (simp add: mask_at_def covers_def)
  qed
  have after: "?m (int i) = mask_at content sps (int i)" if "i \<in> set [nat (sp_End x)..<?n]" for i
    using that x by (auto simp: mask_at_def covers_def split: option.splits)
  have mid: "concat (map (\<lambda>i. ?m (int i)) [nat (sp_Start x)..<nat (sp_End x)]) = sp_Replacement x"
  proof -
    have "concat (map (\<lambda>i. ?m (int i)) [Suc (nat (sp_Start x))..<nat (sp_End x)]) = []"
      using inside by (simp only: concat_eq_Nil_conv set_map) blast
    then show ?thesis using x first by (simp add: upt_conv_Cons)
  qed
  have IH: "apply_loop content (sp_End x) sps =
      concat (map (\<lambda>i. mask_at content sps (int i)) [nat (sp_End x)..<?n])"
    using Cons.prems x later by (intro Cons.IH) auto
  have "concat (map (\<lambda>i. ?m (int i)) [nat p..<nat (sp_Start x)]) =
      concat (map (\<lambda>i. [content ! i]) [nat p..<nat (sp_Start x)])"
    by (rule concat_map_eq) (rule before)
  then have "concat (map (\<lambda>i. ?m (int i)) [nat p..<nat (sp_Start x)]) = slice content p (sp_Start x)"
    using x Cons.prems(4) by (simp add: slice_upt concat_singletons)
  moreover have "concat (map (\<lambda>i. ?m (int i)) [nat (sp_End x)..<?n]) = apply_loop content (sp_End x) sps"
    unfolding IH by (rule concat_map_eq [OF after])
  ultimately show ?case
    using x mid by (simp add: split)
qed

lemma applySpans_spec:
  assumes "disjoint_spans sps" "\<forall>s\<in>set sps. proper s \<and> sp_End s \<le> int (length content)"
  shows "applySpans content sps =
         concat (map (\<lambda>i. mask_at content sps (int i)) [0..<length content])"
proof (cases "sps = []")
  case True
  then show ?thesis by (simp add: applySpans_def mask_at_def concat_singletons map_nth)
next
  case False
  then show ?thesis using apply_loop_spec [OF assms, of 0] assms(2)
    by (auto simp: applySpans_def proper_def)
qed

lemma composeSpans_bound:
  assumes "\<forall>s\<in>set spans. sp_End s \<le> n" "r \<in> set (composeSpans spans)"
  shows "sp_End r \<le> n"
proof -
  have "proper r" using assms(2) by (rule composeSpans_proper)
  then have "covered (composeSpans spans) (sp_End r - 1)"
    using assms(2) by (auto simp: covered_def list_ex_iff covers_def proper_def)
  then have "covered spans (sp_End r - 1)" by (simp add: composeSpans_covered)
  then show ?thesis using assms(1) by (auto simp: covered_def list_ex_iff covers_def)
qed

text \<open>
  The masked content, for every list of spans that end within the content: each byte outside
  the matched regions is kept in place, each byte inside is gone, and each composed span
  contributes its replacement once, at its start.
\<close>

lemma masked_content_spec:
  assumes "list_all (\<lambda>s. sp_End s \<le> int (length content)) spans"
  shows "applySpans content (composeSpans spans) =
         concat (map (\<lambda>i. case find (\<lambda>s. sp_Start s = int i) (composeSpans spans) of
                            Some s \<Rightarrow> sp_Replacement s
                          | None \<Rightarrow> if covered spans (int i) then [] else [content ! i])
                     [0..<length content])"
proof -
  have "\<forall>s\<in>set (composeSpans spans). proper s \<and> sp_End s \<le> int (length content)"
    using assms composeSpans_proper composeSpans_bound by (auto simp: list_all_iff)
  then show ?thesis
    by (simp add: applySpans_spec composeSpans_disjoint)
      (auto simp: mask_at_def composeSpans_covered intro!: concat_map_eq split: option.split)
qed

lemma masked_content_spec_witness:
  "''call [PHONE] now'' =
   concat (map (\<lambda>i. case find (\<lambda>s. sp_Start s = int i) (composeSpans
        [\<lparr>sp_Start = 5, sp_End = 13, sp_Replacement = ''[PHONE]'', sp_Reversible = True\<rparr>]) of
        Some s \<Rightarrow> sp_Replacement s
      | None \<Rightarrow> if covered [\<lparr>sp_Start = 5, sp_End = 13, sp_Replacement = ''[PHONE]'',
           sp_Reversible = True\<rparr>] (int i) then [] else [''call 555-0100 now'' ! i])
      [0..<length ''call 555-0100 now''])"
proof -
  let ?s = "[\<lparr>sp_Start = 5, sp_End = 13, sp_Replacement = ''[PHONE]'', sp_Reversible = True\<rparr>]"
  let ?c = "''call 555-0100 now''"
  have v: "applySpans ?c (composeSpans ?s) = ''call [PHONE] now''"
    by (simp add: applySpans_def composeSpans_def slice_stable_def ins_back_def compose_step_def slice_def)
  have "list_all (\<lambda>s. sp_End s \<le> int (length ?c)) ?s" by simp
  from masked_content_spec [OF this] show ?thesis by (simp only: v)
qed

section \<open>Composition in parts\<close>

text \<open>
  Spans that differ in their bounds only: their composition depends on the multiset of the spans,
  splits at an offset that no span crosses, and commutes with moving the spans.
\<close>

definition shift_span :: "int \<Rightarrow> Span \<Rightarrow> Span" where
  "shift_span d sp = sp\<lparr>sp_Start := sp_Start sp + d, sp_End := sp_End sp + d\<rparr>"

lemma shift_span_simps [simp]:
  "sp_Start (shift_span d s) = sp_Start s + d" "sp_End (shift_span d s) = sp_End s + d"
  "sp_Replacement (shift_span d s) = sp_Replacement s" "sp_Reversible (shift_span d s) = sp_Reversible s"
  by (simp_all add: shift_span_def)

lemma sorted_wrt_unique:
  "sorted_wrt R xs \<Longrightarrow> sorted_wrt R ys \<Longrightarrow> mset xs = mset ys \<Longrightarrow>
   (\<And>a b. a \<in> set xs \<Longrightarrow> b \<in> set xs \<Longrightarrow> R a b \<Longrightarrow> R b a \<Longrightarrow> a = b) \<Longrightarrow> xs = ys"
proof (induction xs arbitrary: ys)
  case (Cons x xs)
  then obtain y ys' where ys: "ys = y # ys'" by (cases ys) auto
  have m: "set (x # xs) = set ys" using Cons.prems(3) by (metis set_mset_mset)
  have "x = y"
  proof (rule ccontr)
    assume "x \<noteq> y"
    with m ys have "x \<in> set ys'" "y \<in> set xs" by auto
    then have "R y x" "R x y" using Cons.prems(1,2) ys by auto
    then show False using \<open>x \<noteq> y\<close> Cons.prems(4) \<open>y \<in> set xs\<close> by auto
  qed
  then show ?case using Cons.IH [of ys'] Cons.prems ys by auto
qed simp

definition uniform :: "Span list \<Rightarrow> bool" where
  "uniform ss \<longleftrightarrow> (\<exists>t b. \<forall>s\<in>set ss. sp_Replacement s = t \<and> sp_Reversible s = b)"

lemma uniform_bounds:
  assumes "uniform ss" "a \<in> set ss" "b \<in> set ss" "sp_Start a = sp_Start b" "sp_End a = sp_End b"
  shows "a = b"
proof (rule Span.equality)
  show "Span.more a = Span.more b" by simp
qed (use assms in \<open>auto simp: uniform_def\<close>)

lemma slice_stable_uniform:
  assumes "uniform xs" "mset xs = mset ys" "ordered_by span_less ys"
  shows "slice_stable span_less xs = ys"
proof (rule sorted_wrt_unique [OF ordered_slice_stable [OF strict_weak_span_less] assms(3)])
  show "mset (slice_stable span_less xs) = mset ys" using assms(2) by simp
  show "a = b" if "a \<in> set (slice_stable span_less xs)" "b \<in> set (slice_stable span_less xs)"
    "\<not> span_less b a" "\<not> span_less a b" for a b
  proof (rule uniform_bounds [OF assms(1)])
    show "sp_Start a = sp_Start b" "sp_End a = sp_End b"
      using that(3,4) by (auto simp: span_less_def split: if_splits)
  qed (use that(1,2) in simp_all)
qed

lemma compose_apart:
  "\<forall>s\<in>set ys. \<forall>r\<in>set out. sp_End r \<le> sp_Start s \<Longrightarrow>
   foldl compose_step (acc @ out) ys = foldl compose_step acc ys @ out"
proof (induction ys arbitrary: acc)
  case (Cons y ys)
  have "compose_step (acc @ out) y = compose_step acc y @ out"
    using Cons.prems by (cases acc; cases out) (auto simp: compose_step_def Let_def)
  then show ?case using Cons by simp
qed simp

lemma composeSpans_append:
  assumes u: "uniform zs" and m: "mset zs = mset (xs @ ys)"
    and c: "\<forall>s\<in>set xs. sp_End s \<le> c" "\<forall>s\<in>set xs. sp_Start s < c" "\<forall>s\<in>set ys. c \<le> sp_Start s"
  shows "composeSpans zs = composeSpans xs @ composeSpans ys"
proof -
  let ?S = "slice_stable span_less"
  have "ordered_by span_less (?S xs @ ?S ys)"
    using c(2,3) ordered_slice_stable [OF strict_weak_span_less]
    by (force simp: sorted_wrt_append span_less_def)
  then have s: "?S zs = ?S xs @ ?S ys" using u m by (intro slice_stable_uniform) auto
  have "\<forall>s\<in>set (?S ys). \<forall>r\<in>set (rev (composeSpans xs)). sp_End r \<le> sp_Start s"
    using c(3) composeSpans_bound [OF c(1)] by force
  from compose_apart [OF this, of "[]"] show ?thesis by (simp add: composeSpans_def s)
qed

lemma compose_step_shift:
  "0 \<le> d \<Longrightarrow> 0 \<le> sp_Start y \<Longrightarrow>
   compose_step (map (shift_span d) out) (shift_span d y) = map (shift_span d) (compose_step out y)"
  by (cases out) (auto simp: compose_step_def Let_def shift_span_def)

lemma composeSpans_shift:
  assumes "uniform ys" "0 \<le> d" "\<forall>s\<in>set ys. 0 \<le> sp_Start s"
  shows "composeSpans (map (shift_span d) ys) = map (shift_span d) (composeSpans ys)"
proof -
  let ?S = "slice_stable span_less"
  have "ordered_by span_less (map (shift_span d) (?S ys))"
    using ordered_slice_stable [OF strict_weak_span_less, of ys]
    by (simp add: sorted_wrt_map span_less_def cong: if_cong)
  moreover have "uniform (map (shift_span d) ys)" using assms(1) by (auto simp: uniform_def)
  ultimately have s: "?S (map (shift_span d) ys) = map (shift_span d) (?S ys)"
    by (intro slice_stable_uniform) simp_all
  have "foldl compose_step (map (shift_span d) out) (map (shift_span d) zs) =
        map (shift_span d) (foldl compose_step out zs)" if "\<forall>s\<in>set zs. 0 \<le> sp_Start s" for out zs
    using that by (induction zs arbitrary: out) (simp_all add: compose_step_shift assms(2))
  from this [of "?S ys" "[]"] show ?thesis using assms(3) by (simp add: composeSpans_def s rev_map)
qed

end
