(* ===== verification/Go_Utf8.thy ===== *)
theory Go_Utf8
  imports Go_Json
begin

text \<open>
  Texts as sequences of runes: the units a \<^verbatim>\<open>range\<close> loop visits, \<^verbatim>\<open>utf8.RuneStart\<close>,
  \<^verbatim>\<open>utf8.RuneCountInString\<close> and \<^verbatim>\<open>strings.Index\<close>, with the facts the streaming filters rest
  on: a valid text is the concatenation of its runes, a rune starts exactly at the bytes that are not
  continuation bytes, and an occurrence of a valid word in a valid text starts and ends between runes.
\<close>

section \<open>Runes\<close>

definition RuneStart :: "char \<Rightarrow> bool" where
  "RuneStart c \<longleftrightarrow> \<not> in_rng 128 191 c"

fun units :: "bytes \<Rightarrow> bytes list" where
  "units [] = []"
| "units (b # bs) =
     (let n = rune_len (b # bs)
      in if n = 0 then [b] # units bs else take n (b # bs) # units (drop (n - 1) bs))"

text \<open>\<^verbatim>\<open>string(r)\<close> for the rune a loop reads from a unit: its encoding, U+FFFD for an invalid byte.\<close>

definition rune_string :: "bytes \<Rightarrow> bytes" where
  "rune_string u = (if rune_len u = 0 then [CHR 0xEF, CHR 0xBF, CHR 0xBD] else u)"

definition rune_count :: "bytes \<Rightarrow> nat" where
  "rune_count s = length (units s)"

definition is_rune :: "bytes \<Rightarrow> bool" where
  "is_rune u \<longleftrightarrow> u \<noteq> [] \<and> rune_len u = length u"

lemma is_rune_hd: "is_rune u \<Longrightarrow> RuneStart (hd u)"
  by (auto simp: is_rune_def rune_len_def RuneStart_def in_rng_def split: list.splits if_splits)

lemma is_rune_tl:
  assumes "is_rune u" "c \<in> set (tl u)"
  shows "\<not> RuneStart c"
proof -
  obtain b bs where u: "u = b # bs" using assms by (cases u) (auto simp: is_rune_def)
  have "second_ok b b1 \<Longrightarrow> in_rng 128 191 b1" for b1
    by (auto simp: second_ok_def in_rng_def split: if_splits)
  then show ?thesis using assms unfolding u
    by (auto simp: is_rune_def rune_len_def RuneStart_def split: list.splits if_splits)
qed

lemma rune_len_is_rune:
  assumes "is_rune u"
  shows "rune_len (u @ r) = length u"
  using rune_len_append [of u "length u" r] assms by (simp add: is_rune_def)

lemma is_rune_take:
  assumes "rune_len (b # bs) \<noteq> 0"
  shows "is_rune (take (rune_len (b # bs)) (b # bs))"
  using rune_len_append [OF refl assms, of "[]"] rune_len_le [of "b # bs"] assms
  by (simp add: is_rune_def)

lemma is_rune_nonempty: "is_rune u \<Longrightarrow> 0 < length u"
  by (simp add: is_rune_def)

lemma units_Cons: "is_rune u \<Longrightarrow> units (u @ r) = u # units r"
proof -
  assume u: "is_rune u"
  then obtain b bs where "u = b # bs" by (cases u) (auto simp: is_rune_def)
  then show ?thesis using rune_len_is_rune [OF u, of r] by (simp add: Let_def)
qed

lemma valid_Cons: "is_rune u \<Longrightarrow> valid_utf8 (u @ r) = valid_utf8 r"
proof -
  assume u: "is_rune u"
  then obtain b bs where "u = b # bs" by (cases u) (auto simp: is_rune_def)
  then show ?thesis using rune_len_is_rune [OF u, of r] by simp
qed

lemma units_concat: "list_all is_rune us \<Longrightarrow> units (concat us) = us"
  by (induction us) (simp_all add: units_Cons)

lemma valid_concat: "list_all is_rune us \<Longrightarrow> valid_utf8 (concat us)"
  by (induction us) (simp_all add: valid_Cons)

lemma valid_units: "valid_utf8 s \<Longrightarrow> list_all is_rune (units s) \<and> concat (units s) = s"
proof (induction s rule: units.induct)
  case (2 b bs)
  let ?n = "rune_len (b # bs)"
  have n: "?n \<noteq> 0" using 2(3) by simp
  then have u: "units (b # bs) = take ?n (b # bs) # units (drop (?n - 1) bs)" by (simp add: Let_def)
  have d: "drop (?n - 1) bs = drop ?n (b # bs)" using n by (cases ?n) auto
  have IH: "list_all is_rune (units (drop (?n - 1) bs)) \<and> concat (units (drop (?n - 1) bs)) = drop (?n - 1) bs"
    using 2(2) [OF refl n] 2(3) by simp
  then have "concat (units (b # bs)) = take ?n (b # bs) @ drop ?n (b # bs)" unfolding u d by simp
  then show ?case using IH is_rune_take [OF n] unfolding u by simp
qed simp

lemma valid_runes:
  assumes "valid_utf8 s"
  obtains us where "list_all is_rune us" and "s = concat us"
  using valid_units [OF assms] by metis

lemma valid_append: "valid_utf8 s \<Longrightarrow> valid_utf8 t \<Longrightarrow> valid_utf8 (s @ t)"
  by (metis concat_append list_all_append valid_concat valid_units)

lemma rune_count_concat: "list_all is_rune us \<Longrightarrow> rune_count (concat us) = length us"
  by (simp add: rune_count_def units_concat)

lemma rune_count_append: "valid_utf8 s \<Longrightarrow> valid_utf8 t \<Longrightarrow> rune_count (s @ t) = rune_count s + rune_count t"
  by (metis concat_append length_append list_all_append rune_count_concat valid_units)

section \<open>Positions between runes\<close>

definition boundary :: "bytes list \<Rightarrow> nat \<Rightarrow> bool" where
  "boundary us i \<longleftrightarrow> (\<exists>k\<le>length us. i = length (concat (take k us)))"

lemma boundary_take: "k \<le> length us \<Longrightarrow> boundary us (length (concat (take k us)))"
  by (auto simp: boundary_def)

lemma length_take_mono:
  "list_all is_rune us \<Longrightarrow> k < l \<Longrightarrow> l \<le> length us \<Longrightarrow>
   length (concat (take k us)) < length (concat (take l us))"
proof (induction us arbitrary: k l)
  case (Cons u us)
  then obtain l' where "l = Suc l'" by (cases l) auto
  then show ?case using Cons by (cases k) (auto simp: is_rune_def)
qed simp

lemma boundary_RuneStart:
  "list_all is_rune us \<Longrightarrow> i < length (concat us) \<Longrightarrow> RuneStart (concat us ! i) \<Longrightarrow> boundary us i"
proof (induction us arbitrary: i)
  case (Cons u us)
  show ?case
  proof (cases "i < length u")
    case True
    have "i = 0"
    proof (rule ccontr)
      assume "i \<noteq> 0"
      then have "u ! i \<in> set (tl u)" using True by (cases u; cases i) auto
      then show False using is_rune_tl [of u "u ! i"] Cons.prems True by (simp add: nth_append)
    qed
    then show ?thesis by (auto simp: boundary_def intro: exI [of _ 0])
  next
    case False
    then have "boundary us (i - length u)" using Cons by (auto simp: nth_append)
    then obtain k where "k \<le> length us" "i - length u = length (concat (take k us))"
      by (auto simp: boundary_def)
    then have "Suc k \<le> length (u # us)" "i = length (concat (take (Suc k) (u # us)))" using False by auto
    then show ?thesis unfolding boundary_def by blast
  qed
qed simp

lemma concat_prefix_runes:
  "list_all is_rune ws \<Longrightarrow> list_all is_rune us \<Longrightarrow> concat us = concat ws @ r \<Longrightarrow>
   take (length ws) us = ws"
proof (induction ws arbitrary: us)
  case (Cons w ws)
  have "units (concat us) = w # units (concat ws @ r)"
    using Cons.prems by (simp add: units_Cons)
  then obtain us' where us: "us = w # us'" using Cons.prems(2)
    by (cases us) (auto simp: units_Cons)
  then show ?case using Cons.IH [of us'] Cons.prems by simp
qed simp

section \<open>Search\<close>

definition occurs_at :: "bytes \<Rightarrow> bytes \<Rightarrow> nat \<Rightarrow> bool" where
  "occurs_at w t i \<longleftrightarrow> take (length w) (drop i t) = w"

fun str_index :: "bytes \<Rightarrow> bytes \<Rightarrow> nat option" where
  "str_index [] sub = (if sub = [] then Some 0 else None)"
| "str_index (c # cs) sub =
     (if take (length sub) (c # cs) = sub then Some 0 else map_option Suc (str_index cs sub))"

lemma occurs_at_bound: "occurs_at w t i \<Longrightarrow> w \<noteq> [] \<Longrightarrow> i + length w \<le> length t"
proof -
  assume "occurs_at w t i" "w \<noteq> []"
  then have "min (length t - i) (length w) = length w"
    unfolding occurs_at_def by (metis length_drop length_take)
  moreover have "0 < length w" using \<open>w \<noteq> []\<close> by simp
  ultimately show ?thesis by linarith
qed

lemma occurs_at_split:
  assumes "occurs_at w t i" "w \<noteq> []"
  shows "drop i t = w @ drop (i + length w) t"
  using assms append_take_drop_id [of "length w" "drop i t"]
  by (simp add: occurs_at_def add.commute)

lemma occurs_at_drop: "occurs_at w (drop n t) i = occurs_at w t (n + i)"
  by (simp add: occurs_at_def add.commute)

lemma occurs_at_append:
  "i + length w \<le> length s \<Longrightarrow> occurs_at w (s @ t) i = occurs_at w s i"
  by (auto simp: occurs_at_def)

lemma occurs_at_shift: "occurs_at w (s @ t) (length s + i) = occurs_at w t i"
  by (simp add: occurs_at_def)

lemma str_index_None: "sub \<noteq> [] \<Longrightarrow> str_index s sub = None \<Longrightarrow> \<not> occurs_at sub s i"
proof (induction s sub arbitrary: i rule: str_index.induct)
  case (2 c cs sub)
  then show ?case by (cases i) (auto simp: occurs_at_def split: if_splits)
qed (auto simp: occurs_at_def)

lemma str_index_Some:
  "sub \<noteq> [] \<Longrightarrow> str_index s sub = Some n \<Longrightarrow> occurs_at sub s n \<and> (\<forall>i<n. \<not> occurs_at sub s i)"
proof (induction s sub arbitrary: n rule: str_index.induct)
  case (2 c cs sub)
  show ?case
  proof (cases "take (length sub) (c # cs) = sub")
    case True
    then show ?thesis using 2 by (auto simp: occurs_at_def)
  next
    case False
    then obtain m where "n = Suc m" "str_index cs sub = Some m" using 2 by auto
    moreover have "\<not> occurs_at sub (c # cs) 0" using False by (simp add: occurs_at_def)
    ultimately show ?thesis using 2(1) [OF False, of m] 2(2)
      by (auto simp: occurs_at_def less_Suc_eq_0_disj)
  qed
qed auto

lemma occurs_at_boundaries:
  assumes us: "list_all is_rune us" and ws: "list_all is_rune ws" "ws \<noteq> []"
    and o: "occurs_at (concat ws) (concat us) i"
  shows "boundary us i \<and> boundary us (i + length (concat ws))"
proof -
  have ne: "concat ws \<noteq> []" using ws by (cases ws) (auto simp: is_rune_def)
  have le: "i + length (concat ws) \<le> length (concat us)" using occurs_at_bound [OF o ne] .
  have split: "drop i (concat us) = concat ws @ drop (i + length (concat ws)) (concat us)"
    by (rule occurs_at_split [OF o ne])
  have "concat us ! i = hd (concat ws)"
    using split ne le by (metis add_leE hd_append2 hd_drop_conv_nth le_neq_implies_less length_greater_0_conv less_add_same_cancel1 order.strict_trans2)
  also have "\<dots> = hd (hd ws)" using ws by (cases ws) (auto simp: is_rune_def)
  finally have "RuneStart (concat us ! i)" using ws is_rune_hd [of "hd ws"] by (cases ws) auto
  then have "boundary us i"
    using us le ne length_greater_0_conv [of "concat ws"]
    by (intro boundary_RuneStart) linarith+
  then obtain k where k: "k \<le> length us" "i = length (concat (take k us))" by (auto simp: boundary_def)
  have d: "drop i (concat us) = concat (drop k us)"
    using k(2) by (metis append_eq_conv_conj append_take_drop_id concat_append)
  have us': "list_all is_rune (drop k us)" using us by (simp add: list_all_iff in_set_dropD)
  have t: "take (length ws) (drop k us) = ws"
    using concat_prefix_runes [OF ws(1) us'] split d by metis
  then have "k + length ws \<le> length us"
    using k(1) by (metis add.commute add_le_cancel_right le_diff_conv2 length_drop length_take min.cobounded1 min_def)
  moreover have "i + length (concat ws) = length (concat (take (k + length ws) us))"
    using t k(2) by (simp add: take_add)
  ultimately show ?thesis using \<open>boundary us i\<close> unfolding boundary_def by blast
qed

end
