(* ===== verification/Keyword_Filter.thy ===== *)
theory Keyword_Filter
  imports Guardrail_Spans Go_Utf8 Go_Decode
begin

text \<open>
  The keyword engine of \<^verbatim>\<open>internal/guardrail/keyword.go\<close> and its incremental session of
  \<^verbatim>\<open>keyword_stream.go\<close>. Compiled regular expressions are the functions that list the matches
  (\<^verbatim>\<open>FindAllStringIndex\<close>); the compiler \<open>rx\<close> is a parameter. A cancelled context is the error its
  \<^verbatim>\<open>Err\<close> method returns.
\<close>

section \<open>The engine\<close>

type_synonym regexp = "bytes \<Rightarrow> (int \<times> int) list"

record KeywordEngine =
  ke_name :: bytes
  ke_blocklist :: "bytes list"
  ke_allowlist :: "bytes list"
  ke_useRegex :: bool
  ke_caseSensitive :: bool
  ke_compiledRegex :: "regexp list"

record keywordConfig =
  kc_Blocklist :: "bytes list option"
  kc_Allowlist :: "bytes list option"
  kc_UseRegex :: bool
  kc_CaseSensitive :: bool

definition dec_keywordConfig :: "keywordConfig dec" where
  "dec_keywordConfig = dec_struct
     [fld ''blocklist'' (dec_slice [] dec_string) kc_Blocklist kc_Blocklist_update,
      fld ''allowlist'' (dec_slice [] dec_string) kc_Allowlist kc_Allowlist_update,
      fld ''use_regex'' dec_bool kc_UseRegex kc_UseRegex_update,
      fld ''case_sensitive'' dec_bool kc_CaseSensitive kc_CaseSensitive_update]"

definition items :: "'a list option \<Rightarrow> 'a list" where
  "items xs = (case xs of None \<Rightarrow> [] | Some ys \<Rightarrow> ys)"

fun compile_all :: "(bytes \<Rightarrow> gerr + regexp) \<Rightarrow> bytes \<Rightarrow> bytes list \<Rightarrow> gerr + regexp list" where
  "compile_all rx flags [] = Inr []"
| "compile_all rx flags (p # ps) =
     (case rx (flags @ p) of
        Inl e \<Rightarrow> Inl (Wrap (''invalid regex '' @ p) e)
      | Inr re \<Rightarrow> map_sum id (Cons re) (compile_all rx flags ps))"

definition NewKeywordEngineFromConfig :: "go_rt \<Rightarrow> (bytes \<Rightarrow> gerr + regexp) \<Rightarrow> bytes \<Rightarrow> gerr + KeywordEngine" where
  "NewKeywordEngineFromConfig G rx msg =
     (case unmarshal dec_keywordConfig msg
        \<lparr>kc_Blocklist = None, kc_Allowlist = None, kc_UseRegex = False, kc_CaseSensitive = False\<rparr> of
        (cfg, True) \<Rightarrow> Inl (Wrap ''invalid keyword config'' (Err ''json''))
      | (cfg, False) \<Rightarrow>
          let allowSet = map (\<lambda>w. if kc_CaseSensitive cfg then w else rt_to_lower G w) (items (kc_Allowlist cfg));
              flags = (if kc_CaseSensitive cfg then [] else ''(?i)'')
          in case (if kc_UseRegex cfg then compile_all rx flags (items (kc_Blocklist cfg)) else Inr []) of
               Inl e \<Rightarrow> Inl e
             | Inr compiled \<Rightarrow> Inr
                 \<lparr>ke_name = ''keyword_filter'', ke_blocklist = items (kc_Blocklist cfg),
                  ke_allowlist = allowSet, ke_useRegex = kc_UseRegex cfg,
                  ke_caseSensitive = kc_CaseSensitive cfg, ke_compiledRegex = compiled\<rparr>)"

text \<open>\<open>normalizedText\<close>: the text to search and, unless case matters, the offset each of its bytes comes from.\<close>

fun lower_loop :: "go_rt \<Rightarrow> nat \<Rightarrow> bytes list \<Rightarrow> bytes \<times> nat list" where
  "lower_loop G offset [] = ([], [])"
| "lower_loop G offset (u # us) =
     (let lower = rt_to_lower G (rune_string u)
      in case lower_loop G (offset + length u) us of
           (t, ps) \<Rightarrow> (lower @ t, replicate (length lower) offset @ ps))"

definition normalizedText :: "go_rt \<Rightarrow> KeywordEngine \<Rightarrow> bytes \<Rightarrow> bytes \<times> nat list option" where
  "normalizedText G e content =
     (if ke_caseSensitive e then (content, None)
      else case lower_loop G 0 (units content) of (t, ps) \<Rightarrow> (t, Some (ps @ [length content])))"

definition source_pos :: "nat list option \<Rightarrow> nat \<Rightarrow> nat" where
  "source_pos positions i = (case positions of None \<Rightarrow> i | Some ps \<Rightarrow> ps ! i)"

abbreviation redacted :: "int \<Rightarrow> int \<Rightarrow> Span" where
  "redacted a b \<equiv> \<lparr>sp_Start = a, sp_End = b, sp_Replacement = ''[REDACTED]'', sp_Reversible = False\<rparr>"

function kw_scan :: "bytes \<Rightarrow> bytes \<Rightarrow> nat \<Rightarrow> nat list" where
  "kw_scan t key cursor =
     (if cursor < length t then
        (case str_index (drop cursor t) key of
           None \<Rightarrow> []
         | Some i \<Rightarrow> (cursor + i) # kw_scan t key (cursor + i + 1))
      else [])"
  by pat_completeness auto
termination by (relation "measure (\<lambda>(t, key, cursor). length t - cursor)") auto

declare kw_scan.simps [simp del]

definition kw_key :: "go_rt \<Rightarrow> KeywordEngine \<Rightarrow> bytes \<Rightarrow> bytes" where
  "kw_key G e word = (if ke_caseSensitive e then word else rt_to_lower G word)"

definition kw_skip :: "KeywordEngine \<Rightarrow> bytes \<Rightarrow> bool" where
  "kw_skip e key \<longleftrightarrow> key = [] \<or> key \<in> set (ke_allowlist e)"

definition hit_span :: "nat list option \<Rightarrow> bytes \<Rightarrow> nat \<Rightarrow> Span" where
  "hit_span positions key start =
     redacted (int (source_pos positions start)) (int (source_pos positions (start + length key)))"

fun word_loop :: "go_rt \<Rightarrow> KeywordEngine \<Rightarrow> bytes \<Rightarrow> nat list option \<Rightarrow> bytes list \<Rightarrow> Span list \<times> bytes \<Rightarrow> Span list \<times> bytes" where
  "word_loop G e t positions [] acc = acc"
| "word_loop G e t positions (word # ws) (spans, reason) =
     (let key = kw_key G e word
      in if kw_skip e key then word_loop G e t positions ws (spans, reason)
         else let hits = kw_scan t key 0
              in word_loop G e t positions ws
                   (spans @ map (hit_span positions key) hits,
                    if reason = [] \<and> hits \<noteq> [] then ''matched keyword: '' @ word else reason))"

fun regex_hits :: "go_rt \<Rightarrow> KeywordEngine \<Rightarrow> bytes \<Rightarrow> bytes \<Rightarrow> (int \<times> int) list \<Rightarrow> Span list \<times> bytes \<Rightarrow> Span list \<times> bytes" where
  "regex_hits G e content pat [] acc = acc"
| "regex_hits G e content pat ((a, b) # locs) (spans, reason) =
     (if a = b \<or> kw_key G e (slice content a b) \<in> set (ke_allowlist e)
      then regex_hits G e content pat locs (spans, reason)
      else regex_hits G e content pat locs
             (spans @ [redacted a b], if reason = [] then ''matched keyword pattern: '' @ pat else reason))"

fun regex_loop :: "go_rt \<Rightarrow> KeywordEngine \<Rightarrow> bytes \<Rightarrow> (bytes \<times> regexp) list \<Rightarrow> Span list \<times> bytes \<Rightarrow> Span list \<times> bytes" where
  "regex_loop G e content [] acc = acc"
| "regex_loop G e content ((pat, re) # res) acc =
     regex_loop G e content res (regex_hits G e content pat (re content) acc)"

definition matchSpans :: "go_rt \<Rightarrow> KeywordEngine \<Rightarrow> bytes \<Rightarrow> Span list \<times> bytes" where
  "matchSpans G e content =
     (case (if ke_useRegex e then regex_loop G e content (zip (ke_blocklist e) (ke_compiledRegex e)) ([], [])
            else case normalizedText G e content of
              (t, positions) \<Rightarrow> word_loop G e t positions (ke_blocklist e) ([], [])) of
        (spans, reason) \<Rightarrow> (composeSpans spans, reason))"

definition keyword_Check :: "go_rt \<Rightarrow> KeywordEngine \<Rightarrow> bytes \<Rightarrow> GuardrailResult" where
  "keyword_Check G e content =
     (case matchSpans G e content of
        (spans, reason) \<Rightarrow>
          if spans = [] then pass_result
          else \<lparr>gr_Blocked = True, gr_RuleName = ke_name e, gr_Reason = reason, gr_Severity = ''medium'',
                gr_MaskedContent = applySpans content spans, gr_ContentSnippet = [], gr_MaskedSpans = spans\<rparr>)"

section \<open>The incremental session\<close>

record keywordStreamField =
  kf_tail :: bytes
  kf_bytes :: int
  kf_final :: bool

record keywordStream =
  ks_engine :: KeywordEngine
  ks_fields :: "bytes \<Rightarrow> keywordStreamField option"
  ks_words :: "bytes list"
  ks_closed :: bool

definition keyword_NewStream :: "go_rt \<Rightarrow> gerr option \<Rightarrow> KeywordEngine \<Rightarrow> gerr + keywordStream" where
  "keyword_NewStream G ctx e =
     (case ctx of
        Some err \<Rightarrow> Inl err
      | None \<Rightarrow>
          if ke_useRegex e then Inl ErrStreamUnsupported
          else Inr \<lparr>ks_engine = e, ks_fields = Map.empty,
                    ks_words = filter (\<lambda>w. \<not> kw_skip e w) (map (kw_key G e) (ke_blocklist e)),
                    ks_closed = False\<rparr>)"

definition kw_field :: "keywordStream \<Rightarrow> bytes \<Rightarrow> keywordStreamField" where
  "kw_field s k =
     (case ks_fields s k of None \<Rightarrow> \<lparr>kf_tail = [], kf_bytes = 0, kf_final = False\<rparr> | Some f \<Rightarrow> f)"

text \<open>The two loops that lower \<open>release\<close>: over the prefixes of the words, then over the spans backwards.\<close>

definition prefix_size :: "bytes \<Rightarrow> nat list option \<Rightarrow> bytes \<Rightarrow> int \<Rightarrow> nat \<Rightarrow> int" where
  "prefix_size normal positions word release n =
     (let start = length normal - n
      in if \<not> RuneStart (normal ! start) \<or> \<not> RuneStart (word ! n) \<or> drop start normal \<noteq> take n word
         then release
         else let p = int (source_pos positions start) in if p < release then p else release)"

definition prefix_word :: "bytes \<Rightarrow> nat list option \<Rightarrow> int \<Rightarrow> bytes \<Rightarrow> int" where
  "prefix_word normal positions release word =
     foldl (prefix_size normal positions word) release [1..<min (length word) (Suc (length normal))]"

definition hold_span :: "int \<Rightarrow> Span \<Rightarrow> int" where
  "hold_span release sp =
     (if sp_Start sp < release \<and> sp_End sp > release then sp_Start sp else release)"

definition keyword_Push :: "go_rt \<Rightarrow> gerr option \<Rightarrow> keywordStream \<Rightarrow> StreamFragment \<Rightarrow> (gerr + StreamVerdict) \<times> keywordStream" where
  "keyword_Push G ctx s f =
     (case ctx of
        Some err \<Rightarrow> (Inl err, s)
      | None \<Rightarrow>
        if ks_closed s then (Inl (Err ''keyword stream already closed''), s)
        else if \<not> valid_utf8 (sf_Text f) then (Inl (Err ''invalid UTF-8 keyword stream fragment''), s)
        else
          let field = kw_field s (sf_Key f)
          in if kf_final field then (Inl (Err ''keyword field already completed''), s)
          else
            let t = kf_tail field @ sf_Text f;
                base = kf_bytes field - int (length (kf_tail field));
                total = kf_bytes field + int (length (sf_Text f));
                (spans, reason) = matchSpans G (ks_engine s) t;
                release0 = int (length t);
                release1 = (if sf_Final f then release0
                            else case normalizedText G (ks_engine s) t of
                              (normal, positions) \<Rightarrow> foldl (prefix_word normal positions) release0 (ks_words s));
                release = foldl hold_span release1 (rev spans);
                v = \<lparr>sv_CheckedThrough = total, sv_ReleaseThrough = base + release,
                     sv_Result = (if spans = [] then None else Some
                       \<lparr>gr_Blocked = True, gr_RuleName = ke_name (ks_engine s), gr_Reason = reason,
                        gr_Severity = ''medium'', gr_MaskedContent = [], gr_ContentSnippet = [],
                        gr_MaskedSpans = []\<rparr>),
                     sv_Spans = map (\<lambda>sp. sp\<lparr>sp_Start := sp_Start sp + base, sp_End := sp_End sp + base\<rparr>)
                                  (filter (\<lambda>sp. \<not> sp_End sp > release) spans),
                     sv_BlockStart = (case spans of [] \<Rightarrow> None | sp # _ \<Rightarrow> Some (base + sp_Start sp))\<rparr>;
                field' = \<lparr>kf_tail = drop (nat release) t, kf_bytes = total, kf_final = sf_Final f\<rparr>
            in (Inr v, s\<lparr>ks_fields := (ks_fields s)(sf_Key f \<mapsto> field')\<rparr>))"

definition keyword_Close :: "keywordStream \<Rightarrow> keywordStream" where
  "keyword_Close s = s\<lparr>ks_closed := True, ks_fields := Map.empty, ks_words := []\<rparr>"

section \<open>Searching\<close>

lemma filter_upt_first:
  assumes "c \<le> n" "n < m" "P n" "\<forall>i. c \<le> i \<and> i < n \<longrightarrow> \<not> P i"
  shows "filter P [c..<m] = n # filter P [Suc n..<m]"
proof -
  have "[c..<m] = [c..<n] @ n # [Suc n..<m]"
    using assms(1,2) by (metis le_add_diff_inverse less_imp_le_nat upt_add_eq_append upt_conv_Cons)
  moreover have "filter P [c..<n] = []" using assms(4) by (auto simp: filter_empty_conv)
  ultimately show ?thesis using assms(3) by simp
qed

lemma kw_scan_filter:
  "key \<noteq> [] \<Longrightarrow> kw_scan t key c = filter (occurs_at key t) [c..<length t]"
proof (induction t key c rule: kw_scan.induct)
  case (1 t key c)
  show ?case
  proof (cases "c < length t")
    case False
    then show ?thesis by (simp add: kw_scan.simps)
  next
    case True
    show ?thesis
    proof (cases "str_index (drop c t) key")
      case None
      then have "\<not> occurs_at key t (c + i)" for i
        using str_index_None [OF 1(2) None, of i] by (simp add: occurs_at_drop)
      then have "filter (occurs_at key t) [c..<length t] = []"
        by (auto simp: filter_empty_conv) (metis le_add_diff_inverse)
      then show ?thesis using None by (simp add: kw_scan.simps)
    next
      case (Some n)
      from str_index_Some [OF 1(2) Some]
      have n: "occurs_at key t (c + n)" "\<forall>i<n. \<not> occurs_at key t (c + i)"
        by (simp_all add: occurs_at_drop)
      have "\<forall>i. c \<le> i \<and> i < c + n \<longrightarrow> \<not> occurs_at key t i"
        using n(2) by (metis add_less_cancel_left le_add_diff_inverse)
      moreover have "c + n < length t"
        using occurs_at_bound [OF n(1) 1(2)] 1(2) length_greater_0_conv [of key] by linarith
      ultimately have "filter (occurs_at key t) [c..<length t] = (c + n) # filter (occurs_at key t) [Suc (c + n)..<length t]"
        using n(1) by (intro filter_upt_first) auto
      moreover have "kw_scan t key (c + n + 1) = filter (occurs_at key t) [c + n + 1..<length t]"
        using 1(1) [OF True Some 1(2)] .
      ultimately show ?thesis using True Some by (subst kw_scan.simps) simp
    qed
  qed
qed

section \<open>The release position\<close>

definition candidate :: "bytes \<Rightarrow> bytes \<Rightarrow> nat \<Rightarrow> bool" where
  "candidate normal w n \<longleftrightarrow>
     0 < n \<and> n < length w \<and> n \<le> length normal \<and> RuneStart (normal ! (length normal - n)) \<and>
     RuneStart (w ! n) \<and> drop (length normal - n) normal = take n w"

lemma foldl_lower:
  fixes v :: "'a \<Rightarrow> int"
  assumes "\<And>r x. x \<in> set xs \<Longrightarrow> step r x = (if P x then min r (v x) else r)"
  shows "foldl step r xs \<le> r \<and> (\<forall>x\<in>set xs. P x \<longrightarrow> foldl step r xs \<le> v x) \<and>
    (foldl step r xs = r \<or> (\<exists>x\<in>set xs. P x \<and> foldl step r xs = v x))"
  using assms
proof (induction xs arbitrary: r)
  case (Cons y ys)
  have y: "step r y = (if P y then min r (v y) else r)" using Cons.prems by simp
  have "foldl step (step r y) ys \<le> step r y \<and> (\<forall>x\<in>set ys. P x \<longrightarrow> foldl step (step r y) ys \<le> v x) \<and>
    (foldl step (step r y) ys = step r y \<or> (\<exists>x\<in>set ys. P x \<and> foldl step (step r y) ys = v x))"
    using Cons.prems by (intro Cons.IH) simp
  then show ?case using y by (cases "P y"; cases "r \<le> v y") (auto simp: min_def)
qed simp

lemma prefix_size_min:
  assumes "n \<in> set [1..<min (length w) (Suc (length normal))]"
  shows "prefix_size normal positions w r n =
     (if candidate normal w n then min r (int (source_pos positions (length normal - n))) else r)"
proof -
  have "0 < n" "n < length w" "n \<le> length normal" using assms by auto
  then show ?thesis by (auto simp: prefix_size_def candidate_def Let_def min_def)
qed

lemma foldl_concat_map: "foldl (\<lambda>r w. foldl (g w) r (h w)) r W =
  foldl (\<lambda>r (w, n). g w r n) r (concat (map (\<lambda>w. map (Pair w) (h w)) W))"
proof (induction W arbitrary: r)
  case (Cons w W)
  have "foldl (\<lambda>r (w, n). g w r n) r (map (Pair w) xs) = foldl (g w) r xs" for r xs
    by (induction xs arbitrary: r) auto
  then show ?case using Cons by simp
qed simp

lemma prefix_words:
  fixes r0 :: int and normal :: bytes and positions :: "nat list option" and W :: "bytes list"
  defines "r \<equiv> foldl (prefix_word normal positions) r0 W"
  shows "r \<le> r0"
    and "w \<in> set W \<Longrightarrow> candidate normal w n \<Longrightarrow> r \<le> int (source_pos positions (length normal - n))"
    and "r = r0 \<or> (\<exists>w\<in>set W. \<exists>n. candidate normal w n \<and> r = int (source_pos positions (length normal - n)))"
proof -
  let ?h = "\<lambda>w. [1..<min (length w) (Suc (length normal))]"
  let ?xs = "concat (map (\<lambda>w. map (Pair w) (?h w)) W)"
  let ?P = "\<lambda>(w, n). candidate normal w n"
  let ?v = "\<lambda>(w :: bytes, n). int (source_pos positions (length normal - n))"
  have r: "r = foldl (\<lambda>r (w, n). prefix_size normal positions w r n) r0 ?xs"
    unfolding r_def prefix_word_def [abs_def] by (rule foldl_concat_map)
  have step: "(case x of (w, n) \<Rightarrow> prefix_size normal positions w q n) = (if ?P x then min q (?v x) else q)"
    if "x \<in> set ?xs" for q x
    using that by (auto simp: prefix_size_min)
  note low = foldl_lower [where step = "\<lambda>r (w, n). prefix_size normal positions w r n" and P = ?P and v = ?v
      and xs = ?xs and r = r0, OF step, folded r]
  show "r \<le> r0" using low by simp
  show "r \<le> int (source_pos positions (length normal - n))" if "w \<in> set W" "candidate normal w n"
  proof -
    have "(w, n) \<in> set ?xs"
      using that by (auto simp: candidate_def image_iff intro!: bexI [of _ w])
    then show ?thesis using low that(2) by (metis (no_types, lifting) case_prod_conv)
  qed
  show "r = r0 \<or> (\<exists>w\<in>set W. \<exists>n. candidate normal w n \<and> r = int (source_pos positions (length normal - n)))"
    using low by auto
qed

lemma hold_spans:
  fixes r0 :: int
  assumes "disjoint_spans sps" "\<forall>s\<in>set sps. proper s"
  defines "r \<equiv> foldl hold_span r0 (rev sps)"
  shows "r \<le> r0 \<and> (\<forall>s\<in>set sps. \<not> (sp_Start s < r \<and> r < sp_End s)) \<and>
         (r = r0 \<or> (\<exists>s\<in>set sps. r = sp_Start s))"
  using assms(1,2) unfolding r_def
proof (induction sps)
  case (Cons x sps)
  define q where "q = foldl hold_span r0 (rev sps)"
  have IH: "q \<le> r0" "\<forall>s\<in>set sps. \<not> (sp_Start s < q \<and> q < sp_End s)"
    "q = r0 \<or> (\<exists>s\<in>set sps. q = sp_Start s)" using Cons by (auto simp: q_def)
  have e: "foldl hold_span r0 (rev (x # sps)) = hold_span q x" by (simp add: q_def)
  have later: "sp_Start x < sp_Start s" if "s \<in> set sps" for s
    using Cons.prems that by (force simp: proper_def)
  show ?case
  proof (cases "sp_Start x < q \<and> sp_End x > q")
    case True
    then show ?thesis unfolding e using IH(1) later by (force simp: hold_span_def)
  next
    case False
    then show ?thesis unfolding e using IH by (auto simp: hold_span_def)
  qed
qed simp

section \<open>Texts and their normal form\<close>

text \<open>
  What the incremental session needs of the normal form of a text: it maps rune by rune to a rune,
  and positions between runes are mapped back to positions between runes. The words are searched in
  the normal form and reported as regions of the text.
\<close>

definition word_ok :: "bytes \<Rightarrow> bool" where
  "word_ok w \<longleftrightarrow> valid_utf8 w \<and> w \<noteq> []"

definition occ_spans :: "(bytes \<Rightarrow> bytes) \<Rightarrow> (bytes \<Rightarrow> nat \<Rightarrow> nat) \<Rightarrow> bytes list \<Rightarrow> bytes \<Rightarrow> Span list" where
  "occ_spans nt ps W t =
     concat (map (\<lambda>w. map (\<lambda>i. redacted (int (ps t i)) (int (ps t (i + length w))))
                          (filter (occurs_at w (nt t)) [0..<length (nt t)])) W)"

definition no_straddle :: "bytes list \<Rightarrow> bytes \<Rightarrow> nat \<Rightarrow> bool" where
  "no_straddle W n m \<longleftrightarrow> (\<forall>w\<in>set W. \<forall>i<m. occurs_at w n i \<longrightarrow> i + length w \<le> m)"

lemma hold_fin:
  "\<forall>s\<in>set spans. sp_End s \<le> r \<Longrightarrow> foldl hold_span r (rev spans) = r"
  by (induction spans) (auto simp: hold_span_def)

lemma occurs_at_prefix: "occurs_at w s i \<Longrightarrow> w \<noteq> [] \<Longrightarrow> occurs_at w (s @ t) i"
  using occurs_at_bound [of w s i] by (simp add: occurs_at_append)

text \<open>
  What a field of the session stands for: the text \<open>T\<close> pushed so far is the released part \<open>R\<close> and
  the tail, the spans reported so far are those of \<open>R\<close>, and no word crosses the end of \<open>R\<close>,
  whatever follows.
\<close>

definition field_inv :: "(bytes \<Rightarrow> bytes) \<Rightarrow> (bytes \<Rightarrow> nat \<Rightarrow> nat) \<Rightarrow> bytes list \<Rightarrow> keywordStreamField \<Rightarrow> bytes \<Rightarrow> bytes \<Rightarrow> Span list \<Rightarrow> bool" where
  "field_inv nt ps W d T R rep \<longleftrightarrow>
     valid_utf8 R \<and> valid_utf8 (kf_tail d) \<and> T = R @ kf_tail d \<and> kf_bytes d = int (length T) \<and>
     rep = composeSpans (occ_spans nt ps W R) \<and> (kf_final d \<longrightarrow> kf_tail d = []) \<and>
     (\<forall>x. valid_utf8 x \<longrightarrow> (kf_final d \<longrightarrow> x = []) \<longrightarrow> no_straddle W (nt (T @ x)) (length (nt R)))"

lemma filter_shifted:
  assumes "\<And>s. s \<in> set xs \<Longrightarrow> sp_End s \<le> r" "\<And>s. s \<in> set ys \<Longrightarrow> 0 < sp_End s"
  shows "filter (\<lambda>s. \<not> sp_End s > r) (xs @ map (shift_span r) ys) = xs"
proof -
  have "filter (\<lambda>s. \<not> sp_End s > r) xs = xs" using assms(1) by (auto simp: filter_id_conv not_less)
  moreover have "filter (\<lambda>s. \<not> sp_End s > r) (map (shift_span r) ys) = []"
    using assms(2) by (fastforce simp: filter_empty_conv)
  ultimately show ?thesis by simp
qed

locale rune_text =
  fixes L :: "bytes \<Rightarrow> bytes" and nt :: "bytes \<Rightarrow> bytes" and ps :: "bytes \<Rightarrow> nat \<Rightarrow> nat"
  assumes L_rune: "is_rune u \<Longrightarrow> is_rune (L u)"
    and nt_concat: "list_all is_rune us \<Longrightarrow> nt (concat us) = concat (map L us)"
    and ps_concat: "list_all is_rune us \<Longrightarrow> k \<le> length us \<Longrightarrow>
      ps (concat us) (length (concat (map L (take k us)))) = length (concat (take k us))"
begin

lemma L_runes: "list_all is_rune us \<Longrightarrow> list_all is_rune (map L us)"
  using L_rune by (simp add: list_all_iff)

lemma nt_append: "valid_utf8 a \<Longrightarrow> valid_utf8 b \<Longrightarrow> nt (a @ b) = nt a @ nt b"
proof -
  assume "valid_utf8 a" "valid_utf8 b"
  then obtain us vs where "list_all is_rune us" "a = concat us" "list_all is_rune vs" "b = concat vs"
    by (metis valid_runes)
  then show ?thesis using nt_concat [of "us @ vs"] nt_concat [of us] nt_concat [of vs] by simp
qed

lemma nt_Nil [simp]: "nt [] = []"
  using nt_concat [of "[]"] by simp

lemma boundary_map:
  assumes "boundary (map L us) i"
  obtains k where "k \<le> length us" "i = length (concat (map L (take k us)))"
  using assms by (auto simp: boundary_def take_map)

lemma occurs_boundary:
  assumes "list_all is_rune us" "word_ok w" "occurs_at w (nt (concat us)) i"
  obtains k l where "k < l" "l \<le> length us" "i = length (concat (map L (take k us)))"
    "i + length w = length (concat (map L (take l us)))"
proof -
  obtain ws where ws: "list_all is_rune ws" "w = concat ws" using assms(2) valid_runes
    unfolding word_ok_def by metis
  then have "ws \<noteq> []" using assms(2) by (auto simp: word_ok_def)
  then have b: "boundary (map L us) i" "boundary (map L us) (i + length w)"
    using occurs_at_boundaries [OF L_runes [OF assms(1)] ws(1)] assms nt_concat ws(2) by auto
  from b(1) obtain k where k: "k \<le> length us" "i = length (concat (map L (take k us)))"
    by (rule boundary_map)
  from b(2) obtain l where l: "l \<le> length us" "i + length w = length (concat (map L (take l us)))"
    by (rule boundary_map)
  have "k < l"
  proof (rule ccontr)
    assume "\<not> k < l"
    then have "take k us = take l us @ take (k - l) (drop l us)"
      by (metis le_add_diff_inverse linorder_not_less take_add)
    then have "i + length w \<le> i" using k(2) l(2) by simp
    then show False using assms(2) by (simp add: word_ok_def)
  qed
  then show ?thesis using that k l by blast
qed

lemma ps_split:
  assumes "list_all is_rune us" "list_all is_rune vs" "k \<le> length vs"
  shows "ps (concat us @ concat vs) (length (nt (concat us)) + length (concat (map L (take k vs)))) =
         length (concat us) + ps (concat vs) (length (concat (map L (take k vs))))"
  using ps_concat [of "us @ vs" "length us + k"] ps_concat [OF assms(2,3)] assms
  by (simp add: nt_concat)

lemma ps_left:
  assumes "list_all is_rune us" "list_all is_rune vs" "k \<le> length us"
  shows "ps (concat us @ concat vs) (length (concat (map L (take k us)))) =
         ps (concat us) (length (concat (map L (take k us))))"
  using ps_concat [of "us @ vs" k] ps_concat [OF assms(1,3)] assms by simp

lemma occ_span_proper:
  assumes "list_all is_rune us" "word_ok w" "occurs_at w (nt (concat us)) i"
  shows "ps (concat us) i < ps (concat us) (i + length w)"
    and "ps (concat us) (i + length w) \<le> length (concat us)"
proof -
  obtain k l where kl: "k < l" "l \<le> length us" "i = length (concat (map L (take k us)))"
    "i + length w = length (concat (map L (take l us)))"
    by (rule occurs_boundary [OF assms])
  then have p: "ps (concat us) i = length (concat (take k us))"
    "ps (concat us) (i + length w) = length (concat (take l us))"
    using ps_concat [OF assms(1)] by simp_all
  show "ps (concat us) i < ps (concat us) (i + length w)"
    unfolding p using length_take_mono [OF assms(1) kl(1,2)] .
  have "length (concat us) = length (concat (take l us)) + length (concat (drop l us))"
    by (metis append_take_drop_id concat_append length_append)
  then show "ps (concat us) (i + length w) \<le> length (concat us)" unfolding p by simp
qed

lemma occ_spans_in:
  assumes "valid_utf8 t" "list_all word_ok W" "s \<in> set (occ_spans nt ps W t)"
  shows "proper s \<and> sp_End s \<le> int (length t)"
proof -
  obtain us where us: "list_all is_rune us" "t = concat us" using assms(1) valid_runes by metis
  obtain w i where w: "w \<in> set W" "occurs_at w (nt t) i"
    "s = redacted (int (ps t i)) (int (ps t (i + length w)))"
    using assms(3) by (auto simp: occ_spans_def)
  have "word_ok w" using w(1) assms(2) by (simp add: list_all_iff)
  from occ_span_proper [OF us(1) this] w us(2) show ?thesis by (simp add: proper_def)
qed

lemma uniform_occ: "uniform (occ_spans nt ps W t)"
  by (auto simp: uniform_def occ_spans_def)

lemma occ_word_split:
  assumes a: "list_all is_rune us" and b: "list_all is_rune vs" and w: "word_ok w"
    and ns: "\<forall>i<length (nt (concat us)). occurs_at w (nt (concat us @ concat vs)) i \<longrightarrow>
               i + length w \<le> length (nt (concat us))"
  defines "A \<equiv> concat us" and "B \<equiv> concat vs"
  defines "f \<equiv> \<lambda>t i. redacted (int (ps t i)) (int (ps t (i + length w)))"
  shows "map (f (A @ B)) (filter (occurs_at w (nt (A @ B))) [0..<length (nt (A @ B))]) =
         map (f A) (filter (occurs_at w (nt A)) [0..<length (nt A)]) @
         map (shift_span (int (length A))) (map (f B) (filter (occurs_at w (nt B)) [0..<length (nt B)]))"
proof -
  let ?m = "length (nt A)" and ?n = "length (nt B)"
  have ntAB: "nt (A @ B) = nt A @ nt B"
    using a b by (simp add: A_def B_def nt_append valid_concat)
  have ne: "0 < length w" using w by (simp add: word_ok_def)
  have "map (\<lambda>i. ?m + i) [0..<?n] = [?m..<?m + ?n]"
    using map_add_upt [of ?m ?n] by (simp add: add.commute)
  then have up: "[0..<?m + ?n] = [0..<?m] @ map (\<lambda>i. ?m + i) [0..<?n]"
    using upt_add_eq_append [of 0 ?m ?n] by simp
  have left: "occurs_at w (nt A @ nt B) i = occurs_at w (nt A) i" if "i < ?m" for i
  proof
    assume "occurs_at w (nt A @ nt B) i"
    then show "occurs_at w (nt A) i"
      using ns that ntAB occurs_at_append [of i w "nt A" "nt B"] by (simp add: A_def B_def)
  next
    assume o: "occurs_at w (nt A) i"
    then show "occurs_at w (nt A @ nt B) i"
      using occurs_at_bound [OF o] ne occurs_at_append [of i w "nt A" "nt B"] by auto
  qed
  have f1: "f (A @ B) i = f A i" if o: "occurs_at w (nt A) i" for i
  proof -
    obtain k l where "k < l" "l \<le> length us" "i = length (concat (map L (take k us)))"
      "i + length w = length (concat (map L (take l us)))"
      by (rule occurs_boundary [OF a w o [unfolded A_def]])
    then show ?thesis using ps_left [OF a b] by (simp add: f_def A_def B_def)
  qed
  have f2: "f (A @ B) (?m + i) = shift_span (int (length A)) (f B i)" if o: "occurs_at w (nt B) i" for i
  proof -
    obtain k l where "k < l" "l \<le> length vs" "i = length (concat (map L (take k vs)))"
      "i + length w = length (concat (map L (take l vs)))"
      by (rule occurs_boundary [OF b w o [unfolded B_def]])
    then show ?thesis using ps_split [OF a b, of k] ps_split [OF a b, of l]
      by (simp add: f_def A_def B_def shift_span_def add.assoc)
  qed
  have "map (f (A @ B)) (filter (occurs_at w (nt A @ nt B)) [0..<?m]) =
        map (f A) (filter (occurs_at w (nt A)) [0..<?m])"
  proof -
    have e: "filter (occurs_at w (nt A @ nt B)) [0..<?m] = filter (occurs_at w (nt A)) [0..<?m]"
      by (rule filter_cong) (simp_all add: left)
    show ?thesis unfolding e by (rule map_cong) (simp_all add: f1)
  qed
  moreover have "map (f (A @ B)) (filter (occurs_at w (nt A @ nt B)) (map (\<lambda>i. ?m + i) [0..<?n])) =
        map (shift_span (int (length A))) (map (f B) (filter (occurs_at w (nt B)) [0..<?n]))"
  proof -
    have e: "filter (occurs_at w (nt A @ nt B)) (map (\<lambda>i. ?m + i) [0..<?n]) =
        map (\<lambda>i. ?m + i) (filter (occurs_at w (nt B)) [0..<?n])"
      by (simp add: filter_map o_def occurs_at_shift)
    show ?thesis unfolding e map_map o_def by (rule map_cong) (simp_all add: f2)
  qed
  ultimately show ?thesis by (simp add: ntAB up)
qed

lemma mset_concat_append:
  "(\<And>x. x \<in> set xs \<Longrightarrow> f x = g x @ map c (h x)) \<Longrightarrow>
   mset (concat (map f xs)) = mset (concat (map g xs) @ map c (concat (map h xs)))"
  by (induction xs) auto

lemma compose_occ_split:
  assumes a: "valid_utf8 A" and b: "valid_utf8 B" and W: "list_all word_ok W"
    and ns: "no_straddle W (nt (A @ B)) (length (nt A))"
  shows "composeSpans (occ_spans nt ps W (A @ B)) =
         composeSpans (occ_spans nt ps W A) @
         map (shift_span (int (length A))) (composeSpans (occ_spans nt ps W B))"
proof -
  obtain us vs where us: "list_all is_rune us" "A = concat us" "list_all is_rune vs" "B = concat vs"
    using a b by (metis valid_runes)
  let ?O = "occ_spans nt ps W"
  have "mset (?O (A @ B)) = mset (?O A @ map (shift_span (int (length A))) (?O B))"
    unfolding occ_spans_def
  proof (rule mset_concat_append)
    fix w assume w: "w \<in> set W"
    then have "word_ok w" using W by (simp add: list_all_iff)
    from occ_word_split [OF us(1,3) this] ns w
    show "map (\<lambda>i. redacted (int (ps (A @ B) i)) (int (ps (A @ B) (i + length w))))
       (filter (occurs_at w (nt (A @ B))) [0..<length (nt (A @ B))]) =
      map (\<lambda>i. redacted (int (ps A i)) (int (ps A (i + length w)))) (filter (occurs_at w (nt A)) [0..<length (nt A)]) @
      map (shift_span (int (length A)))
       (map (\<lambda>i. redacted (int (ps B i)) (int (ps B (i + length w)))) (filter (occurs_at w (nt B)) [0..<length (nt B)]))"
      by (simp add: us(2,4) no_straddle_def)
  qed
  moreover have "\<forall>s\<in>set (?O A). sp_End s \<le> int (length A) \<and> sp_Start s < int (length A)"
    using occ_spans_in [OF a W] by (fastforce simp: proper_def)
  moreover have "\<forall>s\<in>set (?O B). 0 \<le> sp_Start s" using occ_spans_in [OF b W] by (auto simp: proper_def)
  ultimately have "composeSpans (?O (A @ B)) =
      composeSpans (?O A) @ composeSpans (map (shift_span (int (length A))) (?O B))"
    by (intro composeSpans_append [where c = "int (length A)"] uniform_occ) auto
  then show ?thesis using composeSpans_shift [OF uniform_occ, of "int (length A)" W B]
      occ_spans_in [OF b W] by (auto simp: proper_def)
qed

lemma take_index_less:
  assumes "i < length (concat (map L (take k us)))" "i = length (concat (map L (take a us)))"
  shows "a < k"
proof (rule ccontr)
  assume "\<not> a < k"
  then have "take a us = take k us @ take (a - k) (drop k us)"
    by (metis le_add_diff_inverse linorder_not_less take_add)
  then show False using assms by simp
qed

text \<open>A match inside the text that starts before a position inside no composed span ends before it.\<close>

lemma cut_inside:
  assumes us: "list_all is_rune us" and w: "word_ok w" and W: "w \<in> set W" and k: "k \<le> length us"
    and hold: "\<And>r. r \<in> set (composeSpans (occ_spans nt ps W (concat us))) \<Longrightarrow>
      \<not> (sp_Start r < int (length (concat (take k us))) \<and> int (length (concat (take k us))) < sp_End r)"
    and i: "i < length (concat (map L (take k us)))" and o: "occurs_at w (nt (concat us)) i"
  shows "i + length w \<le> length (concat (map L (take k us)))"
proof -
  let ?t = "concat us" and ?r = "length (concat (take k us))"
  obtain a b where ab: "a < b" "b \<le> length us" "i = length (concat (map L (take a us)))"
    "i + length w = length (concat (map L (take b us)))"
    by (rule occurs_boundary [OF us w o])
  have ak: "a < k" by (rule take_index_less [OF i ab(3)])
  have psi: "ps ?t i = length (concat (take a us))" "ps ?t (i + length w) = length (concat (take b us))"
    using ps_concat [OF us] ab by simp_all
  let ?s = "redacted (int (ps ?t i)) (int (ps ?t (i + length w)))"
  have "i + length w \<le> length (nt ?t)" "0 < length w"
    using w occurs_at_bound [OF o] by (simp_all add: word_ok_def)
  then have "i < length (nt ?t)" by linarith
  then have "?s \<in> set (occ_spans nt ps W ?t)"
    using W o unfolding occ_spans_def by (auto intro!: bexI [of _ w] imageI)
  moreover have "proper ?s" using occ_span_proper(1) [OF us w o] by (simp add: proper_def)
  ultimately obtain r where r: "r \<in> set (composeSpans (occ_spans nt ps W ?t))"
    "sp_Start r \<le> int (ps ?t i)" "int (ps ?t (i + length w)) \<le> sp_End r"
    using composeSpans_contains [of ?s] by auto
  have "length (concat (take a us)) < ?r" by (rule length_take_mono [OF us ak k])
  then have "\<not> ?r < length (concat (take b us))" using hold [OF r(1)] r(2,3) psi by linarith
  then have "b \<le> k" using length_take_mono [OF us _ ab(2), of k] by (meson not_le)
  then have "take k us = take b us @ take (k - b) (drop b us)"
    by (metis le_add_diff_inverse take_add)
  then show ?thesis unfolding ab(4) by simp
qed

text \<open>A match that runs over the end of the text leaves a prefix of the word that the session finds.\<close>

lemma prefix_found:
  assumes us: "list_all is_rune us" and w: "word_ok w"
    and d: "drop i (nt (concat us)) = take n w" and n: "0 < n" "n < length w" "i < length (nt (concat us))"
  shows "RuneStart (nt (concat us) ! i) \<and> RuneStart (w ! n) \<and> boundary (map L us) i"
proof -
  let ?N = "nt (concat us)"
  have N: "?N = concat (map L us)" using us by (rule nt_concat)
  obtain ws where ws: "list_all is_rune ws" "w = concat ws" using w valid_runes
    unfolding word_ok_def by metis
  have "?N ! i = hd (take n w)" using d n(3) by (metis hd_drop_conv_nth)
  also have "\<dots> = hd w" using n by simp
  also have "\<dots> = hd (hd ws)" using ws w by (cases ws) (auto simp: is_rune_def word_ok_def)
  finally have rs: "RuneStart (?N ! i)"
    using ws w is_rune_hd [of "hd ws"] by (cases ws) (auto simp: word_ok_def)
  then have b: "boundary (map L us) i"
    using boundary_RuneStart [OF L_runes [OF us], of i] n unfolding N by simp
  then obtain a where a: "a \<le> length us" "i = length (concat (map L (take a us)))"
    by (rule boundary_map)
  have d': "drop i ?N = concat (map L (drop a us))"
    unfolding N a(2) by (metis append_eq_conv_conj append_take_drop_id concat_append map_append)
  have runes: "list_all is_rune (map L (drop a us))"
    using L_runes us by (auto simp: list_all_iff dest: in_set_dropD)
  let ?p = "length (map L (drop a us))"
  have "concat ws = concat (map L (drop a us)) @ drop n w"
    using d d' ws(2) by (metis append_take_drop_id)
  then have pre: "take ?p ws = map L (drop a us)" by (rule concat_prefix_runes [OF runes ws(1)])
  have nlen: "length (concat (take ?p ws)) = n" unfolding pre d' [symmetric] d using n by simp
  have p: "?p < length ws"
  proof (rule ccontr)
    assume "\<not> ?p < length ws"
    then have "length w = n" using nlen ws(2) by simp
    then show False using n by simp
  qed
  then have "w = concat (take ?p ws) @ ws ! ?p @ concat (drop (Suc ?p) ws)"
    unfolding ws(2) by (metis concat.simps(2) concat_append id_take_nth_drop)
  then have "drop n w = ws ! ?p @ concat (drop (Suc ?p) ws)"
    using nlen by (metis append_eq_conv_conj)
  moreover have r: "is_rune (ws ! ?p)" using ws(1) p by (simp add: list_all_length)
  ultimately have "w ! n = hd (ws ! ?p)"
    using n by (metis hd_append2 hd_drop_conv_nth is_rune_def)
  then show ?thesis using is_rune_hd [OF r] rs b by simp
qed

text \<open>The position the session releases up to: below every candidate and inside no span.\<close>

lemma cut_safe:
  assumes us: "list_all is_rune us" and w: "word_ok w" and W: "w \<in> set W" and k: "k \<le> length us"
    and x: "valid_utf8 x"
    and cand: "\<And>n. 0 < n \<Longrightarrow> n < length w \<Longrightarrow> n \<le> length (nt (concat us)) \<Longrightarrow>
      RuneStart (nt (concat us) ! (length (nt (concat us)) - n)) \<Longrightarrow> RuneStart (w ! n) \<Longrightarrow>
      drop (length (nt (concat us)) - n) (nt (concat us)) = take n w \<Longrightarrow>
      length (concat (take k us)) \<le> ps (concat us) (length (nt (concat us)) - n)"
    and hold: "\<And>r. r \<in> set (composeSpans (occ_spans nt ps W (concat us))) \<Longrightarrow>
      \<not> (sp_Start r < int (length (concat (take k us))) \<and> int (length (concat (take k us))) < sp_End r)"
    and i: "i < length (concat (map L (take k us)))" and o: "occurs_at w (nt (concat us @ x)) i"
  shows "i + length w \<le> length (concat (map L (take k us)))"
proof -
  let ?N = "nt (concat us)"
  have ntx: "nt (concat us @ x) = ?N @ nt x" using us x by (simp add: nt_append valid_concat)
  have iN: "i < length ?N"
  proof -
    have "concat (map L us) = concat (map L (take k us)) @ concat (map L (drop k us))"
      by (metis append_take_drop_id concat_append map_append)
    then show ?thesis using i nt_concat [OF us] by simp
  qed
  show ?thesis
  proof (cases "i + length w \<le> length ?N")
    case True
    then have "occurs_at w ?N i" using o ntx by (simp add: occurs_at_append)
    from cut_inside [OF us w W k hold i this] show ?thesis .
  next
    case False
    define n where "n = length ?N - i"
    have n: "0 < n" "n \<le> length ?N" "n < length w" "i = length ?N - n"
      using iN False by (auto simp: n_def)
    have "take (length w) (drop i ?N @ nt x) = w" using o ntx iN by (simp add: occurs_at_def)
    moreover have "length (drop i ?N) = n" by (simp add: n_def)
    then have "take n (take (length w) (drop i ?N @ nt x)) = drop i ?N" using n(3) by simp
    ultimately have tn: "drop i ?N = take n w" by simp
    from prefix_found [OF us w tn n(1,3) iN]
    have f: "RuneStart (?N ! i)" "RuneStart (w ! n)" "boundary (map L us) i" by auto
    from f(3) obtain a where a: "a \<le> length us" "i = length (concat (map L (take a us)))"
      by (rule boundary_map)
    have "length (concat (take k us)) \<le> ps (concat us) i"
      using cand [OF n(1) n(3) n(2)] f(1,2) tn n(4) by simp
    also have "\<dots> = length (concat (take a us))" using ps_concat [OF us a(1)] a(2) by simp
    finally show ?thesis using length_take_mono [OF us take_index_less [OF i a(2)] k] by simp
  qed
qed

text \<open>One step of the session: where it cuts, and that no later text can make a word cross the cut.\<close>

lemma cut_position:
  assumes us: "list_all is_rune us" and W: "list_all word_ok W"
    and r1: "r1 = int (length (concat us)) \<or>
      (\<exists>w\<in>set W. \<exists>n. candidate (nt (concat us)) w n \<and> r1 = int (ps (concat us) (length (nt (concat us)) - n)))"
    and r: "r = r1 \<or> (\<exists>s\<in>set (composeSpans (occ_spans nt ps W (concat us))). r = sp_Start s)"
  shows "\<exists>k\<le>length us. r = int (length (concat (take k us)))"
proof -
  let ?t = "concat us"
  have pos: "\<exists>k\<le>length us. int (ps ?t i) = int (length (concat (take k us)))" if b: "boundary (map L us) i" for i
  proof -
    obtain k where "k \<le> length us" "i = length (concat (map L (take k us)))" by (rule boundary_map [OF b])
    then show ?thesis using ps_concat [OF us] by auto
  qed
  from r consider (start) s where "s \<in> set (composeSpans (occ_spans nt ps W ?t))" "r = sp_Start s"
    | (all) "r = int (length ?t)"
    | (cand) w n where "candidate (nt ?t) w n" "r = int (ps ?t (length (nt ?t) - n))"
    using r1 by blast
  then show ?thesis
  proof cases
    case start
    then obtain s' where "s' \<in> set (occ_spans nt ps W ?t)" "r = sp_Start s'"
      using composeSpans_start [OF start(1)] by auto
    then obtain w i where w: "w \<in> set W" "occurs_at w (nt ?t) i" "r = int (ps ?t i)"
      by (auto simp: occ_spans_def)
    have "word_ok w" using W w(1) by (simp add: list_all_iff)
    then obtain k l where "k < l" "l \<le> length us" "i = length (concat (map L (take k us)))"
      by (rule occurs_boundary [OF us _ w(2)])
    then show ?thesis using ps_concat [OF us, of k] w(3) by (intro exI [of _ k]) simp
  next
    case all
    then show ?thesis by (intro exI [of _ "length us"]) simp
  next
    case cand
    then have "boundary (map L us) (length (nt ?t) - n)"
      using boundary_RuneStart [OF L_runes [OF us], of "length (nt ?t) - n"] nt_concat [OF us]
      by (auto simp: candidate_def)
    then show ?thesis using pos cand(2) by simp
  qed
qed

lemma cut_exists:
  assumes t: "valid_utf8 t" and W: "list_all word_ok W"
    and sp: "spans = composeSpans (occ_spans nt ps W t)"
    and r1: "fin \<Longrightarrow> r1 = int (length t)"
      "\<And>w n. \<not> fin \<Longrightarrow> w \<in> set W \<Longrightarrow> candidate (nt t) w n \<Longrightarrow> r1 \<le> int (ps t (length (nt t) - n))"
      "r1 = int (length t) \<or> (\<exists>w\<in>set W. \<exists>n. candidate (nt t) w n \<and> r1 = int (ps t (length (nt t) - n)))"
    and r: "r = foldl hold_span r1 (rev spans)"
  obtains A B where "t = A @ B" "valid_utf8 A" "valid_utf8 B" "r = int (length A)" "fin \<Longrightarrow> B = []"
    "\<And>x. valid_utf8 x \<Longrightarrow> (fin \<Longrightarrow> x = []) \<Longrightarrow> no_straddle W (nt (t @ x)) (length (nt A))"
proof -
  obtain us where us: "list_all is_rune us" "t = concat us" using t by (rule valid_runes)
  have h: "r \<le> r1" "\<forall>s\<in>set spans. \<not> (sp_Start s < r \<and> r < sp_End s)"
    "r = r1 \<or> (\<exists>s\<in>set spans. r = sp_Start s)"
    using hold_spans [of spans r1] composeSpans_disjoint composeSpans_proper r sp by auto
  obtain k where k: "k \<le> length us" "r = int (length (concat (take k us)))"
    using cut_position [OF us(1) W, of r1 r] r1(3) h(3) sp us(2) by auto
  let ?A = "concat (take k us)" and ?B = "concat (drop k us)"
  have tk: "list_all is_rune (take k us)" "list_all is_rune (drop k us)"
    using us by (auto simp: list_all_iff dest: in_set_takeD in_set_dropD)
  have tAB: "t = ?A @ ?B" using us(2) by (metis append_take_drop_id concat_append)
  have "\<forall>s\<in>set spans. sp_End s \<le> int (length t)"
    using composeSpans_bound [of "occ_spans nt ps W t"] occ_spans_in [OF t W] sp by blast
  then have "r = int (length t)" if fin
    using hold_fin [of spans "int (length t)"] r1(1) [OF that] r by simp
  then have B: "?B = []" if fin
    using k(2) that arg_cong [OF tAB, of length] by auto
  have m: "length (nt ?A) = length (concat (map L (take k us)))" using tk by (simp add: nt_concat)
  show ?thesis
  proof (rule that [OF tAB _ _ k(2) B])
    show "valid_utf8 ?A" "valid_utf8 ?B" using tk by (auto intro: valid_concat)
    fix x assume x: "valid_utf8 x" "fin \<Longrightarrow> x = []"
    show "no_straddle W (nt (t @ x)) (length (nt ?A))"
      unfolding no_straddle_def m
    proof (intro ballI allI impI)
      fix w i assume wi: "w \<in> set W" "i < length (concat (map L (take k us)))" "occurs_at w (nt (t @ x)) i"
      have w: "word_ok w" using W wi(1) by (simp add: list_all_iff)
      show "i + length w \<le> length (concat (map L (take k us)))"
      proof (cases fin)
        case True
        then have "t = ?A" using B tAB by (metis append_Nil2)
        then have "nt ?A = nt t" by simp
        then show ?thesis using wi x(2) True occurs_at_bound [of w "nt t" i] w m by (simp add: word_ok_def)
      next
        case False
        show ?thesis
        proof (rule cut_safe [OF us(1) w wi(1) k(1) x(1) _ _ wi(2)])
          show "occurs_at w (nt (concat us @ x)) i" using wi(3) us(2) by simp
        qed (use r1(2) [OF False wi(1)] h(1,2) k(2) sp us(2) in \<open>force simp: candidate_def\<close>)+
      qed
    qed
  qed
qed

lemma straddle_extend:
  assumes v: "valid_utf8 R" "valid_utf8 A" "valid_utf8 y"
    and R: "no_straddle W (nt (R @ y)) (length (nt R))" and A: "no_straddle W (nt y) (length (nt A))"
  shows "no_straddle W (nt (R @ y)) (length (nt (R @ A)))"
  unfolding no_straddle_def
proof (intro ballI allI impI)
  fix w j assume w: "w \<in> set W" "j < length (nt (R @ A))" "occurs_at w (nt (R @ y)) j"
  have n: "nt (R @ A) = nt R @ nt A" "nt (R @ y) = nt R @ nt y" using v by (simp_all add: nt_append)
  show "j + length w \<le> length (nt (R @ A))"
  proof (cases "j < length (nt R)")
    case True
    then have "j + length w \<le> length (nt R)" using R w(1,3) by (simp add: no_straddle_def)
    then show ?thesis using n by simp
  next
    case False
    then have "occurs_at w (nt y) (j - length (nt R))"
      using w(3) occurs_at_shift [of w "nt R" "nt y" "j - length (nt R)"] n by simp
    moreover have "j - length (nt R) < length (nt A)" using w(2) False n by simp
    ultimately have "j - length (nt R) + length w \<le> length (nt A)"
      using A w(1) by (simp add: no_straddle_def)
    then show ?thesis using n False by simp
  qed
qed

lemma straddle_prefix:
  assumes "no_straddle W (s @ t) m" "list_all word_ok W"
  shows "no_straddle W s m"
  unfolding no_straddle_def
proof (intro ballI allI impI)
  fix w i assume w: "w \<in> set W" "i < m" "occurs_at w s i"
  then have "occurs_at w (s @ t) i"
    using assms(2) by (intro occurs_at_prefix) (auto simp: list_all_iff word_ok_def)
  then show "i + length w \<le> m" using assms(1) w(1,2) by (simp add: no_straddle_def)
qed

lemma field_inv_push:
  assumes inv: "field_inv nt ps W d T R rep" and nf: "\<not> kf_final d" and W: "list_all word_ok W"
    and f: "valid_utf8 f" and t: "t = kf_tail d @ f"
    and sp: "spans = composeSpans (occ_spans nt ps W t)"
    and r1: "fin \<Longrightarrow> r1 = int (length t)"
      "\<And>w n. \<not> fin \<Longrightarrow> w \<in> set W \<Longrightarrow> candidate (nt t) w n \<Longrightarrow> r1 \<le> int (ps t (length (nt t) - n))"
      "r1 = int (length t) \<or> (\<exists>w\<in>set W. \<exists>n. candidate (nt t) w n \<and> r1 = int (ps t (length (nt t) - n)))"
    and r: "r = foldl hold_span r1 (rev spans)"
  shows "\<exists>R'. field_inv nt ps W \<lparr>kf_tail = drop (nat r) t, kf_bytes = kf_bytes d + int (length f), kf_final = fin\<rparr>
      (T @ f) R' (rep @ map (shift_span (int (length R))) (filter (\<lambda>s. \<not> sp_End s > r) spans)) \<and>
      int (length R') = int (length R) + r"
proof -
  let ?O = "\<lambda>y. composeSpans (occ_spans nt ps W y)"
  have i: "valid_utf8 R" "valid_utf8 (kf_tail d)" "T = R @ kf_tail d" "kf_bytes d = int (length T)"
    "rep = ?O R" "\<And>x. valid_utf8 x \<Longrightarrow> no_straddle W (nt (T @ x)) (length (nt R))"
    using inv nf by (auto simp: field_inv_def)
  have vt: "valid_utf8 t" using i(2) f t by (simp add: valid_append)
  obtain A B where AB: "t = A @ B" "valid_utf8 A" "valid_utf8 B" "r = int (length A)" "fin \<Longrightarrow> B = []"
    "\<And>x. valid_utf8 x \<Longrightarrow> (fin \<Longrightarrow> x = []) \<Longrightarrow> no_straddle W (nt (t @ x)) (length (nt A))"
    by (rule cut_exists [OF vt W sp _ _ r1(3) r, of fin]) (use r1(1,2) in auto)
  have "spans = ?O A @ map (shift_span r) (?O B)"
    using compose_occ_split [OF AB(2,3) W] AB(6) [of "[]"] AB(1,4) sp by simp
  moreover have "sp_End s \<le> r" if "s \<in> set (?O A)" for s
    using composeSpans_bound [OF _ that, of r] occ_spans_in [OF AB(2) W] AB(4) by auto
  moreover have "0 < sp_End s" if "s \<in> set (?O B)" for s
    using composeSpans_proper [OF that] by (simp add: proper_def)
  ultimately have rep: "filter (\<lambda>s. \<not> sp_End s > r) spans = ?O A" by (simp only: filter_shifted)
  have Tf: "T @ f = R @ t" using i(3) t by simp
  have ns: "no_straddle W (nt (T @ f @ x)) (length (nt (R @ A)))"
    if x: "valid_utf8 x" "fin \<Longrightarrow> x = []" for x
  proof -
    have e: "T @ f @ x = R @ t @ x" using Tf by simp
    show ?thesis
      using straddle_extend [OF i(1) AB(2) valid_append [OF vt x(1)], of W]
        i(6) [OF valid_append [OF f x(1)]] AB(6) [OF x] unfolding e by blast
  qed
  have "nt (T @ f) = nt (R @ A) @ nt B" using Tf i(1) AB(1-3) by (simp add: nt_append valid_append)
  then have "no_straddle W (nt (R @ A)) (length (nt R))"
    using straddle_prefix [OF _ W] i(6) [OF f] by metis
  from compose_occ_split [OF i(1) AB(2) W this] rep i(5)
  have O: "?O (R @ A) = rep @ map (shift_span (int (length R))) (filter (\<lambda>s. \<not> sp_End s > r) spans)" by simp
  have "field_inv nt ps W \<lparr>kf_tail = drop (nat r) t, kf_bytes = kf_bytes d + int (length f), kf_final = fin\<rparr>
      (T @ f) (R @ A) (rep @ map (shift_span (int (length R))) (filter (\<lambda>s. \<not> sp_End s > r) spans))"
  proof -
    have d: "drop (nat r) t = B" "T @ f = (R @ A) @ B" using AB(1,4) Tf by simp_all
    have k: "kf_bytes d + int (length f) = int (length (T @ f))" using i(4) by simp
    show ?thesis
      unfolding field_inv_def d(1) k keywordStreamField.simps
      using O ns AB(2,3,5) valid_append [OF i(1) AB(2)] d(2) by (metis append.assoc)
  qed
  then show ?thesis using AB(4) by (intro exI [of _ "R @ A"]) simp
qed

text \<open>What the field promises of any text that may follow.\<close>

lemma field_inv_reported:
  assumes inv: "field_inv nt ps W d T R rep" and W: "list_all word_ok W"
    and x: "valid_utf8 x" "kf_final d \<Longrightarrow> x = []"
  shows "filter (\<lambda>s. sp_Start s < int (length R)) (composeSpans (occ_spans nt ps W (T @ x))) = rep"
proof -
  let ?O = "\<lambda>y. composeSpans (occ_spans nt ps W y)"
  have i: "valid_utf8 R" "valid_utf8 (kf_tail d)" "T = R @ kf_tail d" "rep = ?O R"
    "no_straddle W (nt (T @ x)) (length (nt R))"
    using inv x by (auto simp: field_inv_def)
  have e: "?O (T @ x) = ?O R @ map (shift_span (int (length R))) (?O (kf_tail d @ x))"
    using compose_occ_split [OF i(1) valid_append [OF i(2) x(1)] W] i(3,5) by simp
  have "sp_Start s < int (length R)" if "s \<in> set (?O R)" for s
    using composeSpans_proper [OF that] composeSpans_bound [OF _ that, of "int (length R)"]
      occ_spans_in [OF i(1) W] by (force simp: proper_def)
  moreover have "0 \<le> sp_Start s" if "s \<in> set (?O (kf_tail d @ x))" for s
    using composeSpans_proper [OF that] by (simp add: proper_def)
  ultimately show ?thesis unfolding e i(4) by (auto simp: filter_id_conv filter_empty_conv not_less)
qed

end

section \<open>The engine searches rune by rune\<close>

definition kw_text :: "go_rt \<Rightarrow> KeywordEngine \<Rightarrow> bytes \<Rightarrow> bytes" where
  "kw_text G e t = fst (normalizedText G e t)"

definition kw_pos :: "go_rt \<Rightarrow> KeywordEngine \<Rightarrow> bytes \<Rightarrow> nat \<Rightarrow> nat" where
  "kw_pos G e t i = source_pos (snd (normalizedText G e t)) i"

text \<open>
  What is used of \<^verbatim>\<open>strings.ToLower\<close>: a rune is mapped to a rune and a valid text to a valid one, the
  empty text alone to the empty one.
\<close>

definition lowers_runes :: "go_rt \<Rightarrow> bool" where
  "lowers_runes G \<longleftrightarrow> (\<forall>u. is_rune u \<longrightarrow> is_rune (rt_to_lower G u)) \<and>
     (\<forall>w. valid_utf8 w \<longrightarrow> valid_utf8 (rt_to_lower G w))"

lemma rune_string_rune: "is_rune u \<Longrightarrow> rune_string u = u"
  by (auto simp: rune_string_def is_rune_def)

lemma lower_loop_fst:
  "list_all is_rune us \<Longrightarrow> fst (lower_loop G n us) = concat (map (rt_to_lower G) us)"
  by (induction us arbitrary: n) (auto simp: Let_def rune_string_rune case_prod_unfold)

lemma lower_loop_snd:
  assumes "list_all is_rune us" "\<forall>u. is_rune u \<longrightarrow> is_rune (rt_to_lower G u)" "k \<le> length us"
    "m = n + length (concat us)"
  shows "(snd (lower_loop G n us) @ [m]) ! length (concat (map (rt_to_lower G) (take k us))) =
         n + length (concat (take k us))"
  using assms
proof (induction us arbitrary: n k)
  case (Cons u us)
  let ?l = "rt_to_lower G u"
  have u: "is_rune ?l" "rune_string u = u" using Cons.prems by (auto simp: rune_string_rune)
  have e: "snd (lower_loop G n (u # us)) = replicate (length ?l) n @ snd (lower_loop G (n + length u) us)"
    by (simp add: Let_def u(2) split: prod.split)
  show ?case
  proof (cases k)
    case 0
    then show ?thesis using u(1) unfolding e by (auto simp: is_rune_def nth_append)
  next
    case (Suc j)
    let ?S = "snd (lower_loop G (n + length u) us) @ [m]" and ?j = "length (concat (map (rt_to_lower G) (take j us)))"
    have "(replicate (length ?l) n @ ?S) ! (length ?l + ?j) = ?S ! ?j"
      using nth_append_length_plus [of "replicate (length ?l) n" ?S ?j] by simp
    moreover have "?S ! ?j = n + length u + length (concat (take j us))"
      using Cons.IH [of j "n + length u"] Cons.prems Suc by simp
    ultimately show ?thesis unfolding e Suc by simp
  qed
qed simp

lemma rune_text_engine:
  assumes "lowers_runes G"
  shows "rune_text (\<lambda>u. if ke_caseSensitive e then u else rt_to_lower G u) (kw_text G e) (kw_pos G e)"
proof
  let ?L = "\<lambda>u. if ke_caseSensitive e then u else rt_to_lower G u"
  show "is_rune (?L u)" if "is_rune u" for u using assms that by (simp add: lowers_runes_def)
  show "kw_text G e (concat us) = concat (map ?L us)" if "list_all is_rune us" for us
    using lower_loop_fst [OF that, of G 0] that
    by (auto simp: kw_text_def normalizedText_def units_concat split: prod.split)
  show "kw_pos G e (concat us) (length (concat (map ?L (take k us)))) = length (concat (take k us))"
    if "list_all is_rune us" "k \<le> length us" for us k
    using lower_loop_snd [OF that(1) _ that(2) refl, of G 0] that assms
    by (auto simp: kw_pos_def normalizedText_def units_concat source_pos_def lowers_runes_def split: prod.split)
qed

definition kw_words :: "go_rt \<Rightarrow> KeywordEngine \<Rightarrow> bytes list" where
  "kw_words G e = filter (\<lambda>w. \<not> kw_skip e w) (map (kw_key G e) (ke_blocklist e))"

lemma word_loop_spans:
  "fst (word_loop G e t positions ws (spans, reason)) =
   spans @ concat (map (\<lambda>w. map (\<lambda>i. redacted (int (source_pos positions i)) (int (source_pos positions (i + length w))))
     (filter (occurs_at w t) [0..<length t])) (filter (\<lambda>w. \<not> kw_skip e w) (map (kw_key G e) ws)))"
  by (induction ws arbitrary: spans reason)
    (auto simp: Let_def kw_scan_filter kw_skip_def hit_span_def [abs_def])

lemma matchSpans_occ:
  "\<not> ke_useRegex e \<Longrightarrow>
   fst (matchSpans G e t) = composeSpans (occ_spans (kw_text G e) (kw_pos G e) (kw_words G e) t)"
  using word_loop_spans [of G e "fst (normalizedText G e t)" "snd (normalizedText G e t)" "ke_blocklist e" "[]" "[]"]
  by (simp add: matchSpans_def occ_spans_def kw_text_def kw_pos_def kw_words_def case_prod_unfold)

lemma kw_words_ok:
  assumes "lowers_runes G" "list_all valid_utf8 (ke_blocklist e)"
  shows "list_all word_ok (kw_words G e)"
  using assms by (auto simp: kw_words_def list_all_iff word_ok_def kw_skip_def kw_key_def lowers_runes_def)

section \<open>Runs of a session\<close>

fun kw_run :: "go_rt \<Rightarrow> keywordStream \<Rightarrow> StreamFragment list \<Rightarrow> (StreamFragment \<times> (gerr + StreamVerdict)) list" where
  "kw_run G s [] = []"
| "kw_run G s (f # fs) = (case keyword_Push G None s f of (r, s1) \<Rightarrow> (f, r) # kw_run G s1 fs)"

text \<open>The fragments of one field that were accepted, with their verdicts.\<close>

fun accepted :: "bytes \<Rightarrow> (StreamFragment \<times> (gerr + StreamVerdict)) list \<Rightarrow> (StreamFragment \<times> StreamVerdict) list" where
  "accepted k [] = []"
| "accepted k ((f, r) # rs) =
     (case r of Inr v \<Rightarrow> if sf_Key f = k then (f, v) # accepted k rs else accepted k rs | Inl _ \<Rightarrow> accepted k rs)"

definition pushed_text :: "(StreamFragment \<times> StreamVerdict) list \<Rightarrow> bytes" where
  "pushed_text acc = concat (map (\<lambda>a. sf_Text (fst a)) acc)"

definition reported_spans :: "(StreamFragment \<times> StreamVerdict) list \<Rightarrow> Span list" where
  "reported_spans acc = concat (map (\<lambda>a. sv_Spans (snd a)) acc)"

definition released_upto :: "(StreamFragment \<times> StreamVerdict) list \<Rightarrow> int" where
  "released_upto acc = (if acc = [] then 0 else sv_ReleaseThrough (snd (last acc)))"

definition completed :: "(StreamFragment \<times> StreamVerdict) list \<Rightarrow> bool" where
  "completed acc = list_ex (\<lambda>a. sf_Final (fst a)) acc"

definition sess_inv :: "go_rt \<Rightarrow> KeywordEngine \<Rightarrow> keywordStream \<Rightarrow> (bytes \<Rightarrow> (StreamFragment \<times> StreamVerdict) list) \<Rightarrow> bool" where
  "sess_inv G e s A \<longleftrightarrow>
     ks_engine s = e \<and> ks_words s = kw_words G e \<and> \<not> ks_closed s \<and>
     (\<forall>k. \<exists>R. field_inv (kw_text G e) (kw_pos G e) (kw_words G e) (kw_field s k)
                (pushed_text (A k)) R (reported_spans (A k)) \<and>
              released_upto (A k) = int (length R) \<and> kf_final (kw_field s k) = completed (A k))"

lemma kw_field_update [simp]:
  "kw_field (s\<lparr>ks_fields := (ks_fields s)(k \<mapsto> d)\<rparr>) k' = (if k' = k then d else kw_field s k')"
  by (simp add: kw_field_def)

lemma accepted_snoc [simp]:
  "pushed_text (acc @ [(f, v)]) = pushed_text acc @ sf_Text f"
  "reported_spans (acc @ [(f, v)]) = reported_spans acc @ sv_Spans v"
  "released_upto (acc @ [(f, v)]) = sv_ReleaseThrough v"
  "completed (acc @ [(f, v)]) = (completed acc \<or> sf_Final f)"
  by (simp_all add: pushed_text_def reported_spans_def released_upto_def completed_def)

lemma prefix_release:
  fixes G e t W
  defines "N \<equiv> normalizedText G e t"
  defines "r \<equiv> foldl (prefix_word (fst N) (snd N)) (int (length t)) W"
  shows "w \<in> set W \<Longrightarrow> candidate (kw_text G e t) w n \<Longrightarrow> r \<le> int (kw_pos G e t (length (kw_text G e t) - n))"
    and "r = int (length t) \<or> (\<exists>w\<in>set W. \<exists>n. candidate (kw_text G e t) w n \<and>
           r = int (kw_pos G e t (length (kw_text G e t) - n)))"
  using prefix_words(2,3) [where normal = "fst N" and positions = "snd N" and ?r0.0 = "int (length t)" and W = W]
  unfolding r_def N_def kw_text_def kw_pos_def by blast+

lemma sess_inv_push:
  assumes inv: "sess_inv G e s A" and G: "lowers_runes G" and e: "list_all valid_utf8 (ke_blocklist e)" "\<not> ke_useRegex e"
    and push: "keyword_Push G None s f = (r, s1)"
  shows "sess_inv G e s1 (\<lambda>k. A k @ accepted k [(f, r)])"
proof (cases r)
  case (Inl err)
  then have "s1 = s" using push by (auto simp: keyword_Push_def Let_def case_prod_unfold split: if_splits)
  then show ?thesis using inv Inl by simp
next
  case (Inr v)
  let ?k = "sf_Key f" and ?W = "kw_words G e" and ?nt = "kw_text G e" and ?ps = "kw_pos G e"
  define d where "d = kw_field s ?k"
  define t where "t = kf_tail d @ sf_Text f"
  define spans where "spans = fst (matchSpans G e t)"
  define r1 where "r1 = (if sf_Final f then int (length t) else
    foldl (prefix_word (fst (normalizedText G e t)) (snd (normalizedText G e t))) (int (length t)) ?W)"
  define q where "q = foldl hold_span r1 (rev spans)"
  define d' where "d' = \<lparr>kf_tail = drop (nat q) t, kf_bytes = kf_bytes d + int (length (sf_Text f)), kf_final = sf_Final f\<rparr>"
  have s: "ks_engine s = e" "ks_words s = ?W" "\<not> ks_closed s" using inv by (auto simp: sess_inv_def)
  obtain R where R: "field_inv ?nt ?ps ?W d (pushed_text (A ?k)) R (reported_spans (A ?k))"
    "released_upto (A ?k) = int (length R)" "kf_final d = completed (A ?k)"
    using inv unfolding sess_inv_def d_def by blast
  have p: "valid_utf8 (sf_Text f)" "\<not> kf_final d" "s1 = s\<lparr>ks_fields := (ks_fields s)(?k \<mapsto> d')\<rparr>"
    "sv_ReleaseThrough v = kf_bytes d - int (length (kf_tail d)) + q"
    "sv_Spans v = map (shift_span (kf_bytes d - int (length (kf_tail d)))) (filter (\<lambda>sp. \<not> sp_End sp > q) spans)"
    using push s Inr unfolding keyword_Push_def d'_def q_def r1_def spans_def t_def d_def shift_span_def [abs_def]
    by (auto simp: Let_def case_prod_unfold split: if_splits)
  have base: "kf_bytes d - int (length (kf_tail d)) = int (length R)"
    using R(1) by (simp add: field_inv_def)
  have "\<exists>R'. field_inv ?nt ?ps ?W d' (pushed_text (A ?k) @ sf_Text f) R'
      (reported_spans (A ?k) @ map (shift_span (int (length R))) (filter (\<lambda>s. \<not> sp_End s > q) spans)) \<and>
      int (length R') = int (length R) + q"
    unfolding d'_def
  proof (rule rune_text.field_inv_push [OF rune_text_engine [OF G] R(1) p(2) kw_words_ok [OF G e(1)] p(1) t_def _ _ _ _ q_def])
    show "spans = composeSpans (occ_spans ?nt ?ps ?W t)" unfolding spans_def by (rule matchSpans_occ [OF e(2)])
  qed (use prefix_release [where G = G and e = e and t = t and W = ?W] in \<open>auto simp: r1_def\<close>)
  then obtain R' where R': "field_inv ?nt ?ps ?W d' (pushed_text (A ?k @ [(f, v)])) R' (reported_spans (A ?k @ [(f, v)]))"
    "int (length R') = released_upto (A ?k @ [(f, v)])"
    using p(4,5) base by auto
  have "\<exists>R. field_inv ?nt ?ps ?W (kw_field s1 k) (pushed_text (A k @ accepted k [(f, r)])) R
      (reported_spans (A k @ accepted k [(f, r)])) \<and> released_upto (A k @ accepted k [(f, r)]) = int (length R) \<and>
      kf_final (kw_field s1 k) = completed (A k @ accepted k [(f, r)])" for k
  proof (cases "k = ?k")
    case True
    then show ?thesis using R' p(2,3) R(3) Inr by (auto simp: d'_def)
  next
    case False
    then show ?thesis using inv p(3) Inr by (simp add: sess_inv_def)
  qed
  then show ?thesis using s p(3) unfolding sess_inv_def by simp
qed

lemma sess_inv_run:
  assumes "lowers_runes G" "list_all valid_utf8 (ke_blocklist e)" "\<not> ke_useRegex e"
  shows "sess_inv G e s A \<Longrightarrow> \<exists>s'. sess_inv G e s' (\<lambda>k. A k @ accepted k (kw_run G s fs))"
proof (induction fs arbitrary: s A)
  case (Cons f fs)
  obtain r s1 where p: "keyword_Push G None s f = (r, s1)" by fastforce
  have "accepted k (kw_run G s (f # fs)) = accepted k [(f, r)] @ accepted k (kw_run G s1 fs)" for k
    by (simp add: p split: sum.split)
  then show ?case
    using Cons.IH [OF sess_inv_push [OF Cons.prems assms p]] by simp
qed auto

lemma sess_inv_new:
  assumes "keyword_NewStream G None e = Inr s"
  shows "sess_inv G e s (\<lambda>k. [])"
proof -
  have "no_straddle W n 0" for W n by (simp add: no_straddle_def)
  moreover have "kw_text G e [] = []" by (simp add: kw_text_def normalizedText_def)
  moreover have "occ_spans (kw_text G e) (kw_pos G e) W [] = []" for W
    using \<open>kw_text G e [] = []\<close> by (simp add: occ_spans_def)
  moreover have "composeSpans [] = []" by (simp add: composeSpans_def slice_stable_def)
  ultimately show ?thesis
    using assms by (auto simp: keyword_NewStream_def sess_inv_def kw_words_def kw_field_def field_inv_def
      pushed_text_def reported_spans_def released_upto_def completed_def split: if_splits)
qed

text \<open>The ASCII table lowers rune by rune, so the two search modes of the engine are texts as above.\<close>

lemma ascii_lower_high: "128 \<le> code_of c \<Longrightarrow> ascii_lower c = c"
  by (simp add: ascii_lower_def)

lemma ascii_lower_low: "code_of c < (128 :: nat) \<Longrightarrow> code_of (ascii_lower c) < (128 :: nat)"
  by (simp add: ascii_lower_def)

lemma rune_shape:
  "is_rune u \<Longrightarrow> (\<exists>b. u = [b] \<and> code_of b < (128 :: nat)) \<or> (\<forall>c\<in>set u. (128 :: nat) \<le> code_of c)"
  by (cases u)
    (auto simp: is_rune_def rune_len_def second_ok_def in_rng_def split: list.splits if_splits)

lemma ascii_lower_rune: "is_rune u \<Longrightarrow> is_rune (map ascii_lower u)"
proof -
  assume u: "is_rune u"
  consider b where "u = [b]" "code_of b < (128 :: nat)" | "\<forall>c\<in>set u. (128 :: nat) \<le> code_of c"
    using rune_shape [OF u] by blast
  then show ?thesis
  proof cases
    case 1
    then show ?thesis using ascii_lower_low [of b] by (simp add: is_rune_def rune_len_def)
  next
    case 2
    then have "map ascii_lower u = u" by (simp add: ascii_lower_high map_idI)
    then show ?thesis using u by simp
  qed
qed

lemma lowers_runes_ascii: "lowers_runes ascii_rt"
proof -
  have "valid_utf8 (map ascii_lower w)" if v: "valid_utf8 w" for w
  proof -
    obtain us where us: "list_all is_rune us" "w = concat us" using v by (rule valid_runes)
    have "list_all is_rune (map (map ascii_lower) us)" using us(1) ascii_lower_rune by (simp add: list_all_iff)
    from valid_concat [OF this] show ?thesis by (simp add: us(2) map_concat)
  qed
  then show ?thesis by (simp add: lowers_runes_def ascii_rt_def ascii_lower_rune)
qed

interpretation kw: rune_text "\<lambda>u. if ke_caseSensitive e then u else rt_to_lower ascii_rt u" "kw_text ascii_rt e" "kw_pos ascii_rt e"
  for e by (rule rune_text_engine [OF lowers_runes_ascii])

lemma keyword_Push_accepts:
  assumes "\<not> ks_closed s" "valid_utf8 (sf_Text f)" "\<not> kf_final (kw_field s (sf_Key f))"
  shows "\<exists>v d. keyword_Push G None s f = (Inr v, s\<lparr>ks_fields := (ks_fields s)(sf_Key f \<mapsto> d)\<rparr>) \<and>
    kf_final d = sf_Final f"
  using assms by (auto simp: keyword_Push_def Let_def case_prod_unfold)

text \<open>
  C12: Incremental keyword checking is exact. For every engine without regular expressions whose
  words are valid UTF-8, every sequence of fragments pushed to a session, with fields interleaved
  and rejected fragments among them, and every field: once the field is complete, the spans its verdicts
  reported are exactly the spans the whole-text check finds in the complete text, with case folding or
  without. While it is open, they are exactly the spans starting before the released position that
  the whole-text check would find whatever valid text follows, so text that was released never
  turns out later to be part of a match. \<^verbatim>\<open>strings.ToLower\<close> is assumed to map runes to runes.
\<close>

theorem keyword_stream_exact:
  assumes "keyword_NewStream G None e = Inr s" "lowers_runes G" "list_all valid_utf8 (ke_blocklist e)"
    and "acc = accepted k (kw_run G s fs)" and "valid_utf8 x"
  shows "(completed acc \<longrightarrow> reported_spans acc = fst (matchSpans G e (pushed_text acc))) \<and>
    (\<not> completed acc \<longrightarrow>
       filter (\<lambda>sp. sp_Start sp < released_upto acc) (fst (matchSpans G e (pushed_text acc @ x))) =
       reported_spans acc)"
proof -
  have rx: "\<not> ke_useRegex e" using assms(1) by (auto simp: keyword_NewStream_def split: if_splits)
  obtain s' where "sess_inv G e s' (\<lambda>k. [] @ accepted k (kw_run G s fs))"
    using sess_inv_run [OF assms(2,3) rx sess_inv_new [OF assms(1)]] by blast
  then obtain R where R: "field_inv (kw_text G e) (kw_pos G e) (kw_words G e) (kw_field s' k) (pushed_text acc) R (reported_spans acc)"
    "released_upto acc = int (length R)" "kf_final (kw_field s' k) = completed acc"
    unfolding sess_inv_def assms(4) by force
  note rep = rune_text.field_inv_reported [OF rune_text_engine [OF assms(2)] R(1) kw_words_ok [OF assms(2,3)] assms(5)]
  have "reported_spans acc = fst (matchSpans G e (pushed_text acc))" if "completed acc"
    using R(1,3) that by (auto simp: field_inv_def matchSpans_occ [OF rx])
  then show ?thesis using rep R(2,3) by (auto simp: matchSpans_occ [OF rx])
qed

theorem keyword_stream_exact_witness:
  "reported_spans (accepted ''c'' (kw_run ascii_rt
       \<lparr>ks_engine = \<lparr>ke_name = ''keyword_filter'', ke_blocklist = [''Bad''], ke_allowlist = [],
          ke_useRegex = False, ke_caseSensitive = False, ke_compiledRegex = []\<rparr>,
        ks_fields = Map.empty, ks_words = [''bad''], ks_closed = False\<rparr>
       [\<lparr>sf_Key = ''c'', sf_Text = ''so bA'', sf_Final = False, sf_Tool = False\<rparr>,
        \<lparr>sf_Key = ''c'', sf_Text = ''D x'', sf_Final = True, sf_Tool = False\<rparr>])) =
   fst (matchSpans ascii_rt
     \<lparr>ke_name = ''keyword_filter'', ke_blocklist = [''Bad''], ke_allowlist = [],
      ke_useRegex = False, ke_caseSensitive = False, ke_compiledRegex = []\<rparr> ''so bAD x'')"
proof -
  let ?e = "\<lparr>ke_name = ''keyword_filter'', ke_blocklist = [''Bad''], ke_allowlist = [],
      ke_useRegex = False, ke_caseSensitive = False, ke_compiledRegex = []\<rparr>"
  let ?s = "\<lparr>ks_engine = ?e, ks_fields = Map.empty, ks_words = [''bad''], ks_closed = False\<rparr>"
  let ?fs = "[\<lparr>sf_Key = ''c'', sf_Text = ''so bA'', sf_Final = False, sf_Tool = False\<rparr>,
        \<lparr>sf_Key = ''c'', sf_Text = ''D x'', sf_Final = True, sf_Tool = False\<rparr>]"
  let ?a = "accepted ''c'' (kw_run ascii_rt ?s ?fs)"
  have n: "keyword_NewStream ascii_rt None ?e = Inr ?s"
    by (simp add: keyword_NewStream_def kw_key_def kw_skip_def ascii_rt_def ascii_lower_def char_of_eq_iff)
  have v: "list_all valid_utf8 (ke_blocklist ?e)" "valid_utf8 []" by (simp_all add: rune_len_def)
  have c1: "\<not> ks_closed ?s" "valid_utf8 (sf_Text (?fs ! 0))" "\<not> kf_final (kw_field ?s (sf_Key (?fs ! 0)))"
    by (simp_all add: rune_len_def kw_field_def)
  obtain v1 d1 where p1: "keyword_Push ascii_rt None ?s (?fs ! 0) =
      (Inr v1, ?s\<lparr>ks_fields := (ks_fields ?s)(sf_Key (?fs ! 0) \<mapsto> d1)\<rparr>)" "kf_final d1 = sf_Final (?fs ! 0)"
    using keyword_Push_accepts [OF c1] by blast
  let ?s1 = "?s\<lparr>ks_fields := (ks_fields ?s)(sf_Key (?fs ! 0) \<mapsto> d1)\<rparr>"
  have c2: "\<not> ks_closed ?s1" "valid_utf8 (sf_Text (?fs ! 1))" "\<not> kf_final (kw_field ?s1 (sf_Key (?fs ! 1)))"
    using p1(2) by (simp_all add: rune_len_def kw_field_def)
  obtain v2 d2 where p2: "keyword_Push ascii_rt None ?s1 (?fs ! 1) =
      (Inr v2, ?s1\<lparr>ks_fields := (ks_fields ?s1)(sf_Key (?fs ! 1) \<mapsto> d2)\<rparr>)"
    using keyword_Push_accepts [OF c2] by blast
  have a: "pushed_text ?a = ''so bAD x''" "completed ?a"
    using p1(1) p2 by (simp_all add: pushed_text_def completed_def)
  from keyword_stream_exact [OF n lowers_runes_ascii v(1) refl v(2), of "''c''" ?fs] a
  show ?thesis by simp
qed

end
