(* ===== verification/Ssrf.thy ===== *)
theory Ssrf
  imports Guardrail_Spans "HOL-Library.Word"
begin

text \<open>
  The outbound connection policy of \<^verbatim>\<open>internal/guardrail/ssrf.go\<close>, \<^verbatim>\<open>redirect.go\<close> and the
  revocation of live connections of \<^verbatim>\<open>conntrack.go\<close>. Addresses are machine words: 32 bits for IPv4,
  128 bits for IPv6; a \<^verbatim>\<open>net.IP\<close> is a slice of 4 or 16 bytes, or of another length and then no
  address. The parsers of the \<^verbatim>\<open>net\<close> packages and the resolver are parameters, the fields of \<open>net_rt\<close>.
\<close>

unbundle bit_operations_syntax

section \<open>Addresses and prefixes\<close>

datatype net_ip = IP4 "32 word" | IP16 "128 word" | IPnone

datatype addr = A4 "32 word" | A6 "128 word"

record Prefix =
  pf_Addr :: addr
  pf_Bits :: nat

text \<open>An IPv4-mapped IPv6 address is \<^verbatim>\<open>::ffff:a.b.c.d\<close>.\<close>

definition is_4in6 :: "128 word \<Rightarrow> bool" where
  "is_4in6 w \<longleftrightarrow> drop_bit 32 w = 0xFFFF"

definition low32 :: "128 word \<Rightarrow> 32 word" where
  "low32 w = ucast w"

fun To4 :: "net_ip \<Rightarrow> 32 word option" where
  "To4 (IP4 a) = Some a"
| "To4 (IP16 w) = (if is_4in6 w then Some (low32 w) else None)"
| "To4 IPnone = None"

fun AddrFromSlice :: "net_ip \<Rightarrow> addr option" where
  "AddrFromSlice (IP4 a) = Some (A4 a)"
| "AddrFromSlice (IP16 w) = Some (A6 w)"
| "AddrFromSlice IPnone = None"

fun Unmap :: "addr \<Rightarrow> addr" where
  "Unmap (A6 w) = (if is_4in6 w then A4 (low32 w) else A6 w)"
| "Unmap (A4 a) = A4 a"

fun Contains :: "Prefix \<Rightarrow> addr \<Rightarrow> bool" where
  "Contains p a =
     (case (pf_Addr p, a) of
        (A4 x, A4 y) \<Rightarrow> drop_bit (32 - pf_Bits p) (x XOR y) = 0
      | (A6 x, A6 y) \<Rightarrow> drop_bit (128 - pf_Bits p) (x XOR y) = 0
      | _ \<Rightarrow> False)"

fun mask_addr :: "nat \<Rightarrow> addr \<Rightarrow> addr" where
  "mask_addr n (A4 x) = A4 (push_bit (32 - n) (drop_bit (32 - n) x))"
| "mask_addr n (A6 x) = A6 (push_bit (128 - n) (drop_bit (128 - n) x))"

definition Masked :: "Prefix \<Rightarrow> Prefix" where
  "Masked p = p\<lparr>pf_Addr := mask_addr (pf_Bits p) (pf_Addr p)\<rparr>"

definition Overlaps :: "Prefix \<Rightarrow> Prefix \<Rightarrow> bool" where
  "Overlaps p q =
     (let n = min (pf_Bits p) (pf_Bits q)
      in case (pf_Addr p, pf_Addr q) of
           (A4 x, A4 y) \<Rightarrow> n = 0 \<or> mask_addr n (A4 x) = mask_addr n (A4 y)
         | (A6 x, A6 y) \<Rightarrow> n = 0 \<or> mask_addr n (A6 x) = mask_addr n (A6 y)
         | _ \<Rightarrow> False)"

section \<open>Address classes\<close>

text \<open>The predicates of \<^verbatim>\<open>net.IP\<close>, which look at the IPv4 form when there is one.\<close>

definition by_form :: "(32 word \<Rightarrow> bool) \<Rightarrow> (128 word \<Rightarrow> bool) \<Rightarrow> net_ip \<Rightarrow> bool" where
  "by_form f4 f6 ip =
     (case To4 ip of Some a \<Rightarrow> f4 a | None \<Rightarrow> (case ip of IP16 w \<Rightarrow> f6 w | _ \<Rightarrow> False))"

definition IsLoopback :: "net_ip \<Rightarrow> bool" where
  "IsLoopback = by_form (\<lambda>a. drop_bit 24 a = 127) (\<lambda>w. w = 1)"

definition IsPrivate :: "net_ip \<Rightarrow> bool" where
  "IsPrivate = by_form
     (\<lambda>a. drop_bit 24 a = 10 \<or> drop_bit 20 a = 0xAC1 \<or> drop_bit 16 a = 0xC0A8)
     (\<lambda>w. drop_bit 121 w = 0x7E)"

definition IsLinkLocalUnicast :: "net_ip \<Rightarrow> bool" where
  "IsLinkLocalUnicast = by_form (\<lambda>a. drop_bit 16 a = 0xA9FE) (\<lambda>w. drop_bit 118 w = 0x3FA)"

definition IsLinkLocalMulticast :: "net_ip \<Rightarrow> bool" where
  "IsLinkLocalMulticast =
     by_form (\<lambda>a. drop_bit 8 a = 0xE00000) (\<lambda>w. drop_bit 120 w = 0xFF \<and> drop_bit 112 w AND 0xF = 2)"

definition IsUnspecified :: "net_ip \<Rightarrow> bool" where
  "IsUnspecified = by_form (\<lambda>a. a = 0) (\<lambda>w. w = 0)"

definition IsMulticast :: "net_ip \<Rightarrow> bool" where
  "IsMulticast = by_form (\<lambda>a. drop_bit 28 a = 0xE) (\<lambda>w. drop_bit 120 w = 0xFF)"

section \<open>The policy\<close>

definition cloudMetadataPrefixes :: "Prefix list" where
  "cloudMetadataPrefixes =
     [\<lparr>pf_Addr = A6 (push_bit 96 0xFD000EC2), pf_Bits = 32\<rparr>,
      \<lparr>pf_Addr = A4 0x646464C8, pf_Bits = 32\<rparr>]"

definition privateSupernets :: "Prefix list" where
  "privateSupernets =
     [\<lparr>pf_Addr = A4 0x0A000000, pf_Bits = 8\<rparr>, \<lparr>pf_Addr = A4 0xAC100000, pf_Bits = 12\<rparr>,
      \<lparr>pf_Addr = A4 0xC0A80000, pf_Bits = 16\<rparr>, \<lparr>pf_Addr = A6 (push_bit 120 0xFC), pf_Bits = 7\<rparr>]"

definition to4_form :: "net_ip \<Rightarrow> net_ip" where
  "to4_form ip = (case To4 ip of Some a \<Rightarrow> IP4 a | None \<Rightarrow> ip)"

definition isCloudMetadataIP :: "net_ip \<Rightarrow> bool" where
  "isCloudMetadataIP ip =
     (case AddrFromSlice ip of
        None \<Rightarrow> False
      | Some a \<Rightarrow> list_ex (\<lambda>p. Contains p (Unmap a)) cloudMetadataPrefixes)"

definition isHardDeniedIP :: "net_ip \<Rightarrow> bool" where
  "isHardDeniedIP ip0 =
     (let ip = to4_form ip0
      in IsLoopback ip \<or> IsLinkLocalUnicast ip \<or> IsLinkLocalMulticast ip \<or> IsUnspecified ip \<or>
         IsMulticast ip \<or> isCloudMetadataIP ip)"

definition isRestrictedIP :: "net_ip \<Rightarrow> bool" where
  "isRestrictedIP ip0 =
     (let ip = to4_form ip0
      in IsLoopback ip \<or> IsPrivate ip \<or> IsLinkLocalUnicast ip \<or> IsLinkLocalMulticast ip \<or>
         IsUnspecified ip \<or> IsMulticast ip)"

fun is_4in6_addr :: "addr \<Rightarrow> bool" where
  "is_4in6_addr (A6 w) = is_4in6 w"
| "is_4in6_addr (A4 _) = False"

datatype allow_err = MappedPrefix Prefix | MetadataOverlap Prefix Prefix | NotPrivate Prefix | BadCIDR bytes

fun supernet_loop :: "Prefix \<Rightarrow> Prefix list \<Rightarrow> allow_err option" where
  "supernet_loop p [] = Some (NotPrivate p)"
| "supernet_loop p (s # ss) =
     (if Contains s (pf_Addr (Masked p)) \<and> pf_Bits p \<ge> pf_Bits s
      then map_option (MetadataOverlap (Masked p)) (find (\<lambda>m. Overlaps m (Masked p)) cloudMetadataPrefixes)
      else supernet_loop p ss)"

definition validateAllowlistPrefix :: "Prefix \<Rightarrow> allow_err option" where
  "validateAllowlistPrefix p =
     (if is_4in6_addr (pf_Addr p) then Some (MappedPrefix p) else supernet_loop p privateSupernets)"

text \<open>Parsers, the resolver and the printing of addresses.\<close>

record net_rt =
  rt_ParsePrefix :: "bytes \<Rightarrow> Prefix option"
  rt_TrimSpace :: "bytes \<Rightarrow> bytes"
  rt_ParseIP :: "bytes \<Rightarrow> net_ip option"
  rt_LookupIP :: "bytes \<Rightarrow> net_ip list option"
  rt_IPString :: "net_ip \<Rightarrow> bytes"
  rt_ParseURL :: "bytes \<Rightarrow> (bytes \<times> bytes) option"

fun ValidateInternalAllowlist :: "net_rt \<Rightarrow> bytes list \<Rightarrow> allow_err + Prefix list" where
  "ValidateInternalAllowlist N [] = Inr []"
| "ValidateInternalAllowlist N (c0 # cs) =
     (let c = rt_TrimSpace N c0
      in if c = [] then ValidateInternalAllowlist N cs
         else case rt_ParsePrefix N c of
           None \<Rightarrow> Inl (BadCIDR c)
         | Some p \<Rightarrow>
             (case validateAllowlistPrefix p of
                Some err \<Rightarrow> Inl err
              | None \<Rightarrow> map_sum id (Cons p) (ValidateInternalAllowlist N cs)))"

text \<open>A nil allowlist and an empty one admit nothing; both are the empty list here.\<close>

definition allowlistHitFor :: "Prefix list \<Rightarrow> net_ip \<Rightarrow> Prefix option" where
  "allowlistHitFor allow ip =
     (case AddrFromSlice ip of
        None \<Rightarrow> None
      | Some a \<Rightarrow> find (\<lambda>p. Contains p (Unmap a)) allow)"

definition AllowedInternal :: "Prefix list \<Rightarrow> net_ip \<Rightarrow> bool" where
  "AllowedInternal allow ip \<longleftrightarrow> allowlistHitFor allow ip \<noteq> None"

definition blockedIP :: "Prefix list \<Rightarrow> net_ip \<Rightarrow> bool" where
  "blockedIP allow ip =
     (if isHardDeniedIP ip then True else isRestrictedIP ip \<and> \<not> AllowedInternal allow ip)"

section \<open>Admission\<close>

datatype outboundErr = OInvalid bytes | OUnresolved bytes | ORestricted bytes

definition resolveAndCheck :: "net_rt \<Rightarrow> Prefix list \<Rightarrow> bytes \<Rightarrow> outboundErr + net_ip list" where
  "resolveAndCheck N allow host =
     (case rt_ParseIP N host of
        Some ip \<Rightarrow> if blockedIP allow ip then Inl (ORestricted (rt_IPString N ip)) else Inr [ip]
      | None \<Rightarrow>
          (case rt_LookupIP N host of
             None \<Rightarrow> Inl (OUnresolved host)
           | Some [] \<Rightarrow> Inl (OUnresolved host)
           | Some (ip # ips) \<Rightarrow>
               (case find (blockedIP allow) (ip # ips) of
                  Some bad \<Rightarrow> Inl (ORestricted (rt_IPString N bad))
                | None \<Rightarrow> Inr (ip # ips))))"

fun first_hit :: "Prefix list \<Rightarrow> net_ip list \<Rightarrow> (net_ip \<times> Prefix) option" where
  "first_hit allow [] = None"
| "first_hit allow (ip # ips) =
     (if isHardDeniedIP ip then first_hit allow ips
      else if isRestrictedIP ip then
        (case allowlistHitFor allow ip of Some p \<Rightarrow> Some (ip, p) | None \<Rightarrow> first_hit allow ips)
      else first_hit allow ips)"

definition ValidateURLSafetyDetail :: "net_rt \<Rightarrow> Prefix list \<Rightarrow> bytes \<Rightarrow> outboundErr + (net_ip \<times> Prefix) option" where
  "ValidateURLSafetyDetail N allow rawURL =
     (case rt_ParseURL N (rt_TrimSpace N rawURL) of
        None \<Rightarrow> Inl (OInvalid ''invalid URL'')
      | Some (scheme, host) \<Rightarrow>
          if scheme \<noteq> ''http'' \<and> scheme \<noteq> ''https'' then Inl (OInvalid ''URL scheme must be http or https'')
          else if host = [] then Inl (OInvalid ''URL host is empty'')
          else map_sum id (first_hit allow) (resolveAndCheck N allow host))"

definition BlockInternalRedirect :: "net_rt \<Rightarrow> Prefix list \<Rightarrow> bytes \<Rightarrow> nat \<Rightarrow> gerr option" where
  "BlockInternalRedirect N allow host via =
     (if via \<ge> 10 then Some (Err ''stopped after 10 redirects'')
      else if host = [] then None
      else case resolveAndCheck N allow host of
        Inl _ \<Rightarrow> Some (Err (''refused redirect to restricted host '' @ host))
      | Inr _ \<Rightarrow> None)"

section \<open>Prefixes as sets of addresses\<close>

lemma xor_zero: "(a XOR b = 0) = (a = (b :: 'a :: len word))"
proof
  assume z: "a XOR b = 0"
  have "a = (a XOR b) XOR b" by (simp add: xor.assoc)
  then show "a = b" using z by simp
qed simp

lemma drop_bit_coarser:
  assumes "drop_bit m x = drop_bit m (y :: 'a :: len word)" "m \<le> n"
  shows "drop_bit n x = drop_bit n y"
proof -
  have "drop_bit (n - m) (drop_bit m x) = drop_bit (n - m) (drop_bit m y)" by (simp only: assms(1))
  then show ?thesis using assms(2) by (simp add: drop_bit_drop_bit)
qed

lemma drop_bit_masked:
  "m \<le> n \<Longrightarrow> drop_bit n (push_bit m (drop_bit m x)) = drop_bit n (x :: 'a :: len word)"
  by (rule bit_word_eqI) (auto simp: bit_simps dest: bit_imp_le_length)

lemma Contains_simps [simp]:
  "Contains \<lparr>pf_Addr = A4 x, pf_Bits = b\<rparr> (A4 y) = (drop_bit (32 - b) x = drop_bit (32 - b) y)"
  "Contains \<lparr>pf_Addr = A6 u, pf_Bits = b\<rparr> (A6 w) = (drop_bit (128 - b) u = drop_bit (128 - b) w)"
  "\<not> Contains \<lparr>pf_Addr = A4 x, pf_Bits = b\<rparr> (A6 w)" "\<not> Contains \<lparr>pf_Addr = A6 u, pf_Bits = b\<rparr> (A4 y)"
  by (simp_all add: xor_zero)

declare Contains.simps [simp del]

text \<open>A prefix whose masked address lies in a shorter prefix is a part of it.\<close>

lemma Contains_supernet:
  assumes "Contains s (pf_Addr (Masked p))" "pf_Bits s \<le> pf_Bits p" "Contains p a"
  shows "Contains s a"
proof -
  obtain pa pb sa sb where p: "p = \<lparr>pf_Addr = pa, pf_Bits = pb\<rparr>" and s: "s = \<lparr>pf_Addr = sa, pf_Bits = sb\<rparr>"
    by (cases p; cases s) auto
  show ?thesis
  proof (cases a)
    case (A4 y)
    then obtain x z where xz: "pa = A4 x" "sa = A4 z"
      using assms unfolding p s by (cases pa; cases sa) (auto simp: Masked_def)
    have le: "32 - pb \<le> 32 - sb" using assms(2) p s by simp
    have "drop_bit (32 - sb) z = drop_bit (32 - sb) x"
      using assms(1) unfolding p s xz by (simp add: Masked_def drop_bit_masked [OF le])
    also have "\<dots> = drop_bit (32 - sb) y"
      using assms(3) unfolding p xz A4 by (intro drop_bit_coarser [OF _ le]) simp
    finally show ?thesis by (simp add: s xz A4)
  next
    case (A6 y)
    then obtain x z where xz: "pa = A6 x" "sa = A6 z"
      using assms unfolding p s by (cases pa; cases sa) (auto simp: Masked_def)
    have le: "128 - pb \<le> 128 - sb" using assms(2) p s by simp
    have "drop_bit (128 - sb) z = drop_bit (128 - sb) x"
      using assms(1) unfolding p s xz by (simp add: Masked_def drop_bit_masked [OF le])
    also have "\<dots> = drop_bit (128 - sb) y"
      using assms(3) unfolding p xz A6 by (intro drop_bit_coarser [OF _ le]) simp
    finally show ?thesis by (simp add: s xz A6)
  qed
qed

lemma Overlaps_common:
  fixes x y z :: "'a :: len word"
  assumes "drop_bit (n - mb) z = drop_bit (n - mb) y" "drop_bit (n - pb) x = drop_bit (n - pb) y"
  shows "push_bit (n - min mb pb) (drop_bit (n - min mb pb) z) =
         push_bit (n - min mb pb) (drop_bit (n - min mb pb) (push_bit (n - pb) (drop_bit (n - pb) x)))"
proof -
  have le: "n - pb \<le> n - min mb pb" "n - mb \<le> n - min mb pb" by auto
  show ?thesis
    using drop_bit_coarser [OF assms(1) le(2)] drop_bit_coarser [OF assms(2) le(1)]
    by (simp add: drop_bit_masked [OF le(1)])
qed

lemma Contains_Overlaps:
  assumes "Contains m a" "Contains p a"
  shows "Overlaps m (Masked p)"
proof -
  obtain pa pb ma mb where p: "p = \<lparr>pf_Addr = pa, pf_Bits = pb\<rparr>" and m: "m = \<lparr>pf_Addr = ma, pf_Bits = mb\<rparr>"
    by (cases p; cases m) auto
  show ?thesis
  proof (cases a)
    case (A4 y)
    then obtain x z where xz: "pa = A4 x" "ma = A4 z" using assms unfolding p m by (cases pa; cases ma) auto
    then show ?thesis using Overlaps_common [of 32 mb z y pb x] assms A4
      by (simp add: Overlaps_def Masked_def p m Let_def)
  next
    case (A6 y)
    then obtain x z where xz: "pa = A6 x" "ma = A6 z" using assms unfolding p m by (cases pa; cases ma) auto
    then show ?thesis using Overlaps_common [of 128 mb z y pb x] assms A6
      by (simp add: Overlaps_def Masked_def p m Let_def)
  qed
qed

section \<open>The allowlist cannot reach the denied classes\<close>

definition addr_of :: "net_ip \<Rightarrow> addr option" where
  "addr_of ip = map_option Unmap (AddrFromSlice ip)"

lemma addr_of_A4: "addr_of ip = Some (A4 y) \<Longrightarrow> to4_form ip = IP4 y"
  by (cases ip) (auto simp: addr_of_def to4_form_def split: if_splits)

lemma addr_of_A6: "addr_of ip = Some (A6 w) \<Longrightarrow> to4_form ip = IP16 w \<and> \<not> is_4in6 w"
  by (cases ip) (auto simp: addr_of_def to4_form_def split: if_splits)

lemma class_form [simp]:
  "by_form f g (IP4 y) = f y" "\<not> is_4in6 w \<Longrightarrow> by_form f g (IP16 w) = g w"
  by (simp_all add: by_form_def)

lemmas class_defs = IsLoopback_def IsPrivate_def IsLinkLocalUnicast_def IsLinkLocalMulticast_def
  IsUnspecified_def IsMulticast_def

lemma high_byte:
  "drop_bit 16 y = c \<Longrightarrow> drop_bit 24 (y :: 32 word) = drop_bit 8 c"
  "drop_bit 8 y = d \<Longrightarrow> drop_bit 24 y = drop_bit 16 d"
  "drop_bit 20 y = e \<Longrightarrow> drop_bit 24 y = drop_bit 4 e"
  "drop_bit 24 y = f \<Longrightarrow> drop_bit 28 y = drop_bit 4 f"
  by (auto simp: drop_bit_drop_bit)

lemma denied_high_byte:
  assumes "isHardDeniedIP ip" "to4_form ip = IP4 y"
  shows "drop_bit 24 y \<in> {127, 0xA9, 0xE0, 0, 0x64} \<or> drop_bit 28 y = 0xE"
proof -
  from assms consider "drop_bit 24 y = 127" | "drop_bit 16 y = 0xA9FE" | "drop_bit 8 y = 0xE00000" | "y = 0"
    | "drop_bit 28 y = 0xE" | "y = 0x646464C8"
    unfolding isHardDeniedIP_def class_defs isCloudMetadataIP_def cloudMetadataPrefixes_def Let_def by auto
  then show ?thesis
  proof cases
    case 2
    then show ?thesis using high_byte(1) [OF 2] by simp
  next
    case 3
    then show ?thesis using high_byte(2) [OF 3] by simp
  qed simp_all
qed

lemma private_not_denied4:
  assumes "drop_bit 24 y = 10 \<or> drop_bit 20 y = 0xAC1 \<or> drop_bit 16 y = (0xC0A8 :: 32 word)"
    "to4_form ip = IP4 y"
  shows "\<not> isHardDeniedIP ip"
proof
  assume d: "isHardDeniedIP ip"
  have "drop_bit 24 y = 10 \<or> drop_bit 24 y = 0xAC \<or> drop_bit 24 y = 0xC0"
    using assms(1)
  proof (elim disjE)
    assume a: "drop_bit 20 y = 0xAC1"
    then show ?thesis using high_byte(3) [OF a] by simp
  next
    assume a: "drop_bit 16 y = 0xC0A8"
    then show ?thesis using high_byte(1) [OF a] by simp
  qed simp
  then show False using denied_high_byte [OF d assms(2)]
    by (elim disjE) (auto dest: high_byte(4))
qed

lemma private_not_denied6:
  assumes "drop_bit 121 w = (0x7E :: 128 word)" "to4_form ip = IP16 w" "\<not> is_4in6 w"
    "\<not> Contains (hd cloudMetadataPrefixes) (A6 w)"
  shows "\<not> isHardDeniedIP ip"
proof
  assume "isHardDeniedIP ip"
  then consider "w = 1" | "drop_bit 118 w = 0x3FA" | "drop_bit 120 w = 0xFF" | "w = 0"
    using assms(2-4) unfolding isHardDeniedIP_def class_defs isCloudMetadataIP_def cloudMetadataPrefixes_def Let_def
    by auto
  then show False
  proof cases
    case 2
    have "drop_bit 121 w = drop_bit 3 (drop_bit 118 w)" by (simp add: drop_bit_drop_bit)
    then show False using assms(1) unfolding 2 by simp
  next
    case 3
    have "drop_bit 121 w = drop_bit 1 (drop_bit 120 w)" by (simp add: drop_bit_drop_bit)
    then show False using assms(1) unfolding 3 by simp
  qed (use assms(1) in simp_all)
qed

lemma supernet_loop_None:
  "supernet_loop p ss = None \<Longrightarrow>
   \<exists>s\<in>set ss. Contains s (pf_Addr (Masked p)) \<and> pf_Bits s \<le> pf_Bits p \<and>
     \<not> list_ex (\<lambda>m. Overlaps m (Masked p)) cloudMetadataPrefixes"
  by (induction ss) (auto simp: find_None_iff list_ex_iff split: if_splits)

lemma allowed_prefix_safe:
  assumes v: "validateAllowlistPrefix p = None" and a: "addr_of ip = Some a" and c: "Contains p a"
  shows "IsPrivate (to4_form ip) \<and> \<not> isHardDeniedIP ip"
proof -
  obtain s where s: "s \<in> set privateSupernets" "Contains s (pf_Addr (Masked p))" "pf_Bits s \<le> pf_Bits p"
    "\<not> list_ex (\<lambda>m. Overlaps m (Masked p)) cloudMetadataPrefixes"
    using v supernet_loop_None unfolding validateAllowlistPrefix_def by (metis option.distinct(1))
  have sa: "Contains s a" using Contains_supernet [OF s(2,3) c] .
  show ?thesis
  proof (cases a)
    case (A4 y)
    then have y: "drop_bit 24 y = 10 \<or> drop_bit 20 y = 0xAC1 \<or> drop_bit 16 y = 0xC0A8"
      using sa s(1) by (auto simp: privateSupernets_def)
    have f: "to4_form ip = IP4 y" using a A4 by (simp add: addr_of_A4)
    show ?thesis using private_not_denied4 [OF y f] y by (simp add: f IsPrivate_def)
  next
    case (A6 w)
    then have w: "drop_bit 121 w = 0x7E" using sa s(1) by (auto simp: privateSupernets_def)
    have f: "to4_form ip = IP16 w" "\<not> is_4in6 w" using a A6 addr_of_A6 by auto
    have "\<not> Contains (hd cloudMetadataPrefixes) (A6 w)"
      using s(4) Contains_Overlaps [OF _ c] A6 by (auto simp: cloudMetadataPrefixes_def)
    from private_not_denied6 [OF w f this] show ?thesis using w f by (simp add: IsPrivate_def)
  qed
qed

lemma allowlistHitFor_iff:
  "AllowedInternal allow ip \<longleftrightarrow> (\<exists>p\<in>set allow. \<exists>a. addr_of ip = Some a \<and> Contains p a)"
  by (cases "AddrFromSlice ip") (simp_all add: AllowedInternal_def allowlistHitFor_def addr_of_def find_ex)

lemma Validate_all:
  "ValidateInternalAllowlist N cs = Inr ps \<Longrightarrow> \<forall>p\<in>set ps. validateAllowlistPrefix p = None"
proof (induction cs arbitrary: ps)
  case (Cons c cs)
  then show ?case
    by (cases "ValidateInternalAllowlist N cs") (auto simp: Let_def split: if_splits option.splits)
qed simp

text \<open>
  C13: An allowlist can never open the denied classes: whatever texts an operator configures and
  however they are parsed, if \<^verbatim>\<open>ValidateInternalAllowlist\<close> accepts them, every address the
  resulting allowlist admits is a private address and is none of loopback, link-local, multicast,
  unspecified or cloud metadata, in IPv4, IPv6 or IPv4-mapped form. The policy then blocks an
  address exactly when it is of one of those classes, or private and in no accepted prefix.
\<close>

theorem allowlist_never_opens_denied:
  assumes "ValidateInternalAllowlist N cidrs = Inr allow"
  shows "(AllowedInternal allow ip \<longrightarrow> IsPrivate (to4_form ip) \<and> \<not> isHardDeniedIP ip) \<and>
    (blockedIP allow ip \<longleftrightarrow>
       isHardDeniedIP ip \<or> IsPrivate (to4_form ip) \<and> \<not> AllowedInternal allow ip)"
proof -
  have "IsPrivate (to4_form ip) \<and> \<not> isHardDeniedIP ip" if "AllowedInternal allow ip"
    using that Validate_all [OF assms] allowed_prefix_safe by (auto simp: allowlistHitFor_iff)
  then show ?thesis
    by (auto simp: blockedIP_def isRestrictedIP_def isHardDeniedIP_def Let_def)
qed

definition demo_net :: net_rt where
  "demo_net =
     \<lparr>rt_ParsePrefix = (\<lambda>c. if c = ''10.1.0.0/16'' then Some \<lparr>pf_Addr = A4 0x0A010000, pf_Bits = 16\<rparr> else None),
      rt_TrimSpace = id, rt_ParseIP = (\<lambda>h. if h = ''10.1.2.3'' then Some (IP4 0x0A010203) else None),
      rt_LookupIP = (\<lambda>h. None), rt_IPString = (\<lambda>ip. []), rt_ParseURL = (\<lambda>u. None)\<rparr>"

theorem allowlist_never_opens_denied_witness:
  "ValidateInternalAllowlist demo_net [''10.1.0.0/16''] = Inr [\<lparr>pf_Addr = A4 0x0A010000, pf_Bits = 16\<rparr>] \<and>
   \<not> blockedIP [\<lparr>pf_Addr = A4 0x0A010000, pf_Bits = 16\<rparr>] (IP4 0x0A010203) \<and>
   blockedIP [\<lparr>pf_Addr = A4 0x0A010000, pf_Bits = 16\<rparr>] (IP4 0x0A020203) \<and>
   IsPrivate (to4_form (IP4 0x0A010203))"
proof -
  let ?p = "\<lparr>pf_Addr = A4 0x0A010000, pf_Bits = 16\<rparr>"
  have v: "ValidateInternalAllowlist demo_net [''10.1.0.0/16''] = Inr [?p]"
    by (simp add: demo_net_def validateAllowlistPrefix_def privateSupernets_def Masked_def
        cloudMetadataPrefixes_def Overlaps_def)
  have a: "AllowedInternal [?p] (IP4 0x0A010203)" "\<not> AllowedInternal [?p] (IP4 0x0A020203)"
    by (simp_all add: AllowedInternal_def allowlistHitFor_def)
  have "IsPrivate (to4_form (IP4 0x0A020203))" by (simp add: IsPrivate_def to4_form_def)
  then show ?thesis
    using v a allowlist_never_opens_denied [OF v, of "IP4 0x0A010203"]
      allowlist_never_opens_denied [OF v, of "IP4 0x0A020203"] by simp
qed

text \<open>
  C32: Admission of a host: \<^verbatim>\<open>resolveAndCheck\<close> answers with the addresses of the host exactly
  when there is at least one and the policy blocks none of them; one blocked address among many
  rejects the host, and so does a failed or empty lookup. A redirect is followed only to a host
  admitted this way or to none, and never after ten hops.
\<close>

theorem admission_checks_every_address:
  "(resolveAndCheck N allow host = Inr ips \<longleftrightarrow>
      ips \<noteq> [] \<and> list_all (\<lambda>ip. \<not> blockedIP allow ip) ips \<and>
      Some ips = (case rt_ParseIP N host of Some ip \<Rightarrow> Some [ip] | None \<Rightarrow> rt_LookupIP N host)) \<and>
   (BlockInternalRedirect N allow host via = None \<longleftrightarrow>
      via < 10 \<and> (host = [] \<or> (\<exists>ips'. resolveAndCheck N allow host = Inr ips')))"
proof -
  have "resolveAndCheck N allow host = Inr ips \<longleftrightarrow>
      ips \<noteq> [] \<and> list_all (\<lambda>ip. \<not> blockedIP allow ip) ips \<and>
      Some ips = (case rt_ParseIP N host of Some ip \<Rightarrow> Some [ip] | None \<Rightarrow> rt_LookupIP N host)"
    by (auto simp: resolveAndCheck_def list_all_iff find_None_iff dest: find_Some_in
        split: option.splits list.splits if_splits)
  moreover have "BlockInternalRedirect N allow host via = None \<longleftrightarrow>
      via < 10 \<and> (host = [] \<or> (\<exists>ips'. resolveAndCheck N allow host = Inr ips'))"
    by (auto simp: BlockInternalRedirect_def split: sum.splits if_splits)
  ultimately show ?thesis by blast
qed

section \<open>Live connections\<close>

text \<open>
  The registry of \<^verbatim>\<open>conntrack.go\<close>: the tracked connections with the address of their socket, the counter
  of their ids, the connections closed so far, and the active allowlist.
\<close>

record ssrf_state =
  ss_allow :: "Prefix list"
  ss_tracked :: "(int \<times> net_ip) list"
  ss_nextConnID :: int
  ss_closed :: "int list"

definition trackConn :: "net_ip \<Rightarrow> ssrf_state \<Rightarrow> ssrf_state" where
  "trackConn ip s =
     (if ip = IPnone then s
      else let n = ss_nextConnID s + 1
           in s\<lparr>ss_nextConnID := n, ss_tracked := (n, ip) # ss_tracked s\<rparr>)"

definition conn_Close :: "int \<Rightarrow> ssrf_state \<Rightarrow> ssrf_state" where
  "conn_Close c s =
     s\<lparr>ss_tracked := filter (\<lambda>t. fst t \<noteq> c) (ss_tracked s), ss_closed := c # ss_closed s\<rparr>"

definition closeRevokedConns :: "ssrf_state \<Rightarrow> ssrf_state" where
  "closeRevokedConns s =
     (let doomed = map fst (filter (\<lambda>t. blockedIP (ss_allow s) (snd t)) (ss_tracked s))
      in s\<lparr>ss_tracked := filter (\<lambda>t. \<not> blockedIP (ss_allow s) (snd t)) (ss_tracked s),
           ss_closed := doomed @ ss_closed s\<rparr>)"

text \<open>Publishing stores the policy and then sweeps the connections; other goroutines may run in between.\<close>

definition store_allowlist :: "Prefix list \<Rightarrow> ssrf_state \<Rightarrow> ssrf_state" where
  "store_allowlist ps s = s\<lparr>ss_allow := ps\<rparr>"

definition ApplyInternalAllowlist :: "Prefix list \<Rightarrow> ssrf_state \<Rightarrow> ssrf_state" where
  "ApplyInternalAllowlist ps s = closeRevokedConns (store_allowlist ps s)"

definition SetInternalAllowlist :: "net_rt \<Rightarrow> bytes list \<Rightarrow> ssrf_state \<Rightarrow> allow_err option \<times> ssrf_state" where
  "SetInternalAllowlist N cidrs s =
     (case ValidateInternalAllowlist N cidrs of
        Inl err \<Rightarrow> (Some err, s)
      | Inr ps \<Rightarrow> (None, ApplyInternalAllowlist ps s))"

definition ssrfControl :: "Prefix list \<Rightarrow> net_ip \<Rightarrow> bool" where
  "ssrfControl allow ip \<longleftrightarrow> ip \<noteq> IPnone \<and> \<not> blockedIP allow ip"

text \<open>
  Dials of several goroutines interleaved with changes of the policy, in the steps of \<^verbatim>\<open>DialContext\<close> and
  of \<^verbatim>\<open>ApplyInternalAllowlist\<close>: the socket is connected after \<^verbatim>\<open>ssrfControl\<close> has checked its
  address, and it is tracked in a later step; the new policy is stored, and the sweep follows in a later step.
  Publishers exclude each other by \<^verbatim>\<open>publishMu\<close>; the flag says that one is before its sweep.
\<close>

datatype dial = Idle | Connected net_ip

type_synonym dials = "ssrf_state \<times> (nat \<Rightarrow> dial) \<times> bool"

inductive dial_step :: "dials \<Rightarrow> dials \<Rightarrow> bool" where
  connect: "ds t = Idle \<Longrightarrow> ssrfControl (ss_allow s) ip \<Longrightarrow> dial_step (s, ds, b) (s, ds(t := Connected ip), b)"
| track: "ds t = Connected ip \<Longrightarrow> dial_step (s, ds, b) (trackConn ip s, ds(t := Idle), b)"
| close: "dial_step (s, ds, b) (conn_Close c s, ds, b)"
| store: "dial_step (s, ds, False) (store_allowlist ps s, ds, True)"
| sweep: "dial_step (s, ds, True) (closeRevokedConns s, ds, False)"

inductive_cases dial_stepE: "dial_step x y"

definition tracked_ok :: "ssrf_state \<Rightarrow> bool" where
  "tracked_ok s = list_all (\<lambda>t. \<not> blockedIP (ss_allow s) (snd t)) (ss_tracked s)"

definition settled :: "dials \<Rightarrow> bool" where
  "settled x \<longleftrightarrow> (case x of (s, ds, b) \<Rightarrow>
     (\<not> b \<longrightarrow> tracked_ok s) \<and> (\<forall>t ip. ds t = Connected ip \<longrightarrow> \<not> blockedIP (ss_allow s) ip))"

text \<open>Runs in which no socket is connected but untracked when a policy is stored.\<close>

inductive quiet_run :: "dials \<Rightarrow> dials \<Rightarrow> bool" where
  start: "quiet_run x x"
| step: "quiet_run x y \<Longrightarrow> dial_step y z \<Longrightarrow>
    ss_allow (fst z) = ss_allow (fst y) \<or> (\<forall>t. fst (snd y) t = Idle) \<Longrightarrow> quiet_run x z"

lemma quiet_settled: "quiet_run x y \<Longrightarrow> settled x \<Longrightarrow> settled y"
proof (induction rule: quiet_run.induct)
  case (step x y z)
  from step.hyps(2) step.hyps(3) step.IH [OF step.prems] show ?case
    by (cases rule: dial_step.cases)
      (auto simp: settled_def tracked_ok_def list_all_iff ssrfControl_def trackConn_def conn_Close_def
        store_allowlist_def closeRevokedConns_def Let_def)
qed simp

text \<open>
  C33: Revocation: changing the allowlist closes exactly the tracked connections whose address the
  new policy blocks, keeps the others open, and an invalid configuration changes nothing. In every
  run in which no dial is between connecting and tracking when a policy is stored, no tracked
  connection has an address the active policy blocks, except between the store and its sweep; dials may connect,
  be tracked and be closed between the two.
\<close>

theorem revocation_closes_blocked:
  assumes "quiet_run (s0, (\<lambda>t. Idle), False) (s, ds, sweeping)" "ss_tracked s0 = []"
  shows "(sweeping \<or> tracked_ok s) \<and>
    set (ss_tracked (ApplyInternalAllowlist ps s)) = {t \<in> set (ss_tracked s). \<not> blockedIP ps (snd t)} \<and>
    set (ss_closed (ApplyInternalAllowlist ps s)) =
      set (ss_closed s) \<union> fst ` {t \<in> set (ss_tracked s). blockedIP ps (snd t)} \<and>
    (isl (ValidateInternalAllowlist N cidrs) \<longrightarrow> snd (SetInternalAllowlist N cidrs s) = s)"
proof -
  have "settled (s0, (\<lambda>t. Idle), False)" using assms(2) by (simp add: settled_def tracked_ok_def)
  from quiet_settled [OF assms(1) this] have "sweeping \<or> tracked_ok s" by (auto simp: settled_def)
  then show ?thesis
    by (auto simp: ApplyInternalAllowlist_def store_allowlist_def closeRevokedConns_def SetInternalAllowlist_def Let_def
        split: sum.splits)
qed

definition empty_ssrf :: "Prefix list \<Rightarrow> ssrf_state" where
  "empty_ssrf ps = \<lparr>ss_allow = ps, ss_tracked = [], ss_nextConnID = 0, ss_closed = []\<rparr>"

lemma demo_policy:
  "\<not> blockedIP [\<lparr>pf_Addr = A4 0x0A010000, pf_Bits = 16\<rparr>] (IP4 0x0A010203)" "blockedIP [] (IP4 0x0A010203)"
  by (simp_all add: blockedIP_def isHardDeniedIP_def class_defs isCloudMetadataIP_def cloudMetadataPrefixes_def
      isRestrictedIP_def to4_form_def AllowedInternal_def allowlistHitFor_def)

theorem revocation_closes_blocked_witness:
  "ss_tracked (ApplyInternalAllowlist []
     (trackConn (IP4 0x0A010203) (empty_ssrf [\<lparr>pf_Addr = A4 0x0A010000, pf_Bits = 16\<rparr>]))) = []"
proof -
  let ?p = "[\<lparr>pf_Addr = A4 0x0A010000, pf_Bits = 16\<rparr>]" and ?ip = "IP4 0x0A010203"
  let ?s = "empty_ssrf ?p" and ?I = "\<lambda>t :: nat. Idle"
  have "dial_step (?s, ?I, False) (?s, ?I(0 := Connected ?ip), False)"
    by (rule connect) (simp_all add: ssrfControl_def empty_ssrf_def demo_policy)
  then have 1: "quiet_run (?s, ?I, False) (?s, ?I(0 := Connected ?ip), False)"
    by (rule quiet_run.step [OF quiet_run.start]) simp
  have "dial_step (?s, ?I(0 := Connected ?ip), False) (trackConn ?ip ?s, (?I(0 := Connected ?ip))(0 := Idle), False)"
    by (rule track) simp
  then have "quiet_run (?s, ?I, False) (trackConn ?ip ?s, (?I(0 := Connected ?ip))(0 := Idle), False)"
    by (rule quiet_run.step [OF 1]) (simp add: trackConn_def Let_def)
  from revocation_closes_blocked [OF this, of "[]"]
  have "set (ss_tracked (ApplyInternalAllowlist [] (trackConn ?ip ?s))) =
      {t \<in> set (ss_tracked (trackConn ?ip ?s)). \<not> blockedIP [] (snd t)}" by (simp add: empty_ssrf_def)
  also have "\<dots> = {}" using demo_policy(2) by (auto simp: trackConn_def empty_ssrf_def Let_def)
  finally show ?thesis by simp
qed

text \<open>
  Revocation can be missed: there is a run in which a dial passes the socket check, the
  allowlist is then narrowed so that its address is blocked, and only after the sweep the connection is tracked.
  It stays open and tracked although the active policy blocks its address.
\<close>

lemma revocation_race:
  "\<exists>s ds. dial_step\<^sup>*\<^sup>* (empty_ssrf [\<lparr>pf_Addr = A4 0x0A010000, pf_Bits = 16\<rparr>], (\<lambda>t. Idle), False) (s, ds, False) \<and>
     ss_allow s = [] \<and> ss_tracked s = [(1, IP4 0x0A010203)] \<and> ss_closed s = [] \<and> \<not> tracked_ok s"
proof -
  let ?p = "[\<lparr>pf_Addr = A4 0x0A010000, pf_Bits = 16\<rparr>]" and ?ip = "IP4 0x0A010203"
  let ?s = "empty_ssrf ?p" and ?I = "\<lambda>t :: nat. Idle"
  let ?c = "?I(0 := Connected ?ip)" and ?s1 = "store_allowlist [] ?s"
  let ?s2 = "closeRevokedConns ?s1"
  have 1: "dial_step (?s, ?I, False) (?s, ?c, False)"
    by (rule connect) (simp_all add: ssrfControl_def empty_ssrf_def demo_policy)
  have 2: "dial_step (?s, ?c, False) (?s1, ?c, True)" "dial_step (?s1, ?c, True) (?s2, ?c, False)" by (rule store, rule sweep)
  have 3: "dial_step (?s2, ?c, False) (trackConn ?ip ?s2, ?c(0 := Idle), False)" by (rule track) simp
  have "dial_step\<^sup>*\<^sup>* (?s, ?I, False) (trackConn ?ip ?s2, ?c(0 := Idle), False)"
    using 1 2 3 by (meson rtranclp.rtrancl_into_rtrancl rtranclp.rtrancl_refl)
  moreover have "ss_allow (trackConn ?ip ?s2) = [] \<and> ss_tracked (trackConn ?ip ?s2) = [(1, ?ip)] \<and>
      ss_closed (trackConn ?ip ?s2) = [] \<and> \<not> tracked_ok (trackConn ?ip ?s2)"
    by (simp add: trackConn_def store_allowlist_def closeRevokedConns_def empty_ssrf_def Let_def
        tracked_ok_def demo_policy)
  ultimately show ?thesis by blast
qed

end
