(* ===== verification/Pii_Vault.thy ===== *)
theory Pii_Vault
  imports Guardrail_Spans Go_Decode
begin

text \<open>
  The vault of \<^verbatim>\<open>internal/guardrail/pii_vault.go\<close>: personal data found by the request rules is replaced
  by placeholders that name an entry of the vault, and the placeholders in the answer are replaced
  back, also when the answer arrives in pieces. The maps are an association list in the order of insertion
  (\<^verbatim>\<open>values\<close>) and a map (\<^verbatim>\<open>tokens\<close>); the replacer and the sorted list of
  placeholders, which the code rebuilds after every change, are computed from them.
\<close>

section \<open>The vault\<close>

record PIIVault =
  pv_namespace :: bytes
  pv_values :: "(bytes \<times> bytes) list"
  pv_tokens :: "bytes \<Rightarrow> bytes option"

text \<open>\<^verbatim>\<open>WithPIIVault\<close> on the random bytes it read: two letters for each.\<close>

definition WithPIIVault :: "nat list \<Rightarrow> PIIVault" where
  "WithPIIVault nonce =
     \<lparr>pv_namespace = concat (map (\<lambda>b. [char_of (97 + b div 16), char_of (97 + b mod 16)]) nonce),
      pv_values = [], pv_tokens = Map.empty\<rparr>"

definition Active :: "PIIVault \<Rightarrow> bool" where
  "Active v \<longleftrightarrow> length (pv_values v) > 0"

definition Clear :: "PIIVault \<Rightarrow> PIIVault" where
  "Clear v = v\<lparr>pv_values := [], pv_tokens := Map.empty\<rparr>"

definition trim_brackets :: "bytes \<Rightarrow> bytes" where
  "trim_brackets s =
     (let b = (\<lambda>c. c = CHR ''['' \<or> c = CHR '']'')
      in rev (dropWhile b (rev (dropWhile b s))))"

definition pii_token :: "bytes \<Rightarrow> bytes \<Rightarrow> nat \<Rightarrow> bytes" where
  "pii_token ns label n =
     ''<CL_PII_'' @ ns @ ''_'' @ trim_brackets label @ ''_'' @ dec n @ ''>''"

definition mask_span :: "bytes \<Rightarrow> Span \<Rightarrow> PIIVault \<Rightarrow> Span \<times> PIIVault" where
  "mask_span content s v =
     (if \<not> sp_Reversible s \<or> sp_Start s < 0 \<or> sp_End s > int (length content) \<or> sp_Start s \<ge> sp_End s
      then (s, v)
      else
        let original = slice content (sp_Start s) (sp_End s);
            key = sp_Replacement s @ CHR 0x00 # original
        in case pv_tokens v key of
             Some token \<Rightarrow> (s\<lparr>sp_Replacement := token\<rparr>, v)
           | None \<Rightarrow>
               let token = pii_token (pv_namespace v) (sp_Replacement s) (length (pv_values v) + 1)
               in (s\<lparr>sp_Replacement := token\<rparr>,
                   v\<lparr>pv_tokens := (pv_tokens v)(key \<mapsto> token), pv_values := pv_values v @ [(token, original)]\<rparr>))"

fun maskSpans :: "bytes \<Rightarrow> Span list \<Rightarrow> PIIVault \<Rightarrow> Span list \<times> PIIVault" where
  "maskSpans content [] v = ([], v)"
| "maskSpans content (s # ss) v =
     (case mask_span content s v of
        (s1, v1) \<Rightarrow> (case maskSpans content ss v1 of (ss1, v2) \<Rightarrow> (s1 # ss1, v2)))"

definition MaskResult :: "bytes \<Rightarrow> GuardrailResult option \<Rightarrow> PIIVault \<Rightarrow> GuardrailResult option \<times> PIIVault" where
  "MaskResult content result v =
     (case result of
        None \<Rightarrow> (None, v)
      | Some r \<Rightarrow>
          (case maskSpans content (composeSpans (gr_MaskedSpans r)) v of
             (spans, v1) \<Rightarrow>
               (Some (if spans = [] then r\<lparr>gr_MaskedSpans := spans\<rparr>
                      else r\<lparr>gr_MaskedSpans := spans, gr_MaskedContent := applySpans content spans\<rparr>), v1)))"

section \<open>Restoring\<close>

definition has_prefix :: "bytes \<Rightarrow> bytes \<Rightarrow> bool" where
  "has_prefix s p \<longleftrightarrow> take (length p) s = p"

text \<open>
  \<^verbatim>\<open>strings.NewReplacer(pairs...).Replace\<close>: one pass from the left, at each position the first pair
  whose old string is there; the old strings are not empty.
\<close>

function replace_all :: "(bytes \<times> bytes) list \<Rightarrow> bytes \<Rightarrow> bytes" where
  "replace_all pairs [] = []"
| "replace_all pairs (c # cs) =
     (case find (\<lambda>p. fst p \<noteq> [] \<and> has_prefix (c # cs) (fst p)) pairs of
        Some (t, original) \<Rightarrow> original @ replace_all pairs (drop (length t - 1) cs)
      | None \<Rightarrow> c # replace_all pairs cs)"
  by pat_completeness auto
termination by (relation "measure (\<lambda>(pairs, s). length s)") auto

definition restore_cut :: "PIIVault \<Rightarrow> bytes \<Rightarrow> bool \<Rightarrow> nat" where
  "restore_cut v s final =
     (if final then length s
      else case split_last (CHR ''<'') s of
        None \<Rightarrow> length s
      | Some (before, after) \<Rightarrow>
          let candidate = CHR ''<'' # after
          in case find (\<lambda>t. candidate \<le> t) (sort (map fst (pv_values v))) of
               None \<Rightarrow> length s
             | Some t \<Rightarrow> if candidate \<noteq> t \<and> has_prefix t candidate then length before else length s)"

definition RestorePrefix :: "PIIVault \<Rightarrow> bytes \<Rightarrow> bool \<Rightarrow> bytes \<times> bytes" where
  "RestorePrefix v s final =
     (let cut = restore_cut v s final
      in (replace_all (pv_values v) (take cut s), drop cut s))"

definition Restore :: "PIIVault \<Rightarrow> bytes \<Rightarrow> bytes" where
  "Restore v s = fst (RestorePrefix v s True)"

section \<open>Placeholders\<close>

text \<open>The shape of a placeholder, which makes the set of placeholders free of prefixes.\<close>

definition token_shape :: "bytes \<Rightarrow> bool" where
  "token_shape t \<longleftrightarrow> (\<exists>b. t = CHR ''<'' # b @ ''>'' \<and> CHR ''<'' \<notin> set b \<and> CHR ''>'' \<notin> set b)"

lemma has_prefix_append [simp]: "has_prefix (p @ r) p"
  by (simp add: has_prefix_def)

lemma has_prefixD: "has_prefix s p \<Longrightarrow> s = p @ drop (length p) s"
  by (metis append_take_drop_id has_prefix_def)

lemma token_prefix_free:
  assumes "token_shape t" "token_shape u" "has_prefix (t @ r) u"
  shows "u = t"
proof -
  obtain a b where ab: "t = CHR ''<'' # a @ ''>''" "u = CHR ''<'' # b @ ''>''"
    "CHR ''>'' \<notin> set a" "CHR ''>'' \<notin> set b" using assms(1,2) by (auto simp: token_shape_def)
  have "t @ r = u @ drop (length u) (t @ r)" by (rule has_prefixD [OF assms(3)])
  then have e: "a @ CHR ''>'' # r = b @ CHR ''>'' # drop (length u) (t @ r)" using ab(1,2) by simp
  have "takeWhile (\<lambda>c. c \<noteq> CHR ''>'') (a @ CHR ''>'' # r) = a"
    "takeWhile (\<lambda>c. c \<noteq> CHR ''>'') (b @ CHR ''>'' # drop (length u) (t @ r)) = b"
    using ab(3,4) by (auto simp: takeWhile_append takeWhile_eq_all_conv)
  then have "a = b" using e by simp
  then show ?thesis using ab by simp
qed

definition tokens_ok :: "(bytes \<times> bytes) list \<Rightarrow> bool" where
  "tokens_ok pairs \<longleftrightarrow> (\<forall>p\<in>set pairs. token_shape (fst p)) \<and> distinct (map fst pairs)"

lemma token_shape_ne: "token_shape t \<Longrightarrow> t \<noteq> []"
  by (auto simp: token_shape_def)

lemma replace_token:
  assumes ok: "tokens_ok pairs" and t: "(t, original) \<in> set pairs"
  shows "replace_all pairs (t @ r) = original @ replace_all pairs r"
proof -
  have sh: "token_shape t" using ok t by (force simp: tokens_ok_def)
  then obtain c cs where c: "t = c # cs" by (cases t) (auto simp: token_shape_def)
  let ?P = "\<lambda>p. fst p \<noteq> [] \<and> has_prefix (c # cs @ r) (fst p)"
  have P: "?P (t, original)" using c has_prefix_append [of t r] by simp
  then obtain q where q: "find ?P pairs = Some q" using t find_ex [of ?P pairs] by blast
  then have qin: "q \<in> set pairs" "?P q" using find_Some_in [OF q] by auto
  then have "token_shape (fst q)" using ok by (simp add: tokens_ok_def)
  moreover have "has_prefix (t @ r) (fst q)" using qin(2) c by simp
  ultimately have f: "fst q = t" using token_prefix_free [OF sh] by blast
  have "distinct (map fst pairs)" using ok by (simp add: tokens_ok_def)
  moreover have "(t, snd q) \<in> set pairs" using qin(1) f by (metis prod.collapse)
  ultimately have "snd q = original" using t by (rule eq_key_imp_eq_value)
  then have "q = (t, original)" using f by (metis prod.collapse)
  then show ?thesis using q c by simp
qed

lemma replace_skip:
  assumes "\<And>i p. i < length k \<Longrightarrow> p \<in> set pairs \<Longrightarrow> \<not> has_prefix (drop i k @ r) (fst p)"
  shows "replace_all pairs (k @ r) = k @ replace_all pairs r"
  using assms
proof (induction k)
  case (Cons c k)
  have "find (\<lambda>p. fst p \<noteq> [] \<and> has_prefix (c # k @ r) (fst p)) pairs = None"
    using Cons.prems [of 0] by (auto simp: find_None_iff)
  moreover have "replace_all pairs (k @ r) = k @ replace_all pairs r"
    using Cons.prems [of "Suc _"] by (intro Cons.IH) auto
  ultimately show ?case by simp
qed simp

section \<open>What the vault keeps\<close>

text \<open>
  A label that the placeholders can carry: no angle bracket and no NUL, as in \<^verbatim>\<open>[PHONE]\<close>.
\<close>

definition label_ok :: "bytes \<Rightarrow> bool" where
  "label_ok l \<longleftrightarrow> CHR ''<'' \<notin> set l \<and> CHR ''>'' \<notin> set l \<and> CHR 0x00 \<notin> set l"

definition vault_ok :: "PIIVault \<Rightarrow> bool" where
  "vault_ok v \<longleftrightarrow>
     CHR ''<'' \<notin> set (pv_namespace v) \<and> CHR ''>'' \<notin> set (pv_namespace v) \<and>
     (\<forall>i<length (pv_values v). \<exists>l. label_ok l \<and> fst (pv_values v ! i) = pii_token (pv_namespace v) l (i + 1)) \<and>
     (\<forall>l original t. label_ok l \<longrightarrow> pv_tokens v (l @ CHR 0x00 # original) = Some t \<longrightarrow>
        (t, original) \<in> set (pv_values v))"

lemma set_trim: "set (trim_brackets l) \<subseteq> set l"
  by (auto simp: trim_brackets_def Let_def dest!: set_dropWhileD)

lemma dec_no_special: "CHR ''<'' \<notin> set (dec n)" "CHR ''>'' \<notin> set (dec n)" "CHR ''_'' \<notin> set (dec n)"
  using dec_digits [of n] by (auto simp: list_all_iff is_digit_def in_rng_def)

lemma token_shape_pii:
  assumes "CHR ''<'' \<notin> set ns" "CHR ''>'' \<notin> set ns" "label_ok l"
  shows "token_shape (pii_token ns l n)"
proof -
  let ?b = "''CL_PII_'' @ ns @ ''_'' @ trim_brackets l @ ''_'' @ dec n"
  have "CHR ''<'' \<notin> set ?b" "CHR ''>'' \<notin> set ?b"
    using assms set_trim [of l] dec_no_special [of n] by (auto simp: label_ok_def)
  then show ?thesis unfolding token_shape_def pii_token_def by (intro exI [of _ ?b]) simp
qed

lemma pii_token_number:
  assumes "pii_token ns l n = pii_token ns' l' m"
  shows "n = m"
proof -
  let ?a = "''<CL_PII_'' @ ns @ ''_'' @ trim_brackets l" and ?b = "''<CL_PII_'' @ ns' @ ''_'' @ trim_brackets l'"
  have "(?a @ CHR ''_'' # dec n) @ ''>'' = (?b @ CHR ''_'' # dec m) @ ''>''"
    using assms by (simp add: pii_token_def)
  then have e: "?a @ CHR ''_'' # dec n = ?b @ CHR ''_'' # dec m" by (simp only: append_same_eq)
  have "Some (?a, dec n) = Some (?b, dec m)"
    using arg_cong [OF e, of "split_last (CHR ''_'')"] by (simp only: split_last_append [OF dec_no_special(3)])
  then have "dec n = dec m" by (simp only: option.inject prod.inject)
  then show ?thesis by (metis digits_val_dec of_nat_eq_iff)
qed

lemma vault_tokens_ok:
  assumes "vault_ok v"
  shows "tokens_ok (pv_values v)"
proof -
  have "token_shape (fst p)" if p: "p \<in> set (pv_values v)" for p
  proof -
    obtain i where i: "i < length (pv_values v)" "p = pv_values v ! i" using p by (auto simp: in_set_conv_nth)
    then obtain l where "label_ok l" "fst p = pii_token (pv_namespace v) l (i + 1)"
      using assms by (auto simp: vault_ok_def)
    then show ?thesis using assms token_shape_pii by (simp add: vault_ok_def)
  qed
  moreover have "distinct (map fst (pv_values v))"
    unfolding distinct_conv_nth
  proof (intro allI impI)
    fix i j assume ij: "i < length (map fst (pv_values v))" "j < length (map fst (pv_values v))" "i \<noteq> j"
    have ex: "\<exists>l. fst (pv_values v ! k) = pii_token (pv_namespace v) l (k + 1)" if "k < length (pv_values v)" for k
      using assms that by (auto simp: vault_ok_def)
    obtain l where l: "fst (pv_values v ! i) = pii_token (pv_namespace v) l (i + 1)" using ex ij(1) by auto
    obtain l' where l': "fst (pv_values v ! j) = pii_token (pv_namespace v) l' (j + 1)" using ex ij(2) by auto
    show "map fst (pv_values v) ! i \<noteq> map fst (pv_values v) ! j"
    proof
      assume "map fst (pv_values v) ! i = map fst (pv_values v) ! j"
      then have "pii_token (pv_namespace v) l (i + 1) = pii_token (pv_namespace v) l' (j + 1)"
        using ij(1,2) l l' by simp
      from pii_token_number [OF this] show False using ij(3) by simp
    qed
  qed
  ultimately show ?thesis by (simp add: tokens_ok_def)
qed

lemma letter_not_bracket: "k < 16 \<Longrightarrow> char_of (97 + k :: nat) \<noteq> CHR ''<'' \<and> char_of (97 + k :: nat) \<noteq> CHR ''>''"
proof -
  assume k: "k < 16"
  have "c \<noteq> char_of (97 + k)" if c: "of_char c < (97 :: nat)" for c :: char
  proof
    assume "c = char_of (97 + k)"
    then have "of_char c = 97 + k" using k by simp
    then show False using c by simp
  qed
  from this [of "CHR ''<''"] this [of "CHR ''>''"] show ?thesis by auto
qed

lemma vault_ok_new: "list_all (\<lambda>b. b < 256) nonce \<Longrightarrow> vault_ok (WithPIIVault nonce)"
proof -
  assume n: "list_all (\<lambda>b. b < 256) nonce"
  have "set (pv_namespace (WithPIIVault nonce)) \<subseteq> (\<lambda>k. char_of (97 + k :: nat)) ` {..<16}"
  proof
    fix c assume "c \<in> set (pv_namespace (WithPIIVault nonce))"
    then obtain b where b: "b \<in> set nonce" "c = char_of (97 + b div 16) \<or> c = char_of (97 + b mod 16)"
      by (auto simp: WithPIIVault_def)
    have "b < 16 * 16" using n b(1) by (simp add: list_all_iff)
    then have "b div 16 < 16" by (rule less_mult_imp_div_less)
    moreover have "b mod 16 < 16" by simp
    ultimately show "c \<in> (\<lambda>k. char_of (97 + k :: nat)) ` {..<16}"
      using b(2)
    proof (elim disjE)
      assume "b div 16 < 16" "c = char_of (97 + b div 16)"
      then show ?thesis by (intro image_eqI [of _ _ "b div 16"]) auto
    next
      assume "b mod 16 < 16" "c = char_of (97 + b mod 16)"
      then show ?thesis by (intro image_eqI [of _ _ "b mod 16"]) auto
    qed
  qed
  moreover have "x \<noteq> CHR ''<'' \<and> x \<noteq> CHR ''>''" if "x \<in> (\<lambda>k. char_of (97 + k :: nat)) ` {..<16}" for x
    using that
  proof (elim imageE)
    fix k :: nat assume k: "x = char_of (97 + k)" "k \<in> {..<16}"
    show ?thesis unfolding k(1) by (rule letter_not_bracket) (use k(2) in simp)
  qed
  ultimately have "CHR ''<'' \<notin> set (pv_namespace (WithPIIVault nonce))" "CHR ''>'' \<notin> set (pv_namespace (WithPIIVault nonce))"
    by blast+
  then show ?thesis by (simp add: vault_ok_def WithPIIVault_def)
qed

lemma nul_split:
  assumes "CHR 0x00 \<notin> set l" "CHR 0x00 \<notin> set l'" "l @ CHR 0x00 # x = l' @ CHR 0x00 # y"
  shows "l = l' \<and> x = y"
proof -
  have "takeWhile (\<lambda>c. c \<noteq> CHR 0x00) (l @ CHR 0x00 # x) = l" "takeWhile (\<lambda>c. c \<noteq> CHR 0x00) (l' @ CHR 0x00 # y) = l'"
    using assms(1,2) by (auto simp: takeWhile_append takeWhile_eq_all_conv)
  then show ?thesis using assms(3) by simp
qed

text \<open>Masking one span keeps the vault in order and names an entry with the masked text.\<close>

lemma mask_span_ok:
  assumes ok: "vault_ok v" and l: "label_ok (sp_Replacement s)" and r: "sp_Reversible s" "proper s"
    and b: "sp_End s \<le> int (length content)" and m: "mask_span content s v = (s1, v1)"
  shows "vault_ok v1 \<and> set (pv_values v) \<subseteq> set (pv_values v1) \<and> pv_namespace v1 = pv_namespace v \<and>
    sp_Start s1 = sp_Start s \<and> sp_End s1 = sp_End s \<and>
    (sp_Replacement s1, slice content (sp_Start s) (sp_End s)) \<in> set (pv_values v1)"
proof -
  let ?o = "slice content (sp_Start s) (sp_End s)"
  let ?k = "sp_Replacement s @ CHR 0x00 # ?o"
  let ?t = "pii_token (pv_namespace v) (sp_Replacement s) (length (pv_values v) + 1)"
  have g: "\<not> (\<not> sp_Reversible s \<or> sp_Start s < 0 \<or> sp_End s > int (length content) \<or> sp_Start s \<ge> sp_End s)"
    using r b by (auto simp: proper_def)
  show ?thesis
  proof (cases "pv_tokens v ?k")
    case (Some t)
    then have "s1 = s\<lparr>sp_Replacement := t\<rparr>" "v1 = v" using m g by (auto simp: mask_span_def Let_def)
    moreover have "(t, ?o) \<in> set (pv_values v)" using ok l Some unfolding vault_ok_def by blast
    ultimately show ?thesis using ok by simp
  next
    case None
    then have s1: "s1 = s\<lparr>sp_Replacement := ?t\<rparr>"
      and v1: "v1 = v\<lparr>pv_tokens := (pv_tokens v)(?k \<mapsto> ?t), pv_values := pv_values v @ [(?t, ?o)]\<rparr>"
      using m g by (auto simp: mask_span_def Let_def)
    have "vault_ok v1"
      unfolding vault_ok_def
    proof (intro conjI allI impI)
      show "CHR ''<'' \<notin> set (pv_namespace v1)" "CHR ''>'' \<notin> set (pv_namespace v1)"
        using ok by (simp_all add: v1 vault_ok_def)
      fix i assume "i < length (pv_values v1)"
      then show "\<exists>l. label_ok l \<and> fst (pv_values v1 ! i) = pii_token (pv_namespace v1) l (i + 1)"
        using ok l by (cases "i = length (pv_values v)") (auto simp: v1 vault_ok_def nth_append)
    next
      fix l' o' t assume "label_ok l'" "pv_tokens v1 (l' @ CHR 0x00 # o') = Some t"
      then show "(t, o') \<in> set (pv_values v1)"
        using ok l nul_split [of l' "sp_Replacement s" o' ?o]
        by (auto simp: v1 vault_ok_def label_ok_def split: if_splits)
    qed
    then show ?thesis by (auto simp: s1 v1)
  qed
qed

section \<open>Masking and restoring\<close>

definition maskable :: "bytes \<Rightarrow> Span \<Rightarrow> bool" where
  "maskable content s \<longleftrightarrow>
     label_ok (sp_Replacement s) \<and> sp_Reversible s \<and> proper s \<and> sp_End s \<le> int (length content)"

definition masked_as :: "bytes \<Rightarrow> PIIVault \<Rightarrow> Span \<Rightarrow> Span \<Rightarrow> bool" where
  "masked_as content v s s1 \<longleftrightarrow>
     sp_Start s1 = sp_Start s \<and> sp_End s1 = sp_End s \<and>
     (sp_Replacement s1, slice content (sp_Start s) (sp_End s)) \<in> set (pv_values v)"

lemma maskSpans_ok:
  "vault_ok v \<Longrightarrow> list_all (maskable content) ss \<Longrightarrow> maskSpans content ss v = (ss1, v1) \<Longrightarrow>
   vault_ok v1 \<and> set (pv_values v) \<subseteq> set (pv_values v1) \<and> pv_namespace v1 = pv_namespace v \<and>
   list_all2 (masked_as content v1) ss ss1"
proof (induction ss arbitrary: v ss1)
  case (Cons s ss)
  obtain s1 w where m: "mask_span content s v = (s1, w)" by fastforce
  obtain ts where t: "maskSpans content ss w = (ts, v1)" "ss1 = s1 # ts"
    using Cons.prems(3) m by (auto split: prod.splits)
  have a: "vault_ok w \<and> set (pv_values v) \<subseteq> set (pv_values w) \<and> pv_namespace w = pv_namespace v \<and>
    sp_Start s1 = sp_Start s \<and> sp_End s1 = sp_End s \<and>
    (sp_Replacement s1, slice content (sp_Start s) (sp_End s)) \<in> set (pv_values w)"
    using Cons.prems(1,2) by (intro mask_span_ok [OF _ _ _ _ _ m]) (auto simp: maskable_def)
  then have "vault_ok v1 \<and> set (pv_values w) \<subseteq> set (pv_values v1) \<and> pv_namespace v1 = pv_namespace w \<and>
    list_all2 (masked_as content v1) ss ts" using Cons.IH [OF _ _ t(1)] Cons.prems(2) by simp
  moreover from this have "masked_as content v1 s s1" using a by (auto simp: masked_as_def)
  ultimately show ?case using a t(2) by auto
qed simp

definition marker :: "bytes \<Rightarrow> bytes" where
  "marker ns = ''<CL_PII_'' @ ns @ ''_''"

lemma nth_in_tl: "0 < n \<Longrightarrow> n < length xs \<Longrightarrow> xs ! n \<in> set (tl xs)"
  by (cases xs; cases n) auto

text \<open>No placeholder starts inside a part of the original text that does not contain the marker.\<close>

lemma no_token_in_part:
  assumes ok: "vault_ok v" and p: "p \<in> set (pv_values v)"
    and free: "\<forall>i. \<not> has_prefix (drop i content) (marker (pv_namespace v))"
    and d: "d = take m (drop q content)" "d \<noteq> []" and r: "r = [] \<or> hd r = CHR ''<''"
  shows "\<not> has_prefix (d @ r) (fst p)"
proof
  assume h: "has_prefix (d @ r) (fst p)"
  let ?M = "marker (pv_namespace v)"
  obtain i where i: "i < length (pv_values v)" "p = pv_values v ! i" using p by (auto simp: in_set_conv_nth)
  then obtain l where "fst p = pii_token (pv_namespace v) l (i + 1)" using ok by (auto simp: vault_ok_def)
  then obtain z where z: "fst p = ?M @ z" by (auto simp: pii_token_def marker_def)
  have e: "d @ r = ?M @ z @ drop (length (fst p)) (d @ r)" using has_prefixD [OF h] z by simp
  show False
  proof (cases "length ?M \<le> length d")
    case True
    then have "take (length ?M) d = ?M" using arg_cong [OF e, of "take (length ?M)"] by simp
    moreover have "take (length ?M) d = take (length ?M) (drop q content)"
    proof -
      have "length ?M \<le> m" using True d(1) by simp
      then show ?thesis unfolding d(1) by (simp add: min_absorb1)
    qed
    ultimately show False using free by (simp add: has_prefix_def)
  next
    case False
    then have "r \<noteq> []" using arg_cong [OF e, of length] by auto
    have "(d @ r) ! length d = hd r" using \<open>r \<noteq> []\<close> by (simp add: nth_append hd_conv_nth)
    moreover have "(d @ r) ! length d = ?M ! length d" using False e by (metis not_le nth_append)
    ultimately have lt: "?M ! length d = CHR ''<''" using r \<open>r \<noteq> []\<close> by simp
    have "?M ! length d \<in> set (tl ?M)" using False d(2) by (intro nth_in_tl) auto
    moreover have "CHR ''<'' \<notin> set (tl ?M)" using ok by (simp add: marker_def vault_ok_def)
    ultimately show False using lt by simp
  qed
qed

lemma replace_part:
  assumes "vault_ok v" "\<forall>i. \<not> has_prefix (drop i content) (marker (pv_namespace v))"
    "k = take m (drop q content)" "r = [] \<or> hd r = CHR ''<''"
  shows "replace_all (pv_values v) (k @ r) = k @ replace_all (pv_values v) r"
proof (rule replace_skip)
  fix i p assume i: "i < length k" "p \<in> set (pv_values v)"
  have "drop i k = take (m - i) (drop (q + i) content)" by (simp add: assms(3) drop_take add.commute)
  then show "\<not> has_prefix (drop i k @ r) (fst p)"
    using i assms by (intro no_token_in_part [OF assms(1) i(2) assms(2)]) auto
qed

lemma slice_three:
  assumes "0 \<le> p" "p \<le> a" "a \<le> b"
  shows "slice content p a @ slice content a b @ drop (nat b) content = drop (nat p) content"
proof -
  have "slice content a b @ drop (nat b) content = drop (nat a) content"
    using assms append_take_drop_id [of "nat (b - a)" "drop (nat a) content"]
    by (simp add: slice_def add.commute flip: nat_add_distrib)
  moreover have "slice content p a @ drop (nat a) content = drop (nat p) content"
    using assms append_take_drop_id [of "nat (a - p)" "drop (nat p) content"]
    by (simp add: slice_def add.commute flip: nat_add_distrib)
  ultimately show ?thesis by simp
qed

lemma restore_apply:
  assumes ok: "vault_ok v" and free: "\<forall>i. \<not> has_prefix (drop i content) (marker (pv_namespace v))"
  shows "disjoint_spans sps \<Longrightarrow> \<forall>s\<in>set sps. proper s \<and> sp_End s \<le> int (length content) \<and> p \<le> sp_Start s \<and>
     (sp_Replacement s, slice content (sp_Start s) (sp_End s)) \<in> set (pv_values v) \<Longrightarrow> 0 \<le> p \<Longrightarrow>
   replace_all (pv_values v) (apply_loop content p sps) = drop (nat p) content"
proof (induction sps arbitrary: p)
  case Nil
  have "replace_all (pv_values v) (take (length content) (drop (nat p) content) @ []) = drop (nat p) content"
    by (subst replace_part [OF ok free refl]) simp_all
  then show ?case by simp
next
  case (Cons s sps)
  let ?o = "slice content (sp_Start s) (sp_End s)" and ?t = "sp_Replacement s"
  have s: "proper s" "sp_End s \<le> int (length content)" "p \<le> sp_Start s" "(?t, ?o) \<in> set (pv_values v)"
    using Cons.prems(2) by auto
  have tk: "tokens_ok (pv_values v)" by (rule vault_tokens_ok [OF ok])
  then have "token_shape ?t" using s(4) by (force simp: tokens_ok_def)
  then have h: "hd (?t @ x) = CHR ''<''" for x by (auto simp: token_shape_def)
  have "apply_loop content p (s # sps) = slice content p (sp_Start s) @ ?t @ apply_loop content (sp_End s) sps"
    using s by (simp add: proper_def)
  also have "replace_all (pv_values v) \<dots> =
      slice content p (sp_Start s) @ replace_all (pv_values v) (?t @ apply_loop content (sp_End s) sps)"
    by (rule replace_part [OF ok free]) (simp_all add: slice_def h)
  also have "replace_all (pv_values v) (?t @ apply_loop content (sp_End s) sps) =
      ?o @ replace_all (pv_values v) (apply_loop content (sp_End s) sps)" by (rule replace_token [OF tk s(4)])
  also have "replace_all (pv_values v) (apply_loop content (sp_End s) sps) = drop (nat (sp_End s)) content"
    using Cons.prems s by (intro Cons.IH) (auto simp: proper_def)
  finally show ?case using slice_three [of p "sp_Start s" "sp_End s" content] s Cons.prems(3) by (simp add: proper_def)
qed

lemma Restore_eq: "Restore v s = replace_all (pv_values v) s"
  by (simp add: Restore_def RestorePrefix_def restore_cut_def)

text \<open>
  C15: Masking personal data and restoring it is the identity: for every vault in order (a new one is, and
  masking keeps it so), every text that does not contain the vault's random marker, and every list
  of non-overlapping reversible spans within the text whose labels have no angle bracket, restoring
  the masked text gives back the text, also with a vault that has masked other texts since.
\<close>

theorem pii_mask_restore:
  assumes "vault_ok v" "list_all (maskable content) spans" "disjoint_spans spans"
    and "maskSpans content spans v = (spans1, v1)"
    and "list_all (maskable content2) spans2" "maskSpans content2 spans2 v1 = (spans2', v2)"
    and "list_all (\<lambda>i. \<not> has_prefix (drop i content) (marker (pv_namespace v))) [0..<length content]"
  shows "vault_ok v1 \<and> Restore v1 (applySpans content spans1) = content \<and>
    Restore v2 (applySpans content spans1) = content"
proof -
  from maskSpans_ok [OF assms(1,2,4)] have a: "vault_ok v1" "pv_namespace v1 = pv_namespace v"
    "list_all2 (masked_as content v1) spans spans1" by auto
  from maskSpans_ok [OF a(1) assms(5,6)] have b: "vault_ok v2" "pv_namespace v2 = pv_namespace v1"
    "set (pv_values v1) \<subseteq> set (pv_values v2)" by auto
  have free: "\<forall>i. \<not> has_prefix (drop i content) (marker (pv_namespace v))"
  proof
    fix i show "\<not> has_prefix (drop i content) (marker (pv_namespace v))"
      using assms(7) by (cases "i < length content") (auto simp: list_all_iff has_prefix_def marker_def)
  qed
  have nth: "sp_Start (spans1 ! i) = sp_Start (spans ! i)" "sp_End (spans1 ! i) = sp_End (spans ! i)"
    "(sp_Replacement (spans1 ! i), slice content (sp_Start (spans1 ! i)) (sp_End (spans1 ! i))) \<in> set (pv_values v1)"
    if "i < length spans1" for i
    using a(3) that by (auto simp: list_all2_conv_all_nth masked_as_def)
  have len: "length spans1 = length spans" using a(3) by (simp add: list_all2_lengthD)
  have dis: "disjoint_spans spans1"
    using assms(3) nth(1,2) len by (auto simp: sorted_wrt_iff_nth_less)
  have all: "\<forall>s\<in>set spans1. proper s \<and> sp_End s \<le> int (length content) \<and> 0 \<le> sp_Start s \<and>
     (sp_Replacement s, slice content (sp_Start s) (sp_End s)) \<in> set (pv_values v1)"
    using assms(2) nth len by (auto simp: in_set_conv_nth list_all_length maskable_def proper_def)
  have app: "applySpans content spans1 = apply_loop content 0 spans1" by (simp add: applySpans_def)
  have "replace_all (pv_values v1) (apply_loop content 0 spans1) = drop (nat 0) content"
    using free a(2) by (intro restore_apply [OF a(1) _ dis all]) simp_all
  moreover have "replace_all (pv_values v2) (apply_loop content 0 spans1) = drop (nat 0) content"
    using free a(2) b(2,3) all by (intro restore_apply [OF b(1) _ dis]) auto
  ultimately show ?thesis using a(1) by (simp add: Restore_eq app)
qed

theorem pii_mask_restore_witness:
  "let content = ''call 555 or 555'';
       spans = [\<lparr>sp_Start = 5, sp_End = 8, sp_Replacement = ''[TEL]'', sp_Reversible = True\<rparr>,
                \<lparr>sp_Start = 12, sp_End = 15, sp_Replacement = ''[TEL]'', sp_Reversible = True\<rparr>];
       m = maskSpans content spans (WithPIIVault [1])
   in applySpans content (fst m) = ''call <CL_PII_ab_TEL_1> or <CL_PII_ab_TEL_1>'' \<and>
      Restore (snd m) (applySpans content (fst m)) = content"
proof -
  let ?c = "''call 555 or 555''"
  let ?sp = "[\<lparr>sp_Start = 5, sp_End = 8, sp_Replacement = ''[TEL]'', sp_Reversible = True\<rparr>,
                \<lparr>sp_Start = 12, sp_End = 15, sp_Replacement = ''[TEL]'', sp_Reversible = True\<rparr>]"
  let ?v = "WithPIIVault [1]" and ?m = "maskSpans ?c ?sp (WithPIIVault [1])"
  have v: "vault_ok ?v" by (rule vault_ok_new) simp
  have mask: "list_all (maskable ?c) ?sp" "disjoint_spans ?sp"
    by (simp_all add: maskable_def label_ok_def proper_def)
  have free: "list_all (\<lambda>i. \<not> has_prefix (drop i ?c) (marker (pv_namespace ?v))) [0..<length ?c]"
    by (simp add: has_prefix_def marker_def upt_rec numeral_nat)
  have e: "maskSpans ?c [] (snd ?m) = ([], snd ?m)" by simp
  from pii_mask_restore [OF v mask prod.collapse [symmetric] _ e free]
  have "Restore (snd ?m) (applySpans ?c (fst ?m)) = ?c" by simp
  moreover have "applySpans ?c (fst ?m) = ''call <CL_PII_ab_TEL_1> or <CL_PII_ab_TEL_1>''"
    by (simp add: mask_span_def WithPIIVault_def pii_token_def trim_brackets_def slice_def applySpans_def
        dec.simps digit_def char_of_eq_iff Let_def)
  ultimately show ?thesis by (simp only: Let_def)
qed

section \<open>Restoring a stream\<close>

text \<open>
  What \<^verbatim>\<open>DecodePIIJSON\<close> gives (numbers stay literals, as \<^verbatim>\<open>UseNumber\<close> asks, and trailing data is
  an error) and how \<^verbatim>\<open>Marshal\<close> sees it again.
\<close>

definition DecodePIIJSON :: "bytes \<Rightarrow> goany option" where
  "DecodePIIJSON text = map_option any_of (unmarshal_node text)"

fun number_json :: "goany \<Rightarrow> json" where
  "number_json ANil = JNull"
| "number_json (ABool b) = JBool b"
| "number_json (ANum l) = JNum l"
| "number_json (AStr s) = JStr s"
| "number_json (AArr xs) = JArr (map number_json xs)"
| "number_json (AStrs ss) = JArr (map JStr ss)"
| "number_json (AObj ms) = JObj (map (\<lambda>m. (fst m, number_json (snd m))) ms)"
| "number_json (ARaw b) = JRaw b"

fun restorePIIValues :: "PIIVault \<Rightarrow> goany \<Rightarrow> goany" where
  "restorePIIValues v (AStr s) = AStr (Restore v s)"
| "restorePIIValues v (AArr xs) = AArr (map (restorePIIValues v) xs)"
| "restorePIIValues v (AObj ms) = AObj (map (\<lambda>m. (fst m, restorePIIValues v (snd m))) ms)"
| "restorePIIValues v x = x"

text \<open>
  The branch of \<^verbatim>\<open>RestorePIIJSON\<close> for a string under a key: \<^verbatim>\<open>arguments\<close> that are a JSON
  document are decoded, restored and encoded again. The error of \<^verbatim>\<open>Marshal\<close> is dropped there.
\<close>

definition restore_string :: "PIIVault \<Rightarrow> bytes \<Rightarrow> bytes \<Rightarrow> bytes" where
  "restore_string v key text =
     (if key = ''arguments'' then
        (case DecodePIIJSON text of
           Some args \<Rightarrow> (case marshal (number_json (restorePIIValues v args)) of Some encoded \<Rightarrow> encoded | None \<Rightarrow> [])
         | None \<Rightarrow> Restore v text)
      else if key \<in> {''text'', ''content'', ''output_text'', ''reasoning_content'', ''refusal'', ''thinking'', ''output'', ''input''}
      then Restore v text else text)"

fun RestorePIIJSON :: "PIIVault \<Rightarrow> goany \<Rightarrow> goany" where
  "RestorePIIJSON v (AArr xs) = AArr (map (RestorePIIJSON v) xs)"
| "RestorePIIJSON v (AObj ms) =
     AObj (map (\<lambda>m. (fst m,
       case snd m of AStr text \<Rightarrow> AStr (restore_string v (fst m) text)
       | child \<Rightarrow> if fst m = ''input'' \<or> fst m = ''arguments'' then restorePIIValues v child
                  else RestorePIIJSON v child)) ms)"
| "RestorePIIJSON v x = x"

text \<open>
  One field of the answer as \<^verbatim>\<open>PIIRestoreSSE\<close> treats it: \<^verbatim>\<open>delta\<close> prepends what was held back and
  leaves in the event what \<^verbatim>\<open>RestorePrefix\<close> lets through; \<^verbatim>\<open>finish\<close> appends the rest, restored, to
  the last event that has the field, while that event is being transformed (\<open>closing\<close>) or later.
  The result is the text each event has before the pass over it, and what is appended after that pass.
\<close>

fun field_pieces :: "PIIVault \<Rightarrow> bool \<Rightarrow> bytes \<Rightarrow> bytes list \<Rightarrow> bytes list \<times> bytes" where
  "field_pieces v closing held [] = ([], Restore v held)"
| "field_pieces v closing held (c # cs) =
     (case RestorePrefix v (held @ c) False of
        (visible, rest) \<Rightarrow>
          if closing \<and> cs = [] then ([visible @ Restore v rest], [])
          else case field_pieces v closing rest cs of (ps, appended) \<Rightarrow> (visible # ps, appended))"

text \<open>The field as the client reads it: \<^verbatim>\<open>transform\<close> ends with \<^verbatim>\<open>RestorePIIJSON\<close> on every event.\<close>

definition restore_chunks :: "PIIVault \<Rightarrow> bytes \<Rightarrow> bool \<Rightarrow> bytes \<Rightarrow> bytes list \<Rightarrow> bytes" where
  "restore_chunks v field closing held chunks =
     (case field_pieces v closing held chunks of
        (ps, appended) \<Rightarrow> concat (map (restore_string v field) ps) @ appended)"

text \<open>The pass reaches the fields of a chat event where \<^verbatim>\<open>transform\<close> puts them.\<close>

lemma pass_on_chat_event:
  "RestorePIIJSON v (AObj [(''choices'', AArr [AObj [(''delta'', AObj [(field, AStr text)]), (''index'', ANum i)]])]) =
    AObj [(''choices'', AArr [AObj [(''delta'', AObj [(field, AStr (restore_string v field text))]), (''index'', ANum i)]])]"
  by simp

lemma prefix_le: "(c :: bytes) \<le> c @ r"
  by (induction c) auto

lemma between_prefix: "(c :: bytes) \<le> x \<Longrightarrow> x \<le> c @ r \<Longrightarrow> has_prefix x c"
proof (induction c arbitrary: x)
  case (Cons a c)
  then obtain y where "x = a # y" "c \<le> y" "y \<le> c @ r" by (cases x) auto
  then show ?case using Cons.IH by (simp add: has_prefix_def)
qed (simp add: has_prefix_def)

lemma find_sorted_le: "sorted ys \<Longrightarrow> find P ys = Some y \<Longrightarrow> t \<in> set ys \<Longrightarrow> P t \<Longrightarrow> y \<le> t"
  by (induction ys) (auto split: if_splits)

lemma has_prefix_length: "has_prefix s p \<Longrightarrow> length p \<le> length s"
  by (metis has_prefix_def length_take min.cobounded1)

lemma has_prefix_appendI: "length p \<le> length k \<Longrightarrow> has_prefix (k @ r) p = has_prefix k p"
  by (simp add: has_prefix_def)

lemma replace_split:
  assumes "\<And>i p. i < length k \<Longrightarrow> p \<in> set pairs \<Longrightarrow> has_prefix (drop i k @ r) (fst p) \<Longrightarrow>
    length (fst p) \<le> length (drop i k)"
  shows "replace_all pairs (k @ r) = replace_all pairs k @ replace_all pairs r"
  using assms
proof (induction k rule: length_induct)
  case (1 k)
  show ?case
  proof (cases k)
    case (Cons c cs)
    let ?P = "\<lambda>z p. fst p \<noteq> [] \<and> has_prefix z (fst p)"
    have "?P (k @ r) p = ?P k p" if "p \<in> set pairs" for p
    proof (cases "length (fst p) \<le> length k")
      case True
      then show ?thesis by (simp add: has_prefix_appendI)
    next
      case False
      then have "\<not> has_prefix (k @ r) (fst p)" using 1(2) [of 0 p] that Cons by auto
      then show ?thesis using False has_prefix_length [of k "fst p"] by auto
    qed
    then have f: "find (?P (k @ r)) pairs = find (?P k) pairs" by (intro find_cong) auto
    show ?thesis
    proof (cases "find (?P k) pairs")
      case None
      have "replace_all pairs (cs @ r) = replace_all pairs cs @ replace_all pairs r"
        using 1(1) [rule_format, of cs] 1(2) [of "Suc _"] Cons by auto
      then show ?thesis using f None Cons by simp
    next
      case (Some p)
      obtain t w where p: "p = (t, w)" by fastforce
      have t: "t \<noteq> []" "has_prefix k t" using find_Some_in [OF Some] p by auto
      let ?n = "length t - 1"
      have l: "length t \<le> length k" using t(2) by (rule has_prefix_length)
      have d: "drop ?n (cs @ r) = drop ?n cs @ r" using l t(1) Cons by (cases t) auto
      have "replace_all pairs (drop ?n cs @ r) = replace_all pairs (drop ?n cs) @ replace_all pairs r"
      proof (rule 1(1) [rule_format])
        show "length (drop ?n cs) < length k" using Cons by simp
        fix i q assume i: "i < length (drop ?n cs)" "q \<in> set pairs" "has_prefix (drop i (drop ?n cs) @ r) (fst q)"
        have "drop i (drop ?n cs) = drop (Suc (i + ?n)) k" using Cons by simp
        then show "length (fst q) \<le> length (drop i (drop ?n cs))"
          using 1(2) [of "Suc (i + ?n)" q] i Cons by simp
      qed
      then show ?thesis using f Some p Cons d by simp
    qed
  qed simp
qed

lemma restore_cut_le: "restore_cut v a fin \<le> length a"
  by (auto simp: restore_cut_def Let_def split: option.splits dest!: split_last_Some)

text \<open>A placeholder that starts before the end of a chunk and runs over it is held back from its start.\<close>

lemma cut_before_token:
  assumes ok: "vault_ok v" and t: "t \<in> set (map fst (pv_values v))"
    and i: "i < length a" and pre: "has_prefix (drop i a @ b) t" "length (drop i a) < length t"
  shows "restore_cut v a False = i"
proof -
  have shapes: "\<forall>u\<in>set (map fst (pv_values v)). token_shape u"
    using vault_tokens_ok [OF ok] by (auto simp: tokens_ok_def)
  then obtain body where body: "t = CHR ''<'' # body @ ''>''" "CHR ''<'' \<notin> set body"
    using t unfolding token_shape_def by blast
  define c where "c = drop i a"
  have tc: "t = c @ drop (length c) t"
  proof -
    have "take (length c) t = take (length c) (c @ b)"
      using pre unfolding has_prefix_def c_def by (metis less_imp_le min.absorb1 take_take)
    then show ?thesis by (metis append_eq_conv_conj append_take_drop_id)
  qed
  have "c \<noteq> []" using i by (simp add: c_def)
  then obtain z where z: "c = CHR ''<'' # z" using tc body(1) by (cases c) auto
  have "z @ drop (length c) t = body @ ''>''" using tc z body(1) by (metis append_Cons list.inject)
  then have "set z \<subseteq> set (body @ ''>'')" by (metis set_append sup_ge1)
  then have zf: "CHR ''<'' \<notin> set z" using body(2) by auto
  have a: "a = take i a @ CHR ''<'' # z" using z unfolding c_def by (metis append_take_drop_id)
  have sl: "split_last (CHR ''<'') a = Some (take i a, z)" using split_last_append [OF zf, of "take i a"] a by simp
  let ?S = "sort (map fst (pv_values v))"
  have "c \<le> t" using tc prefix_le by metis
  moreover have "t \<in> set ?S" using t by simp
  ultimately obtain u where u: "find (\<lambda>t. c \<le> t) ?S = Some u" using find_ex [of "\<lambda>t. c \<le> t" ?S] by blast
  have ul: "u \<le> t" using find_sorted_le [OF _ u] \<open>t \<in> set ?S\<close> \<open>c \<le> t\<close> by simp
  have uin: "u \<in> set (map fst (pv_values v))" "c \<le> u" using find_Some_in [OF u] by auto
  have up: "has_prefix u c" using between_prefix [OF uin(2)] ul tc by metis
  have "c \<noteq> u"
  proof
    assume "c = u"
    then have "has_prefix (t @ []) u" using tc by (metis append_Nil2 has_prefix_append)
    then have "u = t" using token_prefix_free shapes t uin(1) by blast
    then show False using \<open>c = u\<close> pre(2) by (simp add: c_def)
  qed
  then show ?thesis using sl u up z i by (simp add: restore_cut_def)
qed

lemma RestorePrefix_split:
  assumes ok: "vault_ok v" and r: "RestorePrefix v a False = (visible, rest)"
  shows "Restore v (a @ b) = visible @ Restore v (rest @ b)"
proof -
  define k where "k = restore_cut v a False"
  have kr: "visible = replace_all (pv_values v) (take k a)" "rest = drop k a"
    using r by (auto simp: RestorePrefix_def k_def Let_def)
  have "replace_all (pv_values v) (take k a @ drop k a @ b) =
      replace_all (pv_values v) (take k a) @ replace_all (pv_values v) (drop k a @ b)"
  proof (rule replace_split, rule ccontr)
    fix i p assume i: "i < length (take k a)" "p \<in> set (pv_values v)"
      "has_prefix (drop i (take k a) @ drop k a @ b) (fst p)" "\<not> length (fst p) \<le> length (drop i (take k a))"
    have e: "drop i (take k a) @ drop k a = drop i a"
      using i(1) by (metis append_take_drop_id drop_append diff_is_0_eq drop0 less_imp_le)
    have sh: "token_shape (fst p)" using vault_tokens_ok [OF ok] i(2) by (simp add: tokens_ok_def)
    show False
    proof (cases "length (drop i a) < length (fst p)")
      case True
      have "has_prefix (drop i a @ b) (fst p)" using i(3) e by (metis append.assoc)
      then have "k = i" using cut_before_token [OF ok _ _ _ True] i(1,2) unfolding k_def by auto
      then show False using i(1) by simp
    next
      case False
      let ?d = "drop i (take k a)"
      have "k < length a" using False i(4) e by (metis append_Nil2 drop_all not_le)
      then obtain before after where s: "split_last (CHR ''<'') a = Some (before, after)" "k = length before"
        unfolding k_def restore_cut_def by (auto simp: Let_def split: option.splits if_splits)
      then have "a = before @ CHR ''<'' # after" using split_last_Some by blast
      then have "hd (drop k a) = CHR ''<''" "drop k a \<noteq> []" using s(2) by simp_all
      then have "(?d @ drop k a @ b) ! length ?d = CHR ''<''" by (simp add: nth_append hd_conv_nth)
      moreover have "(?d @ drop k a @ b) ! length ?d = fst p ! length ?d"
        using i(3,4) has_prefixD by (metis not_le nth_append)
      moreover have "fst p ! length ?d \<in> set (tl (fst p))"
        using i(1,4) by (intro nth_in_tl) auto
      ultimately have "CHR ''<'' \<in> set (tl (fst p))" by metis
      then show False using sh by (auto simp: token_shape_def)
    qed
  qed
  then show ?thesis using kr by (simp add: Restore_eq flip: append.assoc)
qed

text \<open>A text without any placeholder of the vault.\<close>

definition placeholder_free :: "PIIVault \<Rightarrow> bytes \<Rightarrow> bool" where
  "placeholder_free v s \<longleftrightarrow> list_all (\<lambda>i. list_all (\<lambda>p. \<not> has_prefix (drop i s) (fst p)) (pv_values v)) [0..<length s]"

lemma placeholder_freeD: "placeholder_free v (x @ y @ z) \<Longrightarrow> Restore v y = y"
proof -
  assume f: "placeholder_free v (x @ y @ z)"
  have "\<not> has_prefix (drop i y @ []) (fst p)" if "i < length y" "p \<in> set (pv_values v)" for i p
  proof
    assume "has_prefix (drop i y @ []) (fst p)"
    then have "has_prefix (drop (length x + i) (x @ y @ z)) (fst p)"
      using that(1) has_prefix_length [of "drop i y" "fst p"] by (simp add: has_prefix_def)
    moreover have "length x + i < length (x @ y @ z)" using that(1) by simp
    ultimately show False using f that(2) unfolding placeholder_free_def list_all_iff atLeastLessThan_upt [symmetric] by (metis atLeastLessThan_iff le0)
  qed
  from replace_skip [OF this] show ?thesis by (simp add: Restore_eq)
qed

lemma field_pieces_join:
  assumes "vault_ok v" "field_pieces v closing held chunks = (ps, appended)"
  shows "concat ps @ appended = Restore v (held @ concat chunks)"
  using assms(2)
proof (induction chunks arbitrary: held ps appended)
  case (Cons c cs)
  obtain visible rest where r: "RestorePrefix v (held @ c) False = (visible, rest)" by fastforce
  obtain qs a where q: "field_pieces v closing rest cs = (qs, a)" by fastforce
  show ?case using RestorePrefix_split [OF assms(1) r, of "concat cs"] Cons.IH [OF q] Cons.prems r q by (auto split: if_splits)
qed simp

lemma second_pass_idle:
  assumes "placeholder_free v (x @ concat ps @ z)" "field = ''arguments'' \<Longrightarrow> list_all (\<lambda>p. DecodePIIJSON p = None) ps"
  shows "concat (map (restore_string v field) ps) = concat ps"
  using assms
proof (induction ps arbitrary: x)
  case (Cons p ps)
  have "Restore v p = p" using Cons.prems(1) placeholder_freeD [of v x p "concat ps @ z"] by simp
  then have "restore_string v field p = p" using Cons.prems(2) by (auto simp: restore_string_def)
  moreover have "concat (map (restore_string v field) ps) = concat ps"
    using Cons.prems by (intro Cons.IH [of "x @ p"]) auto
  ultimately show ?case by simp
qed simp

text \<open>
  C30: Restoring piece by piece is restoring the whole: for every vault in order and every way a field of the answer is cut
  into chunks, also inside placeholders, and whether the field ends with the last chunk or in a later event, what
  the client reads is the restored whole, both passes over each event included. The second pass changes nothing
  because the restored answer contains no placeholder of the vault again; for tool arguments, which that pass decodes, the
  pieces that become visible must not be JSON documents of their own.
\<close>

theorem pii_restore_stream:
  assumes "vault_ok v" "placeholder_free v (Restore v (held @ concat chunks))"
    and "field = ''arguments'' \<longrightarrow> list_all (\<lambda>p. DecodePIIJSON p = None) (fst (field_pieces v closing held chunks))"
  shows "restore_chunks v field closing held chunks = Restore v (held @ concat chunks)"
proof -
  obtain ps a where q: "field_pieces v closing held chunks = (ps, a)" by fastforce
  have j: "concat ps @ a = Restore v (held @ concat chunks)" by (rule field_pieces_join [OF assms(1) q])
  have "concat (map (restore_string v field) ps) = concat ps"
    using assms(2,3) q by (intro second_pass_idle [of v "[]" _ a]) (simp_all add: j)
  then show ?thesis using j q by (simp add: restore_chunks_def)
qed

definition tel_vault :: PIIVault where
  "tel_vault = snd (maskSpans ''555'' [\<lparr>sp_Start = 0, sp_End = 3, sp_Replacement = ''[TEL]'', sp_Reversible = True\<rparr>] (WithPIIVault [1]))"

lemma tel_vault_ok: "vault_ok tel_vault"
proof -
  let ?s = "[\<lparr>sp_Start = 0, sp_End = 3, sp_Replacement = ''[TEL]'', sp_Reversible = True\<rparr>]"
  have "vault_ok (WithPIIVault [1])" by (rule vault_ok_new) simp
  moreover have "list_all (maskable ''555'') ?s" by (simp add: maskable_def label_ok_def proper_def)
  ultimately show ?thesis unfolding tel_vault_def
    using maskSpans_ok [OF _ _ prod.collapse [symmetric]] by blast
qed

lemma tel_vault_values: "pv_values tel_vault = [(''<CL_PII_ab_TEL_1>'', ''555'')]"
  by (simp add: tel_vault_def mask_span_def WithPIIVault_def pii_token_def trim_brackets_def slice_def
      dec.simps digit_def char_of_eq_iff Let_def)

lemma tel_vault_cuts:
  "field_pieces tel_vault True [] [''[<CL_PI'', ''I_ab_TEL_1>,''] = ([''['', ''555,''], [])"
  by (simp add: RestorePrefix_def restore_cut_def Restore_eq tel_vault_values has_prefix_def Let_def split_last_def)

theorem pii_restore_stream_witness:
  "restore_chunks tel_vault ''content'' False [] [''a<CL_PI'', ''I_ab_TEL_1> b''] = ''a555 b'' \<and>
   restore_chunks tel_vault ''arguments'' True [] [''[<CL_PI'', ''I_ab_TEL_1>,''] = ''[555,''"
proof -
  have r: "Restore tel_vault ([] @ concat [''a<CL_PI'', ''I_ab_TEL_1> b'']) = ''a555 b''"
    "Restore tel_vault ([] @ concat [''[<CL_PI'', ''I_ab_TEL_1>,'']) = ''[555,''"
    by (simp_all add: Restore_eq tel_vault_values has_prefix_def)
  have f: "placeholder_free tel_vault ''a555 b''" "placeholder_free tel_vault ''[555,''"
    by (simp_all add: placeholder_free_def tel_vault_values has_prefix_def upt_rec numeral_nat)
  have p: "list_all (\<lambda>p. DecodePIIJSON p = None) (fst (field_pieces tel_vault True [] [''[<CL_PI'', ''I_ab_TEL_1>,'']))"
    unfolding tel_vault_cuts by (simp add: DecodePIIJSON_def json_eval)
  have "restore_chunks tel_vault ''content'' False [] [''a<CL_PI'', ''I_ab_TEL_1> b''] = ''a555 b''"
    using pii_restore_stream [OF tel_vault_ok, of "[]" "[''a<CL_PI'', ''I_ab_TEL_1> b'']" "''content''" False] r(1) f(1) by simp
  moreover have "restore_chunks tel_vault ''arguments'' True [] [''[<CL_PI'', ''I_ab_TEL_1>,''] = ''[555,''"
    using pii_restore_stream [OF tel_vault_ok, of "[]" "[''[<CL_PI'', ''I_ab_TEL_1>,'']" "''arguments''" True] r(2) f(2) p by simp
  ultimately show ?thesis ..
qed

section \<open>Arguments that are decoded too early\<close>

lemma dec_no_angle: "CHR ''<'' \<notin> set (CHR '' '' # dec n)"
  using dec_no_special(1) by simp

lemma Restore_no_angle:
  assumes "vault_ok v" "CHR ''<'' \<notin> set s"
  shows "RestorePrefix v s False = (s, [])"
proof -
  have "\<not> has_prefix (drop i s @ []) (fst p)" if "i < length s" "p \<in> set (pv_values v)" for i p
  proof
    assume h: "has_prefix (drop i s @ []) (fst p)"
    obtain b where "fst p = CHR ''<'' # b" using \<open>p \<in> set (pv_values v)\<close> vault_tokens_ok [OF assms(1)] by (auto simp: tokens_ok_def token_shape_def)
    then have "drop i s = CHR ''<'' # b @ drop (length (fst p)) (drop i s)" using has_prefixD [OF h] by simp
    then have "CHR ''<'' \<in> set (drop i s)" by (metis list.set_intros(1))
    then show False using assms(2) by (meson in_set_dropD)
  qed
  from replace_skip [OF this] have "replace_all (pv_values v) s = s" by simp
  moreover have "split_last (CHR ''<'') s = None"
    using assms(2) split_last_Some [of "CHR ''<''" s] by (cases "split_last (CHR ''<'') s") fastforce+
  ultimately show ?thesis by (simp add: RestorePrefix_def restore_cut_def)
qed

lemma decode_number: "DecodePIIJSON (CHR '' '' # dec n) = Some (ANum (dec n))"
proof -
  have a: "parse_num (dec n) = Some (dec n, [])" using parse_num_itoa [of "int n"] by (simp add: itoa_def)
  obtain c cs where c: "dec n = c # cs" "is_digit c" using dec_ne [of n] dec_digits [of n] by (cases "dec n") auto
  have k: "c \<noteq> CHR ''['' \<and> c \<noteq> CHR 0x7B \<and> c \<noteq> CHR 0x22 \<and> c \<noteq> CHR ''n'' \<and> c \<noteq> CHR ''t'' \<and> c \<noteq> CHR ''f'' \<and> \<not> is_ws c"
    using c(2) by (auto simp: is_digit_def in_rng_def is_ws_def)
  have w: "skip_ws (CHR '' '' # dec n) = dec n" "skip_ws [] = []" using k c(1) by (simp_all add: skip_ws_def is_ws_def)
  have "parse_atom (dec n) = Some (VNum (dec n), [])" using a c(1) k by (simp add: parse_atom_def)
  then have "parse_val (Suc m) 0 (dec n) = Some (Node (consumed (dec n) []) (VNum (dec n)), [])" for m
    using c(1) k by (simp add: parse_val.simps(2) head_is_def)
  then show ?thesis using w by (simp add: DecodePIIJSON_def unmarshal_node_def)
qed

text \<open>
  A piece of streamed tool arguments that is a number after a space loses the space: taken alone it is a JSON
  document, which the second pass decodes and encodes again, also in the middle of a string. The same chunks in a text
  field keep it.
\<close>

lemma arguments_lose_space:
  assumes "vault_ok v" "cs \<noteq> []"
  shows "restore_chunks v ''arguments'' closing [] ((CHR '' '' # dec n) # cs) = dec n @ restore_chunks v ''arguments'' closing [] cs"
proof -
  obtain ps a where q: "field_pieces v closing [] cs = (ps, a)" by fastforce
  have "restore_string v ''arguments'' (CHR '' '' # dec n) = dec n" by (simp add: restore_string_def decode_number)
  then show ?thesis using q assms(2) Restore_no_angle [OF assms(1) dec_no_angle] by (simp add: restore_chunks_def)
qed

lemma arguments_lose_space_witness:
  "restore_chunks tel_vault ''arguments'' False [] ['' 12'', ''b''] = ''12b'' \<and>
   restore_chunks tel_vault ''content'' False [] ['' 12'', ''b''] = '' 12b''"
proof -
  have d: "dec 12 = ''12''" by (simp add: dec.simps digit_def char_of_eq_iff)
  note keep = Restore_no_angle [OF tel_vault_ok]
  have r: "Restore tel_vault [] = []" "Restore tel_vault ''b'' = ''b''" "Restore tel_vault '' 12'' = '' 12''"
    by (simp_all add: Restore_eq tel_vault_values has_prefix_def)
  have k: "restore_chunks tel_vault ''arguments'' False [] [''b''] = ''b''"
    by (simp add: restore_chunks_def keep r restore_string_def DecodePIIJSON_def json_eval)
  have "restore_chunks tel_vault ''content'' False [] ['' 12'', ''b''] = '' 12b''"
    by (simp add: restore_chunks_def keep r restore_string_def)
  then show ?thesis using arguments_lose_space [OF tel_vault_ok, of "[''b'']" False 12] k d by simp
qed

end
