(* ===== verification/Guardrail_Service.thy ===== *)
theory Guardrail_Service
  imports Pii_Vault Go_Utf8 Provider_Errors
begin

text \<open>
  The check of one request or response against the guardrail rules, from
  \<^verbatim>\<open>internal/guardrail/service.go\<close>: settings, loading of the rules, the caches of engines and of
  model configurations, selection and order of the rules, the decision loop and the masked answer.
  The answers of the database, the engine constructors, the engines and the context are the
  fields of \<open>guard_env\<close>. An engine's answer may differ from round to round, which covers the state
  engines share through the context. The delivery of events is asynchronous and not modelled, nor are
  their time stamps and the agent type an engine may have left in the context.
\<close>

section \<open>Rules, requests and the service\<close>

record GuardrailRule =
  ru_ID :: int
  ru_OrgID :: "int option"
  ru_Name :: bytes
  ru_Type :: bytes
  ru_Direction :: bytes
  ru_Enabled :: bool
  ru_Config :: bytes
  ru_Severity :: bytes
  ru_Action :: bytes
  ru_ModelFilter :: "bytes option"
  ru_Version :: int

record MatchedRule =
  mr_RuleID :: int
  mr_Version :: int
  mr_Action :: bytes

record CheckRequest =
  cr_Content :: bytes
  cr_Direction :: bytes
  cr_Model :: bytes
  cr_APIKeyID :: int
  cr_TeamID :: int
  cr_OrgID :: int
  cr_Prompt :: bytes

record CheckResponse =
  cp_Blocked :: bool
  cp_RuleName :: bytes
  cp_Reason :: bytes
  cp_MaskedContent :: bytes
  cp_Action :: bytes
  cp_MaskedSpans :: "Span list"
  cp_Truncated :: bool
  cp_Matched :: "MatchedRule list"

record GuardrailEvent =
  ev_RuleID :: int
  ev_RuleName :: bytes
  ev_EngineType :: bytes
  ev_Direction :: bytes
  ev_Severity :: bytes
  ev_Action :: bytes
  ev_Reason :: bytes
  ev_Model :: bytes
  ev_ContentPreview :: bytes
  ev_APIKeyID :: int
  ev_TeamID :: int
  ev_OrgID :: int
  ev_RuleVersion :: int
  ev_Matched :: "MatchedRule list"

record ModelGuardrailConfig =
  mg_Enabled :: bool
  mg_RequestChecks :: "bytes list option"
  mg_ResponseChecks :: "bytes list option"

abbreviation ModelGuardrailConfig0 :: ModelGuardrailConfig where
  "ModelGuardrailConfig0 \<equiv> \<lparr>mg_Enabled = False, mg_RequestChecks = None, mg_ResponseChecks = None\<rparr>"

record modelCfgEntry =
  me_config :: ModelGuardrailConfig
  me_loaded :: instant
  me_exists :: bool

text \<open>An engine: its name, and its answer in a round to a text, a direction and a model.\<close>

record GuardrailEngine =
  en_Name :: bytes
  en_Check :: "nat \<Rightarrow> bytes \<Rightarrow> bytes \<Rightarrow> bytes \<Rightarrow> gerr + GuardrailResult option"

text \<open>
  The environment of a check: the rows of the settings table (None when the query fails), the enabled rules in the
  order of their ids, the extra configuration of a model (empty when it has no row), the engine constructors,
  the context at the start of a round and after its engine ran, whether the incremental gate is installed,
  and \<^verbatim>\<open>strings.TrimSpace\<close>.
\<close>

record guard_env =
  ge_settings :: "(bytes \<times> bytes) list option"
  ge_rules :: "gerr + GuardrailRule list"
  ge_extra :: "bytes \<Rightarrow> bytes option"
  ge_create :: "bytes \<Rightarrow> bytes \<Rightarrow> gerr + GuardrailEngine"
  ge_done :: "nat \<Rightarrow> gerr option"
  ge_err :: "nat \<Rightarrow> gerr option"
  ge_incremental :: bool
  ge_trim :: "bytes \<Rightarrow> bytes"

record GuardrailService =
  gs_logOnly :: bool
  gs_failOpen :: bool
  gs_streamMode :: bytes
  gs_oversizeAction :: bytes
  gs_engineErrorAction :: bytes
  gs_strictCoverage :: bool
  gs_enabled :: bool
  gs_strictMaxRunes :: int
  gs_strictMaxBytes :: int
  gs_strictMaxEvents :: int
  gs_requestBudgetMs :: int
  gs_responseBudgetMs :: int
  gs_rules :: "GuardrailRule list"
  gs_loadedAt :: "instant option"
  gs_ttl :: duration
  gs_engines :: "int \<Rightarrow> GuardrailEngine option"
  gs_modelCfgs :: "bytes \<Rightarrow> modelCfgEntry option"

definition NewGuardrailService :: GuardrailService where
  "NewGuardrailService =
     \<lparr>gs_logOnly = False, gs_failOpen = False, gs_streamMode = ''window'', gs_oversizeAction = ''truncate'',
      gs_engineErrorAction = ''skip'', gs_strictCoverage = False, gs_enabled = False,
      gs_strictMaxRunes = 100000, gs_strictMaxBytes = 4194304, gs_strictMaxEvents = 100000,
      gs_requestBudgetMs = 2000, gs_responseBudgetMs = 5000, gs_rules = [], gs_loadedAt = None,
      gs_ttl = 30 * 1000000000, gs_engines = Map.empty, gs_modelCfgs = Map.empty\<rparr>"

definition or_default :: "bytes \<Rightarrow> bytes \<Rightarrow> bytes" where
  "or_default v d = (if v \<noteq> [] then v else d)"

definition StreamMode :: "GuardrailService \<Rightarrow> bytes" where
  "StreamMode s = or_default (gs_streamMode s) ''window''"

definition OversizeAction :: "GuardrailService \<Rightarrow> bytes" where
  "OversizeAction s = or_default (gs_oversizeAction s) ''truncate''"

definition EngineErrorAction :: "GuardrailService \<Rightarrow> bytes" where
  "EngineErrorAction s = or_default (gs_engineErrorAction s) ''skip''"

definition positive_or :: "int \<Rightarrow> int \<Rightarrow> int" where
  "positive_or v d = (if v > 0 then v else d)"

definition StrictMaxRunes :: "GuardrailService \<Rightarrow> int" where
  "StrictMaxRunes s = positive_or (gs_strictMaxRunes s) 100000"

definition StrictMaxBytes :: "GuardrailService \<Rightarrow> int" where
  "StrictMaxBytes s = positive_or (gs_strictMaxBytes s) 4194304"

definition StrictMaxEvents :: "GuardrailService \<Rightarrow> int" where
  "StrictMaxEvents s = positive_or (gs_strictMaxEvents s) 100000"

definition RequestBudgetMs :: "GuardrailService \<Rightarrow> int" where
  "RequestBudgetMs s = positive_or (gs_requestBudgetMs s) 2000"

definition ResponseBudgetMs :: "GuardrailService \<Rightarrow> int" where
  "ResponseBudgetMs s = positive_or (gs_responseBudgetMs s) 5000"

definition StreamModeFor :: "bool \<Rightarrow> GuardrailService \<Rightarrow> bytes" where
  "StreamModeFor incremental s =
     (if StreamMode s = ''incremental'' \<and> \<not> incremental then ''strict'' else StreamMode s)"

section \<open>Settings, rules and engines\<close>

definition set_positive :: "bytes \<Rightarrow> (int \<Rightarrow> GuardrailService \<Rightarrow> GuardrailService) \<Rightarrow> GuardrailService \<Rightarrow> GuardrailService" where
  "set_positive v upd s = (case Atoi v of Some n \<Rightarrow> if n > 0 then upd n s else s | None \<Rightarrow> s)"

definition apply_setting :: "GuardrailService \<Rightarrow> bytes \<times> bytes \<Rightarrow> GuardrailService" where
  "apply_setting s kv =
     (case kv of (k, v) \<Rightarrow>
        if k = ''guardrails_enabled'' then s\<lparr>gs_enabled := (v = ''true'')\<rparr>
        else if k = ''guardrails_log_only'' then s\<lparr>gs_logOnly := (v = ''true'')\<rparr>
        else if k = ''guardrails_fail_open'' then s\<lparr>gs_failOpen := (v = ''true'')\<rparr>
        else if k = ''guardrails_stream_mode'' then
          (if v = ''strict'' \<or> v = ''window'' \<or> v = ''incremental'' then s\<lparr>gs_streamMode := v\<rparr> else s)
        else if k = ''guardrails_stream_strict_max_runes'' then set_positive v (\<lambda>n s. s\<lparr>gs_strictMaxRunes := n\<rparr>) s
        else if k = ''guardrails_stream_strict_max_bytes'' then set_positive v (\<lambda>n s. s\<lparr>gs_strictMaxBytes := n\<rparr>) s
        else if k = ''guardrails_stream_strict_max_events'' then set_positive v (\<lambda>n s. s\<lparr>gs_strictMaxEvents := n\<rparr>) s
        else if k = ''guardrails_request_budget_ms'' then set_positive v (\<lambda>n s. s\<lparr>gs_requestBudgetMs := n\<rparr>) s
        else if k = ''guardrails_response_budget_ms'' then set_positive v (\<lambda>n s. s\<lparr>gs_responseBudgetMs := n\<rparr>) s
        else if k = ''guardrails_oversize_action'' then
          (if v = ''truncate'' \<or> v = ''reject'' then s\<lparr>gs_oversizeAction := v\<rparr> else s)
        else if k = ''guardrails_engine_error_action'' then
          (if v = ''skip'' \<or> v = ''block'' then s\<lparr>gs_engineErrorAction := v\<rparr> else s)
        else if k = ''guardrails_strict_coverage'' then s\<lparr>gs_strictCoverage := (v = ''true'')\<rparr>
        else s)"

definition RefreshSettings :: "guard_env \<Rightarrow> GuardrailService \<Rightarrow> GuardrailService" where
  "RefreshSettings E s = (case ge_settings E of None \<Rightarrow> s | Some kvs \<Rightarrow> foldl apply_setting s kvs)"

text \<open>The old rule of an id is the last one of the list, as in a map filled in order.\<close>

definition old_rule :: "GuardrailRule list \<Rightarrow> int \<Rightarrow> GuardrailRule option" where
  "old_rule olds i = find (\<lambda>r. ru_ID r = i) (rev olds)"

definition evicted :: "GuardrailRule list \<Rightarrow> GuardrailRule list \<Rightarrow> int \<Rightarrow> bool" where
  "evicted olds rules i \<longleftrightarrow>
     \<not> list_ex (\<lambda>r. ru_ID r = i) rules \<or>
     list_ex (\<lambda>r. ru_ID r = i \<and>
       (case old_rule olds i of Some old \<Rightarrow> ru_Config old \<noteq> ru_Config r | None \<Rightarrow> False)) rules"

text \<open>A reload has two sections: one replaces the rules, under the lock of the rules, the other evicts engines, under theirs.\<close>

definition swap_rules :: "GuardrailRule list \<Rightarrow> instant \<Rightarrow> GuardrailService \<Rightarrow> GuardrailService" where
  "swap_rules rules now s = s\<lparr>gs_rules := rules, gs_loadedAt := Some now\<rparr>"

definition evict_engines :: "GuardrailRule list \<Rightarrow> GuardrailRule list \<Rightarrow> GuardrailService \<Rightarrow> GuardrailService" where
  "evict_engines olds rules s = s\<lparr>gs_engines := (\<lambda>i. if evicted olds rules i then None else gs_engines s i)\<rparr>"

definition LoadRules :: "guard_env \<Rightarrow> instant \<Rightarrow> GuardrailService \<Rightarrow> gerr option \<times> GuardrailService" where
  "LoadRules E now s =
     (case ge_rules E of
        Inl err \<Rightarrow> (Some err, s)
      | Inr rules \<Rightarrow> (None, evict_engines (gs_rules s) rules (swap_rules rules now s)))"

definition ensureRules :: "guard_env \<Rightarrow> instant \<Rightarrow> GuardrailService \<Rightarrow> gerr option \<times> GuardrailService" where
  "ensureRules E now s =
     (let fresh = (case gs_loadedAt s of None \<Rightarrow> False | Some t \<Rightarrow> now - t < gs_ttl s);
          hasExisting = (gs_rules s \<noteq> [])
      in if fresh then (None, s)
         else case LoadRules E now (RefreshSettings E s) of
           (Some err, s1) \<Rightarrow> (if hasExisting then None else Some err, s1)
         | (None, s1) \<Rightarrow> (None, s1))"

definition InvalidateCache :: "GuardrailService \<Rightarrow> GuardrailService" where
  "InvalidateCache s = s\<lparr>gs_loadedAt := None, gs_modelCfgs := Map.empty\<rparr>"

definition getEngine :: "guard_env \<Rightarrow> GuardrailRule \<Rightarrow> (int \<Rightarrow> GuardrailEngine option) \<Rightarrow>
    (gerr + GuardrailEngine) \<times> (int \<Rightarrow> GuardrailEngine option)" where
  "getEngine E rule cache =
     (case cache (ru_ID rule) of
        Some e \<Rightarrow> (Inr e, cache)
      | None \<Rightarrow>
          (case ge_create E (ru_Type rule) (ru_Config rule) of
             Inl err \<Rightarrow> (Inl err, cache)
           | Inr e \<Rightarrow> (Inr e, cache(ru_ID rule \<mapsto> e))))"

definition dec_ModelGuardrailConfig :: "ModelGuardrailConfig dec" where
  "dec_ModelGuardrailConfig = dec_struct
     [fld ''enabled'' dec_bool mg_Enabled mg_Enabled_update,
      fld ''request_checks'' (dec_slice [] dec_string) mg_RequestChecks mg_RequestChecks_update,
      fld ''response_checks'' (dec_slice [] dec_string) mg_ResponseChecks mg_ResponseChecks_update]"

record extra_config = ec_Guardrails :: "ModelGuardrailConfig option"

definition dec_extra :: "extra_config dec" where
  "dec_extra = dec_struct
     [fld ''guardrails'' (dec_ptr ModelGuardrailConfig0 dec_ModelGuardrailConfig) ec_Guardrails ec_Guardrails_update]"

definition cache_config :: "instant \<Rightarrow> bytes \<Rightarrow> ModelGuardrailConfig option \<Rightarrow> GuardrailService \<Rightarrow> GuardrailService" where
  "cache_config now model mc s =
     s\<lparr>gs_modelCfgs := (gs_modelCfgs s)(model \<mapsto>
        (case mc of
           Some cfg \<Rightarrow> \<lparr>me_config = cfg, me_loaded = now, me_exists = True\<rparr>
         | None \<Rightarrow> \<lparr>me_config = ModelGuardrailConfig0, me_loaded = now, me_exists = False\<rparr>))\<rparr>"

definition row_config :: "bytes \<Rightarrow> ModelGuardrailConfig option" where
  "row_config row =
     (let r = unmarshal dec_extra row \<lparr>ec_Guardrails = None\<rparr>
      in if snd r then None else ec_Guardrails (fst r))"

definition getModelConfig :: "guard_env \<Rightarrow> instant \<Rightarrow> bytes \<Rightarrow> GuardrailService \<Rightarrow> ModelGuardrailConfig option \<times> GuardrailService" where
  "getModelConfig E now model s =
     (if model = [] then (None, s)
      else
        let cached = (case gs_modelCfgs s model of
                        None \<Rightarrow> None
                      | Some entry \<Rightarrow> if now - me_loaded entry < gs_ttl s then Some entry else None)
        in case cached of
             Some entry \<Rightarrow> (if me_exists entry then Some (me_config entry) else None, s)
           | None \<Rightarrow>
               (case ge_extra E model of
                  None \<Rightarrow> (None, s)
                | Some row \<Rightarrow> (row_config row, cache_config now model (row_config row) s)))"

section \<open>Selection of the rules\<close>

definition severityOrder :: "bytes \<Rightarrow> nat" where
  "severityOrder sev =
     (if sev = ''critical'' then 4 else if sev = ''high'' then 3 else if sev = ''medium'' then 2
      else if sev = ''low'' then 1 else 0)"

text \<open>\<^verbatim>\<open>strings.Split(s, ",")\<close>.\<close>

fun split_comma :: "bytes \<Rightarrow> bytes list" where
  "split_comma [] = [[]]"
| "split_comma (c # cs) =
     (if c = CHR '','' then [] # split_comma cs
      else case split_comma cs of [] \<Rightarrow> [[c]] | p # ps \<Rightarrow> (c # p) # ps)"

definition modelInFilter :: "guard_env \<Rightarrow> bytes \<Rightarrow> bytes \<Rightarrow> bool" where
  "modelInFilter E model filt = list_ex (\<lambda>m. ge_trim E m = model) (split_comma filt)"

definition rule_applies :: "guard_env \<Rightarrow> CheckRequest \<Rightarrow> GuardrailRule \<Rightarrow> bool" where
  "rule_applies E req r \<longleftrightarrow>
     (ru_Direction r = cr_Direction req \<or> ru_Direction r = ''both'') \<and>
     (case ru_ModelFilter r of None \<Rightarrow> True | Some f \<Rightarrow> modelInFilter E (cr_Model req) f) \<and>
     (case ru_OrgID r of None \<Rightarrow> True | Some oid \<Rightarrow> oid = cr_OrgID req)"

definition type_selected :: "CheckRequest \<Rightarrow> ModelGuardrailConfig option \<Rightarrow> GuardrailRule \<Rightarrow> bool" where
  "type_selected req mc r =
     (case mc of
        None \<Rightarrow> True
      | Some m \<Rightarrow>
          let checks = (case (if cr_Direction req = ''request'' then mg_RequestChecks m else mg_ResponseChecks m) of
                          None \<Rightarrow> [] | Some cs \<Rightarrow> cs)
          in checks = [] \<or> ru_Type r \<in> set checks)"

definition select_rules :: "guard_env \<Rightarrow> CheckRequest \<Rightarrow> ModelGuardrailConfig option \<Rightarrow> GuardrailRule list \<Rightarrow> GuardrailRule list" where
  "select_rules E req mc rules =
     slice_stable (\<lambda>a b. severityOrder (ru_Severity a) > severityOrder (ru_Severity b))
       (filter (type_selected req mc) (filter (rule_applies E req) rules))"

section \<open>The decision loop\<close>

record check_acc =
  ac_maskedContent :: bytes
  ac_maskedRuleName :: bytes
  ac_logRuleName :: bytes
  ac_maskedSpans :: "Span list"
  ac_matched :: "MatchedRule list"
  ac_events :: "GuardrailEvent list"

datatype loop_end = Failed gerr | Decided CheckResponse | Passed

definition rule_event :: "CheckRequest \<Rightarrow> GuardrailRule \<Rightarrow> bytes \<Rightarrow> bytes \<Rightarrow> GuardrailEvent" where
  "rule_event req rule action reason =
     \<lparr>ev_RuleID = ru_ID rule, ev_RuleName = ru_Name rule, ev_EngineType = ru_Type rule,
      ev_Direction = cr_Direction req, ev_Severity = ru_Severity rule, ev_Action = action, ev_Reason = reason,
      ev_Model = cr_Model req, ev_ContentPreview = [], ev_APIKeyID = cr_APIKeyID req, ev_TeamID = cr_TeamID req,
      ev_OrgID = cr_OrgID req, ev_RuleVersion = ru_Version rule, ev_Matched = []\<rparr>"

definition emit :: "GuardrailEvent \<Rightarrow> check_acc \<Rightarrow> check_acc" where
  "emit ev a = a\<lparr>ac_events := ac_events a @ [ev]\<rparr>"

text \<open>The error that ends the check when an engine cannot be created or fails, if the policy asks for one.\<close>

definition engine_failure :: "GuardrailService \<Rightarrow> GuardrailRule \<Rightarrow> bytes \<Rightarrow> gerr \<Rightarrow> gerr option" where
  "engine_failure s rule name err =
     (if EngineErrorAction s = ''block'' \<and> \<not> gs_failOpen s
      then Some (Wrap (''guardrail: engine failure under block-on-error policy ('' @ name @ '')'') err)
      else if severityOrder (ru_Severity rule) \<ge> severityOrder ''high'' \<and> \<not> gs_failOpen s
      then Some (Wrap (''guardrail: critical engine failure ('' @ name @ '')'') err)
      else None)"

definition rule_action :: "GuardrailService \<Rightarrow> GuardrailRule \<Rightarrow> bytes" where
  "rule_action s rule =
     (let action = (if ru_Action rule = [] then ''block'' else ru_Action rule)
      in if gs_logOnly s \<and> action = ''block'' then ''log'' else action)"

text \<open>A rule that did not match.\<close>

definition pass_step :: "CheckRequest \<Rightarrow> GuardrailRule \<Rightarrow> bytes \<Rightarrow> check_acc \<Rightarrow> check_acc" where
  "pass_step req rule reason a =
     (let action = (if reason \<noteq> [] then (if ru_Action rule = [] then ''log'' else ru_Action rule) else ''pass'');
          a1 = emit (rule_event req rule action reason) a
      in if action = ''log'' then a1\<lparr>ac_logRuleName := ru_Name rule\<rparr> else a1)"

text \<open>A rule that matched: the blocking response, if its action blocks.\<close>

definition match_step :: "GuardrailService \<Rightarrow> CheckRequest \<Rightarrow> GuardrailRule \<Rightarrow> GuardrailResult \<Rightarrow> check_acc \<Rightarrow>
    CheckResponse option \<times> check_acc" where
  "match_step s req rule result a =
     (let action = rule_action s rule;
          ms = ac_matched a @ [\<lparr>mr_RuleID = ru_ID rule, mr_Version = ru_Version rule, mr_Action = action\<rparr>];
          a1 = emit ((rule_event req rule action (gr_Reason result))
                 \<lparr>ev_ContentPreview := gr_ContentSnippet result, ev_Matched := ms\<rparr>) (a\<lparr>ac_matched := ms\<rparr>)
      in if action = ''log'' then (None, a1\<lparr>ac_logRuleName := ru_Name rule\<rparr>)
         else if action = ''mask'' then
           (None, if gr_MaskedSpans result \<noteq> []
                  then a1\<lparr>ac_maskedSpans := ac_maskedSpans a1 @ gr_MaskedSpans result, ac_maskedRuleName := ru_Name rule\<rparr>
                  else if gr_MaskedContent result \<noteq> []
                  then a1\<lparr>ac_maskedContent := gr_MaskedContent result, ac_maskedRuleName := ru_Name rule\<rparr>
                  else a1)
         else (Some \<lparr>cp_Blocked = True, cp_RuleName = ru_Name rule, cp_Reason = gr_Reason result,
                     cp_MaskedContent = ac_maskedContent a1, cp_Action = action, cp_MaskedSpans = [],
                     cp_Truncated = False, cp_Matched = ms\<rparr>, a1))"

text \<open>The engine's answer in a round; a context that is done by then replaces it.\<close>

definition engine_answer :: "guard_env \<Rightarrow> CheckRequest \<Rightarrow> nat \<Rightarrow> GuardrailEngine \<Rightarrow> gerr + GuardrailResult option" where
  "engine_answer E req n eng =
     (case ge_err E n of
        Some e \<Rightarrow> Inl e
      | None \<Rightarrow> en_Check eng n (cr_Content req) (cr_Direction req) (cr_Model req))"

text \<open>One round with the context open: how it ends the check, if it does.\<close>

definition check_round :: "guard_env \<Rightarrow> GuardrailService \<Rightarrow> CheckRequest \<Rightarrow> nat \<Rightarrow> GuardrailRule \<Rightarrow> gerr + GuardrailEngine \<Rightarrow>
    check_acc \<Rightarrow> loop_end option \<times> check_acc" where
  "check_round E s req n rule engine a =
     (case engine of
        Inl err \<Rightarrow> (map_option Failed (engine_failure s rule (ru_Type rule) err),
                    emit (rule_event req rule ''error'' ''engine creation failed'') a)
      | Inr eng \<Rightarrow>
          (case engine_answer E req n eng of
             Inl err \<Rightarrow> (map_option Failed (engine_failure s rule (en_Name eng) err),
                         emit (rule_event req rule ''error'' ''engine check failed'') a)
           | Inr None \<Rightarrow> (None, pass_step req rule [] a)
           | Inr (Some result) \<Rightarrow>
               if gr_Blocked result then map_prod (map_option Decided) id (match_step s req rule result a)
               else (None, pass_step req rule (gr_Reason result) a)))"

fun check_loop :: "guard_env \<Rightarrow> GuardrailService \<Rightarrow> CheckRequest \<Rightarrow> nat \<Rightarrow> GuardrailRule list \<Rightarrow> (int \<Rightarrow> GuardrailEngine option) \<Rightarrow>
    check_acc \<Rightarrow> loop_end \<times> check_acc \<times> (int \<Rightarrow> GuardrailEngine option)" where
  "check_loop E s req n [] cache a = (Passed, a, cache)"
| "check_loop E s req n (rule # rules) cache a =
     (case ge_done E n of
        Some err \<Rightarrow> (Failed err, a, cache)
      | None \<Rightarrow>
          (case getEngine E rule cache of
             (engine, cache1) \<Rightarrow>
               (case check_round E s req n rule engine a of
                  (Some res, a1) \<Rightarrow> (res, a1, cache1)
                | (None, a1) \<Rightarrow> check_loop E s req (n + 1) rules cache1 a1)))"

abbreviation empty_acc :: check_acc where
  "empty_acc \<equiv> \<lparr>ac_maskedContent = [], ac_maskedRuleName = [], ac_logRuleName = [], ac_maskedSpans = [],
     ac_matched = [], ac_events = []\<rparr>"

abbreviation pass_response :: CheckResponse where
  "pass_response \<equiv> \<lparr>cp_Blocked = False, cp_RuleName = [], cp_Reason = [], cp_MaskedContent = [],
     cp_Action = [], cp_MaskedSpans = [], cp_Truncated = False, cp_Matched = []\<rparr>"

definition final_response :: "CheckRequest \<Rightarrow> bool \<Rightarrow> PIIVault option \<Rightarrow> check_acc \<Rightarrow> CheckResponse \<times> PIIVault option" where
  "final_response req truncated vault a =
     (if ac_maskedSpans a \<noteq> [] then
        (case (case vault of
                 Some v \<Rightarrow> if cr_Direction req = ''request''
                   then map_prod id Some (maskSpans (cr_Content req) (composeSpans (ac_maskedSpans a)) v)
                   else (composeSpans (ac_maskedSpans a), vault)
               | None \<Rightarrow> (composeSpans (ac_maskedSpans a), vault)) of
           (spans, vault1) \<Rightarrow>
             (pass_response\<lparr>cp_Action := ''mask'', cp_RuleName := ac_maskedRuleName a,
                cp_MaskedContent := applySpans (cr_Content req) spans, cp_MaskedSpans := spans,
                cp_Truncated := truncated, cp_Matched := ac_matched a\<rparr>, vault1))
      else if ac_maskedContent a \<noteq> [] then
        (pass_response\<lparr>cp_Action := ''mask'', cp_RuleName := ac_maskedRuleName a,
           cp_MaskedContent := ac_maskedContent a, cp_Truncated := truncated, cp_Matched := ac_matched a\<rparr>, vault)
      else if ac_logRuleName a \<noteq> [] then
        (pass_response\<lparr>cp_Action := ''log'', cp_RuleName := ac_logRuleName a, cp_Truncated := truncated,
           cp_Matched := ac_matched a\<rparr>, vault)
      else (pass_response\<lparr>cp_Truncated := truncated\<rparr>, vault))"

section \<open>The check\<close>

definition maxCheckContent :: nat where
  "maxCheckContent = 500000"

definition oversize_rejected :: "guard_env \<Rightarrow> GuardrailService \<Rightarrow> CheckRequest \<Rightarrow> bool" where
  "oversize_rejected E s req \<longleftrightarrow>
     OversizeAction s = ''reject'' \<or> gs_strictCoverage s \<or>
     StreamModeFor (ge_incremental E) s = ''strict'' \<and> cr_Direction req = ''response''"

text \<open>An event of the service itself, with no rule.\<close>

definition service_event :: "CheckRequest \<Rightarrow> bytes \<Rightarrow> bytes \<Rightarrow> bytes \<Rightarrow> bytes \<Rightarrow> GuardrailEvent" where
  "service_event req name sev action reason =
     \<lparr>ev_RuleID = 0, ev_RuleName = name, ev_EngineType = ''guardrail_service'', ev_Direction = cr_Direction req,
      ev_Severity = sev, ev_Action = action, ev_Reason = reason, ev_Model = cr_Model req, ev_ContentPreview = [],
      ev_APIKeyID = cr_APIKeyID req, ev_TeamID = cr_TeamID req, ev_OrgID = cr_OrgID req, ev_RuleVersion = 0,
      ev_Matched = []\<rparr>"

definition rune_prefix :: "nat \<Rightarrow> bytes \<Rightarrow> bytes" where
  "rune_prefix n s = concat (map rune_string (take n (units s)))"

record check_out =
  co_result :: "gerr + CheckResponse"
  co_request :: CheckRequest
  co_events :: "GuardrailEvent list"
  co_service :: GuardrailService
  co_vault :: "PIIVault option"

text \<open>The part after the size check.\<close>

definition check_rules :: "guard_env \<Rightarrow> instant \<Rightarrow> GuardrailService \<Rightarrow> PIIVault option \<Rightarrow> CheckRequest \<Rightarrow> bool \<Rightarrow>
    GuardrailEvent list \<Rightarrow> check_out" where
  "check_rules E now s vault req truncated evs =
     (case getModelConfig E now (cr_Model req) s of
        (mc, s1) \<Rightarrow>
          if (case mc of Some m \<Rightarrow> \<not> mg_Enabled m | None \<Rightarrow> False)
          then \<lparr>co_result = Inr pass_response, co_request = req, co_events = evs, co_service = s1, co_vault = vault\<rparr>
          else
            (case check_loop E s1 req 0 (select_rules E req mc (gs_rules s1)) (gs_engines s1) empty_acc of
               (res, a, cache) \<Rightarrow>
                 let s2 = s1\<lparr>gs_engines := cache\<rparr>;
                     evs1 = evs @ ac_events a
                 in case res of
                      Failed err \<Rightarrow> \<lparr>co_result = Inl err, co_request = req, co_events = evs1, co_service = s2, co_vault = vault\<rparr>
                    | Decided resp \<Rightarrow> \<lparr>co_result = Inr resp, co_request = req, co_events = evs1, co_service = s2, co_vault = vault\<rparr>
                    | Passed \<Rightarrow>
                        (case final_response req truncated vault a of
                           (resp, vault1) \<Rightarrow>
                             \<lparr>co_result = Inr resp, co_request = req, co_events = evs1, co_service = s2, co_vault = vault1\<rparr>)))"

definition Check :: "guard_env \<Rightarrow> instant \<Rightarrow> GuardrailService \<Rightarrow> PIIVault option \<Rightarrow> CheckRequest \<Rightarrow> check_out" where
  "Check E now s vault req =
     (case ensureRules E now s of
        (Some err, s1) \<Rightarrow>
          \<lparr>co_result = (if \<not> gs_failOpen s1 then Inl (Wrap ''guardrail: service unavailable'' err) else Inr pass_response),
           co_request = req, co_events = [], co_service = s1, co_vault = vault\<rparr>
      | (None, s1) \<Rightarrow>
          if rune_count (cr_Content req) > maxCheckContent then
            if oversize_rejected E s1 req then
              \<lparr>co_result = Inr (pass_response\<lparr>cp_Blocked := True, cp_Action := ''block'', cp_RuleName := ''guardrail_oversize'',
                 cp_Reason := ''content exceeds guardrail inspection limit (500000 runes) and oversize policy is reject''\<rparr>),
               co_request = req,
               co_events = [service_event req [] ''high'' ''blocked''
                  ''content exceeds guardrail inspection limit (500000 runes); oversize policy=reject''],
               co_service = s1, co_vault = vault\<rparr>
            else
              let req1 = req\<lparr>cr_Content := rune_prefix maxCheckContent (cr_Content req)\<rparr>
              in check_rules E now s1 vault req1 True
                   [service_event req ''guardrail_partial_coverage'' ''medium'' ''log''
                      ''partial coverage: only the content prefix was inspected'']
          else check_rules E now s1 vault req False [])"

section \<open>Rounds\<close>

text \<open>What the engine of a rule says in a round: a match, a failure that ends the check, a match that blocks.\<close>

definition rule_hit :: "guard_env \<Rightarrow> CheckRequest \<Rightarrow> (GuardrailRule \<Rightarrow> gerr + GuardrailEngine) \<Rightarrow> nat \<times> GuardrailRule \<Rightarrow> GuardrailResult option" where
  "rule_hit E req eng ir =
     (case eng (snd ir) of
        Inr e \<Rightarrow> (case engine_answer E req (fst ir) e of
                    Inr (Some result) \<Rightarrow> if gr_Blocked result then Some result else None
                  | _ \<Rightarrow> None)
      | Inl _ \<Rightarrow> None)"

definition rule_blocks :: "guard_env \<Rightarrow> GuardrailService \<Rightarrow> CheckRequest \<Rightarrow> (GuardrailRule \<Rightarrow> gerr + GuardrailEngine) \<Rightarrow> nat \<times> GuardrailRule \<Rightarrow> bool" where
  "rule_blocks E s req eng ir \<longleftrightarrow>
     rule_hit E req eng ir \<noteq> None \<and> rule_action s (snd ir) \<noteq> ''log'' \<and> rule_action s (snd ir) \<noteq> ''mask''"

definition rule_fails :: "guard_env \<Rightarrow> GuardrailService \<Rightarrow> CheckRequest \<Rightarrow> (GuardrailRule \<Rightarrow> gerr + GuardrailEngine) \<Rightarrow> nat \<times> GuardrailRule \<Rightarrow> bool" where
  "rule_fails E s req eng ir \<longleftrightarrow>
     (case eng (snd ir) of
        Inl err \<Rightarrow> engine_failure s (snd ir) (ru_Type (snd ir)) err \<noteq> None
      | Inr e \<Rightarrow> (case engine_answer E req (fst ir) e of
                    Inl err \<Rightarrow> engine_failure s (snd ir) (en_Name e) err \<noteq> None
                  | Inr _ \<Rightarrow> False))"

definition goes_on :: "guard_env \<Rightarrow> GuardrailService \<Rightarrow> CheckRequest \<Rightarrow> (GuardrailRule \<Rightarrow> gerr + GuardrailEngine) \<Rightarrow> nat \<times> GuardrailRule \<Rightarrow> bool" where
  "goes_on E s req eng ir \<longleftrightarrow>
     ge_done E (fst ir) = None \<and> \<not> rule_blocks E s req eng ir \<and> \<not> rule_fails E s req eng ir"

text \<open>The rules that matched, for attribution, and the spans of those that mask.\<close>

definition hits :: "guard_env \<Rightarrow> GuardrailService \<Rightarrow> CheckRequest \<Rightarrow> (GuardrailRule \<Rightarrow> gerr + GuardrailEngine) \<Rightarrow> (nat \<times> GuardrailRule) list \<Rightarrow> MatchedRule list" where
  "hits E s req eng irs =
     map (\<lambda>ir. \<lparr>mr_RuleID = ru_ID (snd ir), mr_Version = ru_Version (snd ir), mr_Action = rule_action s (snd ir)\<rparr>)
       (filter (\<lambda>ir. rule_hit E req eng ir \<noteq> None) irs)"

definition mask_spans :: "guard_env \<Rightarrow> GuardrailService \<Rightarrow> CheckRequest \<Rightarrow> (GuardrailRule \<Rightarrow> gerr + GuardrailEngine) \<Rightarrow> (nat \<times> GuardrailRule) list \<Rightarrow> Span list" where
  "mask_spans E s req eng irs =
     concat (map (\<lambda>ir. case rule_hit E req eng ir of
                         Some result \<Rightarrow> if rule_action s (snd ir) = ''mask'' then gr_MaskedSpans result else []
                       | None \<Rightarrow> []) irs)"

lemma hits_Cons: "hits E s req eng (ir # irs) = hits E s req eng [ir] @ hits E s req eng irs"
  by (simp add: hits_def)

lemma mask_spans_Cons: "mask_spans E s req eng (ir # irs) = mask_spans E s req eng [ir] @ mask_spans E s req eng irs"
  by (simp add: mask_spans_def)

lemma hits_Nil [simp]: "hits E s req eng [] = []" "mask_spans E s req eng [] = []"
  by (simp_all add: hits_def mask_spans_def)

lemma emit_sel [simp]:
  "ac_matched (emit ev a) = ac_matched a" "ac_maskedSpans (emit ev a) = ac_maskedSpans a"
  by (simp_all add: emit_def)

lemma pass_step_sel [simp]:
  "ac_matched (pass_step req r reason a) = ac_matched a" "ac_maskedSpans (pass_step req r reason a) = ac_maskedSpans a"
  by (simp_all add: pass_step_def Let_def)

lemma match_step_sel:
  "ac_matched (snd (match_step s req r result a)) =
     ac_matched a @ [\<lparr>mr_RuleID = ru_ID r, mr_Version = ru_Version r, mr_Action = rule_action s r\<rparr>]"
  "ac_maskedSpans (snd (match_step s req r result a)) =
     ac_maskedSpans a @ (if rule_action s r = ''mask'' then gr_MaskedSpans result else [])"
  "fst (match_step s req r result a) = None \<longleftrightarrow> rule_action s r = ''log'' \<or> rule_action s r = ''mask''"
  by (simp_all add: match_step_def Let_def)

lemma match_step_response:
  assumes "fst (match_step s req r result a) = Some resp"
  shows "cp_Blocked resp \<and> cp_RuleName resp = ru_Name r \<and> cp_Reason resp = gr_Reason result \<and>
    cp_Action resp = rule_action s r \<and>
    cp_Matched resp = ac_matched a @ [\<lparr>mr_RuleID = ru_ID r, mr_Version = ru_Version r, mr_Action = rule_action s r\<rparr>]"
  using assms by (auto simp: match_step_def Let_def split: if_splits)

lemma check_round_acc:
  assumes "eng r = e"
  shows "ac_matched (snd (check_round E s req n r e a)) = ac_matched a @ hits E s req eng [(n, r)] \<and>
    ac_maskedSpans (snd (check_round E s req n r e a)) = ac_maskedSpans a @ mask_spans E s req eng [(n, r)]"
  using assms
  by (cases e) (auto simp: check_round_def hits_def mask_spans_def rule_hit_def match_step_sel
      split: sum.split option.split)

lemma check_round_None:
  assumes "eng r = e" "ge_done E n = None"
  shows "fst (check_round E s req n r e a) = None \<longleftrightarrow> goes_on E s req eng (n, r)"
  using assms
  by (cases e) (auto simp: check_round_def goes_on_def rule_blocks_def rule_fails_def rule_hit_def match_step_sel
      split: sum.split option.split)

definition stop_ok :: "guard_env \<Rightarrow> GuardrailService \<Rightarrow> CheckRequest \<Rightarrow> (GuardrailRule \<Rightarrow> gerr + GuardrailEngine) \<Rightarrow>
    MatchedRule list \<Rightarrow> nat \<times> GuardrailRule \<Rightarrow> loop_end \<Rightarrow> bool" where
  "stop_ok E s req eng ms ir res =
     (case res of
        Passed \<Rightarrow> False
      | Failed err \<Rightarrow> ge_done E (fst ir) = Some err \<or> ge_done E (fst ir) = None \<and> rule_fails E s req eng ir
      | Decided resp \<Rightarrow> ge_done E (fst ir) = None \<and> rule_blocks E s req eng ir \<and> cp_Blocked resp \<and>
          cp_RuleName resp = ru_Name (snd ir) \<and> cp_Action resp = rule_action s (snd ir) \<and>
          cp_Matched resp = ms @ hits E s req eng [ir])"

lemma check_round_Some:
  assumes "eng r = e" "ge_done E n = None" "fst (check_round E s req n r e a) = Some res"
  shows "stop_ok E s req eng (ac_matched a) (n, r) res"
proof (cases e)
  case (Inl err)
  then show ?thesis using assms
    by (auto simp: check_round_def stop_ok_def rule_fails_def)
next
  case (Inr g)
  show ?thesis
  proof (cases "engine_answer E req n g")
    case (Inl err)
    then show ?thesis using assms Inr by (auto simp: check_round_def stop_ok_def rule_fails_def)
  next
    case (Inr answer)
    then obtain result where r: "answer = Some result" "gr_Blocked result"
      using assms \<open>e = Inr g\<close> by (cases answer) (auto simp: check_round_def split: if_splits)
    then obtain resp where m: "fst (match_step s req r result a) = Some resp" "res = Decided resp"
      using assms \<open>e = Inr g\<close> Inr by (auto simp: check_round_def)
    have h: "rule_hit E req eng (n, r) = Some result" using r Inr assms(1) \<open>e = Inr g\<close> by (simp add: rule_hit_def)
    have "rule_action s r \<noteq> ''log'' \<and> rule_action s r \<noteq> ''mask''"
      using m(1) match_step_sel(3) [of s req r result a] by auto
    then show ?thesis using match_step_response [OF m(1)] h m(2) assms(2)
      by (simp add: stop_ok_def rule_blocks_def hits_def)
  qed
qed

lemma getEngine_other:
  "ru_ID r' \<noteq> ru_ID r \<Longrightarrow> fst (getEngine E r' (snd (getEngine E r cache))) = fst (getEngine E r' cache)"
  by (auto simp: getEngine_def split: option.splits sum.splits)

text \<open>How the loop ends, given the rules with the numbers of their rounds and the accumulator at its start.\<close>

definition loop_spec :: "guard_env \<Rightarrow> GuardrailService \<Rightarrow> CheckRequest \<Rightarrow> (GuardrailRule \<Rightarrow> gerr + GuardrailEngine) \<Rightarrow>
    (nat \<times> GuardrailRule) list \<Rightarrow> check_acc \<Rightarrow> loop_end \<Rightarrow> check_acc \<Rightarrow> bool" where
  "loop_spec E s req eng irs a res a' \<longleftrightarrow>
     res = Passed \<and> list_all (goes_on E s req eng) irs \<and>
       ac_matched a' = ac_matched a @ hits E s req eng irs \<and>
       ac_maskedSpans a' = ac_maskedSpans a @ mask_spans E s req eng irs \<or>
     (\<exists>pre ir post. irs = pre @ ir # post \<and> list_all (goes_on E s req eng) pre \<and>
        stop_ok E s req eng (ac_matched a @ hits E s req eng pre) ir res)"

lemma loop_spec_Cons:
  assumes "goes_on E s req eng ir" "loop_spec E s req eng irs a1 res a'"
    and "ac_matched a1 = ac_matched a @ hits E s req eng [ir]"
    and "ac_maskedSpans a1 = ac_maskedSpans a @ mask_spans E s req eng [ir]"
  shows "loop_spec E s req eng (ir # irs) a res a'"
proof (cases "res = Passed \<and> list_all (goes_on E s req eng) irs \<and>
       ac_matched a' = ac_matched a1 @ hits E s req eng irs \<and>
       ac_maskedSpans a' = ac_maskedSpans a1 @ mask_spans E s req eng irs")
  case True
  then show ?thesis using assms(1,3,4) hits_Cons [of E s req eng ir irs] mask_spans_Cons [of E s req eng ir irs]
    by (simp add: loop_spec_def)
next
  case False
  then obtain pre jr post where p: "irs = pre @ jr # post" "list_all (goes_on E s req eng) pre"
    "stop_ok E s req eng (ac_matched a1 @ hits E s req eng pre) jr res"
    using assms(2) unfolding loop_spec_def by blast
  have "ir # irs = (ir # pre) @ jr # post" "list_all (goes_on E s req eng) (ir # pre)"
    using p assms(1) by simp_all
  moreover have "stop_ok E s req eng (ac_matched a @ hits E s req eng (ir # pre)) jr res"
    using p(3) assms(3) hits_Cons [of E s req eng ir pre] by simp
  ultimately show ?thesis unfolding loop_spec_def by blast
qed

lemma loop_spec_stop:
  assumes "stop_ok E s req eng (ac_matched a) ir res"
  shows "loop_spec E s req eng (ir # irs) a res a'"
proof -
  have "ir # irs = [] @ ir # irs" "stop_ok E s req eng (ac_matched a @ hits E s req eng []) ir res"
    using assms by simp_all
  then show ?thesis unfolding loop_spec_def by (intro disjI2 exI [of _ "[]"] exI [of _ ir] exI [of _ irs]) simp
qed

lemma check_loop_spec:
  assumes "distinct (map ru_ID rules)" "\<forall>r\<in>set rules. fst (getEngine E r cache) = eng r"
  shows "loop_spec E s req eng (enumerate n rules) a
    (fst (check_loop E s req n rules cache a)) (fst (snd (check_loop E s req n rules cache a)))"
  using assms
proof (induction rules arbitrary: n cache a)
  case Nil
  then show ?case by (simp add: loop_spec_def)
next
  case (Cons r rules)
  obtain e cache1 where g: "getEngine E r cache = (e, cache1)" by fastforce
  obtain o1 a1 where c: "check_round E s req n r e a = (o1, a1)" by fastforce
  have e: "eng r = e" using Cons.prems(2) g by simp
  show ?case
  proof (cases "ge_done E n")
    case (Some err)
    then have "stop_ok E s req eng (ac_matched a) (n, r) (Failed err)" by (simp add: stop_ok_def)
    then show ?thesis using Some by (simp add: loop_spec_stop)
  next
    case None
    show ?thesis
    proof (cases o1)
      case (Some res)
      then have "stop_ok E s req eng (ac_matched a) (n, r) res"
        using check_round_Some [where eng = eng, OF e None, of s req a res] c by simp
      then show ?thesis using None g c Some by (simp add: loop_spec_stop)
    next
      case nostop: None
      have "fst (getEngine E r' cache1) = eng r'" if "r' \<in> set rules" for r'
      proof -
        have "ru_ID r' \<noteq> ru_ID r" using Cons.prems(1) imageI [OF that, of ru_ID] by auto
        then show ?thesis using getEngine_other [of r' r E cache] g Cons.prems(2) that by simp
      qed
      then have ih: "loop_spec E s req eng (enumerate (n + 1) rules) a1
          (fst (check_loop E s req (n + 1) rules cache1 a1)) (fst (snd (check_loop E s req (n + 1) rules cache1 a1)))"
        using Cons.IH [of cache1 "n + 1" a1] Cons.prems(1) by simp
      have "goes_on E s req eng (n, r)" using check_round_None [where eng = eng, OF e None, of s req a] c nostop by simp
      moreover have "ac_matched a1 = ac_matched a @ hits E s req eng [(n, r)]"
        "ac_maskedSpans a1 = ac_maskedSpans a @ mask_spans E s req eng [(n, r)]"
        using check_round_acc [where eng = eng, OF e, of E s req n a] c by simp_all
      ultimately show ?thesis using loop_spec_Cons [OF _ ih] None g c nostop by simp
    qed
  qed
qed

section \<open>The decision\<close>

lemma set_select_rules:
  "set (select_rules E req mc rules) = {r \<in> set rules. rule_applies E req r \<and> type_selected req mc r}"
  by (auto simp: select_rules_def)

lemma distinct_select_rules:
  assumes "distinct (map ru_ID rules)"
  shows "distinct (map ru_ID (select_rules E req mc rules))"
proof -
  have "distinct (map ru_ID (filter (type_selected req mc) (filter (rule_applies E req) rules)))"
    using assms by (simp add: distinct_map_filter)
  moreover have "mset (map ru_ID (select_rules E req mc rules)) =
      mset (map ru_ID (filter (type_selected req mc) (filter (rule_applies E req) rules)))"
    by (simp add: select_rules_def)
  ultimately show ?thesis using mset_eq_imp_distinct_iff by blast
qed

lemma mask_span_bounds: "sp_Start (fst (mask_span c sp v)) = sp_Start sp \<and> sp_End (fst (mask_span c sp v)) = sp_End sp"
  by (auto simp: mask_span_def Let_def split: option.split)

lemma maskSpans_covered: "covered (fst (maskSpans c sps v)) i = covered sps i"
proof (induction sps arbitrary: v)
  case (Cons sp sps)
  show ?case using Cons.IH mask_span_bounds [of c sp v]
    by (simp add: case_prod_unfold covered_def covers_def proper_def)
qed simp

lemma final_response_mask:
  assumes "final_response req truncated vault a = (resp, vault1)"
  shows "\<not> cp_Blocked resp \<and> covered (cp_MaskedSpans resp) i = covered (ac_maskedSpans a) i \<and>
    (ac_maskedSpans a \<noteq> [] \<longrightarrow>
       cp_Action resp = ''mask'' \<and> cp_MaskedContent resp = applySpans (cr_Content req) (cp_MaskedSpans resp)) \<and>
    (cp_Action resp \<noteq> [] \<longrightarrow> cp_Matched resp = ac_matched a) \<and> cp_Truncated resp = truncated"
  using assms
  by (auto simp: final_response_def map_prod_def case_prod_unfold maskSpans_covered composeSpans_covered
      split: if_splits option.splits)

text \<open>The engine of a rule cannot be created or fails, and the policy under which that is tolerated.\<close>

definition rule_errs :: "guard_env \<Rightarrow> CheckRequest \<Rightarrow> (GuardrailRule \<Rightarrow> gerr + GuardrailEngine) \<Rightarrow> nat \<times> GuardrailRule \<Rightarrow> bool" where
  "rule_errs E req eng ir \<longleftrightarrow>
     (case eng (snd ir) of Inl err \<Rightarrow> True | Inr e \<Rightarrow> (case engine_answer E req (fst ir) e of Inl err \<Rightarrow> True | Inr _ \<Rightarrow> False))"

definition tolerated :: "GuardrailService \<Rightarrow> GuardrailRule \<Rightarrow> bool" where
  "tolerated s r \<longleftrightarrow> gs_failOpen s \<or> EngineErrorAction s \<noteq> ''block'' \<and> severityOrder (ru_Severity r) < severityOrder ''high''"

lemma rule_fails_iff: "rule_fails E s req eng ir \<longleftrightarrow> rule_errs E req eng ir \<and> \<not> tolerated s (snd ir)"
  by (auto simp: rule_fails_def rule_errs_def tolerated_def engine_failure_def split: sum.split)

text \<open>The rules were consulted and let the text pass, or the first one that did not ended the check.\<close>

definition all_pass :: "guard_env \<Rightarrow> GuardrailService \<Rightarrow> CheckRequest \<Rightarrow> (GuardrailRule \<Rightarrow> gerr + GuardrailEngine) \<Rightarrow> (nat \<times> GuardrailRule) list \<Rightarrow> bool" where
  "all_pass E s req eng irs = list_all (\<lambda>ir. ge_done E (fst ir) = None \<and> \<not> rule_blocks E s req eng ir \<and>
     (rule_errs E req eng ir \<longrightarrow> tolerated s (snd ir))) irs"

lemma all_pass_eq: "all_pass E s req eng irs = list_all (goes_on E s req eng) irs"
  by (simp add: all_pass_def goes_on_def [abs_def] rule_fails_iff)

definition decision_ok :: "guard_env \<Rightarrow> GuardrailService \<Rightarrow> CheckRequest \<Rightarrow> (GuardrailRule \<Rightarrow> gerr + GuardrailEngine) \<Rightarrow>
    (nat \<times> GuardrailRule) list \<Rightarrow> bool \<Rightarrow> gerr + CheckResponse \<Rightarrow> bool" where
  "decision_ok E s req eng R truncated res \<longleftrightarrow>
     (case res of
        Inr resp \<Rightarrow>
          if cp_Blocked resp then
            \<exists>pre ir post. R = pre @ ir # post \<and> all_pass E s req eng pre \<and> ge_done E (fst ir) = None \<and>
              rule_blocks E s req eng ir \<and> cp_RuleName resp = ru_Name (snd ir) \<and>
              cp_Action resp = rule_action s (snd ir) \<and> cp_Matched resp = hits E s req eng (pre @ [ir])
          else all_pass E s req eng R \<and> cp_Truncated resp = truncated \<and>
            (\<forall>i. covered (cp_MaskedSpans resp) i = covered (mask_spans E s req eng R) i) \<and>
            (mask_spans E s req eng R \<noteq> [] \<longrightarrow>
               cp_Action resp = ''mask'' \<and> cp_MaskedContent resp = applySpans (cr_Content req) (cp_MaskedSpans resp)) \<and>
            (cp_Action resp \<noteq> [] \<longrightarrow> cp_Matched resp = hits E s req eng R)
      | Inl err \<Rightarrow>
          \<exists>pre ir post. R = pre @ ir # post \<and> all_pass E s req eng pre \<and>
            (ge_done E (fst ir) = Some err \<or> rule_errs E req eng ir \<and> \<not> tolerated s (snd ir)))"

lemma check_rules_decision:
  assumes "getModelConfig E now (cr_Model req) s = (mc, s2)" "distinct (map ru_ID (gs_rules s2))"
    and "case mc of Some m \<Rightarrow> mg_Enabled m | None \<Rightarrow> True"
    and "R = enumerate 0 (select_rules E req mc (gs_rules s2))" "eng = (\<lambda>r. fst (getEngine E r (gs_engines s2)))"
  shows "decision_ok E s2 req eng R t (co_result (check_rules E now s vault req t evs))"
proof -
  let ?L = "check_loop E s2 req 0 (select_rules E req mc (gs_rules s2)) (gs_engines s2) empty_acc"
  obtain res a cache where L: "?L = (res, a, cache)" by (metis prod_cases3)
  have spec: "loop_spec E s2 req eng R empty_acc res a"
    using check_loop_spec [where cache = "gs_engines s2" and eng = eng and s = s2 and n = 0 and a = empty_acc and req = req,
        OF distinct_select_rules [OF assms(2), of E req mc], of E] L assms(4,5) by simp
  have en: "\<not> (case mc of Some m \<Rightarrow> \<not> mg_Enabled m | None \<Rightarrow> False)" using assms(3) by (auto split: option.splits)
  show ?thesis
  proof (cases "res = Passed")
    case True
    obtain resp vault1 where f: "final_response req t vault a = (resp, vault1)" by fastforce
    have c: "co_result (check_rules E now s vault req t evs) = Inr resp" using assms(1) en L True f by (simp add: check_rules_def Let_def)
    have "list_all (goes_on E s2 req eng) R \<and> ac_matched a = hits E s2 req eng R \<and> ac_maskedSpans a = mask_spans E s2 req eng R"
      using spec True by (auto simp: loop_spec_def stop_ok_def)
    then show ?thesis unfolding c using final_response_mask [OF f]
      by (simp add: decision_ok_def all_pass_eq)
  next
    case False
    then obtain pre ir post where p: "R = pre @ ir # post" "all_pass E s2 req eng pre" "stop_ok E s2 req eng (hits E s2 req eng pre) ir res"
      using spec by (auto simp: loop_spec_def all_pass_eq)
    have h: "hits E s2 req eng (pre @ [ir]) = hits E s2 req eng pre @ hits E s2 req eng [ir]" by (simp add: hits_def)
    have c: "co_result (check_rules E now s vault req t evs) = (case res of Failed err \<Rightarrow> Inl err | Decided resp \<Rightarrow> Inr resp)"
      using assms(1) en L False by (cases res) (simp_all add: check_rules_def Let_def)
    show ?thesis
    proof (cases res)
      case (Failed err)
      then have "ge_done E (fst ir) = Some err \<or> rule_errs E req eng ir \<and> \<not> tolerated s2 (snd ir)"
        using p(3) by (auto simp: stop_ok_def rule_fails_iff)
      then have "\<exists>pre ir post. R = pre @ ir # post \<and> all_pass E s2 req eng pre \<and>
          (ge_done E (fst ir) = Some err \<or> rule_errs E req eng ir \<and> \<not> tolerated s2 (snd ir))" using p(1,2) by blast
      then show ?thesis unfolding c using Failed by (simp add: decision_ok_def)
    next
      case (Decided resp)
      then have d: "cp_Blocked resp" "ge_done E (fst ir) = None" "rule_blocks E s2 req eng ir" "cp_RuleName resp = ru_Name (snd ir)"
        "cp_Action resp = rule_action s2 (snd ir)" "cp_Matched resp = hits E s2 req eng (pre @ [ir])"
        using p(3) h by (simp_all add: stop_ok_def)
      then have "\<exists>pre ir post. R = pre @ ir # post \<and> all_pass E s2 req eng pre \<and> ge_done E (fst ir) = None \<and>
              rule_blocks E s2 req eng ir \<and> cp_RuleName resp = ru_Name (snd ir) \<and>
              cp_Action resp = rule_action s2 (snd ir) \<and> cp_Matched resp = hits E s2 req eng (pre @ [ir])"
        using p(1,2) by blast
      then show ?thesis unfolding c using Decided d(1) by (simp add: decision_ok_def)
    qed (use False in simp)
  qed
qed

text \<open>
  C16: The decision of a check, on every path. When the rules cannot be loaded, the check is an error, or an unchecked pass
  under fail-open. Content over the limit is blocked under a reject policy and otherwise checked up to the limit, with the
  response marked as truncated. A model whose configuration disables guardrails passes unchecked. In all other cases the
  rules consulted are the loaded rules that apply to the direction, model and organisation and that the model's
  configuration selects, and the text passes only when none of them matched with a blocking action and every engine that
  failed did so under fail-open or at a severity below high without block-on-error; the masks of the response then cover
  exactly the bytes the masking rules matched, the masked content applies them, and an answer with an action names all
  the rules that matched. A text is blocked only by the first rule that ends the check, and the response attributes every
  match up to it; an error is returned only when the context was done or a failure was not tolerated.
\<close>

theorem guardrail_decision:
  assumes "ensureRules E now s = (err, s1)" "getModelConfig E now (cr_Model req) s1 = (mc, s2)" "distinct (map ru_ID (gs_rules s2))"
    and "big = (maxCheckContent < rune_count (cr_Content req))"
    and "req' = (if big then req\<lparr>cr_Content := rune_prefix maxCheckContent (cr_Content req)\<rparr> else req)"
    and "R = enumerate 0 (select_rules E req' mc (gs_rules s2))" "eng = (\<lambda>r. fst (getEngine E r (gs_engines s2)))"
    and "res = co_result (Check E now s vault req)"
  shows "snd ` set R = {r \<in> set (gs_rules s2). rule_applies E req' r \<and> type_selected req' mc r} \<and>
    (case err of
       Some e \<Rightarrow> res = (if gs_failOpen s1 then Inr pass_response else Inl (Wrap ''guardrail: service unavailable'' e))
     | None \<Rightarrow>
         if big \<and> oversize_rejected E s1 req then \<exists>resp. res = Inr resp \<and> cp_Blocked resp \<and> cp_RuleName resp = ''guardrail_oversize''
         else if (case mc of Some m \<Rightarrow> \<not> mg_Enabled m | None \<Rightarrow> False) then res = Inr pass_response
         else decision_ok E s2 req' eng R big res)"
proof -
  have R: "snd ` set R = {r \<in> set (gs_rules s2). rule_applies E req' r \<and> type_selected req' mc r}"
    unfolding assms(6) by (simp flip: set_select_rules set_map)
  have m: "getModelConfig E now (cr_Model req') s1 = (mc, s2)" using assms(2,5) by simp
  show ?thesis
  proof (cases err)
    case (Some e)
    then show ?thesis using R assms(1,8) by (simp add: Check_def)
  next
    case None
    define evs where "evs = (if big then [service_event req ''guardrail_partial_coverage'' ''medium'' ''log''
        ''partial coverage: only the content prefix was inspected''] else [])"
    have c: "res = co_result (check_rules E now s1 vault req' big evs)" if "\<not> (big \<and> oversize_rejected E s1 req)"
      using None that assms(1,4,5,8) by (auto simp: Check_def Let_def evs_def)
    have "decision_ok E s2 req' eng R big res"
      if "\<not> (big \<and> oversize_rejected E s1 req)" "\<not> (case mc of Some m \<Rightarrow> \<not> mg_Enabled m | None \<Rightarrow> False)"
      unfolding c [OF that(1)]
      by (rule check_rules_decision [OF m assms(3) _ assms(6,7)]) (use that(2) in \<open>auto split: option.splits\<close>)
    moreover have "res = Inr pass_response" if "\<not> (big \<and> oversize_rejected E s1 req)" "case mc of Some m \<Rightarrow> \<not> mg_Enabled m | None \<Rightarrow> False"
      using c [OF that(1)] that(2) m by (simp add: check_rules_def)
    moreover have "\<exists>resp. res = Inr resp \<and> cp_Blocked resp \<and> cp_RuleName resp = ''guardrail_oversize''" if "big \<and> oversize_rejected E s1 req"
      using that None assms(1,4,8) by (simp add: Check_def)
    ultimately show ?thesis using R None by simp
  qed
qed

text \<open>A concrete environment: one masking rule whose engine matches the first two bytes.\<close>

definition demo_rule :: GuardrailRule where
  "demo_rule = \<lparr>ru_ID = 7, ru_OrgID = None, ru_Name = ''mask-two'', ru_Type = ''two'', ru_Direction = ''both'',
     ru_Enabled = True, ru_Config = ''{}'', ru_Severity = ''high'', ru_Action = ''mask'', ru_ModelFilter = None,
     ru_Version = 3\<rparr>"

definition demo_guard :: guard_env where
  "demo_guard =
     \<lparr>ge_settings = Some [(''guardrails_stream_mode'', ''bogus''), (''guardrails_log_only'', ''true'')],
      ge_rules = Inr [demo_rule], ge_extra = (\<lambda>_. Some []),
      ge_create = (\<lambda>t c. Inr \<lparr>en_Name = t, en_Check = (\<lambda>n txt d m. Inr (Some (pass_result\<lparr>gr_Blocked := True,
         gr_MaskedSpans := [\<lparr>sp_Start = 0, sp_End = 2, sp_Replacement = ''[X]'', sp_Reversible = False\<rparr>]\<rparr>)))\<rparr>),
      ge_done = (\<lambda>_. None), ge_err = (\<lambda>_. None), ge_incremental = False, ge_trim = id\<rparr>"

definition demo_req :: CheckRequest where
  "demo_req = \<lparr>cr_Content = ''abc'', cr_Direction = ''request'', cr_Model = [], cr_APIKeyID = 1, cr_TeamID = 1,
     cr_OrgID = 1, cr_Prompt = []\<rparr>"

definition demo_service :: GuardrailService where
  "demo_service = snd (ensureRules demo_guard 0 NewGuardrailService)"

lemma demo_service_facts:
  "ensureRules demo_guard 0 NewGuardrailService = (None, demo_service)"
  "gs_rules demo_service = [demo_rule]" "gs_engines demo_service = Map.empty" "gs_logOnly demo_service"
  by (simp_all add: demo_service_def ensureRules_def LoadRules_def swap_rules_def evict_engines_def RefreshSettings_def demo_guard_def apply_setting_def
      NewGuardrailService_def Let_def fun_eq_iff)

lemma demo_req_small: "rune_count (cr_Content demo_req) \<le> maxCheckContent"
proof -
  have "rune_count ''abc'' = 3" by code_simp
  then show ?thesis by (simp add: demo_req_def maxCheckContent_def)
qed

lemma demo_no_config: "getModelConfig demo_guard 0 (cr_Model demo_req) demo_service = (None, demo_service)"
  by (simp add: getModelConfig_def demo_req_def)

lemma demo_select: "select_rules demo_guard demo_req None [demo_rule] = [demo_rule]"
  by (simp add: select_rules_def slice_stable_def ins_back_def type_selected_def rule_applies_def demo_rule_def)

lemma demo_check:
  "co_result (Check demo_guard 0 NewGuardrailService None demo_req) =
     Inr \<lparr>cp_Blocked = False, cp_RuleName = ''mask-two'', cp_Reason = [], cp_MaskedContent = ''[X]c'', cp_Action = ''mask'',
       cp_MaskedSpans = [\<lparr>sp_Start = 0, sp_End = 2, sp_Replacement = ''[X]'', sp_Reversible = False\<rparr>],
       cp_Truncated = False, cp_Matched = [\<lparr>mr_RuleID = 7, mr_Version = 3, mr_Action = ''mask''\<rparr>]\<rparr>"
proof -
  have c: "Check demo_guard 0 NewGuardrailService None demo_req = check_rules demo_guard 0 demo_service None demo_req False []"
    using demo_req_small by (simp add: Check_def demo_service_facts)
  show ?thesis unfolding c check_rules_def demo_no_config
    by (simp add: demo_service_facts demo_select, simp add: getEngine_def check_round_def engine_answer_def
        match_step_def emit_def rule_event_def rule_action_def demo_guard_def final_response_def composeSpans_def
        slice_stable_def ins_back_def compose_step_def applySpans_def slice_def Let_def demo_rule_def demo_req_def)
qed

theorem guardrail_decision_witness:
  "co_result (Check demo_guard 0 NewGuardrailService None demo_req) =
     Inr \<lparr>cp_Blocked = False, cp_RuleName = ''mask-two'', cp_Reason = [], cp_MaskedContent = ''[X]c'', cp_Action = ''mask'',
       cp_MaskedSpans = [\<lparr>sp_Start = 0, sp_End = 2, sp_Replacement = ''[X]'', sp_Reversible = False\<rparr>],
       cp_Truncated = False, cp_Matched = [\<lparr>mr_RuleID = 7, mr_Version = 3, mr_Action = ''mask''\<rparr>]\<rparr> \<and>
   all_pass demo_guard demo_service demo_req (\<lambda>r. fst (getEngine demo_guard r Map.empty)) [(0, demo_rule)] \<and>
   hits demo_guard demo_service demo_req (\<lambda>r. fst (getEngine demo_guard r Map.empty)) [(0, demo_rule)] =
     [\<lparr>mr_RuleID = 7, mr_Version = 3, mr_Action = ''mask''\<rparr>]"
proof -
  have d: "distinct (map ru_ID (gs_rules demo_service))" by (simp add: demo_service_facts)
  have b: "\<not> maxCheckContent < rune_count (cr_Content demo_req)" using demo_req_small by simp
  have "decision_ok demo_guard demo_service demo_req (\<lambda>r. fst (getEngine demo_guard r Map.empty)) [(0, demo_rule)] False
     (co_result (Check demo_guard 0 NewGuardrailService None demo_req))"
    using guardrail_decision [OF demo_service_facts(1) demo_no_config d refl refl refl refl refl, where vault = None] b
    by (simp add: demo_service_facts demo_select)
  then show ?thesis unfolding demo_check by (simp add: decision_ok_def)
qed

section \<open>The service between checks\<close>

definition settings_ok :: "bytes set \<Rightarrow> GuardrailService \<Rightarrow> bool" where
  "settings_ok modes s \<longleftrightarrow>
     gs_streamMode s \<in> {''strict'', ''window'', ''incremental''} \<union> modes \<and>
     gs_oversizeAction s \<in> {''truncate'', ''reject''} \<and> gs_engineErrorAction s \<in> {''skip'', ''block''} \<and>
     gs_strictMaxRunes s > 0 \<and> gs_strictMaxBytes s > 0 \<and> gs_strictMaxEvents s > 0 \<and>
     gs_requestBudgetMs s > 0 \<and> gs_responseBudgetMs s > 0"

lemma settings_cong:
  "settings_ok modes (s\<lparr>gs_rules := a\<rparr>) = settings_ok modes s" "settings_ok modes (s\<lparr>gs_loadedAt := b\<rparr>) = settings_ok modes s"
  "settings_ok modes (s\<lparr>gs_engines := c\<rparr>) = settings_ok modes s" "settings_ok modes (s\<lparr>gs_modelCfgs := d\<rparr>) = settings_ok modes s"
  by (simp_all add: settings_ok_def)

lemma set_positive_ok:
  assumes "settings_ok modes s" and "\<And>n. n > 0 \<Longrightarrow> settings_ok modes (upd n s)"
  shows "settings_ok modes (set_positive v upd s)"
  using assms by (simp add: set_positive_def split: option.split)

lemma set_positive_keeps:
  assumes "\<And>n. f (upd n s) = f s"
  shows "f (set_positive v upd s) = f s"
  using assms by (simp add: set_positive_def split: option.split)

lemma settings_ok_if:
  "(b \<Longrightarrow> settings_ok modes x) \<Longrightarrow> (\<not> b \<Longrightarrow> settings_ok modes y) \<Longrightarrow> settings_ok modes (if b then x else y)"
  by simp

lemma apply_setting_ok:
  assumes "settings_ok modes s"
  shows "settings_ok modes (apply_setting s kv)"
  unfolding apply_setting_def case_prod_unfold
  by (intro settings_ok_if set_positive_ok assms) (use assms in \<open>auto simp: settings_ok_def\<close>)

lemma apply_setting_keeps: "gs_rules (apply_setting s kv) = gs_rules s \<and> gs_engines (apply_setting s kv) = gs_engines s"
  by (simp add: apply_setting_def case_prod_unfold set_positive_keeps [where f = gs_rules] set_positive_keeps [where f = gs_engines])

lemma foldl_setting:
  "(settings_ok modes s \<longrightarrow> settings_ok modes (foldl apply_setting s kvs)) \<and>
   gs_rules (foldl apply_setting s kvs) = gs_rules s \<and> gs_engines (foldl apply_setting s kvs) = gs_engines s"
  by (induction kvs arbitrary: s) (simp_all add: apply_setting_ok apply_setting_keeps)

text \<open>The setters of the service.\<close>

datatype setter = SetFailOpen bool | SetEnabled bool | SetLogOnly bool | SetStreamMode bytes | SetRulesTTL duration

fun apply_setter :: "setter \<Rightarrow> GuardrailService \<Rightarrow> GuardrailService" where
  "apply_setter (SetFailOpen v) s = s\<lparr>gs_failOpen := v\<rparr>"
| "apply_setter (SetEnabled v) s = s\<lparr>gs_enabled := v\<rparr>"
| "apply_setter (SetLogOnly v) s = s\<lparr>gs_logOnly := v\<rparr>"
| "apply_setter (SetStreamMode v) s = s\<lparr>gs_streamMode := v\<rparr>"
| "apply_setter (SetRulesTTL d) s = s\<lparr>gs_ttl := d\<rparr>"

text \<open>
  The service with the checks that run on it. Every section that holds a lock is a step of its own: a check takes its copy of the rules
  that apply, and later asks for the engines of that copy one after the other, while a reload may replace the rules and evict
  engines in between. The reloads themselves do not overlap (they share a single flight). \<open>sy_checks\<close> are the copies of the
  running checks, \<open>sy_load\<close> the rules before and after of a reload between its sections, and \<open>sy_seen\<close> is the set of all rules
  that were ever loaded.
\<close>

record guard_sys =
  sy_service :: GuardrailService
  sy_checks :: "GuardrailRule list list"
  sy_load :: "(GuardrailRule list \<times> GuardrailRule list) option"
  sy_seen :: "GuardrailRule set"

definition sys0 :: guard_sys where
  "sys0 = \<lparr>sy_service = NewGuardrailService, sy_checks = [], sy_load = None, sy_seen = {}\<rparr>"

inductive guard_step :: "(bytes \<Rightarrow> bytes \<Rightarrow> gerr + GuardrailEngine) \<Rightarrow> bytes set \<Rightarrow> guard_sys \<Rightarrow> guard_sys \<Rightarrow> bool"
  for create :: "bytes \<Rightarrow> bytes \<Rightarrow> gerr + GuardrailEngine" and modes :: "bytes set" where
  check_copy: "guard_step create modes y (y\<lparr>sy_checks := select_rules E req mc (gs_rules (sy_service y)) # sy_checks y\<rparr>)"
| check_engine: "copy \<in> set (sy_checks y) \<Longrightarrow> r \<in> set copy \<Longrightarrow> ge_create E = create \<Longrightarrow>
    guard_step create modes y (y\<lparr>sy_service := (sy_service y)\<lparr>gs_engines := snd (getEngine E r (gs_engines (sy_service y)))\<rparr>\<rparr>)"
| check_end: "guard_step create modes y (y\<lparr>sy_checks := remove1 copy (sy_checks y)\<rparr>)"
| model_config: "guard_step create modes y (y\<lparr>sy_service := snd (getModelConfig E now model (sy_service y))\<rparr>)"
| load_swap: "sy_load y = None \<Longrightarrow>
    guard_step create modes y (y\<lparr>sy_service := swap_rules rules now (sy_service y), sy_load := Some (gs_rules (sy_service y), rules),
      sy_seen := sy_seen y \<union> set rules\<rparr>)"
| load_evict: "sy_load y = Some (olds, rules) \<Longrightarrow>
    guard_step create modes y (y\<lparr>sy_service := evict_engines olds rules (sy_service y), sy_load := None\<rparr>)"
| refresh: "guard_step create modes y (y\<lparr>sy_service := RefreshSettings E (sy_service y)\<rparr>)"
| invalidate: "guard_step create modes y (y\<lparr>sy_service := InvalidateCache (sy_service y)\<rparr>)"
| set_to: "(\<And>v. op = SetStreamMode v \<Longrightarrow> v \<in> modes) \<Longrightarrow> guard_step create modes y (y\<lparr>sy_service := apply_setter op (sy_service y)\<rparr>)"

definition service_reach :: "(bytes \<Rightarrow> bytes \<Rightarrow> gerr + GuardrailEngine) \<Rightarrow> bytes set \<Rightarrow> guard_sys \<Rightarrow> bool" where
  "service_reach create modes y \<longleftrightarrow> (guard_step create modes)\<^sup>*\<^sup>* sys0 y"

text \<open>An engine is the one of a rule with its id that was loaded at some time.\<close>

definition engine_of :: "(bytes \<Rightarrow> bytes \<Rightarrow> gerr + GuardrailEngine) \<Rightarrow> GuardrailRule set \<Rightarrow> int \<Rightarrow> GuardrailEngine \<Rightarrow> bool" where
  "engine_of create seen i e \<longleftrightarrow> (\<exists>r \<in> seen. ru_ID r = i \<and> create (ru_Type r) (ru_Config r) = Inr e)"

definition sys_inv :: "(bytes \<Rightarrow> bytes \<Rightarrow> gerr + GuardrailEngine) \<Rightarrow> bytes set \<Rightarrow> guard_sys \<Rightarrow> bool" where
  "sys_inv create modes y \<longleftrightarrow>
     settings_ok modes (sy_service y) \<and> set (gs_rules (sy_service y)) \<subseteq> sy_seen y \<and> (\<forall>copy \<in> set (sy_checks y). set copy \<subseteq> sy_seen y) \<and>
     (\<forall>i e. gs_engines (sy_service y) i = Some e \<longrightarrow> engine_of create (sy_seen y) i e)"

lemma engine_of_mono: "engine_of create seen i e \<Longrightarrow> engine_of create (seen \<union> new) i e"
  by (auto simp: engine_of_def)

lemma getEngine_creates:
  assumes "snd (getEngine E r cache) i = Some e" "r \<in> seen" "\<And>e. cache i = Some e \<Longrightarrow> engine_of (ge_create E) seen i e"
  shows "engine_of (ge_create E) seen i e"
  using assms by (auto simp: getEngine_def engine_of_def split: option.splits sum.splits if_splits)

lemma getModelConfig_keeps:
  "settings_ok modes (snd (getModelConfig E now model s)) = settings_ok modes s"
  "gs_rules (snd (getModelConfig E now model s)) = gs_rules s" "gs_engines (snd (getModelConfig E now model s)) = gs_engines s"
  by (simp_all add: getModelConfig_def Let_def cache_config_def settings_cong split: option.split)

lemma RefreshSettings_keeps:
  "settings_ok modes s \<Longrightarrow> settings_ok modes (RefreshSettings E s)"
  "gs_rules (RefreshSettings E s) = gs_rules s" "gs_engines (RefreshSettings E s) = gs_engines s"
  by (simp_all add: RefreshSettings_def foldl_setting split: option.split)

lemma apply_setter_keeps:
  "settings_ok modes s \<Longrightarrow> (\<And>v. op = SetStreamMode v \<Longrightarrow> v \<in> modes) \<Longrightarrow> settings_ok modes (apply_setter op s)"
  "gs_rules (apply_setter op s) = gs_rules s" "gs_engines (apply_setter op s) = gs_engines s"
  by (cases op; simp add: settings_ok_def)+

lemma guard_step_inv: "guard_step create modes y y' \<Longrightarrow> sys_inv create modes y \<Longrightarrow> sys_inv create modes y'"
proof (induction rule: guard_step.induct)
  case (check_copy y E req mc)
  have "set (select_rules E req mc (gs_rules (sy_service y))) \<subseteq> set (gs_rules (sy_service y))" by (auto simp: set_select_rules)
  then show ?case using check_copy by (auto simp: sys_inv_def)
next
  case (check_engine copy y r E)
  then have r: "r \<in> sy_seen y" by (auto simp: sys_inv_def)
  have "engine_of create (sy_seen y) i e" if "snd (getEngine E r (gs_engines (sy_service y))) i = Some e" for i e
    using getEngine_creates [OF that r] check_engine by (simp add: sys_inv_def)
  then show ?case using check_engine by (simp add: sys_inv_def settings_cong)
next
  case (check_end y copy)
  then show ?case using set_remove1_subset [of copy "sy_checks y"] by (auto simp: sys_inv_def)
next
  case (load_swap y rules now)
  then show ?case by (auto simp: sys_inv_def swap_rules_def settings_cong intro: engine_of_mono)
next
  case (load_evict y olds rules)
  then show ?case by (auto simp: sys_inv_def evict_engines_def settings_cong split: if_splits)
next
  case (invalidate y)
  then show ?case by (simp add: sys_inv_def InvalidateCache_def settings_cong)
qed (simp_all add: sys_inv_def getModelConfig_keeps RefreshSettings_keeps apply_setter_keeps)

lemma service_reach_inv: "service_reach create modes y \<Longrightarrow> sys_inv create modes y"
  unfolding service_reach_def
proof (induction rule: rtranclp_induct)
  case base
  show ?case by (simp add: sys_inv_def sys0_def NewGuardrailService_def settings_ok_def)
qed (rule guard_step_inv)

text \<open>
  C31: The state of the service stays well typed. Whatever the settings table contains, and in every interleaving of the sections of
  checks and reloads with refreshes, invalidations and setters, the oversize action and the engine-error action are among
  their documented values, the stream mode is one of its documented values or one that was set explicitly, all
  limits and budgets are positive, and every cached engine is the engine of the type and configuration of some rule with
  its id that was loaded at some time.
\<close>

theorem service_state_valid:
  assumes "service_reach create modes y" and "s = sy_service y"
  shows "StreamMode s \<in> {''strict'', ''window'', ''incremental''} \<union> modes \<and> OversizeAction s \<in> {''truncate'', ''reject''} \<and>
    EngineErrorAction s \<in> {''skip'', ''block''} \<and> StrictMaxRunes s = gs_strictMaxRunes s \<and> 0 < gs_strictMaxRunes s \<and>
    StrictMaxBytes s = gs_strictMaxBytes s \<and> 0 < gs_strictMaxBytes s \<and>
    StrictMaxEvents s = gs_strictMaxEvents s \<and> 0 < gs_strictMaxEvents s \<and>
    RequestBudgetMs s = gs_requestBudgetMs s \<and> 0 < gs_requestBudgetMs s \<and>
    ResponseBudgetMs s = gs_responseBudgetMs s \<and> 0 < gs_responseBudgetMs s \<and>
    set (gs_rules s) \<subseteq> sy_seen y \<and> (gs_engines s i = Some e \<longrightarrow> engine_of create (sy_seen y) i e)"
proof -
  have i: "settings_ok modes s" "set (gs_rules s) \<subseteq> sy_seen y" "gs_engines s i = Some e \<longrightarrow> engine_of create (sy_seen y) i e"
    using service_reach_inv [OF assms(1)] unfolding assms(2) by (simp_all add: sys_inv_def)
  have "StreamMode s \<in> insert ''window'' {gs_streamMode s}" "OversizeAction s = gs_oversizeAction s" "EngineErrorAction s = gs_engineErrorAction s"
    using i(1) by (auto simp: settings_ok_def StreamMode_def OversizeAction_def EngineErrorAction_def or_default_def)
  then show ?thesis using i
    by (auto simp: settings_ok_def StrictMaxRunes_def StrictMaxBytes_def StrictMaxEvents_def
        RequestBudgetMs_def ResponseBudgetMs_def positive_or_def)
qed

lemma three_steps: "r a b \<Longrightarrow> r b c \<Longrightarrow> r c d \<Longrightarrow> r\<^sup>*\<^sup>* a d"
  by (meson converse_rtranclp_into_rtranclp rtranclp.rtrancl_refl)

text \<open>A check copies the rule, its engine is cached, and the settings are refreshed.\<close>

definition demo_sys :: guard_sys where
  "demo_sys = \<lparr>sy_service = RefreshSettings demo_guard ((swap_rules [demo_rule] 0 NewGuardrailService)\<lparr>gs_engines := snd (getEngine demo_guard demo_rule Map.empty)\<rparr>),
     sy_checks = [[demo_rule]], sy_load = Some ([], [demo_rule]), sy_seen = {demo_rule}\<rparr>"

lemma demo_sys_reach: "service_reach (ge_create demo_guard) {} demo_sys"
proof -
  let ?y1 = "sys0\<lparr>sy_service := swap_rules [demo_rule] 0 NewGuardrailService, sy_load := Some ([], [demo_rule]), sy_seen := {demo_rule}\<rparr>"
  let ?y2 = "?y1\<lparr>sy_checks := [[demo_rule]]\<rparr>"
  let ?y3 = "?y2\<lparr>sy_service := (sy_service ?y2)\<lparr>gs_engines := snd (getEngine demo_guard demo_rule Map.empty)\<rparr>\<rparr>"
  let ?st = "guard_step (ge_create demo_guard) {}"
  have a: "?st sys0 ?y1" using load_swap [of sys0 "ge_create demo_guard" "{}" "[demo_rule]" 0] by (simp add: sys0_def NewGuardrailService_def)
  have b: "?st ?y1 ?y2" using check_copy [of "ge_create demo_guard" "{}" ?y1 demo_guard demo_req None]
    by (simp add: sys0_def swap_rules_def demo_select)
  have c: "?st ?y2 ?y3" using check_engine [of "[demo_rule]" ?y2 demo_rule demo_guard "ge_create demo_guard" "{}"]
    by (simp add: sys0_def swap_rules_def NewGuardrailService_def)
  have d: "?st ?y3 demo_sys" using refresh [of "ge_create demo_guard" "{}" ?y3 demo_guard] by (simp add: demo_sys_def sys0_def)
  have "?st\<^sup>*\<^sup>* sys0 ?y3" by (rule three_steps [where r = ?st, OF a b c])
  then show ?thesis unfolding service_reach_def using d by (rule rtranclp.rtrancl_into_rtrancl)
qed

theorem service_state_valid_witness:
  "StreamMode (sy_service demo_sys) \<in> {''strict'', ''window'', ''incremental''} \<and> 0 < gs_requestBudgetMs (sy_service demo_sys) \<and>
   (\<exists>e. gs_engines (sy_service demo_sys) 7 = Some e \<and> engine_of (ge_create demo_guard) {demo_rule} 7 e)"
proof -
  have "gs_engines (sy_service demo_sys) = snd (getEngine demo_guard demo_rule Map.empty)" by (simp add: demo_sys_def RefreshSettings_keeps)
  moreover obtain e where "snd (getEngine demo_guard demo_rule Map.empty) 7 = Some e"
    by (simp add: getEngine_def demo_guard_def demo_rule_def)
  ultimately have e: "gs_engines (sy_service demo_sys) 7 = Some e" by simp
  from service_state_valid [OF demo_sys_reach refl, of 7 e] e show ?thesis by (auto simp: demo_sys_def)
qed

lemma old_rule_unique:
  assumes "old \<in> set rules" "distinct (map ru_ID rules)"
  shows "old_rule rules (ru_ID old) = Some old"
proof -
  obtain y where y: "old_rule rules (ru_ID old) = Some y"
    using find_ex [of "\<lambda>x. ru_ID x = ru_ID old" "rev rules"] assms(1) by (auto simp: old_rule_def)
  then have "y \<in> set rules" "ru_ID y = ru_ID old" by (auto simp: old_rule_def dest: find_Some_in)
  then show ?thesis using y assms inj_onD [of ru_ID "set rules" y old] by (simp add: distinct_map)
qed

lemma same_rules_keep:
  assumes "r \<in> set rules" "distinct (map ru_ID rules)"
  shows "\<not> evicted rules rules (ru_ID r)"
proof -
  have "r' = r" if "r' \<in> set rules" "ru_ID r' = ru_ID r" for r'
    using inj_onD [of ru_ID "set rules" r' r] that assms by (simp add: distinct_map)
  then show ?thesis using old_rule_unique [OF assms] assms(1) by (auto simp: evicted_def list_ex_iff)
qed

text \<open>
  A check that took its copy of the rules before a reload can bring back an engine that the reload evicted. The reload replaces
  the rule by one with a new configuration and drops the cached engine; the check, which still holds the old rule, then
  creates the engine of the old configuration and caches it under the id. From then on every check of the new rule is
  answered by the engine of the old configuration, and a further reload of the same rules keeps it.
\<close>

lemma stale_check_restores_engine:
  assumes "sy_load y = None" and "copy \<in> set (sy_checks y)" and "old \<in> set copy"
    and "old \<in> set (gs_rules (sy_service y))" and "distinct (map ru_ID (gs_rules (sy_service y)))"
    and "new \<in> set rules" and "distinct (map ru_ID rules)" and "ru_ID new = ru_ID old" and "ru_Config new \<noteq> ru_Config old"
    and "ge_create E (ru_Type old) (ru_Config old) = Inr e" and "ge_rules E = Inr rules"
  shows "gs_engines (snd (LoadRules E now (sy_service y))) (ru_ID new) = None \<and>
    (\<exists>y'. (guard_step (ge_create E) modes)\<^sup>*\<^sup>* y y' \<and> gs_rules (sy_service y') = rules \<and> sy_load y' = None \<and>
       fst (getEngine E new (gs_engines (sy_service y'))) = Inr e \<and>
       fst (getEngine E new (gs_engines (snd (LoadRules E later (sy_service y'))))) = Inr e)"
proof -
  let ?s = "sy_service y"
  have old: "old_rule (gs_rules ?s) (ru_ID old) = Some old" by (rule old_rule_unique [OF assms(4,5)])
  have ev: "evicted (gs_rules ?s) rules (ru_ID new)" using assms(6,8,9) old by (auto simp: evicted_def list_ex_iff)
  define s1 where "s1 = evict_engines (gs_rules ?s) rules (swap_rules rules now ?s)"
  define s2 where "s2 = s1\<lparr>gs_engines := snd (getEngine E old (gs_engines s1))\<rparr>"
  define y1 where "y1 = y\<lparr>sy_service := swap_rules rules now ?s, sy_load := Some (gs_rules ?s, rules), sy_seen := sy_seen y \<union> set rules\<rparr>"
  define y2 where "y2 = y1\<lparr>sy_service := s1, sy_load := None\<rparr>"
  define y3 where "y3 = y2\<lparr>sy_service := s2\<rparr>"
  have n: "gs_engines s1 (ru_ID new) = None" using ev by (simp add: s1_def evict_engines_def)
  have c: "gs_engines s2 (ru_ID new) = Some e" using n assms(8,10) by (simp add: s2_def getEngine_def)
  have st: "guard_step (ge_create E) modes y y1" unfolding y1_def by (rule load_swap [OF assms(1)])
  have st2: "guard_step (ge_create E) modes y1 y2"
    using load_evict [of y1 "gs_rules ?s" rules "ge_create E" modes] by (simp add: y2_def y1_def s1_def)
  have st3: "guard_step (ge_create E) modes y2 y3"
    using check_engine [of copy y2 old E "ge_create E" modes] assms(2,3) by (simp add: y3_def y2_def y1_def s2_def)
  have r: "gs_rules s2 = rules" by (simp add: s2_def s1_def evict_engines_def swap_rules_def)
  have "\<not> evicted rules rules (ru_ID new)" using same_rules_keep [OF assms(6,7)] .
  then have k: "gs_engines (snd (LoadRules E later s2)) (ru_ID new) = Some e"
    using c r assms(11) by (simp add: LoadRules_def evict_engines_def swap_rules_def)
  have "(guard_step (ge_create E) modes)\<^sup>*\<^sup>* y y3"
    by (rule three_steps [where r = "guard_step (ge_create E) modes", OF st st2 st3])
  moreover have "gs_rules (sy_service y3) = rules" "sy_load y3 = None" by (simp_all add: y3_def y2_def r)
  moreover have "fst (getEngine E new (gs_engines (sy_service y3))) = Inr e" using c by (simp add: y3_def getEngine_def)
  moreover have "fst (getEngine E new (gs_engines (snd (LoadRules E later (sy_service y3))))) = Inr e"
    using k by (simp add: y3_def getEngine_def)
  moreover have "gs_engines (snd (LoadRules E now ?s)) (ru_ID new) = None" using n assms(11) by (simp add: LoadRules_def s1_def)
  ultimately show ?thesis by blast
qed

definition demo_edited :: GuardrailRule where
  "demo_edited = demo_rule\<lparr>ru_Config := ''{x}'', ru_Version := 4\<rparr>"

lemma stale_check_restores_engine_witness:
  "\<exists>y'. (guard_step (ge_create demo_guard) {})\<^sup>*\<^sup>* (demo_sys\<lparr>sy_load := None\<rparr>) y' \<and> gs_rules (sy_service y') = [demo_edited] \<and>
     fst (getEngine demo_guard demo_edited (gs_engines (sy_service y'))) = ge_create demo_guard ''two'' ''{}''"
proof -
  let ?E = "demo_guard\<lparr>ge_rules := Inr [demo_edited]\<rparr>" and ?y = "demo_sys\<lparr>sy_load := None\<rparr>"
  have r: "gs_rules (sy_service ?y) = [demo_rule]" by (simp add: demo_sys_def RefreshSettings_keeps swap_rules_def)
  obtain e where e: "ge_create demo_guard ''two'' ''{}'' = Inr e" by (simp add: demo_guard_def)
  have g: "getEngine ?E = getEngine demo_guard" by (simp add: fun_eq_iff getEngine_def split: option.split sum.split)
  have h: "sy_load ?y = None" "[demo_rule] \<in> set (sy_checks ?y)" "demo_rule \<in> set (gs_rules (sy_service ?y))"
    "distinct (map ru_ID (gs_rules (sy_service ?y)))" "ru_ID demo_edited = ru_ID demo_rule" "ru_Config demo_edited \<noteq> ru_Config demo_rule"
    "ge_create ?E (ru_Type demo_rule) (ru_Config demo_rule) = Inr e" "ge_rules ?E = Inr [demo_edited]"
    using r e by (simp_all add: demo_sys_def demo_edited_def demo_rule_def)
  from stale_check_restores_engine [OF h(1,2) _ h(3,4) _ _ h(5-8), of 0 "{}" 0] show ?thesis unfolding g e by auto
qed

text \<open>
  Changing only the type of a rule does not take effect while its engine is cached: a reload evicts an engine
  when the configuration of its rule changed, not when its type did, so the rule of the new type is
  checked by the engine of the old one.
\<close>

lemma type_change_keeps_engine:
  assumes "ge_rules E = Inr rules" "distinct (map ru_ID rules)" "distinct (map ru_ID (gs_rules s))"
    and "r \<in> set rules" "old \<in> set (gs_rules s)" "ru_ID r = ru_ID old" "ru_Config r = ru_Config old"
    and "gs_engines s (ru_ID old) = Some e"
  shows "fst (getEngine E r (gs_engines (snd (LoadRules E now s)))) = Inr e"
proof -
  have "old_rule (gs_rules s) (ru_ID old) = Some old" by (rule old_rule_unique [OF assms(5,3)])
  moreover have "x = r" if "x \<in> set rules" "ru_ID x = ru_ID old" for x
    using that assms(2,4,6) inj_onD [of ru_ID "set rules" x r] by (simp add: distinct_map)
  moreover have "list_ex (\<lambda>x. ru_ID x = ru_ID old) rules" using assms(4,6) unfolding list_ex_iff by blast
  ultimately have "\<not> evicted (gs_rules s) rules (ru_ID old)" using assms(7) unfolding evicted_def list_ex_iff by fastforce
  then show ?thesis using assms(1,6,8) by (simp add: LoadRules_def evict_engines_def swap_rules_def getEngine_def)
qed

lemma type_change_keeps_engine_witness:
  "fst (getEngine (demo_guard\<lparr>ge_rules := Inr [demo_rule\<lparr>ru_Type := ''other''\<rparr>]\<rparr>) (demo_rule\<lparr>ru_Type := ''other''\<rparr>)
     (gs_engines (snd (LoadRules (demo_guard\<lparr>ge_rules := Inr [demo_rule\<lparr>ru_Type := ''other''\<rparr>]\<rparr>) 0
        (NewGuardrailService\<lparr>gs_rules := [demo_rule],
           gs_engines := [7 \<mapsto> \<lparr>en_Name = ''two'', en_Check = (\<lambda>n txt d m. Inr None)\<rparr>]\<rparr>))))) =
   Inr \<lparr>en_Name = ''two'', en_Check = (\<lambda>n txt d m. Inr None)\<rparr>"
  by (rule type_change_keeps_engine [where rules = "[demo_rule\<lparr>ru_Type := ''other''\<rparr>]" and old = demo_rule])
    (simp_all add: demo_rule_def demo_guard_def)

end
