(* ===== verification/Budget_Period.thy ===== *)
theory Budget_Period
  imports CL_Prelude
begin

text \<open>
  The accounting periods of \<^verbatim>\<open>internal/service/budget_service.go\<close>: the key of the current period, the lifetime of its
  counters and its first day. The calendar of Go's \<^verbatim>\<open>time\<close> package is modelled on day numbers in
  UTC, day 0 being 1 January of the year 1, a Monday; an instant enters through its day.
\<close>

section \<open>The calendar\<close>

definition jan1 :: "int \<Rightarrow> int" where
  "jan1 y = 365 * (y - 1) + (y - 1) div 4 - (y - 1) div 100 + (y - 1) div 400"

definition year_of :: "int \<Rightarrow> int" where
  "year_of d = (let y = 400 * d div 146097 + 1 in if jan1 (y + 1) \<le> d then y + 1 else y)"

definition leap :: "int \<Rightarrow> bool" where
  "leap y \<longleftrightarrow> 4 dvd y \<and> (\<not> 100 dvd y \<or> 400 dvd y)"

definition month_days :: "int \<Rightarrow> int list" where
  "month_days y = [31, if leap y then 29 else 28, 31, 30, 31, 30, 31, 31, 30, 31, 30, 31]"

text \<open>Month and day of the month of the day \<open>r\<close> of a year, counted from 0, and the days before a month.\<close>

fun month_split :: "int \<Rightarrow> int list \<Rightarrow> int \<Rightarrow> int \<times> int" where
  "month_split m [] r = (m, r)"
| "month_split m [l] r = (m, r)"
| "month_split m (l # l' # ls) r = (if r < l then (m, r) else month_split (m + 1) (l' # ls) (r - l))"

definition civil :: "int \<Rightarrow> int \<times> int \<times> int" where
  "civil d = (let y = year_of d in case month_split 1 (month_days y) (d - jan1 y) of (m, r) \<Rightarrow> (y, m, r + 1))"

text \<open>\<^verbatim>\<open>time.Date\<close> with the time of day 0 for a month from 1 to 12.\<close>

definition date :: "int \<Rightarrow> int \<Rightarrow> int \<Rightarrow> int" where
  "date y m r = jan1 y + sum_list (take (nat (m - 1)) (month_days y)) + (r - 1)"

definition weekday :: "int \<Rightarrow> int" where
  "weekday d = (d + 1) mod 7"

text \<open>\<^verbatim>\<open>Time.ISOWeek\<close>: the week belongs to the year of its Thursday.\<close>

definition iso_week :: "int \<Rightarrow> int \<times> int" where
  "iso_week d = (let t = d - d mod 7 + 3; y = year_of t in (y, (t - jan1 y) div 7 + 1))"

section \<open>Periods\<close>

definition PeriodTTL :: "bytes \<Rightarrow> int" where
  "PeriodTTL period =
     (if period = ''daily'' then 48 * 3600 * 1000000000
      else if period = ''weekly'' then 14 * 24 * 3600 * 1000000000
      else 62 * 24 * 3600 * 1000000000)"

text \<open>The formatted key is the tuple of the numbers that it prints.\<close>

datatype period_key = DayKey int int int | WeekKey int int | MonthKey int int

definition PeriodKey :: "bytes \<Rightarrow> int \<Rightarrow> period_key" where
  "PeriodKey period now =
     (if period = ''daily'' then (case civil now of (y, m, r) \<Rightarrow> DayKey y m r)
      else if period = ''weekly'' then (case iso_week now of (y, w) \<Rightarrow> WeekKey y w)
      else (case civil now of (y, m, r) \<Rightarrow> MonthKey y m))"

definition periodStartAt :: "bytes \<Rightarrow> int \<Rightarrow> int" where
  "periodStartAt period now =
     (case civil now of (y, m, r) \<Rightarrow>
        if period = ''daily'' then date y m r
        else if period = ''weekly'' then
          (let jan4 = date y 1 4;
               wk1 = snd (iso_week jan4);
               w = snd (iso_week now);
               monday = jan4 - (weekday jan4 + 6) mod 7
           in monday + (w - wk1) * 7)
        else date y m 1)"

section \<open>Calendar facts\<close>

lemma jan1_bounds: "146097 * (y - 1) - 700 < 400 * jan1 y" "400 * jan1 y < 146097 * (y - 1) + 400"
proof -
  have q: "\<exists>r. n = k * (n div k) + r \<and> 0 \<le> r \<and> r < k" if "0 < k" for n k :: int
    using that by (intro exI [of _ "n mod k"]) simp
  define n where "n = y - 1"
  define a b c where "a = n div 4" and "b = n div 100" and "c = n div 400"
  obtain r1 r2 r3 where r: "n = 4 * a + r1" "0 \<le> r1" "r1 < 4" "n = 100 * b + r2" "0 \<le> r2" "r2 < 100"
      "n = 400 * c + r3" "0 \<le> r3" "r3 < 400"
    using q [of 4 n] q [of 100 n] q [of 400 n] unfolding a_def b_def c_def by auto
  have "400 * a = 100 * n - 100 * r1" "400 * b = 4 * n - 4 * r2" "400 * c = n - r3" using r by simp_all
  then have "400 * (365 * n + a - b + c) = 146097 * n - 100 * r1 + 4 * r2 - r3" by (simp add: algebra_simps)
  then have e: "400 * jan1 y = 146097 * (y - 1) - 100 * r1 + 4 * r2 - r3" unfolding jan1_def n_def a_def b_def c_def by simp
  have "r1 \<le> 3" "r2 \<le> 99" "r3 \<le> 399" using r by simp_all
  then show "146097 * (y - 1) - 700 < 400 * jan1 y" "400 * jan1 y < 146097 * (y - 1) + 400"
    unfolding e using r(2,5,8) by simp_all
qed

lemma year_quotient: "146097 * (400 * d div 146097) \<le> 400 * d" "400 * d < 146097 * (400 * d div 146097) + 146097" for d :: int
proof -
  have "146097 * ((400 * d) div 146097) + (400 * d) mod 146097 = 400 * d" by (rule mult_div_mod_eq)
  moreover have "0 \<le> (400 * d) mod 146097" "(400 * d) mod 146097 < 146097" by (rule pos_mod_sign, simp, rule pos_mod_bound, simp)
  ultimately show "146097 * (400 * d div 146097) \<le> 400 * d" "400 * d < 146097 * (400 * d div 146097) + 146097" by linarith+
qed

lemma jan1_near:
  assumes n: "146097 * n \<le> 400 * d" "400 * d < 146097 * n + 146097"
  shows "jan1 (n + 1) \<le> d" "d < jan1 (n + 3)"
proof -
  have "400 * jan1 (n + 1) < 146097 * n + 400" using jan1_bounds(2) [of "n + 1"] by simp
  then have "400 * jan1 (n + 1) < 400 * (d + 1)" using n by simp
  then show "jan1 (n + 1) \<le> d" by simp
  have "146097 * (n + 2) - 700 < 400 * jan1 (n + 3)" using jan1_bounds(1) [of "n + 3"] by simp
  then have "400 * d < 400 * jan1 (n + 3)" using n by simp
  then show "d < jan1 (n + 3)" by simp
qed

lemma year_of_bounds: "jan1 (year_of d) \<le> d" "d < jan1 (year_of d + 1)"
  using jan1_near [OF year_quotient] by (auto simp: year_of_def Let_def not_le add.assoc)

lemma div_step: "0 < k \<Longrightarrow> y div k - (y - 1) div k = (if k dvd y then 1 else 0)" for y k :: int
proof -
  assume k: "0 < k"
  have r: "y = k * (y div k) + y mod k" "0 \<le> y mod k" "y mod k < k" using k by simp_all
  show ?thesis
  proof (cases "k dvd y")
    case True
    then have "y mod k = 0" by simp
    then have "y - 1 = k * (y div k - 1) + (k - 1)" using r(1) by (simp add: algebra_simps)
    then have "(y - 1) div k = y div k - 1" by (rule int_div_pos_eq) (use k in simp_all)
    with True show ?thesis by simp
  next
    case False
    then have "y mod k \<noteq> 0" by (simp add: dvd_eq_mod_eq_0)
    then have "0 \<le> y mod k - 1" "y mod k - 1 < k" using r by linarith+
    moreover have "y - 1 = k * (y div k) + (y mod k - 1)" using r(1) by linarith
    ultimately have "(y - 1) div k = y div k" by (intro int_div_pos_eq) simp_all
    with False show ?thesis by simp
  qed
qed

lemma jan1_leap: "jan1 (y + 1) - jan1 y = (if leap y then 366 else 365)"
proof -
  have d: "4 dvd y" if "100 dvd y" using that by (rule dvd_trans [rotated]) simp
  have e: "100 dvd y" if "400 dvd y" using that by (rule dvd_trans [rotated]) simp
  have "y + 1 - 1 = y" by simp
  then have j: "jan1 (y + 1) = 365 * y + y div 4 - y div 100 + y div 400" unfolding jan1_def by (simp only:)
  define A B C :: int where "A = (if 4 dvd y then 1 else 0)" and "B = (if 100 dvd y then 1 else 0)"
    and "C = (if 400 dvd y then 1 else 0)"
  have k: "y div 4 = (y - 1) div 4 + A" "y div 100 = (y - 1) div 100 + B" "y div 400 = (y - 1) div 400 + C"
    using div_step [of 4 y] div_step [of 100 y] div_step [of 400 y] unfolding A_def B_def C_def by (simp_all only: diff_eq_eq zero_less_numeral add.commute simp_thms)
  have "jan1 (y + 1) - jan1 y = 365 + A - B + C" unfolding j k unfolding jan1_def by (simp only: algebra_simps)
  then show ?thesis using d e unfolding A_def B_def C_def leap_def by (cases "4 dvd y"; cases "100 dvd y"; cases "400 dvd y") simp_all
qed

lemma jan1_step: "365 \<le> jan1 (y + 1) - jan1 y" "jan1 (y + 1) - jan1 y \<le> 366"
  unfolding jan1_leap by simp_all

lemma jan1_mono: "x \<le> y \<Longrightarrow> jan1 x \<le> jan1 y"
proof (induction y rule: int_ge_induct)
  case (step i)
  then show ?case using jan1_step(1) [of i] by simp
qed simp

lemma year_of_unique: "jan1 y \<le> d \<Longrightarrow> d < jan1 (y + 1) \<Longrightarrow> year_of d = y"
proof (rule ccontr)
  assume a: "jan1 y \<le> d" "d < jan1 (y + 1)" "year_of d \<noteq> y"
  then consider "year_of d + 1 \<le> y" | "y + 1 \<le> year_of d" by linarith
  then show False
  proof cases
    case 1
    with jan1_mono [OF 1] a(1) year_of_bounds(2) [of d] show False by simp
  next
    case 2
    with jan1_mono [OF 2] a(2) year_of_bounds(1) [of d] show False by simp
  qed
qed


lemma date_jan4: "date y 1 4 = jan1 y + 3"
  by (simp add: date_def)

text \<open>The Monday of a week and the week that \<^verbatim>\<open>ISOWeek\<close> counts.\<close>

definition monday_of :: "int \<Rightarrow> int" where
  "monday_of d = d - d mod 7"

lemma monday_of_bounds: "monday_of d \<le> d" "d < monday_of d + 7" "7 dvd monday_of d"
proof -
  have "0 \<le> d mod 7" "d mod 7 < 7" by simp_all
  then show "monday_of d \<le> d" "d < monday_of d + 7" unfolding monday_of_def by linarith+
  show "7 dvd monday_of d" unfolding monday_of_def by (rule dvd_minus_mod)
qed

lemma monday_of_unique: "7 dvd m \<Longrightarrow> m \<le> d \<Longrightarrow> d < m + 7 \<Longrightarrow> monday_of d = m"
proof -
  assume m: "7 dvd m" "m \<le> d" "d < m + 7"
  from m(1) monday_of_bounds(3) [of d] obtain a b where ab: "m = 7 * a" "monday_of d = 7 * b" by (auto elim!: dvdE)
  with m monday_of_bounds(1,2) [of d] have "7 * a < 7 * b + 7" "7 * b < 7 * a + 7" by linarith+
  then have "a = b" by simp
  with ab show ?thesis by simp
qed

definition week1_monday :: "int \<Rightarrow> int" where
  "week1_monday y = monday_of (jan1 y + 3)"

lemma iso_week_monday: "monday_of d = week1_monday (fst (iso_week d)) + 7 * (snd (iso_week d) - 1)"
proof -
  define t y where "t = monday_of d + 3" and "y = year_of t"
  have w: "iso_week d = (y, (t - jan1 y) div 7 + 1)" by (simp add: iso_week_def Let_def monday_of_def t_def y_def)
  define q r where "q = (t - jan1 y) div 7" and "r = (t - jan1 y) mod 7"
  have r: "t - jan1 y = 7 * q + r" "0 \<le> r" "r < 7" by (simp_all add: q_def r_def)
  have "7 dvd monday_of d - 7 * q" using monday_of_bounds(3) by simp
  then have "monday_of (jan1 y + 3) = monday_of d - 7 * q"
    by (rule monday_of_unique) (use r in \<open>simp_all add: t_def\<close>)
  then show ?thesis unfolding w week1_monday_def q_def by simp
qed

lemma jan4_week: "iso_week (jan1 y + 3) = (y, 1)"
proof -
  let ?t = "monday_of (jan1 y + 3) + 3"
  have b: "jan1 y \<le> ?t" "?t < jan1 y + 7" using monday_of_bounds(1,2) [of "jan1 y + 3"] by simp_all
  moreover from this have "?t < jan1 (y + 1)" using jan1_step(1) [of y] by simp
  ultimately have y: "year_of ?t = y" by (intro year_of_unique)
  have "(?t - jan1 y) div 7 = 0" using b by (intro div_pos_pos_trivial) simp_all
  then show ?thesis using y by (simp add: iso_week_def Let_def monday_of_def)
qed

lemma weekday_monday: "d - (weekday d + 6) mod 7 = monday_of d"
proof -
  have "(weekday d + 6) mod 7 = (d + 1 + 6) mod 7" unfolding weekday_def by (rule mod_add_left_eq)
  also have "\<dots> = d mod 7" using mod_add_self2 [of d 7] by (simp add: add.assoc)
  finally show ?thesis by (simp add: monday_of_def)
qed

lemma civil_year: "fst (civil d) = year_of d"
  by (simp add: civil_def Let_def split: prod.split)

lemma periodStartAt_weekly:
  "periodStartAt ''weekly'' now = monday_of now + (week1_monday (year_of now) - week1_monday (fst (iso_week now)))"
proof -
  obtain m r where c: "civil now = (year_of now, m, r)" using civil_year [of now] by (metis prod.collapse)
  have w: "jan1 (year_of now) + 3 - (weekday (jan1 (year_of now) + 3) + 6) mod 7 = week1_monday (year_of now)"
    unfolding weekday_monday week1_monday_def ..
  show ?thesis
    using iso_week_monday [of now] w by (simp add: periodStartAt_def c date_jan4 jan4_week Let_def)
qed

lemma week1_step: "364 \<le> week1_monday (y + 1) - week1_monday y"
proof -
  obtain a b where ab: "week1_monday (y + 1) = 7 * a" "week1_monday y = 7 * b"
    using monday_of_bounds(3) unfolding week1_monday_def by (meson dvdE)
  have "week1_monday (y + 1) + 7 > jan1 (y + 1) + 3" "week1_monday y \<le> jan1 y + 3"
    unfolding week1_monday_def using monday_of_bounds(1,2) by blast+
  then have "7 * a + 7 > 7 * b + 365" using jan1_step(1) [of y] ab by linarith
  then have "52 \<le> a - b" by presburger
  then show ?thesis using ab by simp
qed

text \<open>
  C39: The start of a week. \<^verbatim>\<open>periodStartAt\<close> gives the Monday of the current week as long as the week belongs to the
  calendar year of the day. On the last days of December that belong to week 1 of the next year it is at least 364 days
  too early, so that a sum from there covers a year of spending; on the first days of January that belong to
  the last week of the old year it lies in the future, so that a sum from there is empty.
\<close>

theorem weekly_start_year_boundary:
  "(fst (iso_week now) = year_of now \<longrightarrow> periodStartAt ''weekly'' now = monday_of now) \<and>
   (fst (iso_week now) = year_of now + 1 \<longrightarrow> periodStartAt ''weekly'' now \<le> monday_of now - 364) \<and>
   (fst (iso_week now) + 1 = year_of now \<longrightarrow> now + 357 < periodStartAt ''weekly'' now)"
  using week1_step [of "year_of now"] week1_step [of "fst (iso_week now)"] monday_of_bounds(2) [of now]
  by (auto simp: periodStartAt_weekly)

text \<open>1 January 2027 is a Friday of week 53 of 2026, and 30 December 2025 a Tuesday of week 1 of 2026.\<close>

theorem weekly_start_year_boundary_witness:
  "civil 739981 = (2027, 1, 1) \<and> PeriodKey ''weekly'' 739981 = WeekKey 2026 53 \<and> 739981 + 357 < periodStartAt ''weekly'' 739981 \<and>
   civil 739614 = (2025, 12, 30) \<and> PeriodKey ''weekly'' 739614 = WeekKey 2026 1 \<and>
   periodStartAt ''weekly'' 739614 \<le> monday_of 739614 - 364"
proof -
  have a: "civil 739981 = (2027, 1, 1)" "iso_week 739981 = (2026, 53)" "year_of 739981 = 2027" by code_simp+
  have b: "civil 739614 = (2025, 12, 30)" "iso_week 739614 = (2026, 1)" "year_of 739614 = 2025" by code_simp+
  show ?thesis
    using weekly_start_year_boundary [of 739981] weekly_start_year_boundary [of 739614] a b by (simp add: PeriodKey_def)
qed


section \<open>Keys and days\<close>

lemma month_split_join:
  assumes "month_split m ls r = (m', r')" "ls \<noteq> []"
  shows "m \<le> m' \<and> m' < m + int (length ls) \<and> r = sum_list (take (nat (m' - m)) ls) + r'"
  using assms
proof (induction m ls r rule: month_split.induct)
  case (3 m l l' ls r)
  show ?case
  proof (cases "r < l")
    case False
    then have "m + 1 \<le> m' \<and> m' < m + 1 + int (length (l' # ls)) \<and> r - l = sum_list (take (nat (m' - (m + 1))) (l' # ls)) + r'"
      using 3 by simp
    moreover from this have "nat (m' - m) = Suc (nat (m' - (m + 1)))" by linarith
    ultimately show ?thesis by (simp add: add.assoc)
  qed (use 3 in auto)
qed auto

lemma month_split_low:
  assumes "month_split m ls r = (m', r')" "list_all (\<lambda>l. 0 < l) ls" "0 \<le> r"
  shows "0 \<le> r' \<and> month_split m ls (r - r') = (m', 0)"
  using assms
proof (induction m ls r rule: month_split.induct)
  case (3 m l l' ls r)
  show ?case
  proof (cases "r < l")
    case False
    then have r: "month_split (m + 1) (l' # ls) (r - l) = (m', r')" using 3(2) by simp
    from False 3 have "0 \<le> r' \<and> month_split (m + 1) (l' # ls) (r - l - r') = (m', 0)" by simp
    moreover have "r' \<le> r - l"
    proof -
      have "r - l = sum_list (take (nat (m' - (m + 1))) (l' # ls)) + r'" using month_split_join [OF r] by simp
      moreover have "0 \<le> sum_list (take (nat (m' - (m + 1))) (l' # ls))"
        using 3(3) by (intro sum_list_nonneg) (auto dest!: in_set_takeD simp: list_all_iff less_imp_le)
      ultimately show ?thesis by simp
    qed
    ultimately show ?thesis by (simp add: algebra_simps)
  qed (use 3 in auto)
qed auto

lemma civil_split:
  assumes "civil d = (y, m, r)"
  shows "y = year_of d" "month_split 1 (month_days y) (d - jan1 y) = (m, r - 1)"
  using assms by (auto simp: civil_def Let_def split: prod.splits)

lemma date_civil: "civil d = (y, m, r) \<Longrightarrow> date y m r = d"
proof -
  assume c: "civil d = (y, m, r)"
  have "month_days y \<noteq> []" by (simp add: month_days_def)
  from month_split_join [OF civil_split(2) [OF c] this] show ?thesis by (simp add: date_def)
qed

lemma civil_month_start:
  assumes "civil d = (y, m, r)"
  shows "date y m 1 \<le> d \<and> civil (date y m 1) = (y, m, 1)"
proof -
  have p: "list_all (\<lambda>l. 0 < l) (month_days y)" by (simp add: month_days_def)
  have b: "jan1 y \<le> d" "d < jan1 (y + 1)" using year_of_bounds [of d] civil_split(1) [OF assms] by simp_all
  have s: "0 \<le> r - 1" "month_split 1 (month_days y) (d - jan1 y - (r - 1)) = (m, 0)"
    using month_split_low [OF civil_split(2) [OF assms] p] b by simp_all
  have e: "date y m 1 = d - (r - 1)" using date_civil [OF assms] by (simp add: date_def)
  have l: "0 \<le> d - jan1 y - (r - 1)"
  proof -
    have "d - jan1 y - (r - 1) = sum_list (take (nat (m - 1)) (month_days y))" using e by (simp add: date_def)
    moreover have "0 \<le> \<dots>" using p by (intro sum_list_nonneg) (auto dest!: in_set_takeD simp: list_all_iff less_imp_le)
    ultimately show ?thesis by simp
  qed
  have y: "year_of (date y m 1) = y" by (rule year_of_unique) (use e l b s(1) in simp_all)
  have "date y m 1 - jan1 y = d - jan1 y - (r - 1)" using e by simp
  then have "month_split 1 (month_days y) (date y m 1 - jan1 y) = (m, 0)" using s(2) by (simp only:)
  then have "civil (date y m 1) = (y, m, 1)" unfolding civil_def Let_def y by simp
  then show ?thesis using s(1) e by simp
qed

lemma iso_week_iff: "iso_week d = iso_week e \<longleftrightarrow> monday_of d = monday_of e"
proof
  assume "iso_week d = iso_week e"
  then show "monday_of d = monday_of e" using iso_week_monday [of d] iso_week_monday [of e] by simp
next
  assume "monday_of d = monday_of e"
  then show "iso_week d = iso_week e" by (simp add: iso_week_def monday_of_def)
qed

text \<open>
  Period keys. Two days share their daily key only when they are the same day and their weekly key exactly when they
  fall into the same Monday-to-Sunday week, across year boundaries too. The start of a day or a
  month is at or before the current day and carries the current key, so the counters and the sums that recalibrate them
  cover the same period.
\<close>

lemma period_keys_and_starts:
  "(PeriodKey ''daily'' d = PeriodKey ''daily'' e \<longleftrightarrow> d = e) \<and>
   (PeriodKey ''weekly'' d = PeriodKey ''weekly'' e \<longleftrightarrow> monday_of d = monday_of e) \<and>
   periodStartAt ''daily'' d = d \<and> periodStartAt ''monthly'' d \<le> d \<and>
   PeriodKey ''monthly'' (periodStartAt ''monthly'' d) = PeriodKey ''monthly'' d"
proof -
  obtain y m r y' m' r' where c: "civil d = (y, m, r)" "civil e = (y', m', r')" by (metis prod_cases3)
  have "PeriodKey ''daily'' d = PeriodKey ''daily'' e \<longleftrightarrow> d = e"
  proof
    assume "PeriodKey ''daily'' d = PeriodKey ''daily'' e"
    then have "(y, m, r) = (y', m', r')" by (simp add: PeriodKey_def c)
    then show "d = e" using date_civil [OF c(1)] date_civil [OF c(2)] by simp
  qed simp
  moreover have "PeriodKey ''weekly'' d = PeriodKey ''weekly'' e \<longleftrightarrow> iso_week d = iso_week e"
    by (simp add: PeriodKey_def split: prod.split)
  moreover have "periodStartAt ''daily'' d = d" by (simp add: periodStartAt_def c date_civil [OF c(1)])
  moreover have "periodStartAt ''monthly'' d = date y m 1" by (simp add: periodStartAt_def c)
  ultimately show ?thesis using civil_month_start [OF c(1)] by (simp add: iso_week_iff PeriodKey_def c)
qed

end
