(* ===== verification/Budget_Scripts.thy ===== *)
theory Budget_Scripts
  imports CL_Prelude
begin

text \<open>
  The Redis scripts of \<^verbatim>\<open>internal/service/budget_service.go\<close>: the reservation of an estimate, the settlement of a
  request, the quarantine of expired reservations, and the two counters without a marker. A script runs
  atomically, so each is a function on the state of the store. Keys that the code formats into
  strings are tuples of their parts, and so are the values of the markers and the members of the
  expiry set. Amounts are rationals. The expiry of a marker is a step of its own; the counters of a period
  live longer than the period and their expiry is not modelled.
\<close>

section \<open>The store\<close>

text \<open>Scope, target and period key of a counter; scope, target and request of a marker.\<close>

type_synonym bkey = "bytes \<times> bytes \<times> bytes"

type_synonym rkey = "bytes \<times> bytes \<times> bytes"

text \<open>The value of a reservation marker, \<^verbatim>\<open>e|pk\<close>; markers of older versions carry no period.\<close>

record resv_mark =
  mk_est :: rat
  mk_pk :: "bytes option"

text \<open>A member of the expiry set, \<^verbatim>\<open>resvExpMember\<close>.\<close>

record resv_member =
  em_scope :: bytes
  em_target :: bytes
  em_req :: bytes
  em_period :: bytes
  em_pk :: bytes
  em_est :: rat

record budget_store =
  rb_budget :: "bkey \<Rightarrow> rat"
  rb_resv :: "bkey \<Rightarrow> rat"
  rb_settled :: "bkey \<Rightarrow> rat"
  rb_shadow :: "bkey \<Rightarrow> rat"
  rb_mark :: "rkey \<Rightarrow> resv_mark option"
  rb_settledmark :: "rkey \<Rightarrow> bool"
  rb_shadowmark :: "(rkey \<times> resv_mark) list"
  rb_exp :: "(resv_member \<times> int) list"

definition empty_store :: budget_store where
  "empty_store = \<lparr>rb_budget = (\<lambda>_. 0), rb_resv = (\<lambda>_. 0), rb_settled = (\<lambda>_. 0), rb_shadow = (\<lambda>_. 0),
     rb_mark = Map.empty, rb_settledmark = (\<lambda>_. False), rb_shadowmark = [], rb_exp = []\<rparr>"

text \<open>\<^verbatim>\<open>INCRBYFLOAT\<close>, with a missing counter read as 0, and \<^verbatim>\<open>ZADD\<close> and \<^verbatim>\<open>ZREM\<close> of one member.\<close>

definition incr :: "'k \<Rightarrow> rat \<Rightarrow> ('k \<Rightarrow> rat) \<Rightarrow> 'k \<Rightarrow> rat" where
  "incr k x f = f(k := f k + x)"

fun zadd :: "'m \<Rightarrow> int \<Rightarrow> ('m \<times> int) list \<Rightarrow> ('m \<times> int) list" where
  "zadd m sc [] = [(m, sc)]"
| "zadd m sc ((m', sc') # xs) = (if m = m' then (m, sc) # xs else (m', sc') # zadd m sc xs)"

definition zrem :: "'m \<Rightarrow> ('m \<times> 'v) list \<Rightarrow> ('m \<times> 'v) list" where
  "zrem m xs = filter (\<lambda>p. fst p \<noteq> m) xs"

text \<open>A number in the reply of a script is truncated to an integer.\<close>

definition reply :: "rat \<Rightarrow> int" where
  "reply q = (if q < 0 then - \<lfloor>- q\<rfloor> else \<lfloor>q\<rfloor>)"

text \<open>\<^verbatim>\<open>fmt.Sprintf("%.9f", q)\<close> read back as a number: nine decimals, ties to even.\<close>

definition round9 :: "rat \<Rightarrow> rat" where
  "round9 q =
     (let x = q * 1000000000; f = \<lfloor>x\<rfloor>; d = x - of_int f
      in of_int (if d < 1 / 2 \<or> d = 1 / 2 \<and> even f then f else f + 1) / 1000000000)"

section \<open>Reservation\<close>

record reserve_call =
  rc_scope :: bytes
  rc_target :: bytes
  rc_period :: bytes
  rc_pk :: bytes
  rc_req :: bytes
  rc_est :: rat
  rc_limit :: rat
  rc_expiry :: int

definition rc_bkey :: "reserve_call \<Rightarrow> bkey" where
  "rc_bkey c = (rc_scope c, rc_target c, rc_pk c)"

definition rc_rkey :: "reserve_call \<Rightarrow> rkey" where
  "rc_rkey c = (rc_scope c, rc_target c, rc_req c)"

definition rc_member :: "reserve_call \<Rightarrow> resv_member" where
  "rc_member c = \<lparr>em_scope = rc_scope c, em_target = rc_target c, em_req = rc_req c, em_period = rc_period c,
     em_pk = rc_pk c, em_est = round9 (rc_est c)\<rparr>"

record reserve_reply =
  rr_spent :: int
  rr_limit :: int
  rr_exceeded :: bool
  rr_reserved :: bool

definition budgetReserveMarkScript :: "reserve_call \<Rightarrow> budget_store \<Rightarrow> reserve_reply \<times> budget_store" where
  "budgetReserveMarkScript c s =
     (let k = rc_bkey c; e = rc_est c; limit = rc_limit c
      in if rb_settledmark s (rc_rkey c) then
           (\<lparr>rr_spent = reply (rb_budget s k), rr_limit = reply limit, rr_exceeded = False, rr_reserved = False\<rparr>, s)
         else if rb_mark s (rc_rkey c) = None then
           (let s1 = s\<lparr>rb_mark := (rb_mark s)(rc_rkey c \<mapsto> \<lparr>mk_est = round9 e, mk_pk = Some (rc_pk c)\<rparr>),
                       rb_budget := incr k e (rb_budget s), rb_resv := incr k e (rb_resv s),
                       rb_exp := zadd (rc_member c) (rc_expiry c) (rb_exp s)\<rparr>;
                spent = rb_budget s1 k
            in if spent > limit then
                 (\<lparr>rr_spent = reply (spent - e), rr_limit = reply limit, rr_exceeded = True, rr_reserved = False\<rparr>,
                  s1\<lparr>rb_budget := incr k (- e) (rb_budget s1), rb_resv := incr k (- e) (rb_resv s1),
                     rb_exp := zrem (rc_member c) (rb_exp s1), rb_mark := (rb_mark s1)(rc_rkey c := None)\<rparr>)
               else (\<lparr>rr_spent = reply spent, rr_limit = reply limit, rr_exceeded = False, rr_reserved = True\<rparr>, s1))
         else (\<lparr>rr_spent = reply (rb_budget s k), rr_limit = reply limit, rr_exceeded = False, rr_reserved = True\<rparr>, s))"

section \<open>Settlement\<close>

record settle_call =
  sc_scope :: bytes
  sc_target :: bytes
  sc_period :: bytes
  sc_pk :: bytes
  sc_req :: bytes
  sc_cost :: rat

definition sc_bkey :: "settle_call \<Rightarrow> bkey" where
  "sc_bkey c = (sc_scope c, sc_target c, sc_pk c)"

definition sc_rkey :: "settle_call \<Rightarrow> rkey" where
  "sc_rkey c = (sc_scope c, sc_target c, sc_req c)"

definition parseMark :: "settle_call \<Rightarrow> resv_mark \<Rightarrow> rat \<times> bytes" where
  "parseMark c m = (mk_est m, case mk_pk m of Some pk \<Rightarrow> pk | None \<Rightarrow> sc_pk c)"

text \<open>The key of the counters the marker was held under, and its member of the expiry set.\<close>

definition held_key :: "settle_call \<Rightarrow> resv_mark \<Rightarrow> bkey" where
  "held_key c m = (sc_scope c, sc_target c, snd (parseMark c m))"

definition held_member :: "settle_call \<Rightarrow> resv_mark \<Rightarrow> resv_member" where
  "held_member c m = \<lparr>em_scope = sc_scope c, em_target = sc_target c, em_req = sc_req c, em_period = sc_period c,
     em_pk = snd (parseMark c m), em_est = fst (parseMark c m)\<rparr>"

definition drop_mark :: "settle_call \<Rightarrow> resv_mark \<Rightarrow> budget_store \<Rightarrow> budget_store" where
  "drop_mark c m s = s\<lparr>rb_mark := (rb_mark s)(sc_rkey c := None), rb_exp := zrem (held_member c m) (rb_exp s)\<rparr>"

definition drop_shadowmark :: "settle_call \<Rightarrow> budget_store \<Rightarrow> budget_store" where
  "drop_shadowmark c s = s\<lparr>rb_shadowmark := zrem (sc_rkey c) (rb_shadowmark s)\<rparr>"

text \<open>
  Give an estimate back, from the reservations or from the quarantine, and charge \<open>x\<close> to the settled period; the two
  branches of the source differ in the order of the increments only.
\<close>

definition refund_resv :: "settle_call \<Rightarrow> resv_mark \<Rightarrow> rat \<Rightarrow> budget_store \<Rightarrow> budget_store" where
  "refund_resv c m x s =
     (let e = fst (parseMark c m); k = held_key c m
      in if snd (parseMark c m) = sc_pk c
         then s\<lparr>rb_budget := incr (sc_bkey c) (x - e) (rb_budget s), rb_resv := incr (sc_bkey c) (- e) (rb_resv s)\<rparr>
         else s\<lparr>rb_budget := incr (sc_bkey c) x (incr k (- e) (rb_budget s)), rb_resv := incr k (- e) (rb_resv s)\<rparr>)"

definition refund_shadow :: "settle_call \<Rightarrow> resv_mark \<Rightarrow> rat \<Rightarrow> budget_store \<Rightarrow> budget_store" where
  "refund_shadow c m x s =
     (let e = fst (parseMark c m); k = held_key c m
      in if snd (parseMark c m) = sc_pk c
         then s\<lparr>rb_budget := incr (sc_bkey c) (x - e) (rb_budget s), rb_shadow := incr (sc_bkey c) (- e) (rb_shadow s)\<rparr>
         else s\<lparr>rb_budget := incr (sc_bkey c) x (incr k (- e) (rb_budget s)), rb_shadow := incr k (- e) (rb_shadow s)\<rparr>)"

definition release :: "settle_call \<Rightarrow> budget_store \<Rightarrow> budget_store" where
  "release c s =
     (case rb_mark s (sc_rkey c) of
        Some m \<Rightarrow> refund_resv c m 0 (drop_mark c m s)
      | None \<Rightarrow>
          (case map_of (rb_shadowmark s) (sc_rkey c) of
             None \<Rightarrow> s
           | Some m \<Rightarrow> refund_shadow c m 0 (drop_shadowmark c s)))"

definition charge_settled :: "settle_call \<Rightarrow> budget_store \<Rightarrow> budget_store" where
  "charge_settled c s = s\<lparr>rb_settled := incr (sc_bkey c) (sc_cost c) (rb_settled s)\<rparr>"

text \<open>The reply is 2 for a duplicate, 1 for a settlement against a reservation or quarantine, 0 otherwise.\<close>

definition budgetSettleScript :: "settle_call \<Rightarrow> budget_store \<Rightarrow> nat \<times> budget_store" where
  "budgetSettleScript c s =
     (if rb_settledmark s (sc_rkey c) then (2, release c s)
      else
        let s1 = s\<lparr>rb_settledmark := (rb_settledmark s)(sc_rkey c := True)\<rparr>
        in case rb_mark s1 (sc_rkey c) of
             Some m \<Rightarrow> (1, charge_settled c (refund_resv c m (sc_cost c) (drop_mark c m s1)))
           | None \<Rightarrow>
               (case map_of (rb_shadowmark s1) (sc_rkey c) of
                  Some m \<Rightarrow> (1, charge_settled c (refund_shadow c m (sc_cost c) (drop_shadowmark c s1)))
                | None \<Rightarrow> (0, charge_settled c (s1\<lparr>rb_budget := incr (sc_bkey c) (sc_cost c) (rb_budget s1)\<rparr>))))"

section \<open>The reaper\<close>

definition em_bkey :: "resv_member \<Rightarrow> bkey" where
  "em_bkey m = (em_scope m, em_target m, em_pk m)"

definition em_rkey :: "resv_member \<Rightarrow> rkey" where
  "em_rkey m = (em_scope m, em_target m, em_req m)"

definition budgetReapOrphanScript :: "resv_member \<Rightarrow> budget_store \<Rightarrow> nat \<times> budget_store" where
  "budgetReapOrphanScript m s =
     (if rb_mark s (em_rkey m) \<noteq> None then (0, s)
      else if m \<notin> fst ` set (rb_exp s) then (0, s)
      else (1, s\<lparr>rb_exp := zrem m (rb_exp s),
                 rb_shadowmark := (if map_of (rb_shadowmark s) (em_rkey m) = None
                   then (em_rkey m, \<lparr>mk_est = em_est m, mk_pk = Some (em_pk m)\<rparr>) # rb_shadowmark s
                   else rb_shadowmark s),
                 rb_resv := incr (em_bkey m) (- em_est m) (rb_resv s),
                 rb_shadow := incr (em_bkey m) (em_est m) (rb_shadow s)\<rparr>))"

text \<open>
  The body of the loop of \<^verbatim>\<open>ReapExpiredReservations\<close> for one member of the batch read before: a script that did not
  claim the member is taken to mean that the marker is still live, and the member is scheduled again.
\<close>

definition reap_member :: "int \<Rightarrow> resv_member \<Rightarrow> budget_store \<Rightarrow> bool \<times> budget_store" where
  "reap_member t m s =
     (case budgetReapOrphanScript m s of
        (res, s1) \<Rightarrow> if res = 1 then (True, s1) else (False, s1\<lparr>rb_exp := zadd m t (rb_exp s1)\<rparr>))"

section \<open>Counters without a marker\<close>

definition budgetReserveScript :: "bkey \<Rightarrow> rat \<Rightarrow> rat \<Rightarrow> (bkey \<Rightarrow> rat) \<Rightarrow> (int \<times> int \<times> bool) \<times> (bkey \<Rightarrow> rat)" where
  "budgetReserveScript k cost limit f =
     (let f1 = incr k cost f; spent = f1 k
      in if spent > limit then ((reply (spent - cost), reply limit, True), incr k (- cost) f1)
         else ((reply spent, reply limit, False), f1))"

definition callReserveScript :: "'k \<Rightarrow> int \<Rightarrow> ('k \<Rightarrow> int) \<Rightarrow> (int \<times> bool) \<times> ('k \<Rightarrow> int)" where
  "callReserveScript k maxCalls f =
     (let f1 = f(k := f k + 1); n = f1 k
      in if n > maxCalls then ((n - 1, True), f1(k := f1 k - 1)) else ((n, False), f1))"


section \<open>Conservation\<close>

lemma incr_apply [simp]: "incr k x f j = f j + (if j = k then x else 0)"
  by (simp add: incr_def)

lemma incr_incr: "incr k x (incr k y f) = incr k (y + x) f"
  by (rule ext) simp

lemma incr_0 [simp]: "incr k 0 f = f"
  by (rule ext) simp

lemma set_zrem [simp]: "set (zrem m xs) = {p \<in> set xs. fst p \<noteq> m}"
  by (auto simp: zrem_def)

lemma map_of_zrem: "map_of (zrem r xs) = (map_of xs)(r := None)"
  by (induction xs) (auto simp: zrem_def)

lemma zrem_absent: "m \<notin> fst ` set xs \<Longrightarrow> zrem m xs = xs"
  unfolding zrem_def by (rule filter_True) force

lemma zadd_absent: "m \<notin> fst ` set xs \<Longrightarrow> zadd m sc xs = xs @ [(m, sc)]"
  by (induction m sc xs rule: zadd.induct) auto

lemma zrem_zadd: "m \<notin> fst ` set xs \<Longrightarrow> zrem m (zadd m sc xs) = xs"
  by (simp add: zadd_absent) (simp add: zrem_def filter_id_conv, force)

lemma fst_zadd: "fst ` set (zadd m sc xs) = insert m (fst ` set xs)"
  by (induction m sc xs rule: zadd.induct) auto

definition conserved :: "budget_store \<Rightarrow> bool" where
  "conserved s \<longleftrightarrow> (\<forall>k. rb_budget s k = rb_settled s k + rb_resv s k + rb_shadow s k)"

lemma conservedD: "conserved s \<Longrightarrow> rb_budget s k = rb_settled s k + rb_resv s k + rb_shadow s k"
  unfolding conserved_def by blast

lemma conserved_empty: "conserved empty_store"
  by (simp add: conserved_def empty_store_def)

lemma conserved_reserve: "conserved s \<Longrightarrow> conserved (snd (budgetReserveMarkScript c s))"
  by (simp add: conserved_def budgetReserveMarkScript_def Let_def)

lemma refund_resv_sel:
  "rb_budget (refund_resv c m x s) k = rb_budget s k + (if k = sc_bkey c then x else 0) - (if k = held_key c m then mk_est m else 0)"
  "rb_resv (refund_resv c m x s) k = rb_resv s k - (if k = held_key c m then mk_est m else 0)"
  "rb_settled (refund_resv c m x s) = rb_settled s" "rb_shadow (refund_resv c m x s) = rb_shadow s"
  "rb_mark (refund_resv c m x s) = rb_mark s" "rb_settledmark (refund_resv c m x s) = rb_settledmark s"
  "rb_shadowmark (refund_resv c m x s) = rb_shadowmark s" "rb_exp (refund_resv c m x s) = rb_exp s"
  by (auto simp: refund_resv_def Let_def held_key_def parseMark_def sc_bkey_def)

lemma refund_shadow_sel:
  "rb_budget (refund_shadow c m x s) k = rb_budget s k + (if k = sc_bkey c then x else 0) - (if k = held_key c m then mk_est m else 0)"
  "rb_shadow (refund_shadow c m x s) k = rb_shadow s k - (if k = held_key c m then mk_est m else 0)"
  "rb_settled (refund_shadow c m x s) = rb_settled s" "rb_resv (refund_shadow c m x s) = rb_resv s"
  "rb_mark (refund_shadow c m x s) = rb_mark s" "rb_settledmark (refund_shadow c m x s) = rb_settledmark s"
  "rb_shadowmark (refund_shadow c m x s) = rb_shadowmark s" "rb_exp (refund_shadow c m x s) = rb_exp s"
  by (auto simp: refund_shadow_def Let_def held_key_def parseMark_def sc_bkey_def)

lemma drop_sel [simp]:
  "rb_budget (drop_mark c m s) = rb_budget s" "rb_resv (drop_mark c m s) = rb_resv s"
  "rb_settled (drop_mark c m s) = rb_settled s" "rb_shadow (drop_mark c m s) = rb_shadow s"
  "rb_mark (drop_mark c m s) = (rb_mark s)(sc_rkey c := None)" "rb_settledmark (drop_mark c m s) = rb_settledmark s"
  "rb_shadowmark (drop_mark c m s) = rb_shadowmark s" "rb_exp (drop_mark c m s) = zrem (held_member c m) (rb_exp s)"
  "rb_budget (drop_shadowmark c s) = rb_budget s" "rb_resv (drop_shadowmark c s) = rb_resv s"
  "rb_settled (drop_shadowmark c s) = rb_settled s" "rb_shadow (drop_shadowmark c s) = rb_shadow s"
  "rb_mark (drop_shadowmark c s) = rb_mark s" "rb_settledmark (drop_shadowmark c s) = rb_settledmark s"
  "rb_shadowmark (drop_shadowmark c s) = zrem (sc_rkey c) (rb_shadowmark s)" "rb_exp (drop_shadowmark c s) = rb_exp s"
  by (simp_all add: drop_mark_def drop_shadowmark_def)

lemma charge_settled_sel [simp]:
  "rb_settled (charge_settled c s) k = rb_settled s k + (if k = sc_bkey c then sc_cost c else 0)"
  "rb_budget (charge_settled c s) = rb_budget s" "rb_resv (charge_settled c s) = rb_resv s"
  "rb_shadow (charge_settled c s) = rb_shadow s" "rb_mark (charge_settled c s) = rb_mark s"
  "rb_settledmark (charge_settled c s) = rb_settledmark s" "rb_shadowmark (charge_settled c s) = rb_shadowmark s"
  "rb_exp (charge_settled c s) = rb_exp s"
  by (simp_all add: charge_settled_def)

lemmas settle_sel = refund_resv_sel refund_shadow_sel

lemma conserved_settle:
  assumes "conserved s"
  shows "conserved (snd (budgetSettleScript c s))"
  using assms
  by (auto simp: conserved_def budgetSettleScript_def release_def Let_def settle_sel split: option.split)

lemma conserved_reap: "conserved s \<Longrightarrow> conserved (snd (budgetReapOrphanScript m s))"
  by (simp add: conserved_def budgetReapOrphanScript_def)

text \<open>
  Everything that happens to the store through these scripts, from any number of gateways: the scripts, the expiry of
  the three kinds of markers, and a member the reaper schedules again.
\<close>

inductive budget_step :: "budget_store \<Rightarrow> budget_store \<Rightarrow> bool" where
  reserve: "budget_step s (snd (budgetReserveMarkScript c s))"
| settle: "budget_step s (snd (budgetSettleScript sc s))"
| reap: "budget_step s (snd (budgetReapOrphanScript m s))"
| reschedule: "budget_step s (s\<lparr>rb_exp := zadd m t (rb_exp s)\<rparr>)"
| expire_mark: "budget_step s (s\<lparr>rb_mark := (rb_mark s)(r := None)\<rparr>)"
| expire_settledmark: "budget_step s (s\<lparr>rb_settledmark := (rb_settledmark s)(r := False)\<rparr>)"
| expire_shadowmark: "budget_step s (s\<lparr>rb_shadowmark := zrem r (rb_shadowmark s)\<rparr>)"

lemma conserved_step: "budget_step s s' \<Longrightarrow> conserved s \<Longrightarrow> conserved s'"
proof (induction rule: budget_step.induct)
  case (reserve s c)
  then show ?case by (rule conserved_reserve)
next
  case (settle s sc)
  then show ?case by (rule conserved_settle)
next
  case (reap s m)
  then show ?case by (rule conserved_reap)
qed (simp_all add: conserved_def)

text \<open>
  C9: The ledger identity of the budget counters. From an empty store, after every sequence of reservations, settlements,
  duplicates and replays of them, reaper runs of any number of gateways and marker expiries, each
  budget counter is the sum of what was settled, what is reserved and what is quarantined for its period.
\<close>

theorem budget_conserved:
  assumes "budget_step\<^sup>*\<^sup>* empty_store s"
  shows "rb_budget s k = rb_settled s k + rb_resv s k + rb_shadow s k"
proof -
  from assms have "conserved s" by (induction rule: rtranclp_induct) (rule conserved_empty, rule conserved_step)
  then show ?thesis by (rule conservedD)
qed

section \<open>Admission\<close>

text \<open>
  Admission. A reservation that is newly granted leaves the counter within the limit, including the estimate;
  one that is refused leaves the store as it was, when the request has no member left in the expiry
  set. A request whose reservation is held already, or that was settled, changes nothing.
\<close>

lemma reserve_within_limit:
  assumes "budgetReserveMarkScript c s = (r, s')" "rc_member c \<notin> fst ` set (rb_exp s)"
  shows "(rr_exceeded r \<longrightarrow> s' = s) \<and>
    (rb_settledmark s (rc_rkey c) \<or> rb_mark s (rc_rkey c) \<noteq> None \<longrightarrow> s' = s) \<and>
    (rr_reserved r \<and> rb_mark s (rc_rkey c) = None \<longrightarrow>
       rb_budget s' (rc_bkey c) = rb_budget s (rc_bkey c) + rc_est c \<and> rb_budget s' (rc_bkey c) \<le> rc_limit c \<and>
       rb_mark s' (rc_rkey c) \<noteq> None)"
  using assms
  by (auto simp: budgetReserveMarkScript_def Let_def zrem_zadd incr_incr fun_upd_idem split: if_splits)


section \<open>Settling once\<close>

definition one_marker :: "budget_store \<Rightarrow> rkey \<Rightarrow> bool" where
  "one_marker s r \<longleftrightarrow> rb_mark s r = None \<or> map_of (rb_shadowmark s) r = None"

lemma settle_clean:
  assumes "one_marker s (sc_rkey c)"
  shows "rb_settledmark (snd (budgetSettleScript c s)) (sc_rkey c) \<and> rb_mark (snd (budgetSettleScript c s)) (sc_rkey c) = None \<and>
    map_of (rb_shadowmark (snd (budgetSettleScript c s))) (sc_rkey c) = None"
  using assms
  by (auto simp: one_marker_def budgetSettleScript_def release_def Let_def settle_sel map_of_zrem split: option.splits)

lemma settled_stays:
  assumes "rb_settledmark s r" "rb_mark s r = None" "map_of (rb_shadowmark s) r = None"
  shows "sc_rkey c = r \<Longrightarrow> budgetSettleScript c s = (2, s)"
    and "rc_rkey d = r \<Longrightarrow> snd (budgetReserveMarkScript d s) = s"
  using assms by (auto simp: budgetSettleScript_def release_def budgetReserveMarkScript_def Let_def)

datatype request_op = OpReserve reserve_call | OpSettle settle_call

fun op_rkey :: "request_op \<Rightarrow> rkey" where
  "op_rkey (OpReserve c) = rc_rkey c"
| "op_rkey (OpSettle c) = sc_rkey c"

fun run_op :: "budget_store \<Rightarrow> request_op \<Rightarrow> budget_store" where
  "run_op s (OpReserve c) = snd (budgetReserveMarkScript c s)"
| "run_op s (OpSettle c) = snd (budgetSettleScript c s)"

lemma settled_run:
  assumes "rb_settledmark s r" "rb_mark s r = None" "map_of (rb_shadowmark s) r = None" "list_all (\<lambda>op. op_rkey op = r) ops"
  shows "foldl run_op s ops = s"
  using assms(4)
proof (induction ops)
  case (Cons op ops)
  then show ?case by (cases op) (simp_all add: settled_stays [OF assms(1-3)])
qed simp

text \<open>
  C10: A request is settled once. After its settlement, every further sequence of settlements, with whatever cost and
  period, and of reservations of the same request leaves the store exactly as it is.
\<close>

theorem settle_exactly_once:
  assumes "one_marker s (sc_rkey c)" "list_all (\<lambda>op. op_rkey op = sc_rkey c) ops"
  shows "foldl run_op (snd (budgetSettleScript c s)) ops = snd (budgetSettleScript c s)"
  using settle_clean [OF assms(1)] settled_run [OF _ _ _ assms(2)] by blast

text \<open>
  C19: Reserving and settling is exact. For a request that is new to the store and an estimate of at most nine decimals, a
  granted reservation followed by the settlement charges exactly the cost to the period of the
  settlement, also when a period boundary lies in between, and leaves every other counter, the markers and the
  expiry set as they were; a cost of zero is a full refund.
\<close>

theorem reserve_settle_exact:
  assumes "budgetReserveMarkScript c s = (r, s1)" "rr_reserved r"
    and "rb_mark s (rc_rkey c) = None" "map_of (rb_shadowmark s) (rc_rkey c) = None" "rc_member c \<notin> fst ` set (rb_exp s)"
    and "round9 (rc_est c) = rc_est c" "sc_rkey d = rc_rkey c" "sc_period d = rc_period c"
    and "budgetSettleScript d s1 = (mode, s2)"
  shows "mode = 1 \<and> rb_budget s2 = incr (sc_bkey d) (sc_cost d) (rb_budget s) \<and>
    rb_settled s2 = incr (sc_bkey d) (sc_cost d) (rb_settled s) \<and> rb_resv s2 = rb_resv s \<and> rb_shadow s2 = rb_shadow s \<and>
    rb_exp s2 = rb_exp s \<and> rb_mark s2 = rb_mark s \<and> rb_shadowmark s2 = rb_shadowmark s"
proof -
  let ?m = "\<lparr>mk_est = rc_est c, mk_pk = Some (rc_pk c)\<rparr>"
  have nset: "\<not> rb_settledmark s (rc_rkey c)"
    using assms(1,2) by (auto simp: budgetReserveMarkScript_def Let_def)
  have s1: "s1 = s\<lparr>rb_mark := (rb_mark s)(rc_rkey c \<mapsto> ?m), rb_budget := incr (rc_bkey c) (rc_est c) (rb_budget s),
      rb_resv := incr (rc_bkey c) (rc_est c) (rb_resv s), rb_exp := zadd (rc_member c) (rc_expiry c) (rb_exp s)\<rparr>"
    using assms(1-3,6) nset by (auto simp: budgetReserveMarkScript_def Let_def split: if_splits)
  have k: "held_key d ?m = rc_bkey c" "held_member d ?m = rc_member c"
    using assms(6-8) by (auto simp: held_key_def held_member_def parseMark_def rc_bkey_def rc_member_def sc_rkey_def rc_rkey_def)
  have "mode = 1" and s2: "s2 = charge_settled d (refund_resv d ?m (sc_cost d) (drop_mark d ?m (s1\<lparr>rb_settledmark := (rb_settledmark s1)(sc_rkey d := True)\<rparr>)))"
    using assms(9) nset assms(7) unfolding s1 by (auto simp: budgetSettleScript_def Let_def)
  moreover have "rb_budget s2 j = incr (sc_bkey d) (sc_cost d) (rb_budget s) j" "rb_settled s2 j = incr (sc_bkey d) (sc_cost d) (rb_settled s) j"
    "rb_resv s2 j = rb_resv s j" "rb_shadow s2 j = rb_shadow s j" for j
    unfolding s2 by (simp_all add: settle_sel k s1)
  moreover have "rb_exp s2 = rb_exp s" "rb_mark s2 = rb_mark s" "rb_shadowmark s2 = rb_shadowmark s"
    unfolding s2 using assms(3,5,7) by (simp_all add: settle_sel k s1 zrem_zadd fun_upd_idem)
  ultimately show ?thesis by (simp add: fun_eq_iff)
qed


section \<open>Holds and quarantines\<close>

text \<open>The sum of the amounts \<open>v\<close> of the entries of a list that belong to a counter.\<close>

definition tally :: "('p \<Rightarrow> bkey) \<Rightarrow> ('p \<Rightarrow> rat) \<Rightarrow> 'p list \<Rightarrow> bkey \<Rightarrow> rat" where
  "tally w v xs k = sum_list (map v (filter (\<lambda>p. w p = k) xs))"

lemma tally_simps [simp]:
  "tally w v [] k = 0" "tally w v (x # xs) k = (if w x = k then v x else 0) + tally w v xs k"
  "tally w v (xs @ ys) k = tally w v xs k + tally w v ys k"
  by (simp_all add: tally_def)

lemma tally_Nil: "tally w v [] = (\<lambda>_. 0)"
  by (rule ext) simp

lemma tally_remove:
  assumes "distinct (map f xs)" "x \<in> set xs"
  shows "tally w v (filter (\<lambda>y. f y \<noteq> f x) xs) k = tally w v xs k - (if w x = k then v x else 0)"
  using assms
proof (induction xs)
  case (Cons y ys)
  show ?case
  proof (cases "y = x")
    case True
    have "f x \<notin> f ` set ys" using True Cons.prems(1) by simp
    then have "filter (\<lambda>z. f z \<noteq> f x) ys = ys" unfolding filter_id_conv by (metis imageI)
    then show ?thesis using True by simp
  next
    case False
    then have x: "x \<in> set ys" using Cons.prems(2) by simp
    then have "f y \<noteq> f x" using Cons.prems(1) imageI [OF x, of f] by auto
    then show ?thesis using Cons.IH Cons.prems(1) x by simp
  qed
qed simp

definition quarantine_key :: "rkey \<times> resv_mark \<Rightarrow> bkey" where
  "quarantine_key p = (fst (fst p), fst (snd (fst p)), case mk_pk (snd p) of Some pk \<Rightarrow> pk | None \<Rightarrow> [])"

abbreviation holds :: "budget_store \<Rightarrow> resv_member list" where
  "holds s \<equiv> map fst (rb_exp s)"

definition outstanding :: "budget_store \<Rightarrow> bkey \<Rightarrow> rat" where
  "outstanding s = tally em_bkey em_est (holds s)"

definition quarantined :: "budget_store \<Rightarrow> bkey \<Rightarrow> rat" where
  "quarantined s = tally quarantine_key (\<lambda>p. mk_est (snd p)) (rb_shadowmark s)"

definition mark_of :: "resv_member \<Rightarrow> resv_mark" where
  "mark_of m = \<lparr>mk_est = em_est m, mk_pk = Some (em_pk m)\<rparr>"

text \<open>
  How the expiry set \<open>H\<close>, the reservation markers \<open>M\<close> and the quarantine markers \<open>Q\<close> belong together: one hold per
  request, a hold for every marker, and no request both held and quarantined.
\<close>

definition marks_inv :: "(rkey \<Rightarrow> bytes) \<Rightarrow> resv_member list \<Rightarrow> (rkey \<Rightarrow> resv_mark option) \<Rightarrow> (rkey \<times> resv_mark) list \<Rightarrow> bool" where
  "marks_inv P H M Q \<longleftrightarrow>
     distinct (map em_rkey H) \<and> distinct (map fst Q) \<and>
     (\<forall>m\<in>set H. em_period m = P (em_rkey m) \<and> em_rkey m \<notin> fst ` set Q) \<and>
     (\<forall>r\<in>dom M. \<exists>m\<in>set H. em_rkey m = r \<and> M r = Some (mark_of m)) \<and>
     (\<forall>p\<in>set Q. mk_pk (snd p) \<noteq> None)"

lemma marks_inv_hold:
  assumes "marks_inv P H M Q" "em_rkey m \<notin> em_rkey ` set H" "em_rkey m \<notin> fst ` set Q" "em_period m = P (em_rkey m)"
  shows "marks_inv P (H @ [m]) (M(em_rkey m \<mapsto> mark_of m)) Q"
  using assms unfolding marks_inv_def by auto

lemma hold_unique:
  assumes "marks_inv P H M Q" "m \<in> set H" "m' \<in> set H" "em_rkey m = em_rkey m'"
  shows "m = m'"
  using assms inj_onD [of em_rkey "set H" m m'] by (simp add: marks_inv_def distinct_map)

lemma marks_inv_drop:
  assumes "marks_inv P H M Q" "m \<in> set H"
  shows "marks_inv P (filter (\<lambda>x. x \<noteq> m) H) (M(em_rkey m := None)) Q"
proof -
  have "\<exists>x\<in>set (filter (\<lambda>x. x \<noteq> m) H). em_rkey x = r \<and> (M(em_rkey m := None)) r = Some (mark_of x)"
    if "r \<in> dom (M(em_rkey m := None))" for r
  proof -
    from that have r: "r \<in> dom M" "r \<noteq> em_rkey m" by (auto split: if_splits)
    then obtain x where "x \<in> set H" "em_rkey x = r" "M r = Some (mark_of x)" using assms(1) unfolding marks_inv_def by blast
    then show ?thesis using r(2) by auto
  qed
  then show ?thesis using assms unfolding marks_inv_def by (auto simp: distinct_map_filter)
qed

lemma marks_inv_unmark: "marks_inv P H M Q \<Longrightarrow> marks_inv P H (M(r := None)) Q"
  unfolding marks_inv_def by auto

lemma marks_inv_quarantine:
  assumes "marks_inv P H M Q" "m \<in> set H" "M (em_rkey m) = None"
  shows "marks_inv P (filter (\<lambda>x. x \<noteq> m) H) M ((em_rkey m, mark_of m) # Q)"
proof -
  have "marks_inv P (filter (\<lambda>x. x \<noteq> m) H) M Q" using marks_inv_drop [OF assms(1,2)] assms(3) by (simp add: fun_upd_idem)
  moreover have "em_rkey x \<noteq> em_rkey m" if "x \<in> set (filter (\<lambda>x. x \<noteq> m) H)" for x
    using hold_unique [OF assms(1)] that assms(2) by auto
  moreover have "em_rkey m \<notin> fst ` set Q" using assms(1,2) unfolding marks_inv_def by blast
  ultimately show ?thesis unfolding marks_inv_def by (auto simp: mark_of_def)
qed

lemma marks_inv_clear: "marks_inv P H M Q \<Longrightarrow> marks_inv P H M (zrem r Q)"
  unfolding marks_inv_def zrem_def by (auto simp: distinct_map_filter)

definition acc_inv :: "(rkey \<Rightarrow> bytes) \<Rightarrow> budget_store \<Rightarrow> bool" where
  "acc_inv P s \<longleftrightarrow> marks_inv P (holds s) (rb_mark s) (rb_shadowmark s) \<and>
     rb_resv s = outstanding s \<and> rb_shadow s = quarantined s"

lemma holds_zrem: "map fst (zrem m xs) = filter (\<lambda>x. x \<noteq> m) (map fst xs)"
  by (induction xs) (auto simp: zrem_def)

lemma holds_zadd: "m \<in> set (map fst xs) \<Longrightarrow> map fst (zadd m t xs) = map fst xs"
  by (induction m t xs rule: zadd.induct) auto

lemma holds_zadd_new: "m \<notin> set (map fst xs) \<Longrightarrow> map fst (zadd m t xs) = map fst xs @ [m]"
  by (simp add: zadd_absent)

lemma tally_drop_hold:
  assumes "marks_inv P H M Q" "m \<in> set H"
  shows "tally em_bkey em_est (filter (\<lambda>x. x \<noteq> m) H) = incr (em_bkey m) (- em_est m) (tally em_bkey em_est H)"
proof
  fix k
  have "distinct H" using assms(1) by (simp add: marks_inv_def distinct_map)
  then show "tally em_bkey em_est (filter (\<lambda>x. x \<noteq> m) H) k = incr (em_bkey m) (- em_est m) (tally em_bkey em_est H) k"
    using tally_remove [of "\<lambda>x. x" H m em_bkey em_est k] assms(2) by auto
qed

lemma tally_drop_quarantine:
  assumes "marks_inv P H M Q" "map_of Q r = Some mk"
  shows "tally quarantine_key (\<lambda>p. mk_est (snd p)) (zrem r Q) =
    incr (quarantine_key (r, mk)) (- mk_est mk) (tally quarantine_key (\<lambda>p. mk_est (snd p)) Q)"
proof
  fix k
  have "(r, mk) \<in> set Q" "distinct (map fst Q)" using assms by (auto simp: marks_inv_def dest: map_of_SomeD)
  then show "tally quarantine_key (\<lambda>p. mk_est (snd p)) (zrem r Q) k =
      incr (quarantine_key (r, mk)) (- mk_est mk) (tally quarantine_key (\<lambda>p. mk_est (snd p)) Q) k"
    using tally_remove [of fst Q "(r, mk)" quarantine_key "\<lambda>p. mk_est (snd p)" k] by (auto simp: zrem_def)
qed

text \<open>
  The orderly runs: the periods of a request's calls agree, estimates have at most nine decimals, a request is not
  reserved again once its marker is gone, the reaper schedules a member again only while it is in the
  set, and the settlement guards have not expired.
\<close>

inductive orderly :: "(rkey \<Rightarrow> bytes) \<Rightarrow> budget_store \<Rightarrow> bool" for P where
  start: "orderly P empty_store"
| reserve: "orderly P s \<Longrightarrow> rc_period c = P (rc_rkey c) \<Longrightarrow> round9 (rc_est c) = rc_est c \<Longrightarrow>
    rb_settledmark s (rc_rkey c) \<or> rb_mark s (rc_rkey c) \<noteq> None \<or>
      rc_rkey c \<notin> em_rkey ` set (holds s) \<and> rc_rkey c \<notin> fst ` set (rb_shadowmark s) \<Longrightarrow>
    orderly P (snd (budgetReserveMarkScript c s))"
| settle: "orderly P s \<Longrightarrow> sc_period c = P (sc_rkey c) \<Longrightarrow> orderly P (snd (budgetSettleScript c s))"
| reap: "orderly P s \<Longrightarrow> orderly P (snd (budgetReapOrphanScript m s))"
| reschedule: "orderly P s \<Longrightarrow> m \<in> set (holds s) \<Longrightarrow> orderly P (s\<lparr>rb_exp := zadd m t (rb_exp s)\<rparr>)"
| expire_mark: "orderly P s \<Longrightarrow> orderly P (s\<lparr>rb_mark := (rb_mark s)(r := None)\<rparr>)"

lemma em_rkey_member [simp]: "em_rkey (rc_member c) = rc_rkey c" "em_bkey (rc_member c) = rc_bkey c"
  "em_period (rc_member c) = rc_period c" "em_est (rc_member c) = round9 (rc_est c)" "em_pk (rc_member c) = rc_pk c"
  by (simp_all add: em_rkey_def em_bkey_def rc_member_def rc_rkey_def rc_bkey_def)

lemma acc_inv_reserve:
  assumes i: "acc_inv P s" and c: "rc_period c = P (rc_rkey c)" "round9 (rc_est c) = rc_est c"
    and f: "rb_settledmark s (rc_rkey c) \<or> rb_mark s (rc_rkey c) \<noteq> None \<or>
      rc_rkey c \<notin> em_rkey ` set (holds s) \<and> rc_rkey c \<notin> fst ` set (rb_shadowmark s)"
  shows "acc_inv P (snd (budgetReserveMarkScript c s))"
proof (cases "rb_settledmark s (rc_rkey c) \<or> rb_mark s (rc_rkey c) \<noteq> None")
  case True
  then show ?thesis using i by (auto simp: budgetReserveMarkScript_def Let_def)
next
  case False
  then have new: "rc_rkey c \<notin> em_rkey ` set (holds s)" "rc_rkey c \<notin> fst ` set (rb_shadowmark s)" using f by auto
  have m: "rc_member c \<notin> set (holds s)"
  proof
    assume "rc_member c \<in> set (holds s)"
    from imageI [OF this, of em_rkey] show False using new(1) by simp
  qed
  then have m': "rc_member c \<notin> fst ` set (rb_exp s)" by simp
  obtain r s' where r: "budgetReserveMarkScript c s = (r, s')" by fastforce
  show ?thesis
  proof (cases "rr_exceeded r")
    case True
    have "(rr_exceeded r \<longrightarrow> s' = s)" using r False m'
      by (auto simp: budgetReserveMarkScript_def Let_def zrem_zadd incr_incr fun_upd_idem split: if_splits)
    then show ?thesis using True r i by simp
  next
    case nex: False
    have s': "s' = s\<lparr>rb_mark := (rb_mark s)(rc_rkey c \<mapsto> mark_of (rc_member c)),
        rb_budget := incr (rc_bkey c) (rc_est c) (rb_budget s), rb_resv := incr (rc_bkey c) (rc_est c) (rb_resv s),
        rb_exp := zadd (rc_member c) (rc_expiry c) (rb_exp s)\<rparr>"
      using r False nex by (auto simp: budgetReserveMarkScript_def Let_def mark_of_def split: if_splits)
    have h: "holds s' = holds s @ [rc_member c]" unfolding s' using m by (simp add: holds_zadd_new)
    have "marks_inv P (holds s') (rb_mark s') (rb_shadowmark s')"
      using marks_inv_hold [of P "holds s" "rb_mark s" "rb_shadowmark s" "rc_member c"] i new c(1) unfolding h
      by (simp add: acc_inv_def s')
    moreover have "rb_resv s' = outstanding s'"
    proof
      fix k show "rb_resv s' k = outstanding s' k" using i c(2) unfolding outstanding_def h
        by (simp add: acc_inv_def s' outstanding_def)
    qed
    moreover have "rb_shadow s' = quarantined s'" using i by (simp add: acc_inv_def s' quarantined_def)
    ultimately show ?thesis using r by (simp add: acc_inv_def)
  qed
qed

lemma held_is:
  assumes "mk = mark_of m" "em_rkey m = sc_rkey c" "em_period m = sc_period c"
  shows "held_member c mk = m" "held_key c mk = em_bkey m"
  using assms
  by (cases m; auto simp: held_member_def held_key_def parseMark_def mark_of_def em_rkey_def em_bkey_def sc_rkey_def)+

lemma acc_inv_frame:
  assumes "rb_exp s' = rb_exp s" "rb_mark s' = rb_mark s" "rb_shadowmark s' = rb_shadowmark s"
    "rb_resv s' = rb_resv s" "rb_shadow s' = rb_shadow s"
  shows "acc_inv P s' = acc_inv P s"
  using assms by (simp add: acc_inv_def outstanding_def quarantined_def)

lemma acc_inv_refund_resv:
  assumes i: "acc_inv P s" and "rb_mark s (sc_rkey c) = Some mk" "sc_period c = P (sc_rkey c)"
  shows "acc_inv P (refund_resv c mk x (drop_mark c mk s))"
proof -
  have inv: "marks_inv P (holds s) (rb_mark s) (rb_shadowmark s)" using i by (simp add: acc_inv_def)
  have "sc_rkey c \<in> dom (rb_mark s)" using assms(2) by auto
  then obtain m where m0: "m \<in> set (holds s)" "em_rkey m = sc_rkey c" "rb_mark s (sc_rkey c) = Some (mark_of m)"
    using inv unfolding marks_inv_def by blast
  then have m: "m \<in> set (holds s)" "em_rkey m = sc_rkey c" "mk = mark_of m" using assms(2) by simp_all
  have "em_period m = P (em_rkey m)" using inv m(1) unfolding marks_inv_def by blast
  then have p: "em_period m = sc_period c" using m(2) assms(3) by simp
  note h = held_is [OF m(3,2) p]
  let ?s = "refund_resv c mk x (drop_mark c mk s)"
  have hs: "holds ?s = filter (\<lambda>x. x \<noteq> m) (holds s)" by (simp add: settle_sel h holds_zrem)
  have "marks_inv P (holds ?s) (rb_mark ?s) (rb_shadowmark ?s)"
    unfolding hs using marks_inv_drop [OF inv m(1)] m(2) by (simp add: settle_sel)
  moreover have "rb_resv ?s = outstanding ?s"
  proof
    fix k
    have "mk_est mk = em_est m" by (simp add: m(3) mark_of_def)
    then show "rb_resv ?s k = outstanding ?s k"
      using i unfolding outstanding_def hs tally_drop_hold [OF inv m(1)] by (simp add: settle_sel h acc_inv_def outstanding_def)
  qed
  moreover have "rb_shadow ?s = quarantined ?s" using i by (simp add: settle_sel acc_inv_def quarantined_def)
  ultimately show ?thesis by (simp add: acc_inv_def)
qed

lemma acc_inv_refund_shadow:
  assumes i: "acc_inv P s" and q: "map_of (rb_shadowmark s) (sc_rkey c) = Some mk"
  shows "acc_inv P (refund_shadow c mk x (drop_shadowmark c s))"
proof -
  have inv: "marks_inv P (holds s) (rb_mark s) (rb_shadowmark s)" using i by (simp add: acc_inv_def)
  then have "mk_pk (snd (sc_rkey c, mk)) \<noteq> None" using map_of_SomeD [OF q] unfolding marks_inv_def by blast
  then have k: "quarantine_key (sc_rkey c, mk) = held_key c mk"
    by (auto simp: quarantine_key_def held_key_def parseMark_def sc_rkey_def)
  let ?s = "refund_shadow c mk x (drop_shadowmark c s)"
  have "marks_inv P (holds ?s) (rb_mark ?s) (rb_shadowmark ?s)" using marks_inv_clear [OF inv] by (simp add: settle_sel)
  moreover have "rb_shadow ?s = quarantined ?s"
  proof
    fix j show "rb_shadow ?s j = quarantined ?s j"
      using i by (simp add: settle_sel quarantined_def tally_drop_quarantine [OF inv q] k acc_inv_def)
  qed
  moreover have "rb_resv ?s = outstanding ?s" using i by (simp add: settle_sel acc_inv_def outstanding_def)
  ultimately show ?thesis by (simp add: acc_inv_def)
qed

lemma acc_inv_settle:
  assumes i: "acc_inv P s" and p: "sc_period c = P (sc_rkey c)"
  shows "acc_inv P (snd (budgetSettleScript c s))"
proof -
  let ?s1 = "s\<lparr>rb_settledmark := (rb_settledmark s)(sc_rkey c := True)\<rparr>"
  have i1: "acc_inv P ?s1" using i acc_inv_frame [of ?s1 s P] by simp
  have ch: "acc_inv P (charge_settled c t) = acc_inv P t" for t by (rule acc_inv_frame) simp_all
  have bu: "acc_inv P (t\<lparr>rb_budget := b\<rparr>) = acc_inv P t" for t b by (rule acc_inv_frame) simp_all
  have rel: "acc_inv P (release c s)"
  proof (cases "rb_mark s (sc_rkey c)")
    case (Some mk)
    then show ?thesis using acc_inv_refund_resv [OF i Some p, of 0] by (simp add: release_def)
  next
    case None
    show ?thesis
    proof (cases "map_of (rb_shadowmark s) (sc_rkey c)")
      case (Some mk)
      then show ?thesis using acc_inv_refund_shadow [OF i Some, of 0] None by (simp add: release_def)
    qed (simp add: release_def None i)
  qed
  show ?thesis
  proof (cases "rb_settledmark s (sc_rkey c)")
    case True
    then show ?thesis using rel by (simp add: budgetSettleScript_def)
  next
    case ns: False
    show ?thesis
    proof (cases "rb_mark ?s1 (sc_rkey c)")
      case (Some mk)
      then show ?thesis using acc_inv_refund_resv [OF i1 Some p, of "sc_cost c"] ns by (simp add: budgetSettleScript_def ch)
    next
      case None
      show ?thesis
      proof (cases "map_of (rb_shadowmark ?s1) (sc_rkey c)")
        case (Some mk)
        then show ?thesis using acc_inv_refund_shadow [OF i1 Some, of "sc_cost c"] None ns by (simp add: budgetSettleScript_def ch)
      next
        case n2: None
        then show ?thesis using None i1 ns by (simp add: budgetSettleScript_def Let_def ch bu)
      qed
    qed
  qed
qed

lemma acc_inv_reap:
  assumes i: "acc_inv P s"
  shows "acc_inv P (snd (budgetReapOrphanScript m s))"
proof (cases "rb_mark s (em_rkey m) = None \<and> m \<in> set (holds s)")
  case True
  have inv: "marks_inv P (holds s) (rb_mark s) (rb_shadowmark s)" using i by (simp add: acc_inv_def)
  let ?s = "snd (budgetReapOrphanScript m s)"
  have "map_of (rb_shadowmark s) (em_rkey m) = None" using inv True unfolding marks_inv_def map_of_eq_None_iff by blast
  then have s: "?s = s\<lparr>rb_exp := zrem m (rb_exp s), rb_shadowmark := (em_rkey m, mark_of m) # rb_shadowmark s,
      rb_resv := incr (em_bkey m) (- em_est m) (rb_resv s), rb_shadow := incr (em_bkey m) (em_est m) (rb_shadow s)\<rparr>"
    using True by (simp add: budgetReapOrphanScript_def mark_of_def)
  have k: "quarantine_key (em_rkey m, mark_of m) = em_bkey m"
    by (simp add: quarantine_key_def em_rkey_def em_bkey_def mark_of_def)
  have "marks_inv P (holds ?s) (rb_mark ?s) (rb_shadowmark ?s)"
    using marks_inv_quarantine [OF inv, of m] True by (simp add: s holds_zrem)
  moreover have "rb_resv ?s = outstanding ?s"
    using i True by (simp add: s outstanding_def holds_zrem tally_drop_hold [OF inv] acc_inv_def)
  moreover have "rb_shadow ?s = quarantined ?s"
  proof
    fix j
    have "mk_est (mark_of m) = em_est m" by (simp add: mark_of_def)
    then show "rb_shadow ?s j = quarantined ?s j" using i by (simp add: s quarantined_def k acc_inv_def)
  qed
  ultimately show ?thesis by (simp add: acc_inv_def)
next
  case False
  then show ?thesis using i by (auto simp: budgetReapOrphanScript_def)
qed

lemma orderly_inv: "orderly P s \<Longrightarrow> acc_inv P s \<and> conserved s"
proof (induction rule: orderly.induct)
  case start
  have "marks_inv P [] Map.empty []" by (simp add: marks_inv_def)
  then show ?case using conserved_empty
    by (simp add: acc_inv_def empty_store_def outstanding_def quarantined_def tally_Nil)
next
  case (reserve s c)
  then show ?case by (simp add: acc_inv_reserve conserved_reserve)
next
  case (settle s c)
  then show ?case by (simp add: acc_inv_settle conserved_settle)
next
  case (reap s m)
  then show ?case by (simp add: acc_inv_reap conserved_reap)
next
  case (reschedule s m t)
  then show ?case by (simp add: acc_inv_def conserved_def outstanding_def quarantined_def holds_zadd)
next
  case (expire_mark s r)
  then show ?case by (simp add: acc_inv_def conserved_def outstanding_def quarantined_def marks_inv_unmark)
qed

text \<open>
  C6: What a budget counter consists of. In every orderly run each counter is exactly what was settled in its period, plus
  the estimates of the requests that still hold a reservation, plus the estimates that were
  quarantined and not yet settled; every live marker has its hold in the expiry set, so the reaper will find
  it, and no request is held and quarantined at once.
\<close>

theorem budget_accounts:
  assumes "orderly P s"
  shows "rb_budget s k = rb_settled s k + outstanding s k + quarantined s k \<and> distinct (map em_rkey (holds s)) \<and>
    (rb_mark s r \<noteq> None \<longrightarrow> r \<in> em_rkey ` set (holds s)) \<and> one_marker s r"
proof -
  have i: "acc_inv P s" "conserved s" using orderly_inv [OF assms] by simp_all
  then have inv: "marks_inv P (holds s) (rb_mark s) (rb_shadowmark s)" by (simp add: acc_inv_def)
  have h: "r \<in> em_rkey ` set (holds s)" if "rb_mark s r \<noteq> None"
  proof -
    have "r \<in> dom (rb_mark s)" using that by auto
    then obtain m where "m \<in> set (holds s)" "em_rkey m = r" using inv unfolding marks_inv_def by blast
    then show ?thesis by blast
  qed
  then have "rb_mark s r \<noteq> None \<Longrightarrow> r \<notin> fst ` set (rb_shadowmark s)" using inv unfolding marks_inv_def by blast
  then have "one_marker s r" unfolding one_marker_def map_of_eq_None_iff by blast
  then show ?thesis using h inv conservedD [OF i(2), of k] i(1) by (simp add: acc_inv_def marks_inv_def)
qed


section \<open>Late settlements and concurrent reapers\<close>

lemma reap_claims:
  assumes "rb_mark s (em_rkey m) = None" "m \<in> set (holds s)"
  shows "fst (reap_member t m s)" and "rb_resv (snd (reap_member t m s)) = incr (em_bkey m) (- em_est m) (rb_resv s)"
    and "rb_shadow (snd (reap_member t m s)) = incr (em_bkey m) (em_est m) (rb_shadow s)"
    and "rb_mark (snd (reap_member t m s)) = rb_mark s" and "m \<notin> set (holds (snd (reap_member t m s)))"
    and "rb_budget (snd (reap_member t m s)) = rb_budget s" and "rb_settled (snd (reap_member t m s)) = rb_settled s"
  using assms by (auto simp: reap_member_def budgetReapOrphanScript_def)

lemma reap_lost:
  assumes "rb_mark s (em_rkey m) = None" "m \<notin> set (holds s)"
  shows "reap_member t m s = (False, s\<lparr>rb_exp := zadd m t (rb_exp s)\<rparr>)"
  using assms by (auto simp: reap_member_def budgetReapOrphanScript_def)

text \<open>
  C36: Two gateways that read the same batch quarantine an expired reservation twice: the first claims the
  member; the script of the second finds it gone, which its loop takes for a live marker, and puts
  the member back. The next pass takes the estimate out of the reservations a second time, so they sink below
  what is held, while the quarantine grows by it again.
\<close>

theorem reaper_race_requarantines:
  assumes "rb_mark s (em_rkey m) = None" "m \<in> set (holds s)"
    and "s1 = snd (reap_member t1 m s)" "s2 = snd (reap_member t2 m s1)" "s3 = snd (reap_member t3 m s2)"
  shows "fst (reap_member t1 m s) \<and> \<not> fst (reap_member t2 m s1) \<and> fst (reap_member t3 m s2) \<and>
    rb_resv s3 (em_bkey m) = rb_resv s (em_bkey m) - 2 * em_est m \<and>
    rb_shadow s3 (em_bkey m) = rb_shadow s (em_bkey m) + 2 * em_est m"
proof -
  note c = reap_claims [OF assms(1,2), of t1, folded assms(3)]
  have m1: "rb_mark s1 (em_rkey m) = None" using c(4) assms(1) by simp
  note l = reap_lost [OF m1 c(5), of t2]
  have s2: "s2 = s1\<lparr>rb_exp := zadd m t2 (rb_exp s1)\<rparr>" using l assms(4) by simp
  have "rb_mark s2 (em_rkey m) = None" "m \<in> set (holds s2)" using m1 by (simp_all add: s2 fst_zadd)
  note d = reap_claims [OF this, of t3, folded assms(5)]
  show ?thesis using c(1-3) d(1-3) l by (simp add: s2)
qed

text \<open>
  A settlement that arrives after the marker expired and before the reaper ran charges its full cost while the
  estimate is still counted; the reaper then quarantines the estimate of a request that is already
  settled. The counter stays too high by the estimate until a duplicate of the settlement arrives.
\<close>

lemma late_settle_strands_hold:
  assumes "rb_mark s (sc_rkey c) = None" "\<not> rb_settledmark s (sc_rkey c)" "map_of (rb_shadowmark s) (sc_rkey c) = None"
    and "m \<in> set (holds s)" "em_rkey m = sc_rkey c" "em_pk m = sc_pk c"
    and "s1 = snd (budgetSettleScript c s)" "s2 = snd (reap_member t m s1)"
  shows "rb_budget s2 (sc_bkey c) = rb_budget s (sc_bkey c) + sc_cost c \<and>
    rb_shadow s2 (sc_bkey c) = rb_shadow s (sc_bkey c) + em_est m \<and> rb_settledmark s2 (sc_rkey c) \<and>
    rb_budget (snd (budgetSettleScript c s2)) (sc_bkey c) = rb_budget s2 (sc_bkey c) - em_est m"
proof -
  have s1: "s1 = charge_settled c (s\<lparr>rb_settledmark := (rb_settledmark s)(sc_rkey c := True),
      rb_budget := incr (sc_bkey c) (sc_cost c) (rb_budget s)\<rparr>)"
    using assms(1-3,7) by (simp add: budgetSettleScript_def)
  have k: "em_bkey m = sc_bkey c" using assms(5,6) by (simp add: em_rkey_def sc_rkey_def em_bkey_def sc_bkey_def)
  have p: "rb_mark s1 (em_rkey m) = None" "m \<in> set (holds s1)" using assms(1,4,5) by (simp_all add: s1)
  note c = reap_claims [OF p, of t, folded assms(8)]
  have "rb_settledmark s2 (sc_rkey c) \<and> map_of (rb_shadowmark s2) (sc_rkey c) = Some (mark_of m)"
    using p assms(3,5) unfolding assms(8) by (auto simp: reap_member_def budgetReapOrphanScript_def s1 mark_of_def)
  moreover from this have "rb_budget (snd (budgetSettleScript c s2)) (sc_bkey c) = rb_budget s2 (sc_bkey c) - em_est m"
    using c(4) p(1) assms(5,6)
    by (simp add: budgetSettleScript_def release_def settle_sel held_key_def parseMark_def mark_of_def sc_bkey_def)
  ultimately show ?thesis using c(3,6) by (simp add: k) (simp add: s1)
qed


section \<open>Concrete runs\<close>

definition sample_reserve :: reserve_call where
  "sample_reserve = \<lparr>rc_scope = ''key'', rc_target = ''7'', rc_period = ''monthly'', rc_pk = ''2026-10'', rc_req = ''r1'',
     rc_est = 5, rc_limit = 20, rc_expiry = 900\<rparr>"

definition sample_settle :: settle_call where
  "sample_settle = \<lparr>sc_scope = ''key'', sc_target = ''7'', sc_period = ''monthly'', sc_pk = ''2026-11'', sc_req = ''r1'', sc_cost = 3\<rparr>"

definition sample_held :: budget_store where
  "sample_held = snd (budgetReserveMarkScript sample_reserve empty_store)"

definition sample_expired :: budget_store where
  "sample_expired = sample_held\<lparr>rb_mark := (rb_mark sample_held)(rc_rkey sample_reserve := None)\<rparr>"

lemma round9_5: "round9 5 = 5"
  by (simp add: round9_def)

lemmas sample_defs = sample_reserve_def sample_settle_def sample_held_def sample_expired_def empty_store_def rc_bkey_def rc_rkey_def
  rc_member_def sc_bkey_def sc_rkey_def round9_5 budgetReserveMarkScript_def Let_def reply_def em_rkey_def em_bkey_def

theorem budget_conserved_witness:
  "budget_step\<^sup>*\<^sup>* empty_store sample_held \<and> rb_budget sample_held (rc_bkey sample_reserve) = 5 \<and>
   rb_budget sample_held (rc_bkey sample_reserve) = rb_settled sample_held (rc_bkey sample_reserve) +
     rb_resv sample_held (rc_bkey sample_reserve) + rb_shadow sample_held (rc_bkey sample_reserve)"
proof -
  have r: "budget_step\<^sup>*\<^sup>* empty_store sample_held"
    unfolding sample_held_def by (rule r_into_rtranclp) (rule budget_step.reserve)
  have "rb_budget sample_held (rc_bkey sample_reserve) = 5" by (simp add: sample_defs)
  with r budget_conserved [OF r, of "rc_bkey sample_reserve"] show ?thesis by blast
qed

lemma reserve_within_limit_witness:
  "rb_budget sample_held (rc_bkey sample_reserve) = 5 \<and> rb_budget sample_held (rc_bkey sample_reserve) \<le> 20"
proof -
  have c: "rc_est sample_reserve = 5" "rc_limit sample_reserve = 20" by (simp_all add: sample_defs)
  have e: "budgetReserveMarkScript sample_reserve empty_store =
      (fst (budgetReserveMarkScript sample_reserve empty_store), sample_held)"
    by (simp add: sample_held_def)
  have "rr_reserved (fst (budgetReserveMarkScript sample_reserve empty_store))" "rb_mark empty_store (rc_rkey sample_reserve) = None"
    "rc_member sample_reserve \<notin> fst ` set (rb_exp empty_store)" "rb_budget empty_store (rc_bkey sample_reserve) = 0"
    by (simp_all add: sample_defs)
  with reserve_within_limit [OF e] c show ?thesis by simp
qed

theorem settle_exactly_once_witness:
  "one_marker sample_held (sc_rkey sample_settle) \<and>
   foldl run_op (snd (budgetSettleScript sample_settle sample_held)) [OpSettle sample_settle, OpReserve sample_reserve] =
   snd (budgetSettleScript sample_settle sample_held)"
proof -
  have m: "one_marker sample_held (sc_rkey sample_settle)" by (simp add: one_marker_def sample_defs)
  have k: "list_all (\<lambda>op. op_rkey op = sc_rkey sample_settle) [OpSettle sample_settle, OpReserve sample_reserve]"
    by (simp add: sample_defs)
  from m settle_exactly_once [OF m k] show ?thesis by blast
qed

theorem reserve_settle_exact_witness:
  "fst (budgetSettleScript sample_settle sample_held) = 1 \<and>
   rb_budget (snd (budgetSettleScript sample_settle sample_held)) = incr (sc_bkey sample_settle) 3 (\<lambda>_. 0) \<and>
   rb_resv (snd (budgetSettleScript sample_settle sample_held)) = (\<lambda>_. 0)"
proof -
  let ?r = "fst (budgetReserveMarkScript sample_reserve empty_store)"
  have e: "budgetReserveMarkScript sample_reserve empty_store = (?r, sample_held)" by (simp add: sample_held_def)
  have h: "rr_reserved ?r" "rb_mark empty_store (rc_rkey sample_reserve) = None"
    "map_of (rb_shadowmark empty_store) (rc_rkey sample_reserve) = None"
    "rc_member sample_reserve \<notin> fst ` set (rb_exp empty_store)" "round9 (rc_est sample_reserve) = rc_est sample_reserve"
    "sc_rkey sample_settle = rc_rkey sample_reserve" "sc_period sample_settle = rc_period sample_reserve"
    by (simp_all add: sample_defs)
  have "rb_budget empty_store = (\<lambda>_. 0)" "rb_resv empty_store = (\<lambda>_. 0)" "sc_cost sample_settle = 3"
    by (simp_all add: empty_store_def sample_settle_def)
  with reserve_settle_exact [OF e h prod.collapse [symmetric]] show ?thesis by simp
qed

theorem budget_accounts_witness:
  "orderly (\<lambda>_. ''monthly'') sample_held \<and> rb_budget sample_held (rc_bkey sample_reserve) =
     rb_settled sample_held (rc_bkey sample_reserve) + outstanding sample_held (rc_bkey sample_reserve) +
     quarantined sample_held (rc_bkey sample_reserve) \<and> rc_rkey sample_reserve \<in> em_rkey ` set (holds sample_held)"
proof -
  have o: "orderly (\<lambda>_. ''monthly'') sample_held"
    unfolding sample_held_def by (rule orderly.reserve [OF orderly.start]) (simp_all add: sample_defs)
  have "rb_mark sample_held (rc_rkey sample_reserve) \<noteq> None" by (simp add: sample_defs)
  with o budget_accounts [OF o, of "rc_bkey sample_reserve" "rc_rkey sample_reserve"] show ?thesis by blast
qed

theorem reaper_race_requarantines_witness:
  "rb_resv (snd (reap_member 30 (rc_member sample_reserve) (snd (reap_member 20 (rc_member sample_reserve)
     (snd (reap_member 10 (rc_member sample_reserve) sample_expired)))))) (rc_bkey sample_reserve) = - 5"
proof -
  have h: "rb_mark sample_expired (em_rkey (rc_member sample_reserve)) = None" "rc_member sample_reserve \<in> set (holds sample_expired)"
    by (simp_all add: sample_defs)
  have v: "rb_resv sample_expired (rc_bkey sample_reserve) = 5" "round9 (rc_est sample_reserve) = 5"
    by (simp_all add: sample_defs)
  show ?thesis using reaper_race_requarantines [OF h refl refl refl, of 10 20 30] v by simp
qed

lemma late_settle_strands_hold_witness:
  "rb_budget (snd (reap_member 950 (rc_member sample_reserve) (snd (budgetSettleScript (sample_settle\<lparr>sc_pk := ''2026-10''\<rparr>) sample_expired))))
     (rc_bkey sample_reserve) = 8"
proof -
  let ?c = "sample_settle\<lparr>sc_pk := ''2026-10''\<rparr>"
  have h: "rb_mark sample_expired (sc_rkey ?c) = None" "\<not> rb_settledmark sample_expired (sc_rkey ?c)"
    "map_of (rb_shadowmark sample_expired) (sc_rkey ?c) = None" "rc_member sample_reserve \<in> set (holds sample_expired)"
    "em_rkey (rc_member sample_reserve) = sc_rkey ?c" "em_pk (rc_member sample_reserve) = sc_pk ?c"
    by (simp_all add: sample_defs)
  have v: "sc_bkey ?c = rc_bkey sample_reserve" "rb_budget sample_expired (rc_bkey sample_reserve) = 5" "sc_cost ?c = 3"
    by (simp_all add: sample_defs)
  show ?thesis using late_settle_strands_hold [OF h refl refl, of 950] unfolding v by simp
qed

end
