(* ===== verification/Budget_Service.thy ===== *)
theory Budget_Service
  imports Budget_Scripts
begin

text \<open>
  The operations of \<^verbatim>\<open>internal/service/budget_service.go\<close> around the scripts: the admission of a request to all of its
  scopes, the settlement with its retries, the ledger and the queue of deferred settlements, the
  reaper, the call counter and the plain counters. A Redis command is delivered, or it fails and may have been
  applied all the same; the outcomes of the commands to come are part of the state, in the
  order in which the commands are issued, and a command beyond them is delivered. The state of the caller's context and
  the result of an append to the journal are given in the same way.
\<close>

section \<open>The world of the service\<close>

datatype redis_err = ErrPoolTimeout | OpError bytes | OtherErr bytes

definition redisWriteDefinitelyNotSent :: "redis_err \<Rightarrow> bool" where
  "redisWriteDefinitelyNotSent e = (case e of ErrPoolTimeout \<Rightarrow> True | OpError op \<Rightarrow> op = ''dial'' | OtherErr _ \<Rightarrow> False)"

datatype delivery = Delivered | Failed (applied: bool) redis_err

record settle_task =
  tk_scope :: bytes
  tk_target :: bytes
  tk_period :: bytes
  tk_pk :: bytes
  tk_req :: bytes
  tk_cost :: rat
  tk_deadline :: int

datatype ledger_entry = LedgerTask settle_task | MalformedEntry bytes

record bworld =
  bw_store :: budget_store
  bw_calls :: "bytes \<times> bytes \<Rightarrow> int"
  bw_ledger :: "(ledger_entry \<times> int) list"
  bw_queue :: "settle_task list"
  bw_lost :: nat
  bw_journal :: "settle_task list option"
  bw_redis :: "delivery list"
  bw_ctx :: "bool list"
  bw_disk :: "bool list"

definition redis_call :: "(bworld \<Rightarrow> 'r \<times> bworld) \<Rightarrow> bworld \<Rightarrow> (redis_err + 'r) \<times> bworld" where
  "redis_call f w =
     (case bw_redis w of
        [] \<Rightarrow> (case f w of (r, w1) \<Rightarrow> (Inr r, w1))
      | Delivered # ds \<Rightarrow> (case f (w\<lparr>bw_redis := ds\<rparr>) of (r, w1) \<Rightarrow> (Inr r, w1))
      | Failed a e # ds \<Rightarrow> (Inl e, if a then snd (f (w\<lparr>bw_redis := ds\<rparr>)) else w\<lparr>bw_redis := ds\<rparr>))"

definition on_store :: "(budget_store \<Rightarrow> 'r \<times> budget_store) \<Rightarrow> bworld \<Rightarrow> 'r \<times> bworld" where
  "on_store f w = (case f (bw_store w) of (r, s) \<Rightarrow> (r, w\<lparr>bw_store := s\<rparr>))"

text \<open>Whether the caller's context is over when a failed attempt looks at it.\<close>

definition ctx_over :: "bworld \<Rightarrow> bool \<times> bworld" where
  "ctx_over w = (case bw_ctx w of [] \<Rightarrow> (False, w) | b # bs \<Rightarrow> (b, w\<lparr>bw_ctx := bs\<rparr>))"

definition journal_append :: "settle_task \<Rightarrow> bworld \<Rightarrow> bworld" where
  "journal_append t w =
     (case bw_journal w of
        None \<Rightarrow> w
      | Some ts \<Rightarrow>
          (case bw_disk w of
             [] \<Rightarrow> w\<lparr>bw_journal := Some (ts @ [t])\<rparr>
           | ok # oks \<Rightarrow> w\<lparr>bw_disk := oks, bw_journal := Some (if ok then ts @ [t] else ts)\<rparr>))"

section \<open>Counters\<close>

text \<open>The calls that need the current period take its key from \<open>pkOf\<close>.\<close>

definition CheckBudget :: "(bytes \<Rightarrow> bytes) \<Rightarrow> bytes \<Rightarrow> bytes \<Rightarrow> bytes \<Rightarrow> rat \<Rightarrow> bworld \<Rightarrow> (rat \<times> rat \<times> bool) \<times> bworld" where
  "CheckBudget pkOf scope target period limit w =
     (if limit \<le> 0 then ((0, 0, False), w)
      else case redis_call (\<lambda>w. (rb_budget (bw_store w) (scope, target, pkOf period), w)) w of
        (Inl _, w1) \<Rightarrow> ((0, limit, False), w1)
      | (Inr v, w1) \<Rightarrow> ((v, limit, v > limit), w1))"

definition GetCurrentSpent :: "(bytes \<Rightarrow> bytes) \<Rightarrow> bytes \<Rightarrow> bytes \<Rightarrow> bytes \<Rightarrow> bworld \<Rightarrow> rat \<times> bworld" where
  "GetCurrentSpent pkOf scope target period w =
     (case redis_call (\<lambda>w. (rb_budget (bw_store w) (scope, target, pkOf period), w)) w of
        (Inl _, w1) \<Rightarrow> (0, w1)
      | (Inr v, w1) \<Rightarrow> (v, w1))"

definition applyBudgetDeltaKeyed :: "bytes \<Rightarrow> bytes \<Rightarrow> bytes \<Rightarrow> rat \<Rightarrow> bworld \<Rightarrow> bworld" where
  "applyBudgetDeltaKeyed scope target pk delta w =
     snd (redis_call (on_store (\<lambda>s. ((), s\<lparr>rb_budget := incr (scope, target, pk) delta (rb_budget s)\<rparr>))) w)"

definition ReportUsage :: "(bytes \<Rightarrow> bytes) \<Rightarrow> bytes \<Rightarrow> bytes \<Rightarrow> bytes \<Rightarrow> rat \<Rightarrow> bworld \<Rightarrow> bworld" where
  "ReportUsage pkOf scope target period cost w =
     (if cost \<le> 0 then w else applyBudgetDeltaKeyed scope target (pkOf period) cost w)"

definition AdjustBudget :: "(bytes \<Rightarrow> bytes) \<Rightarrow> bytes \<Rightarrow> bytes \<Rightarrow> bytes \<Rightarrow> rat \<Rightarrow> bworld \<Rightarrow> bworld" where
  "AdjustBudget pkOf scope target period delta w =
     (if delta = 0 then w else applyBudgetDeltaKeyed scope target (pkOf period) delta w)"

definition AdjustBudgetKeyed :: "(bytes \<Rightarrow> bytes) \<Rightarrow> bytes \<Rightarrow> bytes \<Rightarrow> bytes \<Rightarrow> bytes \<Rightarrow> rat \<Rightarrow> bworld \<Rightarrow> bworld" where
  "AdjustBudgetKeyed pkOf scope target period pk delta w =
     (if delta = 0 \<or> pk = [] then AdjustBudget pkOf scope target period delta w
      else applyBudgetDeltaKeyed scope target pk delta w)"

definition reserveBudgetKeyed ::
    "(bytes \<Rightarrow> bytes) \<Rightarrow> bytes \<Rightarrow> bytes \<Rightarrow> bytes \<Rightarrow> bytes \<Rightarrow> rat \<Rightarrow> rat \<Rightarrow> bworld \<Rightarrow> (rat \<times> rat \<times> bool \<times> bool) \<times> bworld" where
  "reserveBudgetKeyed pkOf scope target period pk cost limit w =
     (if limit \<le> 0 \<or> cost \<le> 0 then ((0, limit, False, False), w)
      else case redis_call (on_store (\<lambda>s. case budgetReserveScript (scope, target, pk) cost limit (rb_budget s) of
                                            (r, f) \<Rightarrow> (r, s\<lparr>rb_budget := f\<rparr>))) w of
        (Inl e, w1) \<Rightarrow>
          (case CheckBudget pkOf scope target period limit w1 of
             ((spent, lm, exceeded), w2) \<Rightarrow> ((spent, lm, \<not> redisWriteDefinitelyNotSent e, exceeded), w2))
      | (Inr (spent, lm, exceeded), w1) \<Rightarrow> ((of_int spent, of_int lm, True, exceeded), w1))"

definition ReserveBudget :: "(bytes \<Rightarrow> bytes) \<Rightarrow> bytes \<Rightarrow> bytes \<Rightarrow> bytes \<Rightarrow> rat \<Rightarrow> rat \<Rightarrow> bworld \<Rightarrow> (rat \<times> rat \<times> bool) \<times> bworld" where
  "ReserveBudget pkOf scope target period cost limit w =
     (case reserveBudgetKeyed pkOf scope target period (pkOf period) cost limit w of
        ((spent, lm, _, exceeded), w1) \<Rightarrow> ((spent, lm, exceeded), w1))"

definition CheckCallLimit :: "(bytes \<Rightarrow> bytes) \<Rightarrow> bytes \<Rightarrow> bytes \<Rightarrow> int \<Rightarrow> bworld \<Rightarrow> (int \<times> bool) \<times> bworld" where
  "CheckCallLimit pkOf key period maxCalls w =
     (if maxCalls \<le> 0 then ((0, False), w)
      else case redis_call (\<lambda>w. (bw_calls w (key, pkOf period), w)) w of
        (Inl _, w1) \<Rightarrow> ((0, False), w1)
      | (Inr v, w1) \<Rightarrow> ((v, v \<ge> maxCalls), w1))"

definition ReserveCall :: "(bytes \<Rightarrow> bytes) \<Rightarrow> bytes \<Rightarrow> bytes \<Rightarrow> int \<Rightarrow> bworld \<Rightarrow> (int \<times> bool \<times> bytes) \<times> bworld" where
  "ReserveCall pkOf key period maxCalls w =
     (if maxCalls \<le> 0 then ((0, False, []), w)
      else case redis_call (\<lambda>w. case callReserveScript (key, pkOf period) maxCalls (bw_calls w) of
                                  (r, f) \<Rightarrow> (r, w\<lparr>bw_calls := f\<rparr>)) w of
        (Inl _, w1) \<Rightarrow>
          (case CheckCallLimit pkOf key period maxCalls w1 of ((current, exceeded), w2) \<Rightarrow> ((current, exceeded, pkOf period), w2))
      | (Inr (n, exceeded), w1) \<Rightarrow> ((n, exceeded, pkOf period), w1))"

definition RefundCall :: "bytes \<Rightarrow> bytes \<Rightarrow> bworld \<Rightarrow> bworld" where
  "RefundCall key pk w =
     (if pk = [] then w
      else snd (redis_call (\<lambda>w. ((), w\<lparr>bw_calls := (bw_calls w)((key, pk) := bw_calls w (key, pk) - 1)\<rparr>)) w))"

definition ReportCallUsage :: "(bytes \<Rightarrow> bytes) \<Rightarrow> bytes \<Rightarrow> bytes \<Rightarrow> bworld \<Rightarrow> bworld" where
  "ReportCallUsage pkOf key period w =
     snd (redis_call (\<lambda>w. ((), w\<lparr>bw_calls := (bw_calls w)((key, pkOf period) := bw_calls w (key, pkOf period) + 1)\<rparr>)) w)"

section \<open>Settlement\<close>

definition task_call :: "settle_task \<Rightarrow> settle_call" where
  "task_call t = \<lparr>sc_scope = tk_scope t, sc_target = tk_target t, sc_period = tk_period t, sc_pk = tk_pk t, sc_req = tk_req t,
     sc_cost = tk_cost t\<rparr>"

definition runSettleScript :: "settle_task \<Rightarrow> bworld \<Rightarrow> (redis_err + nat) \<times> bworld" where
  "runSettleScript t = redis_call (on_store (budgetSettleScript (task_call t)))"

text \<open>The member keeps nine decimals of the cost and whole seconds of the deadline.\<close>

definition ledgerMember :: "settle_task \<Rightarrow> ledger_entry" where
  "ledgerMember t = LedgerTask (t\<lparr>tk_cost := round9 (tk_cost t), tk_deadline := tk_deadline t div 1000000000 * 1000000000\<rparr>)"

fun parseLedgerMember :: "ledger_entry \<Rightarrow> settle_task option" where
  "parseLedgerMember (LedgerTask t) = Some t"
| "parseLedgerMember (MalformedEntry _) = None"

definition settleRetryQueueCap :: nat where
  "settleRetryQueueCap = 65536"

definition settleRetryHorizon :: int where
  "settleRetryHorizon = 10 * 60 * 1000000000"

definition settleRetryMaxBackoff :: int where
  "settleRetryMaxBackoff = 15 * 1000000000"

definition settleLedgerBatch :: nat where
  "settleLedgerBatch = 200"

definition persistLedgerEntry :: "int \<Rightarrow> settle_task \<Rightarrow> bworld \<Rightarrow> bool \<times> bworld" where
  "persistLedgerEntry now t w =
     (case redis_call (\<lambda>w. ((), w\<lparr>bw_ledger := zadd (ledgerMember t) (now div 1000000000) (bw_ledger w)\<rparr>)) w of
        (Inl _, w1) \<Rightarrow> (False, w1)
      | (Inr _, w1) \<Rightarrow> (True, w1))"

definition removeLedgerEntry :: "settle_task \<Rightarrow> bworld \<Rightarrow> bworld" where
  "removeLedgerEntry t w = snd (redis_call (\<lambda>w. ((), w\<lparr>bw_ledger := zrem (ledgerMember t) (bw_ledger w)\<rparr>)) w)"

definition enqueueSettleRetry :: "int \<Rightarrow> settle_task \<Rightarrow> bworld \<Rightarrow> bool \<times> bworld" where
  "enqueueSettleRetry now t w =
     (case persistLedgerEntry now t w of
        (True, w1) \<Rightarrow> (True, w1)
      | (False, w1) \<Rightarrow>
          if length (bw_queue w1) < settleRetryQueueCap then (True, w1\<lparr>bw_queue := bw_queue w1 @ [t]\<rparr>)
          else (False, w1\<lparr>bw_lost := bw_lost w1 + 1\<rparr>))"

text \<open>The hand-over of a task that its consumer cannot finish differs from the above in its result only.\<close>

definition handoffTask :: "int \<Rightarrow> settle_task \<Rightarrow> bworld \<Rightarrow> bworld" where
  "handoffTask now t w = snd (enqueueSettleRetry now t w)"

function settle_ladder :: "int \<Rightarrow> settle_task \<Rightarrow> nat \<Rightarrow> bworld \<Rightarrow> bworld" where
  "settle_ladder now t attempt w =
     (case runSettleScript t w of
        (Inr _, w1) \<Rightarrow> w1
      | (Inl _, w1) \<Rightarrow>
          (case ctx_over w1 of
             (over, w2) \<Rightarrow>
               if attempt \<ge> 4 \<or> over then snd (enqueueSettleRetry now (t\<lparr>tk_deadline := now + settleRetryHorizon\<rparr>) w2)
               else settle_ladder now t (attempt + 1) w2))"
  by pat_completeness auto
termination by (relation "measure (\<lambda>(now, t, a, w). 4 - a)") auto

declare settle_ladder.simps [simp del]

definition SettleScope :: "int \<Rightarrow> (bytes \<Rightarrow> bytes) \<Rightarrow> bytes \<Rightarrow> bytes \<Rightarrow> bytes \<Rightarrow> bytes \<Rightarrow> bytes \<Rightarrow> rat \<Rightarrow> bworld \<Rightarrow> bworld" where
  "SettleScope now pkOf scope target period pk req cost w =
     (if req = [] then ReportUsage pkOf scope target period cost w
      else
        let pk = (if pk = [] then pkOf period else pk);
            task = \<lparr>tk_scope = scope, tk_target = target, tk_period = period, tk_pk = pk, tk_req = req, tk_cost = cost, tk_deadline = 0\<rparr>
        in settle_ladder now task 0 (journal_append task w))"

section \<open>Deferred settlements\<close>

definition drain_member :: "int \<Rightarrow> bworld \<Rightarrow> ledger_entry \<Rightarrow> bworld" where
  "drain_member now w m =
     (case parseLedgerMember m of
        None \<Rightarrow> snd (redis_call (\<lambda>w. ((), w\<lparr>bw_ledger := zrem m (bw_ledger w)\<rparr>)) w)
      | Some t \<Rightarrow>
          (case runSettleScript t w of
             (Inr _, w1) \<Rightarrow> snd (redis_call (\<lambda>w. ((), w\<lparr>bw_ledger := zrem m (bw_ledger w)\<rparr>)) w1)
           | (Inl _, w1) \<Rightarrow>
               if now > tk_deadline t then snd (redis_call (\<lambda>w. ((), w\<lparr>bw_ledger := zrem m (bw_ledger w)\<rparr>)) w1)
               else snd (redis_call (\<lambda>w. ((), w\<lparr>bw_ledger := zadd m ((now + settleRetryMaxBackoff) div 1000000000) (bw_ledger w)\<rparr>)) w1)))"

text \<open>The batches that the range query answers one after the other; \<open>None\<close> is an error.\<close>

fun drainSettleLedgerOnce :: "int \<Rightarrow> ledger_entry list option list \<Rightarrow> bworld \<Rightarrow> bworld" where
  "drainSettleLedgerOnce now [] w = w"
| "drainSettleLedgerOnce now (None # _) w = w"
| "drainSettleLedgerOnce now (Some ms # rest) w =
     (if ms = [] then w
      else let w1 = foldl (drain_member now) w ms
           in if length ms < settleLedgerBatch then w1 else drainSettleLedgerOnce now rest w1)"

text \<open>
  A task of the queue is retried until it is settled or its deadline has passed; the clock is read once per attempt. \<open>None\<close>:
  the readings ended before the task.
\<close>

fun process_loop :: "int list \<Rightarrow> bool \<Rightarrow> settle_task \<Rightarrow> bworld \<Rightarrow> bworld option" where
  "process_loop [] persisted t w = None"
| "process_loop (now # nows) persisted t w =
     (case (if persisted then (True, w) else persistLedgerEntry now t w) of
        (p, w1) \<Rightarrow>
          (case runSettleScript t w1 of
             (Inr _, w2) \<Rightarrow> Some (if p then removeLedgerEntry t w2 else w2)
           | (Inl _, w2) \<Rightarrow>
               if now > tk_deadline t then Some (if p then removeLedgerEntry t w2 else w2)
               else process_loop nows p t w2))"

definition processSettleTask :: "int list \<Rightarrow> settle_task \<Rightarrow> bworld \<Rightarrow> bworld option" where
  "processSettleTask nows t w = process_loop nows False t w"

section \<open>The reaper\<close>

definition reap_one :: "int \<Rightarrow> nat \<times> bworld \<Rightarrow> resv_member \<Rightarrow> nat \<times> bworld" where
  "reap_one retry_at nw m =
     (case nw of (n, w) \<Rightarrow>
        (case redis_call (on_store (budgetReapOrphanScript m)) w of
           (Inl _, w1) \<Rightarrow> (n, w1)
         | (Inr res, w1) \<Rightarrow>
             if res = 1 then (n + 1, w1)
             else (n, snd (redis_call (on_store (\<lambda>s. ((), s\<lparr>rb_exp := zadd m retry_at (rb_exp s)\<rparr>))) w1))))"

fun reap_rounds :: "int \<Rightarrow> resv_member list option list \<Rightarrow> nat \<Rightarrow> bworld \<Rightarrow> nat \<times> bworld" where
  "reap_rounds t [] n w = (n, w)"
| "reap_rounds t (None # _) n w = (n, w)"
| "reap_rounds t (Some ms # rest) n w =
     (if ms = [] then (n, w)
      else case foldl (reap_one t) (n, w) ms of
        (n1, w1) \<Rightarrow> if length ms < 500 then (n1, w1) else reap_rounds t rest n1 w1)"

definition ReapExpiredReservations :: "int \<Rightarrow> resv_member list option list \<Rightarrow> bworld \<Rightarrow> nat \<times> bworld" where
  "ReapExpiredReservations retry_at batches w = reap_rounds retry_at batches 0 w"

section \<open>Admission\<close>

record BudgetScope =
  bs_scope :: bytes
  bs_id :: bytes
  bs_period :: bytes
  bs_limit :: rat

record BudgetReservations =
  br_reserved :: "bytes \<rightharpoonup> rat"
  br_keys :: "bytes \<rightharpoonup> bytes"

definition scope_call :: "int \<Rightarrow> bytes \<Rightarrow> bytes \<Rightarrow> rat \<Rightarrow> BudgetScope \<Rightarrow> reserve_call" where
  "scope_call expiry pk req estimate sc = \<lparr>rc_scope = bs_scope sc, rc_target = bs_id sc, rc_period = bs_period sc, rc_pk = pk,
     rc_req = req, rc_est = estimate, rc_limit = bs_limit sc, rc_expiry = expiry\<rparr>"

text \<open>Spent, limit, written, exceeded and whether enforcement is down.\<close>

definition reserveScopeMarkedE ::
    "int \<Rightarrow> (bytes \<Rightarrow> bytes) \<Rightarrow> BudgetScope \<Rightarrow> bytes \<Rightarrow> bytes \<Rightarrow> rat \<Rightarrow> bworld \<Rightarrow> (rat \<times> rat \<times> bool \<times> bool \<times> bool) \<times> bworld" where
  "reserveScopeMarkedE expiry pkOf sc pk req estimate w =
     (if bs_limit sc \<le> 0 \<or> estimate \<le> 0 then ((0, bs_limit sc, False, False, False), w)
      else if req = [] then
        (case reserveBudgetKeyed pkOf (bs_scope sc) (bs_id sc) (bs_period sc) pk estimate (bs_limit sc) w of
           ((sp, lm, wr, x), w1) \<Rightarrow> ((sp, lm, wr, x, False), w1))
      else case redis_call (on_store (budgetReserveMarkScript (scope_call expiry pk req estimate sc))) w of
        (Inl _, w1) \<Rightarrow> ((0, bs_limit sc, False, False, True), w1)
      | (Inr r, w1) \<Rightarrow> ((of_int (rr_spent r), of_int (rr_limit r), rr_reserved r, rr_exceeded r, False), w1))"

definition ReserveScopeMarked ::
    "int \<Rightarrow> (bytes \<Rightarrow> bytes) \<Rightarrow> BudgetScope \<Rightarrow> bytes \<Rightarrow> bytes \<Rightarrow> rat \<Rightarrow> bworld \<Rightarrow> (rat \<times> rat \<times> bool \<times> bool) \<times> bworld" where
  "ReserveScopeMarked expiry pkOf sc pk req estimate w =
     (case reserveScopeMarkedE expiry pkOf sc pk req estimate w of
        ((sp, lm, wr, x, down), w1) \<Rightarrow> ((sp, lm, if down then False else wr, if down then True else x), w1))"

definition the0 :: "rat option \<Rightarrow> rat" where
  "the0 v = (case v of None \<Rightarrow> 0 | Some x \<Rightarrow> x)"

definition key_or_empty :: "bytes option \<Rightarrow> bytes" where
  "key_or_empty v = (case v of None \<Rightarrow> [] | Some x \<Rightarrow> x)"

fun refundReserved :: "int \<Rightarrow> (bytes \<Rightarrow> bytes) \<Rightarrow> bytes \<Rightarrow> BudgetScope list \<Rightarrow> BudgetReservations \<Rightarrow> bworld \<Rightarrow> BudgetReservations \<times> bworld" where
  "refundReserved now pkOf req [] res w = (res, w)"
| "refundReserved now pkOf req (sc # scs) res w =
     (let prev = the0 (br_reserved res (bs_scope sc)); pk = key_or_empty (br_keys res (bs_scope sc))
      in if prev > 0 then
           refundReserved now pkOf req scs (res\<lparr>br_reserved := (br_reserved res)(bs_scope sc := None)\<rparr>)
             (if req \<noteq> [] then SettleScope now pkOf (bs_scope sc) (bs_id sc) (bs_period sc) pk req 0 w
              else applyBudgetDeltaKeyed (bs_scope sc) (bs_id sc) pk (- prev) w)
         else refundReserved now pkOf req scs res w)"

datatype admission = Admitted | Exceeded bytes | EnforcementUnavailable bytes

fun reserve_scopes ::
    "int \<Rightarrow> int \<Rightarrow> (bytes \<Rightarrow> bytes) \<Rightarrow> bytes \<Rightarrow> rat \<Rightarrow> BudgetScope list \<Rightarrow> BudgetScope list \<Rightarrow> BudgetReservations \<Rightarrow> bworld \<Rightarrow>
     (BudgetReservations \<times> admission) \<times> bworld" where
  "reserve_scopes now expiry pkOf req estimate before [] res w = ((res, Admitted), w)"
| "reserve_scopes now expiry pkOf req estimate before (sc # scs) res w =
     (if bs_limit sc \<le> 0 then reserve_scopes now expiry pkOf req estimate (before @ [sc]) scs res w
      else
        let pk = pkOf (bs_period sc)
        in case reserveScopeMarkedE expiry pkOf sc pk req estimate w of
             ((_, _, written, exceeded, down), w1) \<Rightarrow>
               if down then
                 (case refundReserved now pkOf req before res w1 of (res1, w2) \<Rightarrow> ((res1, EnforcementUnavailable (bs_scope sc)), w2))
               else if exceeded then
                 (case refundReserved now pkOf req before res w1 of (res1, w2) \<Rightarrow> ((res1, Exceeded (bs_scope sc)), w2))
               else
                 reserve_scopes now expiry pkOf req estimate (before @ [sc]) scs
                   (if written then res\<lparr>br_reserved := (br_reserved res)(bs_scope sc \<mapsto> estimate), br_keys := (br_keys res)(bs_scope sc \<mapsto> pk)\<rparr>
                    else res) w1)"

definition no_reservations :: BudgetReservations where
  "no_reservations = \<lparr>br_reserved = Map.empty, br_keys = Map.empty\<rparr>"

definition ReserveForRequestE ::
    "int \<Rightarrow> int \<Rightarrow> (bytes \<Rightarrow> bytes) \<Rightarrow> BudgetScope list \<Rightarrow> rat \<Rightarrow> bytes \<Rightarrow> bworld \<Rightarrow> (BudgetReservations \<times> admission) \<times> bworld" where
  "ReserveForRequestE now expiry pkOf scopes estimate req w =
     (if estimate \<le> 0 \<or> scopes = [] then ((no_reservations, Admitted), w)
      else reserve_scopes now expiry pkOf req estimate [] scopes no_reservations w)"


section \<open>Settled once or still pending\<close>

lemma settle_idem:
  "one_marker s (sc_rkey c) \<Longrightarrow> snd (budgetSettleScript c (snd (budgetSettleScript c s))) = snd (budgetSettleScript c s)"
  using settle_clean [of s c] settled_stays(1) [of "snd (budgetSettleScript c s)" "sc_rkey c" c] by simp

text \<open>
  What the retries rely on of a settlement: on a state that is ready for it, a second one changes nothing. Attempts whose
  replies are lost, some applied and some not, then amount to none or to exactly one.
\<close>

locale at_most_once =
  fixes step :: "'s \<Rightarrow> 's" and ready :: "'s \<Rightarrow> bool"
  assumes step_step: "ready s \<Longrightarrow> step (step s) = step s"
begin

lemma absorbed: "ready s \<Longrightarrow> x \<in> {s, step s} \<Longrightarrow> step x = step s"
  using step_step by auto

lemma attempts: "ready s \<Longrightarrow> foldl (\<lambda>x applied. if applied then step x else x) s bs = (if True \<in> set bs then step s else s)"
proof (induction bs rule: rev_induct)
  case (snoc b bs)
  let ?x = "foldl (\<lambda>x applied. if applied then step x else x) s bs"
  have "?x \<in> {s, step s}" using snoc by simp
  then have "step ?x = step s" by (rule absorbed [OF snoc.prems])
  then show ?case using snoc by (cases b) simp_all
qed simp

end

interpretation settling: at_most_once "\<lambda>s. snd (budgetSettleScript c s)" "\<lambda>s. one_marker s (sc_rkey c)" for c
  by unfold_locales (rule settle_idem)

text \<open>What a Redis command does to the world: it is applied to the world with the outcome taken off, or it is not.\<close>

lemma redis_call_cases:
  assumes "redis_call f w = (r, w1)"
  obtains ds where "r = Inr (fst (f (w\<lparr>bw_redis := ds\<rparr>)))" "w1 = snd (f (w\<lparr>bw_redis := ds\<rparr>))"
  | ds e where "r = Inl e" "w1 = w\<lparr>bw_redis := ds\<rparr> \<or> w1 = snd (f (w\<lparr>bw_redis := ds\<rparr>))"
proof (cases "bw_redis w")
  case Nil
  then have e: "w\<lparr>bw_redis := []\<rparr> = w" by simp
  from Nil assms have "r = Inr (fst (f (w\<lparr>bw_redis := []\<rparr>)))" "w1 = snd (f (w\<lparr>bw_redis := []\<rparr>))"
    unfolding e by (simp_all add: redis_call_def split: prod.splits)
  then show thesis by (rule that(1))
next
  case (Cons d ds)
  show thesis
  proof (cases d)
    case Delivered
    with Cons assms have "r = Inr (fst (f (w\<lparr>bw_redis := ds\<rparr>)))" "w1 = snd (f (w\<lparr>bw_redis := ds\<rparr>))"
      by (simp_all add: redis_call_def split: prod.splits)
    then show thesis by (rule that(1))
  next
    case (Failed a e)
    with Cons assms have "r = Inl e" "w1 = w\<lparr>bw_redis := ds\<rparr> \<or> w1 = snd (f (w\<lparr>bw_redis := ds\<rparr>))"
      by (auto simp: redis_call_def)
    then show thesis by (rule that(2))
  qed
qed

lemma snd_on_store: "snd (on_store f w) = w\<lparr>bw_store := snd (f (bw_store w))\<rparr>" "fst (on_store f w) = fst (f (bw_store w))"
  by (simp_all add: on_store_def split: prod.split)

definition same_queues :: "bworld \<Rightarrow> bworld \<Rightarrow> bool" where
  "same_queues w w1 \<longleftrightarrow> bw_ledger w1 = bw_ledger w \<and> bw_queue w1 = bw_queue w \<and> bw_lost w1 = bw_lost w"

lemma runSettleScript_cases:
  assumes "runSettleScript t w = (r, w1)"
  shows "same_queues w w1 \<and> (bw_store w1 = snd (budgetSettleScript (task_call t) (bw_store w)) \<or> bw_store w1 = bw_store w \<and> isl r)"
  using assms unfolding runSettleScript_def by (rule redis_call_cases) (auto simp: snd_on_store same_queues_def)

lemma ledger_call:
  assumes "redis_call (\<lambda>w. ((), w\<lparr>bw_ledger := g (bw_ledger w)\<rparr>)) w = (r, w1)"
  shows "bw_store w1 = bw_store w \<and> bw_queue w1 = bw_queue w \<and> bw_lost w1 = bw_lost w \<and>
    (bw_ledger w1 = g (bw_ledger w) \<or> bw_ledger w1 = bw_ledger w \<and> isl r)"
  using assms by (rule redis_call_cases) auto

lemma persistLedgerEntry_cases:
  assumes "persistLedgerEntry now t w = (p, w1)"
  shows "bw_store w1 = bw_store w \<and> bw_queue w1 = bw_queue w \<and> bw_lost w1 = bw_lost w \<and>
    (p \<longrightarrow> ledgerMember t \<in> fst ` set (bw_ledger w1))"
proof -
  obtain r w2 where c: "redis_call (\<lambda>w. ((), w\<lparr>bw_ledger := zadd (ledgerMember t) (now div 1000000000) (bw_ledger w)\<rparr>)) w = (r, w2)"
    by fastforce
  from ledger_call [OF c] assms show ?thesis by (auto simp: persistLedgerEntry_def c fst_zadd split: sum.splits)
qed

text \<open>A deferred task is in the ledger or in the queue, or its loss is counted.\<close>

definition deferred :: "settle_task \<Rightarrow> bworld \<Rightarrow> bworld \<Rightarrow> bool" where
  "deferred t w w1 \<longleftrightarrow> ledgerMember t \<in> fst ` set (bw_ledger w1) \<or> t \<in> set (bw_queue w1) \<or> bw_lost w1 = bw_lost w + 1"

lemma enqueue_deferred:
  assumes "enqueueSettleRetry now t w = (ok, w1)"
  shows "bw_store w1 = bw_store w \<and> deferred t w w1"
proof -
  obtain p w2 where p: "persistLedgerEntry now t w = (p, w2)" by fastforce
  from persistLedgerEntry_cases [OF p] assms show ?thesis
    by (cases p) (auto simp: enqueueSettleRetry_def p deferred_def split: if_splits)
qed

lemma ladder_once:
  assumes "one_marker s (sc_rkey (task_call t))" "bw_store w \<in> {s, snd (budgetSettleScript (task_call t) s)}"
  shows "bw_store (settle_ladder now t a w) = snd (budgetSettleScript (task_call t) s) \<or>
    bw_store (settle_ladder now t a w) = s \<and> deferred (t\<lparr>tk_deadline := now + settleRetryHorizon\<rparr>) w (settle_ladder now t a w)"
  using assms
proof (induction now t a w rule: settle_ladder.induct)
  case (1 now t a w)
  let ?s' = "snd (budgetSettleScript (task_call t) s)"
  obtain r w1 where r: "runSettleScript t w = (r, w1)" by fastforce
  obtain over w2 where c: "ctx_over w1 = (over, w2)" by fastforce
  have q: "same_queues w w2" "bw_store w2 = bw_store w1"
    using c runSettleScript_cases [OF r] by (auto simp: ctx_over_def same_queues_def split: list.splits)
  have st: "bw_store w1 = ?s' \<or> bw_store w1 = s \<and> isl r"
    using runSettleScript_cases [OF r] "1.prems"(2) settling.absorbed [OF "1.prems"(1,2)] by auto
  show ?case
  proof (cases r)
    case (Inr n)
    with st show ?thesis by (subst (1) settle_ladder.simps) (simp add: r)
  next
    case (Inl e)
    show ?thesis
    proof (cases "a \<ge> 4 \<or> over")
      case True
      obtain ok w3 where e: "enqueueSettleRetry now (t\<lparr>tk_deadline := now + settleRetryHorizon\<rparr>) w2 = (ok, w3)" by fastforce
      have "settle_ladder now t a w = w3" using True by (subst settle_ladder.simps) (auto simp: r c e Inl)
      with enqueue_deferred [OF e] st q show ?thesis by (auto simp: deferred_def same_queues_def)
    next
      case False
      then have l: "settle_ladder now t a w = settle_ladder now t (a + 1) w2" by (subst settle_ladder.simps) (simp add: r c Inl)
      have "bw_store w2 \<in> {s, ?s'}" using st q by auto
      from "1.IH" [OF r [symmetric] Inl c [symmetric] False "1.prems"(1) this] q(1) show ?thesis
        unfolding l by (auto simp: deferred_def same_queues_def)
    qed
  qed
qed


lemma journal_append_frame [simp]:
  "bw_store (journal_append t w) = bw_store w" "bw_ledger (journal_append t w) = bw_ledger w"
  "bw_queue (journal_append t w) = bw_queue w" "bw_lost (journal_append t w) = bw_lost w" "bw_calls (journal_append t w) = bw_calls w"
  "bw_redis (journal_append t w) = bw_redis w"
  by (simp_all add: journal_append_def split: option.split list.split)

text \<open>
  C5: A settlement takes effect at most once and is never lost silently. Whatever happens to its up to five attempts and
  to the enqueueing, replies that get lost after the script was applied included, the store is the one before or
  the one after exactly one settlement; if it is not settled, the task is in the ledger, or in
  the queue of the process, or its loss was counted.
\<close>

theorem settle_scope_once:
  assumes "req \<noteq> []" "pk \<noteq> []" "one_marker (bw_store w) (scope, target, req)"
    and "task = \<lparr>tk_scope = scope, tk_target = target, tk_period = period, tk_pk = pk, tk_req = req, tk_cost = cost,
      tk_deadline = now + settleRetryHorizon\<rparr>"
    and "w' = SettleScope now pkOf scope target period pk req cost w"
  shows "bw_store w' = snd (budgetSettleScript (task_call task) (bw_store w)) \<or>
    bw_store w' = bw_store w \<and>
      (ledgerMember task \<in> fst ` set (bw_ledger w') \<or> task \<in> set (bw_queue w') \<or> bw_lost w' = bw_lost w + 1)"
proof -
  let ?t = "task\<lparr>tk_deadline := 0\<rparr>"
  have c: "task_call ?t = task_call task" by (simp add: task_call_def)
  have m: "one_marker (bw_store w) (sc_rkey (task_call ?t))" using assms(3,4) by (simp add: c task_call_def sc_rkey_def)
  have "w' = settle_ladder now ?t 0 (journal_append ?t w)" using assms(1,2,4,5) by (simp add: SettleScope_def Let_def)
  moreover have "?t\<lparr>tk_deadline := now + settleRetryHorizon\<rparr> = task" using assms(4) by simp
  ultimately show ?thesis using ladder_once [OF m, of "journal_append ?t w" now 0] by (simp add: deferred_def c)
qed

definition entries :: "bworld \<Rightarrow> ledger_entry set" where
  "entries w = fst ` set (bw_ledger w)"

lemma entries_zadd:
  assumes "redis_call (\<lambda>w. ((), w\<lparr>bw_ledger := zadd m t (bw_ledger w)\<rparr>)) w = (r, w1)"
  shows "entries w1 = insert m (entries w) \<or> entries w1 = entries w"
  using ledger_call [OF assms] fst_zadd [of m t "bw_ledger w"] unfolding entries_def by (elim conjE disjE) simp_all

lemma entries_zrem:
  assumes "redis_call (\<lambda>w. ((), w\<lparr>bw_ledger := zrem m (bw_ledger w)\<rparr>)) w = (r, w1)"
  shows "entries w1 = entries w - {m} \<or> entries w1 = entries w"
proof -
  have "fst ` {p \<in> set (bw_ledger w). fst p \<noteq> m} = fst ` set (bw_ledger w) - {m}" by force
  then show ?thesis using ledger_call [OF assms] by (auto simp: entries_def)
qed

text \<open>
  C18: The ledger gives up a deferred settlement only when it is settled or past its deadline, and touches no other entry.
  Driving an entry leaves the store unsettled or settled exactly once; an entry that leaves the ledger before its
  deadline has been settled.
\<close>

theorem ledger_drain_conserves:
  assumes "one_marker (bw_store w) (sc_rkey (task_call t))" "LedgerTask t \<in> entries w"
    and "w' = drain_member now w (LedgerTask t)"
  shows "bw_store w' \<in> {bw_store w, snd (budgetSettleScript (task_call t) (bw_store w))} \<and>
    (bw_store w' = snd (budgetSettleScript (task_call t) (bw_store w)) \<or> LedgerTask t \<in> entries w' \<or> tk_deadline t < now) \<and>
    entries w - {LedgerTask t} \<subseteq> entries w' \<and> bw_queue w' = bw_queue w \<and> bw_lost w' = bw_lost w"
proof -
  obtain r w1 where r: "runSettleScript t w = (r, w1)" by fastforce
  note s = runSettleScript_cases [OF r]
  then have e: "entries w1 = entries w" by (simp add: entries_def same_queues_def)
  obtain p w2 where p: "redis_call (\<lambda>w. ((), w\<lparr>bw_ledger := zrem (LedgerTask t) (bw_ledger w)\<rparr>)) w1 = (p, w2)" by fastforce
  obtain q w3 where q: "redis_call (\<lambda>w. ((), w\<lparr>bw_ledger := zadd (LedgerTask t) ((now + settleRetryMaxBackoff) div 1000000000) (bw_ledger w)\<rparr>)) w1 = (q, w3)"
    by fastforce
  show ?thesis
  proof (cases "isl r \<and> \<not> tk_deadline t < now")
    case True
    then have w: "w' = w3" using assms(3) by (cases r) (simp_all add: drain_member_def r q)
    have "LedgerTask t \<in> entries w3 \<and> entries w - {LedgerTask t} \<subseteq> entries w3" using entries_zadd [OF q] e assms(2) by blast
    with ledger_call [OF q] s show ?thesis unfolding w by (auto simp: same_queues_def)
  next
    case False
    then have w: "w' = w2" using assms(3) by (cases r) (simp_all add: drain_member_def r p)
    have "bw_store w1 = snd (budgetSettleScript (task_call t) (bw_store w)) \<or> bw_store w1 = bw_store w \<and> tk_deadline t < now"
      using s False by auto
    moreover have "entries w - {LedgerTask t} \<subseteq> entries w2" using entries_zrem [OF p] e by blast
    ultimately show ?thesis using ledger_call [OF p] s unfolding w by (auto simp: same_queues_def)
  qed
qed

text \<open>
  C21: A task of the queue comes to an end. Once the clock has passed its deadline at some attempt the loop returns; it
  returns with the request settled exactly once, or unsettled and past the deadline.
\<close>

theorem queued_task_ends:
  assumes "one_marker (bw_store w) (sc_rkey (task_call t))" "list_ex (\<lambda>now. tk_deadline t < now) nows"
  shows "\<exists>w'. processSettleTask nows t w = Some w' \<and>
    bw_store w' \<in> {bw_store w, snd (budgetSettleScript (task_call t) (bw_store w))}"
proof -
  have "\<exists>w'. process_loop nows p t v = Some w' \<and> bw_store w' \<in> {s, snd (budgetSettleScript (task_call t) s)}"
    if "one_marker s (sc_rkey (task_call t))" "bw_store v \<in> {s, snd (budgetSettleScript (task_call t) s)}" for s p v
    using assms(2) that(2)
  proof (induction nows arbitrary: p v)
    case (Cons now nows)
    let ?S = "{s, snd (budgetSettleScript (task_call t) s)}"
    obtain q v1 where q: "(if p then (True, v) else persistLedgerEntry now t v) = (q, v1)" by fastforce
    have v1: "bw_store v1 = bw_store v"
      using q persistLedgerEntry_cases [of now t v q v1] by (cases p) auto
    obtain r v2 where r: "runSettleScript t v1 = (r, v2)" by fastforce
    have v2: "bw_store v2 \<in> ?S" using runSettleScript_cases [OF r] v1 Cons.prems(2) settling.absorbed [OF that(1) Cons.prems(2)] by auto
    obtain x v3 where x: "redis_call (\<lambda>w. ((), w\<lparr>bw_ledger := zrem (ledgerMember t) (bw_ledger w)\<rparr>)) v2 = (x, v3)" by fastforce
    have v3: "bw_store (removeLedgerEntry t v2) \<in> ?S" using ledger_call [OF x] v2 by (simp add: removeLedgerEntry_def x)
    show ?case
    proof (cases "isl r \<and> \<not> tk_deadline t < now")
      case True
      then have "process_loop (now # nows) p t v = process_loop nows q t v2"
        by (cases r) (simp_all add: q r)
      moreover have "list_ex (\<lambda>now. tk_deadline t < now) nows" using Cons.prems(1) True by simp
      ultimately show ?thesis using Cons.IH [OF _ v2] by simp
    next
      case False
      then have "process_loop (now # nows) p t v = Some (if q then removeLedgerEntry t v2 else v2)"
        by (cases r) (simp_all add: q r)
      with v2 v3 show ?thesis by auto
    qed
  qed simp
  from this [OF assms(1)] show ?thesis unfolding processSettleTask_def by simp
qed


section \<open>All scopes or none\<close>

definition call_mark :: "reserve_call \<Rightarrow> resv_mark" where
  "call_mark c = \<lparr>mk_est = rc_est c, mk_pk = Some (rc_pk c)\<rparr>"

text \<open>The store \<open>s\<close> is \<open>s0\<close> with the reservations \<open>cs\<close> held.\<close>

definition held :: "budget_store \<Rightarrow> reserve_call list \<Rightarrow> budget_store \<Rightarrow> bool" where
  "held s0 cs s \<longleftrightarrow>
     (\<forall>k. rb_budget s k = rb_budget s0 k + tally rc_bkey rc_est cs k) \<and> (\<forall>k. rb_resv s k = rb_resv s0 k + tally rc_bkey rc_est cs k) \<and>
     rb_settled s = rb_settled s0 \<and> rb_shadow s = rb_shadow s0 \<and> rb_shadowmark s = rb_shadowmark s0 \<and>
     rb_settledmark s = rb_settledmark s0 \<and> rb_mark s = rb_mark s0 ++ map_of (map (\<lambda>c. (rc_rkey c, call_mark c)) cs) \<and>
     rb_exp s = rb_exp s0 @ map (\<lambda>c. (rc_member c, rc_expiry c)) cs"

definition fresh_key :: "budget_store \<Rightarrow> rkey \<Rightarrow> bool" where
  "fresh_key s r \<longleftrightarrow> rb_mark s r = None \<and> \<not> rb_settledmark s r \<and> map_of (rb_shadowmark s) r = None \<and> r \<notin> em_rkey ` set (holds s)"

definition fresh_calls :: "budget_store \<Rightarrow> reserve_call list \<Rightarrow> bool" where
  "fresh_calls s cs \<longleftrightarrow> distinct (map rc_rkey cs) \<and> list_all (\<lambda>c. fresh_key s (rc_rkey c) \<and> round9 (rc_est c) = rc_est c) cs"

lemma held_Nil: "held s0 [] s \<longleftrightarrow> s = s0"
proof
  assume h: "held s0 [] s"
  then have "rb_budget s = rb_budget s0" "rb_resv s = rb_resv s0" by (simp_all add: held_def fun_eq_iff)
  then show "s = s0" using h by (intro budget_store.equality) (simp_all add: held_def)
qed (simp add: held_def)

lemma held_budget: "held s0 cs s \<Longrightarrow> rb_budget s k = rb_budget s0 k + tally rc_bkey rc_est cs k"
  unfolding held_def by blast

lemma member_fresh:
  assumes "r = rc_rkey c" "r \<notin> em_rkey ` M"
  shows "rc_member c \<notin> M"
proof
  assume "rc_member c \<in> M"
  from imageI [OF this, of em_rkey] assms show False by simp
qed

lemma held_fresh:
  assumes "held s0 cs s" "fresh_key s0 r" "r \<notin> rc_rkey ` set cs"
  shows "fresh_key s r"
proof -
  have "map_of (map (\<lambda>c. (rc_rkey c, call_mark c)) cs) r = None" using assms(3) by (simp add: map_of_eq_None_iff image_image)
  moreover have "em_rkey ` set (holds s) = em_rkey ` set (holds s0) \<union> rc_rkey ` set cs"
    using assms(1) by (simp add: held_def image_Un image_image)
  ultimately show ?thesis using assms by (auto simp: fresh_key_def held_def map_add_def)
qed

lemma held_reserve:
  assumes "held s0 cs s" "fresh_calls s0 (cs @ [c])" "budgetReserveMarkScript c s = (r, s')"
  shows "if rr_exceeded r then s' = s \<and> \<not> rr_reserved r
    else rr_reserved r \<and> held s0 (cs @ [c]) s' \<and> rb_budget s (rc_bkey c) + rc_est c \<le> rc_limit c"
proof -
  have n: "rc_rkey c \<notin> rc_rkey ` set cs" "fresh_key s0 (rc_rkey c)" "round9 (rc_est c) = rc_est c"
    using assms(2) by (auto simp: fresh_calls_def)
  have f: "fresh_key s (rc_rkey c)" by (rule held_fresh [OF assms(1) n(2,1)])
  have m: "rc_member c \<notin> fst ` set (rb_exp s)" using member_fresh [OF refl, of c "set (holds s)"] f by (simp add: fresh_key_def)
  show ?thesis
  proof (cases "rb_budget s (rc_bkey c) + rc_est c > rc_limit c")
    case True
    then show ?thesis using assms(3) f m
      by (auto simp: budgetReserveMarkScript_def Let_def fresh_key_def zrem_zadd incr_incr fun_upd_idem split: if_splits)
  next
    case False
    have s': "s' = s\<lparr>rb_mark := (rb_mark s)(rc_rkey c \<mapsto> call_mark c), rb_budget := incr (rc_bkey c) (rc_est c) (rb_budget s),
        rb_resv := incr (rc_bkey c) (rc_est c) (rb_resv s), rb_exp := rb_exp s @ [(rc_member c, rc_expiry c)]\<rparr>"
      "\<not> rr_exceeded r" "rr_reserved r"
      using assms(3) f m False n(3)
      by (auto simp: budgetReserveMarkScript_def Let_def fresh_key_def zadd_absent call_mark_def split: if_splits)
    have "map_of (map (\<lambda>c. (rc_rkey c, call_mark c)) cs) (rc_rkey c) = None"
      using n(1) by (simp add: map_of_eq_None_iff image_image)
    then have "(rb_mark s0 ++ map_of (map (\<lambda>c. (rc_rkey c, call_mark c)) cs))(rc_rkey c \<mapsto> call_mark c) =
        rb_mark s0 ++ map_of (map (\<lambda>c. (rc_rkey c, call_mark c)) (cs @ [c]))"
      by (auto simp: fun_eq_iff map_add_def split: option.split)
    then have "held s0 (cs @ [c]) s'" using assms(1) unfolding s'(1) held_def by simp
    with s' False show ?thesis by simp
  qed
qed

text \<open>The store after a settlement, but for the hold that it releases.\<close>

definition charged :: "settle_call \<Rightarrow> budget_store \<Rightarrow> budget_store" where
  "charged d s = s\<lparr>rb_settledmark := (rb_settledmark s)(sc_rkey d := True), rb_budget := incr (sc_bkey d) (sc_cost d) (rb_budget s),
     rb_settled := incr (sc_bkey d) (sc_cost d) (rb_settled s)\<rparr>"

lemma held_charge_mid:
  assumes "held s0 (as @ c # cs) s" "fresh_calls s0 (as @ c # cs)"
    and "sc_rkey d = rc_rkey c" "sc_period d = rc_period c" "sc_pk d = rc_pk c"
  shows "held (charged d s0) (as @ cs) (snd (budgetSettleScript d s))"
    and "fresh_calls (charged d s0) (as @ cs)"
proof -
  have n: "rc_rkey c \<notin> rc_rkey ` set (as @ cs)" "fresh_key s0 (rc_rkey c)" using assms(2) by (auto simp: fresh_calls_def)
  have nm: "map_of (map (\<lambda>c. (rc_rkey c, call_mark c)) (as @ cs)) (rc_rkey c) = None"
    using n(1) by (simp only: map_of_eq_None_iff) (simp add: image_image image_Un)
  then have nm': "map_of (map (\<lambda>c. (rc_rkey c, call_mark c)) as) (rc_rkey c) = None"
      "map_of (map (\<lambda>c. (rc_rkey c, call_mark c)) cs) (rc_rkey c) = None" by (auto simp: map_add_None)
  have mm: "map_of (map (\<lambda>c. (rc_rkey c, call_mark c)) (as @ c # cs)) = (map_of (map (\<lambda>c. (rc_rkey c, call_mark c)) (as @ cs)))(rc_rkey c \<mapsto> call_mark c)"
    using nm' by (auto simp: fun_eq_iff map_add_def split: option.split)
  have mk: "rb_mark s (rc_rkey c) = Some (call_mark c)"
    using assms(1) unfolding held_def mm by (simp add: map_add_def del: map_append)
  have st: "\<not> rb_settledmark s (rc_rkey c)" using assms(1) n(2) by (simp add: held_def fresh_key_def)
  have k: "held_key d (call_mark c) = rc_bkey c" "held_member d (call_mark c) = rc_member c" "mk_est (call_mark c) = rc_est c"
    using assms(2-5) by (auto simp: held_key_def held_member_def parseMark_def rc_bkey_def rc_member_def sc_rkey_def rc_rkey_def
      call_mark_def fresh_calls_def)
  have s': "snd (budgetSettleScript d s) = charge_settled d (refund_resv d (call_mark c) (sc_cost d) (drop_mark d (call_mark c)
      (s\<lparr>rb_settledmark := (rb_settledmark s)(rc_rkey c := True)\<rparr>)))"
    using st mk assms(3) by (simp add: budgetSettleScript_def)
  have e: "zrem (rc_member c) (rb_exp s) = rb_exp s0 @ map (\<lambda>c. (rc_member c, rc_expiry c)) (as @ cs)"
  proof -
    have "rc_member c \<notin> fst ` set (map (\<lambda>c. (rc_member c, rc_expiry c)) xs)" if "set xs \<subseteq> set (as @ cs)" for xs
    proof -
      have "rc_member c \<notin> rc_member ` set xs" by (rule member_fresh [OF refl]) (use n(1) that in \<open>auto simp: image_image\<close>)
      then show ?thesis by (simp add: image_image)
    qed
    note z = zrem_absent [OF this]
    have "rc_member c \<notin> fst ` set (rb_exp s0)"
      using member_fresh [OF refl, of c "set (holds s0)"] n(2) by (simp add: fresh_key_def)
    then show ?thesis
      using assms(1) zrem_absent [of "rc_member c" "rb_exp s0"] z [of as] z [of cs] by (simp add: held_def zrem_def)
  qed
  have m: "(rb_mark s)(rc_rkey c := None) = rb_mark s0 ++ map_of (map (\<lambda>c. (rc_rkey c, call_mark c)) (as @ cs))"
    using assms(1) nm n(2) unfolding held_def mm by (auto simp: fresh_key_def fun_eq_iff map_add_def split: option.split)
  have z: "rb_settled (charge_settled d v) = incr (sc_bkey d) (sc_cost d) (rb_settled v)" for v by (simp add: charge_settled_def)
  show "held (charged d s0) (as @ cs) (snd (budgetSettleScript d s))"
    using assms(1) m e unfolding s' held_def by (simp add: settle_sel k z assms(3) charged_def)
  show "fresh_calls (charged d s0) (as @ cs)"
    unfolding fresh_calls_def list_all_iff
  proof (intro conjI ballI)
    fix x assume x: "x \<in> set (as @ cs)"
    then have "rc_rkey x \<noteq> rc_rkey c" using n(1) by (metis imageI)
    then show "fresh_key (charged d s0) (rc_rkey x)"
      using assms(2,3) x by (auto simp: fresh_calls_def fresh_key_def list_all_iff charged_def)
  qed (use assms(2) in \<open>auto simp: fresh_calls_def list_all_iff\<close>)
qed

lemmas held_charge = held_charge_mid [where as = "[]", unfolded append_Nil]

text \<open>The store in which the given requests have been settled once and for all.\<close>

definition closed_off :: "rkey set \<Rightarrow> budget_store \<Rightarrow> budget_store" where
  "closed_off R s = s\<lparr>rb_settledmark := (\<lambda>r. rb_settledmark s r \<or> r \<in> R)\<rparr>"

lemma closed_off_empty [simp]: "closed_off {} s = s"
  by (simp add: closed_off_def)

lemma closed_off_insert: "closed_off R (closed_off {r} s) = closed_off (insert r R) s"
  by (auto simp: closed_off_def intro!: arg_cong [where f = "\<lambda>m. s\<lparr>rb_settledmark := m\<rparr>"])

lemma held_settle:
  assumes "held s0 (as @ c # cs) s" "fresh_calls s0 (as @ c # cs)"
    and "sc_rkey d = rc_rkey c" "sc_period d = rc_period c" "sc_pk d = rc_pk c" "sc_cost d = 0"
  shows "held (closed_off {rc_rkey c} s0) (as @ cs) (snd (budgetSettleScript d s))"
    and "fresh_calls (closed_off {rc_rkey c} s0) (as @ cs)"
proof -
  have "charged d s0 = closed_off {rc_rkey c} s0"
    using assms(3,6) by (auto simp: charged_def closed_off_def fun_eq_iff intro!: arg_cong [where f = "\<lambda>m. s0\<lparr>rb_settledmark := m\<rparr>"])
  then show "held (closed_off {rc_rkey c} s0) (as @ cs) (snd (budgetSettleScript d s))" "fresh_calls (closed_off {rc_rkey c} s0) (as @ cs)"
    using held_charge_mid [OF assms(1-5)] by simp_all
qed

text \<open>
  Every command is delivered, except that the last of the outcomes may be a failure of a command that was not applied.
\<close>

fun quiet :: "delivery list \<Rightarrow> bool" where
  "quiet [] = True"
| "quiet (Delivered # ds) = quiet ds"
| "quiet (Failed a e # ds) = (\<not> a \<and> ds = [])"

definition calm :: "bworld \<Rightarrow> bool" where
  "calm w \<longleftrightarrow> quiet (bw_redis w) \<and> bw_ctx w = []"

lemma redis_call_quiet:
  assumes "quiet (bw_redis w)"
  obtains ds where "quiet ds" "redis_call f w = (Inr (fst (f (w\<lparr>bw_redis := ds\<rparr>))), snd (f (w\<lparr>bw_redis := ds\<rparr>)))"
  | e where "redis_call f w = (Inl e, w\<lparr>bw_redis := []\<rparr>)"
proof (cases "bw_redis w")
  case Nil
  then have e: "w\<lparr>bw_redis := []\<rparr> = w" by simp
  have "redis_call f w = (Inr (fst (f w)), snd (f w))" using Nil by (simp add: redis_call_def split: prod.split)
  then show thesis using that(1) [of "[]"] unfolding e by simp
next
  case (Cons d ds)
  with assms show thesis
    by (cases d) (use that in \<open>auto simp: redis_call_def split: prod.splits\<close>)
qed

lemma settle_calm:
  assumes "calm w"
  shows "bw_store (settle_ladder now t 0 w) = snd (budgetSettleScript (task_call t) (bw_store w)) \<and> calm (settle_ladder now t 0 w)"
proof -
  have ok: "settle_ladder now t a v = w1" if "runSettleScript t v = (Inr n, w1)" for a v n w1
    by (subst settle_ladder.simps) (simp add: that)
  let ?f = "on_store (budgetSettleScript (task_call t))"
  have q: "quiet (bw_redis w)" using assms by (simp add: calm_def)
  from q show ?thesis
  proof (rule redis_call_quiet [where f = ?f])
    fix ds assume a: "quiet ds" "redis_call ?f w = (Inr (fst (?f (w\<lparr>bw_redis := ds\<rparr>))), snd (?f (w\<lparr>bw_redis := ds\<rparr>)))"
    then show ?thesis using ok [of w _ _ 0] assms by (auto simp: runSettleScript_def snd_on_store calm_def)
  next
    fix e assume a: "redis_call ?f w = (Inl e, w\<lparr>bw_redis := []\<rparr>)"
    have "settle_ladder now t 0 w = settle_ladder now t 1 (w\<lparr>bw_redis := []\<rparr>)"
      using a assms by (subst settle_ladder.simps) (simp add: runSettleScript_def ctx_over_def calm_def)
    moreover have "runSettleScript t (w\<lparr>bw_redis := []\<rparr>) =
        (Inr (fst (?f (w\<lparr>bw_redis := []\<rparr>))), snd (?f (w\<lparr>bw_redis := []\<rparr>)))"
      by (simp add: runSettleScript_def redis_call_def split: prod.split)
    ultimately show ?thesis using ok [of "w\<lparr>bw_redis := []\<rparr>" _ _ 1] assms by (simp add: snd_on_store calm_def)
  qed
qed

definition limited :: "BudgetScope list \<Rightarrow> BudgetScope list" where
  "limited scs = filter (\<lambda>sc. 0 < bs_limit sc) scs"

definition scope_calls :: "int \<Rightarrow> (bytes \<Rightarrow> bytes) \<Rightarrow> bytes \<Rightarrow> rat \<Rightarrow> BudgetScope list \<Rightarrow> reserve_call list" where
  "scope_calls expiry pkOf req est scs = map (\<lambda>sc. scope_call expiry (pkOf (bs_period sc)) req est sc) (limited scs)"

text \<open>The bookkeeping of the scopes passed so far.\<close>

definition booked :: "(bytes \<Rightarrow> bytes) \<Rightarrow> rat \<Rightarrow> BudgetScope list \<Rightarrow> BudgetReservations \<Rightarrow> bool" where
  "booked pkOf est scs res \<longleftrightarrow> list_all (\<lambda>sc. br_reserved res (bs_scope sc) = (if 0 < bs_limit sc then Some est else None) \<and>
     (0 < bs_limit sc \<longrightarrow> br_keys res (bs_scope sc) = Some (pkOf (bs_period sc)))) scs"

text \<open>Nothing that waits is forgotten: ledger and queue only grow, and so does the number of losses.\<close>

definition grown :: "bworld \<Rightarrow> bworld \<Rightarrow> bool" where
  "grown w w1 \<longleftrightarrow> fst ` set (bw_ledger w) \<subseteq> fst ` set (bw_ledger w1) \<and> set (bw_queue w) \<subseteq> set (bw_queue w1) \<and> bw_lost w \<le> bw_lost w1"

lemma grown_refl [simp]: "grown w w"
  by (simp add: grown_def)

lemma grown_trans: "grown w w1 \<Longrightarrow> grown w1 w2 \<Longrightarrow> grown w w2"
  by (auto simp: grown_def)

lemma grown_same: "same_queues w w1 \<Longrightarrow> grown w w1"
  by (simp add: grown_def same_queues_def)

lemma grown_enqueue:
  assumes "enqueueSettleRetry now t w = (ok, w1)"
  shows "grown w w1"
proof -
  obtain r w2 where c: "redis_call (\<lambda>w. ((), w\<lparr>bw_ledger := zadd (ledgerMember t) (now div 1000000000) (bw_ledger w)\<rparr>)) w = (r, w2)" by fastforce
  have "fst ` set (bw_ledger w) \<subseteq> fst ` set (bw_ledger w2)" using ledger_call [OF c] fst_zadd [of "ledgerMember t" _ "bw_ledger w"] by force
  then have l: "grown w w2" using ledger_call [OF c] by (simp add: grown_def)
  show ?thesis
  proof (cases r)
    case (Inl e)
    then have "w1 = w2\<lparr>bw_queue := bw_queue w2 @ [t]\<rparr> \<or> w1 = w2\<lparr>bw_lost := bw_lost w2 + 1\<rparr>"
      using assms by (auto simp: enqueueSettleRetry_def persistLedgerEntry_def c split: if_splits)
    then have "grown w2 w1" by (auto simp: grown_def)
    with l show ?thesis by (rule grown_trans)
  next
    case (Inr x)
    then show ?thesis using assms l by (simp add: enqueueSettleRetry_def persistLedgerEntry_def c)
  qed
qed

lemma grown_ladder: "grown w (settle_ladder now t a w)"
proof (induction now t a w rule: settle_ladder.induct)
  case (1 now t a w)
  obtain r w1 where r: "runSettleScript t w = (r, w1)" by fastforce
  obtain over w2 where c: "ctx_over w1 = (over, w2)" by fastforce
  have l1: "grown w w1" using runSettleScript_cases [OF r] grown_same by blast
  have l2: "grown w w2" using c runSettleScript_cases [OF r] by (auto simp: grown_def same_queues_def ctx_over_def split: list.splits)
  show ?case
  proof (cases r)
    case (Inr n)
    with l1 show ?thesis by (subst settle_ladder.simps) (simp add: r)
  next
    case (Inl e)
    show ?thesis
    proof (cases "a \<ge> 4 \<or> over")
      case True
      obtain ok w3 where e: "enqueueSettleRetry now (t\<lparr>tk_deadline := now + settleRetryHorizon\<rparr>) w2 = (ok, w3)" by fastforce
      have "settle_ladder now t a w = w3" using True by (subst settle_ladder.simps) (auto simp: r c e Inl)
      then show ?thesis using grown_trans [OF l2 grown_enqueue [OF e]] by simp
    next
      case False
      then have l: "settle_ladder now t a w = settle_ladder now t (a + 1) w2" by (subst settle_ladder.simps) (simp add: r c Inl)
      from "1.IH" [OF r [symmetric] Inl c [symmetric] False] show ?thesis unfolding l by (rule grown_trans [OF l2])
    qed
  qed
qed

text \<open>The refund of a reservation: its settlement at no cost; and that it waits to be repeated or was counted as lost.\<close>

definition refund_task :: "int \<Rightarrow> reserve_call \<Rightarrow> settle_task" where
  "refund_task deadline c = \<lparr>tk_scope = rc_scope c, tk_target = rc_target c, tk_period = rc_period c, tk_pk = rc_pk c, tk_req = rc_req c,
     tk_cost = 0, tk_deadline = deadline\<rparr>"

definition waiting :: "settle_task \<Rightarrow> bworld \<Rightarrow> bworld \<Rightarrow> bool" where
  "waiting t w w1 \<longleftrightarrow> ledgerMember t \<in> fst ` set (bw_ledger w1) \<or> t \<in> set (bw_queue w1) \<or> bw_lost w < bw_lost w1"

lemma waiting_mono: "waiting t w w1 \<Longrightarrow> grown w1 w2 \<Longrightarrow> waiting t w w2"
  by (auto simp: waiting_def grown_def)

lemma waiting_grown: "waiting t w1 w2 \<Longrightarrow> grown w w1 \<Longrightarrow> waiting t w w2"
  by (auto simp: waiting_def grown_def)

text \<open>One refund: done, or not done and waiting; done for certain when Redis answers.\<close>

lemma refund_one:
  assumes "held s0 (as @ c # cs) (bw_store w)" "fresh_calls s0 (as @ c # cs)"
    and "w1 = settle_ladder now (refund_task 0 c) 0 (journal_append (refund_task 0 c) w)"
  shows "grown w w1" "calm w \<Longrightarrow> calm w1"
    and "bw_store w1 = snd (budgetSettleScript (task_call (refund_task 0 c)) (bw_store w)) \<or>
      \<not> calm w \<and> bw_store w1 = bw_store w \<and> waiting (refund_task (now + settleRetryHorizon) c) w w1"
proof -
  let ?t = "refund_task 0 c" and ?j = "journal_append (refund_task 0 c) w"
  have "grown w ?j" by (simp add: grown_def)
  then show "grown w w1" unfolding assms(3) by (rule grown_trans [OF _ grown_ladder])
  have cj: "calm w \<Longrightarrow> calm ?j" by (auto simp: calm_def journal_append_def split: option.split list.split)
  then show "calm w \<Longrightarrow> calm w1" using settle_calm [of ?j now ?t] assms(3) by simp
  have "map_of (rb_shadowmark (bw_store w)) (rc_rkey c) = None"
    using assms(1,2) by (simp add: held_def fresh_calls_def fresh_key_def)
  then have "one_marker (bw_store w) (sc_rkey (task_call ?t))"
    by (simp add: one_marker_def task_call_def refund_task_def sc_rkey_def rc_rkey_def)
  from ladder_once [OF this, of ?j now 0]
  have "bw_store w1 = snd (budgetSettleScript (task_call ?t) (bw_store w)) \<or>
      bw_store w1 = bw_store w \<and> deferred (?t\<lparr>tk_deadline := now + settleRetryHorizon\<rparr>) ?j w1" using assms(3) by simp
  moreover have "bw_store w1 = snd (budgetSettleScript (task_call ?t) (bw_store w))" if "calm w"
    using settle_calm [OF cj [OF that], of now ?t] assms(3) by simp
  ultimately show "bw_store w1 = snd (budgetSettleScript (task_call ?t) (bw_store w)) \<or>
      \<not> calm w \<and> bw_store w1 = bw_store w \<and> waiting (refund_task (now + settleRetryHorizon) c) w w1"
    by (auto simp: deferred_def waiting_def refund_task_def)
qed

text \<open>
  What the refunds leave: the requests \<open>R\<close> are closed off, the reservations \<open>left\<close> are still held with their refunds waiting.
\<close>

definition refunded :: "int \<Rightarrow> budget_store \<Rightarrow> reserve_call list \<Rightarrow> reserve_call list \<Rightarrow> reserve_call list \<Rightarrow> bworld \<Rightarrow> bworld \<Rightarrow>
    reserve_call list \<Rightarrow> rkey set \<Rightarrow> bool" where
  "refunded now s0 as cs bs w w1 left R \<longleftrightarrow>
     held (closed_off R s0) (as @ left @ bs) (bw_store w1) \<and> set left \<subseteq> set cs \<and> R = rc_rkey ` (set cs - set left) \<and>
     list_all (\<lambda>c. waiting (refund_task (now + settleRetryHorizon) c) w w1) left \<and> grown w w1 \<and> (calm w \<longrightarrow> left = [] \<and> calm w1)"

lemma refund_all:
  assumes "held s0 (as @ scope_calls expiry pkOf req est scs @ bs) (bw_store w)"
    and "fresh_calls s0 (as @ scope_calls expiry pkOf req est scs @ bs)"
    and "booked pkOf est scs res" "distinct (map bs_scope scs)" "req \<noteq> []" "est > 0" "\<And>p. pkOf p \<noteq> []"
  shows "\<exists>left R. refunded now s0 as (scope_calls expiry pkOf req est scs) bs w (snd (refundReserved now pkOf req scs res w)) left R"
  using assms(1-4)
proof (induction scs arbitrary: s0 as res w)
  case Nil
  then have "refunded now s0 as [] bs w w [] {}" by (simp add: refunded_def scope_calls_def limited_def)
  then show ?case by (auto simp: scope_calls_def limited_def)
next
  case (Cons sc scs)
  show ?case
  proof (cases "0 < bs_limit sc")
    case False
    then have "refundReserved now pkOf req (sc # scs) res w = refundReserved now pkOf req scs res w"
      using Cons.prems(3) by (simp add: booked_def the0_def)
    then show ?thesis using Cons.IH [of s0 as w res] Cons.prems False by (simp add: scope_calls_def limited_def booked_def)
  next
    case True
    let ?c = "scope_call expiry (pkOf (bs_period sc)) req est sc" and ?cs = "scope_calls expiry pkOf req est scs"
    define w1 where "w1 = settle_ladder now (refund_task 0 ?c) 0 (journal_append (refund_task 0 ?c) w)"
    let ?res = "res\<lparr>br_reserved := (br_reserved res)(bs_scope sc := None)\<rparr>"
    have p: "the0 (br_reserved res (bs_scope sc)) = est" "key_or_empty (br_keys res (bs_scope sc)) = pkOf (bs_period sc)"
      using Cons.prems(3) True by (simp_all add: booked_def the0_def key_or_empty_def)
    have r: "refundReserved now pkOf req (sc # scs) res w = refundReserved now pkOf req scs ?res w1"
      using p assms(5-7) by (simp add: SettleScope_def Let_def w1_def refund_task_def scope_call_def)
    have cs: "scope_calls expiry pkOf req est (sc # scs) = ?c # ?cs" using True by (simp add: scope_calls_def limited_def)
    have hd: "held s0 (as @ ?c # (?cs @ bs)) (bw_store w)" and fr: "fresh_calls s0 (as @ ?c # (?cs @ bs))"
      using Cons.prems(1,2) by (simp_all add: cs)
    have d: "sc_rkey (task_call (refund_task 0 ?c)) = rc_rkey ?c" "sc_period (task_call (refund_task 0 ?c)) = rc_period ?c"
      "sc_pk (task_call (refund_task 0 ?c)) = rc_pk ?c" "sc_cost (task_call (refund_task 0 ?c)) = 0"
      by (simp_all add: task_call_def refund_task_def sc_rkey_def rc_rkey_def)
    have b: "booked pkOf est scs ?res" using Cons.prems(3,4) unfolding booked_def list_all_iff by (auto simp: image_iff)
    have ds: "distinct (map bs_scope scs)" using Cons.prems(4) by simp
    have nc: "rc_rkey ?c \<notin> rc_rkey ` set ?cs" using fr by (auto simp: fresh_calls_def)
    note one = refund_one [OF hd fr w1_def]
    from one(3) show ?thesis
    proof
      assume "bw_store w1 = snd (budgetSettleScript (task_call (refund_task 0 ?c)) (bw_store w))"
      then have h: "held (closed_off {rc_rkey ?c} s0) (as @ ?cs @ bs) (bw_store w1)" "fresh_calls (closed_off {rc_rkey ?c} s0) (as @ ?cs @ bs)"
        using held_settle [OF hd fr d] by simp_all
      obtain left R where l: "refunded now (closed_off {rc_rkey ?c} s0) as ?cs bs w1 (snd (refundReserved now pkOf req scs ?res w1)) left R"
        using Cons.IH [OF h b ds] by (elim exE)
      have "insert (rc_rkey ?c) R = rc_rkey ` (set (?c # ?cs) - set left)" using l nc by (auto simp: refunded_def)
      then have "refunded now s0 as (?c # ?cs) bs w (snd (refundReserved now pkOf req scs ?res w1)) left (insert (rc_rkey ?c) R)"
        using l grown_trans [OF one(1)] one(2) waiting_grown [OF _ one(1)] unfolding refunded_def closed_off_insert list_all_iff by auto
      then show ?thesis unfolding r cs by blast
    next
      assume o: "\<not> calm w \<and> bw_store w1 = bw_store w \<and> waiting (refund_task (now + settleRetryHorizon) ?c) w w1"
      have h: "held s0 ((as @ [?c]) @ ?cs @ bs) (bw_store w1)" "fresh_calls s0 ((as @ [?c]) @ ?cs @ bs)" using hd fr o by simp_all
      obtain left R where l: "refunded now s0 (as @ [?c]) ?cs bs w1 (snd (refundReserved now pkOf req scs ?res w1)) left R"
        using Cons.IH [OF h b ds] by (elim exE)
      have "R = rc_rkey ` (set (?c # ?cs) - set (?c # left))" using l nc by (auto simp: refunded_def)
      then have "refunded now s0 as (?c # ?cs) bs w (snd (refundReserved now pkOf req scs ?res w1)) (?c # left) R"
        using l grown_trans [OF one(1)] o waiting_grown [OF _ one(1)] waiting_mono [of _ w w1] unfolding refunded_def list_all_iff by auto
      then show ?thesis unfolding r cs by blast
    qed
  qed
qed


definition scope_bkey :: "(bytes \<Rightarrow> bytes) \<Rightarrow> BudgetScope \<Rightarrow> bkey" where
  "scope_bkey pkOf sc = (bs_scope sc, bs_id sc, pkOf (bs_period sc))"

lemma scope_call_simps [simp]:
  "rc_rkey (scope_call x pk req est sc) = (bs_scope sc, bs_id sc, req)" "rc_bkey (scope_call x pk req est sc) = (bs_scope sc, bs_id sc, pk)"
  "rc_est (scope_call x pk req est sc) = est" "rc_limit (scope_call x pk req est sc) = bs_limit sc"
  by (simp_all add: scope_call_def rc_rkey_def rc_bkey_def)

lemma fresh_scope_calls:
  assumes "distinct (map bs_scope scs)" "list_all (\<lambda>sc. fresh_key s (bs_scope sc, bs_id sc, req)) scs" "round9 est = est"
  shows "fresh_calls s (scope_calls x pkOf req est scs)"
proof -
  have "distinct (map (\<lambda>sc. (bs_scope sc, bs_id sc, req)) (limited scs))"
    using assms(1) unfolding limited_def by (induction scs) auto
  then show ?thesis using assms(2,3) by (auto simp: fresh_calls_def scope_calls_def limited_def list_all_iff comp_def)
qed

lemma tally_other: "bs_scope sc \<notin> bs_scope ` set scs \<Longrightarrow> tally rc_bkey rc_est (scope_calls x pkOf req est scs) (scope_bkey pkOf sc) = 0"
  unfolding scope_calls_def limited_def scope_bkey_def by (induction scs) auto

text \<open>
  The outcome that an admission promises for all of its scopes. When the request is rejected, \<open>strays\<close> are the reservations
  that are still held and \<open>R\<close> the requests that were refunded.
\<close>

definition admitted_ok ::
    "int \<Rightarrow> (bytes \<Rightarrow> bytes) \<Rightarrow> bytes \<Rightarrow> rat \<Rightarrow> BudgetScope list \<Rightarrow> budget_store \<Rightarrow> BudgetReservations \<Rightarrow> budget_store \<Rightarrow> bool" where
  "admitted_ok expiry pkOf req est scopes s res s' \<longleftrightarrow>
     held s (scope_calls expiry pkOf req est scopes) s' \<and> booked pkOf est scopes res \<and>
     list_all (\<lambda>sc. bs_limit sc \<le> 0 \<or> rb_budget s' (scope_bkey pkOf sc) = rb_budget s (scope_bkey pkOf sc) + est \<and>
       rb_budget s' (scope_bkey pkOf sc) \<le> bs_limit sc) scopes"

definition rejected_ok ::
    "int \<Rightarrow> int \<Rightarrow> (bytes \<Rightarrow> bytes) \<Rightarrow> bytes \<Rightarrow> rat \<Rightarrow> BudgetScope list \<Rightarrow> admission \<Rightarrow> bworld \<Rightarrow> bworld \<Rightarrow> reserve_call list \<Rightarrow> rkey set \<Rightarrow> bool" where
  "rejected_ok now expiry pkOf req est scopes adm w w' strays R \<longleftrightarrow>
     held (closed_off R (bw_store w)) strays (bw_store w') \<and> set strays \<subseteq> set (scope_calls expiry pkOf req est scopes) \<and>
     R \<subseteq> (\<lambda>sc. (bs_scope sc, bs_id sc, req)) ` set scopes \<and> R \<inter> rc_rkey ` set strays = {} \<and>
     list_all (\<lambda>c. adm = EnforcementUnavailable (rc_scope c) \<or> waiting (refund_task (now + settleRetryHorizon) c) w w') strays \<and>
     (calm w \<longrightarrow> strays = [])"

definition admission_ok ::
    "int \<Rightarrow> int \<Rightarrow> (bytes \<Rightarrow> bytes) \<Rightarrow> bytes \<Rightarrow> rat \<Rightarrow> BudgetScope list \<Rightarrow> BudgetReservations \<Rightarrow> admission \<Rightarrow> bworld \<Rightarrow> bworld \<Rightarrow> bool" where
  "admission_ok now expiry pkOf req est scopes res adm w w' \<longleftrightarrow>
     (if adm = Admitted then admitted_ok expiry pkOf req est scopes (bw_store w) res (bw_store w')
      else \<exists>strays R. rejected_ok now expiry pkOf req est scopes adm w w' strays R)"

lemma admitted_budget:
  assumes "held s0 (scope_calls x pkOf req est scs) s" "distinct (map bs_scope scs)" "sc \<in> set scs" "0 < bs_limit sc"
  shows "rb_budget s (scope_bkey pkOf sc) = rb_budget s0 (scope_bkey pkOf sc) + est"
proof -
  obtain xs ys where b: "scs = xs @ sc # ys" using split_list [OF assms(3)] by blast
  have "tally rc_bkey rc_est (scope_calls x pkOf req est xs) (scope_bkey pkOf sc) = 0"
    "tally rc_bkey rc_est (scope_calls x pkOf req est ys) (scope_bkey pkOf sc) = 0"
    by (rule tally_other, use assms(2) b in simp)+
  then have "tally rc_bkey rc_est (scope_calls x pkOf req est scs) (scope_bkey pkOf sc) = est"
    using assms(4) by (simp add: b scope_calls_def limited_def scope_bkey_def)
  then show ?thesis using held_budget [OF assms(1)] by simp
qed

lemma scope_calls_keys: "rc_rkey ` set (scope_calls x pkOf req est scs) \<subseteq> (\<lambda>sc. (bs_scope sc, bs_id sc, req)) ` set scs"
  by (auto simp: scope_calls_def limited_def)

lemma rejected_refund:
  assumes "refunded now (bw_store w0) [] (scope_calls x pkOf req est before) bs w1 w' left R"
    and "grown w0 w1" "calm w0 \<longrightarrow> calm w1 \<and> bs = []" "set bs \<subseteq> set (scope_calls x pkOf req est scopes)" "set before \<subseteq> set scopes"
    and "list_all (\<lambda>c. adm = EnforcementUnavailable (rc_scope c)) bs" "fresh_calls (bw_store w0) (scope_calls x pkOf req est before @ bs)"
  shows "rejected_ok now x pkOf req est scopes adm w0 w' (left @ bs) R"
proof -
  have s: "set (scope_calls x pkOf req est before) \<subseteq> set (scope_calls x pkOf req est scopes)"
    using assms(5) by (auto simp: scope_calls_def limited_def)
  have inj: "inj_on rc_rkey (set (scope_calls x pkOf req est before @ bs))" using assms(7) unfolding fresh_calls_def distinct_map by blast
  have l: "set left \<subseteq> set (scope_calls x pkOf req est before)" "R = rc_rkey ` (set (scope_calls x pkOf req est before) - set left)"
    using assms(1) by (simp_all add: refunded_def)
  have "R \<inter> rc_rkey ` set (left @ bs) = {}"
  proof -
    have "rc_rkey c \<noteq> rc_rkey d" if "c \<in> set (scope_calls x pkOf req est before) - set left" "d \<in> set (left @ bs)" for c d
    proof -
      have "c \<noteq> d" using that assms(7) by (auto simp: fresh_calls_def distinct_map)
      moreover have "d \<in> set (scope_calls x pkOf req est before @ bs)" using that(2) l(1) by auto
      ultimately show ?thesis using inj_onD [OF inj, of c d] that(1) by auto
    qed
    then show ?thesis unfolding l(2) by blast
  qed
  moreover have "R \<subseteq> (\<lambda>sc. (bs_scope sc, bs_id sc, req)) ` set scopes"
    using l(2) scope_calls_keys [of x pkOf req est before] assms(5) by blast
  moreover have "list_all (\<lambda>c. adm = EnforcementUnavailable (rc_scope c) \<or> waiting (refund_task (now + settleRetryHorizon) c) w0 w') (left @ bs)"
    using assms(1,2,6) by (auto simp: refunded_def list_all_iff intro: waiting_grown)
  ultimately show ?thesis using assms(1,3,4) s by (auto simp: rejected_ok_def refunded_def)
qed

lemma reserve_step:
  assumes "redis_call (on_store f) w = (r, w1)"
  shows "same_queues w w1" "calm w \<Longrightarrow> calm w1"
    and "case r of Inr x \<Rightarrow> x = fst (f (bw_store w)) \<and> bw_store w1 = snd (f (bw_store w))
      | Inl _ \<Rightarrow> bw_store w1 = bw_store w \<or> \<not> calm w \<and> bw_store w1 = snd (f (bw_store w))"
proof -
  obtain x s where f: "f (bw_store w) = (x, s)" by fastforce
  have "same_queues w w1 \<and> (calm w \<longrightarrow> calm w1) \<and> (case r of Inr x \<Rightarrow> x = fst (f (bw_store w)) \<and> bw_store w1 = snd (f (bw_store w))
      | Inl _ \<Rightarrow> bw_store w1 = bw_store w \<or> \<not> calm w \<and> bw_store w1 = snd (f (bw_store w)))"
  proof (cases "bw_redis w")
    case Nil
    then show ?thesis using assms f by (auto simp: redis_call_def on_store_def same_queues_def calm_def)
  next
    case (Cons d ds)
    then show ?thesis using assms f by (cases d) (auto simp: redis_call_def on_store_def same_queues_def calm_def split: if_splits)
  qed
  then show "same_queues w w1" "calm w \<Longrightarrow> calm w1" "case r of Inr x \<Rightarrow> x = fst (f (bw_store w)) \<and> bw_store w1 = snd (f (bw_store w))
      | Inl _ \<Rightarrow> bw_store w1 = bw_store w \<or> \<not> calm w \<and> bw_store w1 = snd (f (bw_store w))" by blast+
qed

text \<open>The state of an admission before the scopes \<open>scs\<close>.\<close>

definition admitting ::
    "int \<Rightarrow> (bytes \<Rightarrow> bytes) \<Rightarrow> bytes \<Rightarrow> rat \<Rightarrow> bworld \<Rightarrow> BudgetScope list \<Rightarrow> BudgetScope list \<Rightarrow> BudgetReservations \<Rightarrow> bworld \<Rightarrow> bool" where
  "admitting x pkOf req est w0 before scs res w \<longleftrightarrow>
     held (bw_store w0) (scope_calls x pkOf req est before) (bw_store w) \<and> booked pkOf est before res \<and>
     (\<forall>n. n \<notin> bs_scope ` set before \<longrightarrow> br_reserved res n = None) \<and>
     list_all (\<lambda>sc. bs_limit sc \<le> 0 \<or> rb_budget (bw_store w0) (scope_bkey pkOf sc) + est \<le> bs_limit sc) before \<and>
     distinct (map bs_scope (before @ scs)) \<and> list_all (\<lambda>sc. fresh_key (bw_store w0) (bs_scope sc, bs_id sc, req)) (before @ scs) \<and>
     round9 est = est \<and> req \<noteq> [] \<and> est > 0 \<and> (\<forall>p. pkOf p \<noteq> []) \<and> grown w0 w \<and> (calm w0 \<longrightarrow> calm w)"

lemma admitting_fresh:
  assumes "admitting x pkOf req est w0 before scs res w" "scs = sc # rest"
  shows "fresh_calls (bw_store w0) (scope_calls x pkOf req est (before @ [sc]))" "fresh_calls (bw_store w0) (scope_calls x pkOf req est before)"
proof -
  show f: "fresh_calls (bw_store w0) (scope_calls x pkOf req est (before @ [sc]))"
    by (rule fresh_scope_calls) (use assms in \<open>simp_all add: admitting_def\<close>)
  then show "fresh_calls (bw_store w0) (scope_calls x pkOf req est before)" by (auto simp: fresh_calls_def scope_calls_def limited_def)
qed

lemma admitting_reject:
  assumes "admitting x pkOf req est w0 before (sc # scs) res w" "0 < bs_limit sc" "same_queues w w1" "calm w \<longrightarrow> calm w1 \<and> bs = []"
    and "held (bw_store w0) (scope_calls x pkOf req est before @ bs) (bw_store w1)"
    and "bs = [] \<or> bs = [scope_call x (pkOf (bs_period sc)) req est sc] \<and> adm = EnforcementUnavailable (bs_scope sc)"
    and "refundReserved now pkOf req before res w1 = (res1, w')"
  shows "\<exists>strays R. rejected_ok now x pkOf req est (before @ sc # scs) adm w0 w' strays R"
proof -
  let ?c = "scope_call x (pkOf (bs_period sc)) req est sc"
  note a = assms(1) [unfolded admitting_def]
  have cs: "scope_calls x pkOf req est (before @ [sc]) = scope_calls x pkOf req est before @ [?c]"
    using assms(2) by (simp add: scope_calls_def limited_def)
  have fr: "fresh_calls (bw_store w0) (scope_calls x pkOf req est before @ bs)"
    using admitting_fresh [OF assms(1) refl] assms(6) unfolding cs by auto
  have "\<exists>left R. refunded now (bw_store w0) [] (scope_calls x pkOf req est before) bs w1 (snd (refundReserved now pkOf req before res w1)) left R"
    by (rule refund_all) (use a assms(5) fr in simp_all)
  then obtain left R where l: "refunded now (bw_store w0) [] (scope_calls x pkOf req est before) bs w1 w' left R"
    unfolding assms(7) by auto
  have lt: "grown w0 w1" using a grown_trans [OF _ grown_same [OF assms(3)]] by blast
  have "rejected_ok now x pkOf req est (before @ sc # scs) adm w0 w' (left @ bs) R"
  proof (rule rejected_refund [OF l lt])
    show "calm w0 \<longrightarrow> calm w1 \<and> bs = []" using a assms(4) by blast
    show "set bs \<subseteq> set (scope_calls x pkOf req est (before @ sc # scs))" using assms(2,6) by (auto simp: scope_calls_def limited_def)
    show "list_all (\<lambda>c. adm = EnforcementUnavailable (rc_scope c)) bs" using assms(6) by (auto simp: scope_call_def)
  qed (use fr in auto)
  then show ?thesis by blast
qed

lemma admitting_skip:
  "admitting x pkOf req est w0 before (sc # scs) res w \<Longrightarrow> bs_limit sc \<le> 0 \<Longrightarrow> admitting x pkOf req est w0 (before @ [sc]) scs res w"
  by (auto simp: admitting_def booked_def scope_calls_def limited_def)

lemma admitting_next:
  assumes "admitting x pkOf req est w0 before (sc # scs) res w" "0 < bs_limit sc" "same_queues w w1" "calm w \<longrightarrow> calm w1"
    and "held (bw_store w0) (scope_calls x pkOf req est (before @ [sc])) (bw_store w1)"
    and "rb_budget (bw_store w) (scope_bkey pkOf sc) + est \<le> bs_limit sc"
  shows "admitting x pkOf req est w0 (before @ [sc]) scs
    (res\<lparr>br_reserved := (br_reserved res)(bs_scope sc \<mapsto> est), br_keys := (br_keys res)(bs_scope sc \<mapsto> pkOf (bs_period sc))\<rparr>) w1"
proof -
  note a = assms(1) [unfolded admitting_def]
  have n: "bs_scope y \<noteq> bs_scope sc" if "y \<in> set before" for y using a imageI [OF that, of bs_scope] by auto
  have "tally rc_bkey rc_est (scope_calls x pkOf req est before) (scope_bkey pkOf sc) = 0" by (rule tally_other) (use n in force)
  then have "rb_budget (bw_store w0) (scope_bkey pkOf sc) + est \<le> bs_limit sc" using held_budget [OF conjunct1 [OF a], of "scope_bkey pkOf sc"] assms(6) by simp
  moreover have "grown w0 w1" using a grown_trans [OF _ grown_same [OF assms(3)]] by blast
  ultimately show ?thesis unfolding admitting_def using a assms(2,4,5) n by (auto simp: booked_def list_all_iff)
qed

lemma reserve_scopes_outcome:
  assumes "admitting x pkOf req est w0 before scs res w" "reserve_scopes now x pkOf req est before scs res w = ((res', adm), w')"
  shows "admission_ok now x pkOf req est (before @ scs) res' adm w0 w'"
  using assms
proof (induction scs arbitrary: before res w)
  case Nil
  then have "admitted_ok x pkOf req est before (bw_store w0) res (bw_store w)"
    unfolding admitting_def admitted_ok_def list_all_iff using admitted_budget [of "bw_store w0" x pkOf req est before "bw_store w"] by fastforce
  with Nil.prems(2) show ?case by (auto simp: admission_ok_def)
next
  case (Cons sc scs)
  note a = Cons.prems(1) [unfolded admitting_def]
  show ?case
  proof (cases "bs_limit sc \<le> 0")
    case True
    then show ?thesis using Cons.IH [OF admitting_skip [OF Cons.prems(1) True]] Cons.prems(2) by simp
  next
    case False
    let ?c = "scope_call x (pkOf (bs_period sc)) req est sc"
    let ?cs = "scope_calls x pkOf req est before"
    obtain r w1 where r: "redis_call (on_store (budgetReserveMarkScript ?c)) w = (r, w1)" by fastforce
    obtain q s1 where s1: "budgetReserveMarkScript ?c (bw_store w) = (q, s1)" by fastforce
    have cs: "scope_calls x pkOf req est (before @ [sc]) = ?cs @ [?c]" using False by (simp add: scope_calls_def limited_def)
    have hr: "if rr_exceeded q then s1 = bw_store w \<and> \<not> rr_reserved q
        else rr_reserved q \<and> held (bw_store w0) (?cs @ [?c]) s1 \<and> rb_budget (bw_store w) (scope_bkey pkOf sc) + est \<le> bs_limit sc"
      using held_reserve [OF _ admitting_fresh(1) [OF Cons.prems(1) refl, unfolded cs] s1] a
      unfolding scope_bkey_def by (cases "rr_exceeded q") simp_all
    obtain res1 v where v: "refundReserved now pkOf req before res w1 = (res1, v)" by fastforce
    have pos: "0 < bs_limit sc" using False by simp
    note st = reserve_step [OF r]
    have rej: "\<exists>strays R. rejected_ok now x pkOf req est (before @ sc # scs) adm w0 v strays R"
      if "calm w \<longrightarrow> bs = []" "held (bw_store w0) (?cs @ bs) (bw_store w1)" "bs = [] \<or> bs = [?c] \<and> adm = EnforcementUnavailable (bs_scope sc)" for bs
      by (rule admitting_reject [OF Cons.prems(1) pos st(1) _ that(2,3) v]) (use st(2) that(1) in blast)
    show ?thesis
    proof (cases r)
      case (Inl e)
      have o: "adm = EnforcementUnavailable (bs_scope sc) \<and> w' = v"
        using Cons.prems(2) False a Inl by (simp add: reserveScopeMarkedE_def r v)
      have "\<exists>strays R. rejected_ok now x pkOf req est (before @ sc # scs) adm w0 v strays R"
      proof (cases "bw_store w1 = bw_store w")
        case True
        then show ?thesis using rej [of "[]"] a by simp
      next
        case n: False
        then have "\<not> calm w" "bw_store w1 = s1" using st(3) Inl s1 by auto
        then show ?thesis using rej [of "[?c]"] hr n o by (auto split: if_splits)
      qed
      with o show ?thesis by (auto simp: admission_ok_def)
    next
      case (Inr y)
      have y: "y = q" "bw_store w1 = s1" using st(3) Inr s1 by simp_all
      show ?thesis
      proof (cases "rr_exceeded q")
        case True
        have o: "adm = Exceeded (bs_scope sc) \<and> w' = v" using Cons.prems(2) False a Inr y True by (simp add: reserveScopeMarkedE_def r v)
        with rej [of "[]"] hr y True a show ?thesis by (auto simp: admission_ok_def)
      next
        case ok: False
        have h: "rr_reserved q" "held (bw_store w0) (scope_calls x pkOf req est (before @ [sc])) (bw_store w1)"
          "rb_budget (bw_store w) (scope_bkey pkOf sc) + est \<le> bs_limit sc" using hr ok y(2) unfolding cs by simp_all
        note nx = admitting_next [OF Cons.prems(1) pos st(1) _ h(2,3)]
        show ?thesis using Cons.IH [OF nx] st(2) Cons.prems(2) False a Inr y ok h(1) by (simp add: reserveScopeMarkedE_def r)
      qed
    qed
  qed
qed

lemma admission_outcome:
  assumes "distinct (map bs_scope scopes)" "list_all (\<lambda>sc. fresh_key (bw_store w) (bs_scope sc, bs_id sc, req)) scopes"
    and "round9 estimate = estimate" "req \<noteq> []" "estimate > 0" "\<And>p. pkOf p \<noteq> []"
    and "ReserveForRequestE now expiry pkOf scopes estimate req w = ((res, adm), w')" "scopes \<noteq> []"
  shows "admission_ok now expiry pkOf req estimate scopes res adm w w'"
proof -
  have "admitting expiry pkOf req estimate w [] scopes no_reservations w"
    using assms(1-6) by (simp add: admitting_def scope_calls_def limited_def held_Nil booked_def no_reservations_def)
  from reserve_scopes_outcome [OF this] assms(5,7,8) show ?thesis by (simp add: ReserveForRequestE_def)
qed

text \<open>
  C4: Admission is all or nothing, up to what Redis does not answer. A new request that reserves on its key, team and
  organisation is either admitted, and then exactly the estimate is reserved on every limited scope, with its marker and its
  hold, and each counter stays within its limit; or it is rejected, and then every counter, marker and hold is as before,
  except for strays: the reservation whose reply was lost, which is why the request was rejected, and those whose
  refund waits in the ledger or the queue or was counted as lost. A stray is a complete hold with its expiry,
  left to the reaper. The refunded scopes are closed to any further settlement of the request, and no other marker
  changes. This holds for every sequence of deliveries and failures; there are no strays when Redis answers, with at
  most one call that fails without having been executed.
\<close>

theorem reserve_all_or_nothing:
  assumes "distinct (map bs_scope scopes)" "list_all (\<lambda>sc. fresh_key (bw_store w) (bs_scope sc, bs_id sc, req)) scopes"
    and "round9 estimate = estimate" "req \<noteq> []" "estimate > 0" "\<And>p. pkOf p \<noteq> []" "scopes \<noteq> []"
    and "ReserveForRequestE now expiry pkOf scopes estimate req w = ((res, adm), w')"
  shows "admission_ok now expiry pkOf req estimate scopes res adm w w'"
  by (rule admission_outcome [OF assms(1-6,8,7)])

lemma admitted_held:
  assumes "distinct (map bs_scope scopes)" "list_all (\<lambda>sc. fresh_key (bw_store w) (bs_scope sc, bs_id sc, req)) scopes"
    and "round9 estimate = estimate" "req \<noteq> []" "estimate > 0" "\<And>p. pkOf p \<noteq> []"
    and "ReserveForRequestE now expiry pkOf scopes estimate req w = ((res, Admitted), w')" "scopes \<noteq> []"
  shows "held (bw_store w) (scope_calls expiry pkOf req estimate scopes) (bw_store w')" "booked pkOf estimate scopes res"
  using admission_outcome [OF assms] by (simp_all add: admission_ok_def admitted_ok_def)


section \<open>Concrete runs\<close>

definition sample_world :: "budget_store \<Rightarrow> delivery list \<Rightarrow> bworld" where
  "sample_world s ds = \<lparr>bw_store = s, bw_calls = (\<lambda>_. 0), bw_ledger = [], bw_queue = [], bw_lost = 0, bw_journal = None,
     bw_redis = ds, bw_ctx = [], bw_disk = []\<rparr>"

definition sample_task :: settle_task where
  "sample_task = \<lparr>tk_scope = ''key'', tk_target = ''7'', tk_period = ''monthly'', tk_pk = ''2026-11'', tk_req = ''r1'', tk_cost = 3,
     tk_deadline = 600000000000\<rparr>"

definition sample_scopes :: "BudgetScope list" where
  "sample_scopes = [\<lparr>bs_scope = ''key'', bs_id = ''7'', bs_period = ''monthly'', bs_limit = 20\<rparr>,
     \<lparr>bs_scope = ''org'', bs_id = ''1'', bs_period = ''daily'', bs_limit = 4\<rparr>]"

lemma sample_one_marker: "one_marker sample_held (''key'', ''7'', ''r1'')" "sc_rkey (task_call sample_task) = (''key'', ''7'', ''r1'')"
  by (simp_all add: one_marker_def sample_defs task_call_def sample_task_def)

text \<open>The reply of the first attempt is lost after the script was applied.\<close>

theorem settle_scope_once_witness:
  "let w' = SettleScope 0 (\<lambda>_. ''2026-11'') ''key'' ''7'' ''monthly'' ''2026-11'' ''r1'' 3 (sample_world sample_held [Failed True (OtherErr ''i/o timeout'')])
   in bw_store w' = snd (budgetSettleScript (task_call sample_task) sample_held) \<or>
      bw_store w' = sample_held \<and>
        (ledgerMember sample_task \<in> fst ` set (bw_ledger w') \<or> sample_task \<in> set (bw_queue w') \<or> bw_lost w' = 1)"
proof -
  let ?w = "sample_world sample_held [Failed True (OtherErr ''i/o timeout'')]"
  have m: "one_marker (bw_store ?w) (''key'', ''7'', ''r1'')" using sample_one_marker by (simp add: sample_world_def)
  have t: "sample_task = \<lparr>tk_scope = ''key'', tk_target = ''7'', tk_period = ''monthly'', tk_pk = ''2026-11'', tk_req = ''r1'', tk_cost = 3,
      tk_deadline = 0 + settleRetryHorizon\<rparr>"
    by (simp add: sample_task_def settleRetryHorizon_def)
  have "''r1'' \<noteq> []" "''2026-11'' \<noteq> []" "bw_store ?w = sample_held" "bw_lost ?w = 0" by (simp_all add: sample_world_def)
  with settle_scope_once [OF _ _ m t refl, of "\<lambda>_. ''2026-11''"] show ?thesis by (simp add: Let_def)
qed

theorem ledger_drain_conserves_witness:
  "let w = (sample_world sample_held [Failed False ErrPoolTimeout])\<lparr>bw_ledger := [(LedgerTask sample_task, 0)]\<rparr>;
       w' = drain_member 0 w (LedgerTask sample_task)
   in bw_store w' = snd (budgetSettleScript (task_call sample_task) sample_held) \<or> LedgerTask sample_task \<in> entries w'"
proof -
  let ?w = "(sample_world sample_held [Failed False ErrPoolTimeout])\<lparr>bw_ledger := [(LedgerTask sample_task, 0)]\<rparr>"
  have m: "one_marker (bw_store ?w) (sc_rkey (task_call sample_task))" using sample_one_marker by (simp add: sample_world_def)
  have e: "LedgerTask sample_task \<in> entries ?w" by (simp add: entries_def)
  have "bw_store ?w = sample_held" "\<not> tk_deadline sample_task < 0" by (simp_all add: sample_world_def sample_task_def)
  with ledger_drain_conserves [OF m e refl, of 0] show ?thesis by (simp add: Let_def)
qed

theorem queued_task_ends_witness:
  "\<exists>w'. processSettleTask [0, 700000000000] sample_task (sample_world sample_held []) = Some w' \<and>
     bw_store w' \<in> {sample_held, snd (budgetSettleScript (task_call sample_task) sample_held)}"
proof -
  have m: "one_marker (bw_store (sample_world sample_held [])) (sc_rkey (task_call sample_task))"
    using sample_one_marker by (simp add: sample_world_def)
  have "list_ex (\<lambda>now. tk_deadline sample_task < now) [0, 700000000000]" by (simp add: sample_task_def)
  from queued_task_ends [OF m this] show ?thesis by (simp add: sample_world_def)
qed

text \<open>The key has room for the estimate of 5, the organisation has not.\<close>

text \<open>The key scope is reserved, then the reply of the organisation's reservation is lost after it was executed: one stray is left.\<close>

definition sample_lost :: "(BudgetReservations \<times> admission) \<times> bworld" where
  "sample_lost = ReserveForRequestE 0 900 (\<lambda>p. ''p'') (map (bs_limit_update (\<lambda>_. 20)) sample_scopes) 5 ''r1''
     (sample_world empty_store [Delivered, Failed True (OtherErr ''i/o timeout'')])"

theorem reserve_all_or_nothing_witness:
  "snd (fst sample_lost) = EnforcementUnavailable ''org'' \<and>
   (\<exists>strays R. rejected_ok 0 900 (\<lambda>p. ''p'') ''r1'' 5 (map (bs_limit_update (\<lambda>_. 20)) sample_scopes) (EnforcementUnavailable ''org'')
      (sample_world empty_store [Delivered, Failed True (OtherErr ''i/o timeout'')]) (snd sample_lost) strays R)"
proof -
  let ?w = "sample_world empty_store [Delivered, Failed True (OtherErr ''i/o timeout'')]" and ?scs = "map (bs_limit_update (\<lambda>_. 20)) sample_scopes"
  have h: "distinct (map bs_scope ?scs)" "list_all (\<lambda>sc. fresh_key (bw_store ?w) (bs_scope sc, bs_id sc, ''r1'')) ?scs" "?scs \<noteq> []"
    by (simp_all add: sample_scopes_def sample_world_def fresh_key_def empty_store_def)
  have a: "snd (fst sample_lost) = EnforcementUnavailable ''org''"
    by (simp add: sample_lost_def ReserveForRequestE_def reserveScopeMarkedE_def redis_call_def on_store_def scope_call_def sample_world_def
      sample_scopes_def sample_defs no_reservations_def split: prod.split)
  have r: "ReserveForRequestE 0 900 (\<lambda>p. ''p'') ?scs 5 ''r1'' ?w = ((fst (fst sample_lost), EnforcementUnavailable ''org''), snd sample_lost)"
    unfolding a [symmetric] by (simp add: sample_lost_def)
  from reserve_all_or_nothing [OF h(1,2) round9_5 _ _ _ h(3) r] a show ?thesis by (simp add: admission_ok_def)
qed

end
