(* ===== verification/Settle_Journal.thy ===== *)
theory Settle_Journal
  imports Budget_Service
begin

text \<open>
  The crash journal of settlements, \<^verbatim>\<open>internal/service/settle_journal.go\<close>: intents are appended to the active file; a round
  seals the active file and replays the sealed segments under the calibration lock. Files are lists of lines;
  the clock, the answers of the lease check and the results of file operations are arguments or
  outcomes in the state.
\<close>

section \<open>Lines and files\<close>

record journalLine =
  jl_Scope :: bytes
  jl_Target :: bytes
  jl_Period :: bytes
  jl_Pk :: bytes
  jl_ReqID :: bytes
  jl_Cost :: rat
  jl_Ts :: int

text \<open>A line of a file that does not decode is \<open>Garbage\<close>.\<close>

datatype raw_line = Line journalLine | Garbage

definition jl_task :: "journalLine \<Rightarrow> settle_task" where
  "jl_task l = \<lparr>tk_scope = jl_Scope l, tk_target = jl_Target l, tk_period = jl_Period l, tk_pk = jl_Pk l, tk_req = jl_ReqID l,
     tk_cost = jl_Cost l, tk_deadline = 0\<rparr>"

definition jl_key :: "journalLine \<Rightarrow> rkey" where
  "jl_key l = (jl_Scope l, jl_Target l, jl_ReqID l)"

definition new_line :: "int \<Rightarrow> settle_task \<Rightarrow> journalLine" where
  "new_line now t = \<lparr>jl_Scope = tk_scope t, jl_Target = tk_target t, jl_Period = tk_period t, jl_Pk = tk_pk t, jl_ReqID = tk_req t,
     jl_Cost = tk_cost t, jl_Ts = now div 1000000000\<rparr>"

record jworld =
  jw_b :: bworld
  jw_active :: "raw_line list"
  jw_sealed :: "raw_line list list"
  jw_open :: bool

text \<open>The next file operation succeeds when the outcomes say so or have ended.\<close>

definition disk_ok :: "jworld \<Rightarrow> bool \<times> jworld" where
  "disk_ok j = (case bw_disk (jw_b j) of [] \<Rightarrow> (True, j) | ok # oks \<Rightarrow> (ok, j\<lparr>jw_b := (jw_b j)\<lparr>bw_disk := oks\<rparr>\<rparr>))"

definition append_line :: "int \<Rightarrow> settle_task \<Rightarrow> jworld \<Rightarrow> bool \<times> jworld" where
  "append_line now t j =
     (if \<not> jw_open j then (False, j)
      else case disk_ok j of
        (True, j1) \<Rightarrow> (True, j1\<lparr>jw_active := jw_active j1 @ [Line (new_line now t)]\<rparr>)
      | (False, j1) \<Rightarrow> (False, j1))"

text \<open>
  Sealing renames the active file, closing it first; when the rename or the opening of the new file fails, the journal is
  left closed. The segments are kept oldest first.
\<close>

definition sealActive :: "jworld \<Rightarrow> bool \<times> jworld" where
  "sealActive j =
     (if jw_active j = [] then (True, j)
      else case disk_ok (j\<lparr>jw_open := False\<rparr>) of
        (False, j1) \<Rightarrow> (False, j1)
      | (True, j1) \<Rightarrow>
          (case disk_ok (j1\<lparr>jw_sealed := jw_sealed j1 @ [jw_active j1], jw_active := []\<rparr>) of
             (False, j2) \<Rightarrow> (False, j2)
           | (True, j2) \<Rightarrow> (True, j2\<lparr>jw_open := True\<rparr>)))"

section \<open>The journal of the budget service\<close>

text \<open>
  The service sees the journal as the list of the tasks that were appended; the file refines it, as long as it is open: the
  tasks are the lines of the active file that decode.
\<close>

fun line_tasks :: "raw_line list \<Rightarrow> settle_task list" where
  "line_tasks [] = []"
| "line_tasks (Line l # ls) = jl_task l # line_tasks ls"
| "line_tasks (Garbage # ls) = line_tasks ls"

definition journal_abs :: "jworld \<Rightarrow> bworld" where
  "journal_abs j = (jw_b j)\<lparr>bw_journal := Some (line_tasks (jw_active j))\<rparr>"

lemma line_tasks_append [simp]: "line_tasks (xs @ ys) = line_tasks xs @ line_tasks ys"
  by (induction xs rule: line_tasks.induct) simp_all

lemma task_round_trip: "tk_deadline t = 0 \<Longrightarrow> jl_task (new_line now t) = t"
  by (simp add: jl_task_def new_line_def)

lemma append_line_refines:
  "jw_open j \<Longrightarrow> tk_deadline t = 0 \<Longrightarrow> journal_abs (snd (append_line now t j)) = journal_append t (journal_abs j)"
  by (auto simp: append_line_def disk_ok_def journal_append_def journal_abs_def task_round_trip split: list.split bool.split)

section \<open>Replay\<close>

record journal_stats =
  js_Total :: nat
  js_AlreadyMarked :: nat
  js_Recovered :: nat
  js_Expired :: nat
  js_KeptForRetry :: nat

definition no_stats :: journal_stats where
  "no_stats = \<lparr>js_Total = 0, js_AlreadyMarked = 0, js_Recovered = 0, js_Expired = 0, js_KeptForRetry = 0\<rparr>"

definition line_expired :: "int \<Rightarrow> int \<Rightarrow> journalLine \<Rightarrow> bool" where
  "line_expired guard now l \<longleftrightarrow> now - jl_Ts l * 1000000000 > guard"

text \<open>The first phase reads the segment: the lines to process, in order, one per scope, target and request.\<close>

fun scan_lines :: "int \<Rightarrow> int \<Rightarrow> rkey list \<Rightarrow> raw_line list \<Rightarrow> journal_stats \<Rightarrow> journalLine list \<times> journal_stats" where
  "scan_lines guard now seen [] st = ([], st)"
| "scan_lines guard now seen (Garbage # rs) st = scan_lines guard now seen rs st"
| "scan_lines guard now seen (Line l # rs) st =
     (if jl_ReqID l = [] then scan_lines guard now seen rs st
      else
        let st1 = st\<lparr>js_Total := js_Total st + 1\<rparr>
        in if jl_key l \<in> set seen then scan_lines guard now seen rs st1
           else if line_expired guard now l then scan_lines guard now (jl_key l # seen) rs (st1\<lparr>js_Expired := js_Expired st1 + 1\<rparr>)
           else case scan_lines guard now (jl_key l # seen) rs st1 of (ls, st2) \<Rightarrow> (l # ls, st2))"

fun settle_lines :: "(journalLine \<times> bool) list \<Rightarrow> journalLine list \<Rightarrow> journal_stats \<Rightarrow> bworld \<Rightarrow> (journalLine list \<times> journal_stats) \<times> bworld" where
  "settle_lines [] kept st w = ((kept, st), w)"
| "settle_lines ((l, mk) # ls) kept st w =
     (if mk then settle_lines ls kept (st\<lparr>js_AlreadyMarked := js_AlreadyMarked st + 1\<rparr>) w
      else case runSettleScript (jl_task l) w of
        (Inl _, w1) \<Rightarrow> settle_lines ls (kept @ [l]) st w1
      | (Inr _, w1) \<Rightarrow> settle_lines ls kept (st\<lparr>js_Recovered := js_Recovered st + 1\<rparr>) w1)"

definition journalBatchSize :: nat where
  "journalBatchSize = 1000"

text \<open>The second phase; \<open>leases\<close> are the answers of the lease check before each batch, missing answers are positive.\<close>

function replay_batches :: "bool list \<Rightarrow> journalLine list \<Rightarrow> journalLine list \<Rightarrow> journal_stats \<Rightarrow> bworld \<Rightarrow>
    (journalLine list \<times> journal_stats) \<times> bworld" where
  "replay_batches leases lines kept st w =
     (if lines = [] then ((kept, st), w)
      else if leases \<noteq> [] \<and> \<not> hd leases then ((kept @ lines, st), w)
      else
        let batch = take journalBatchSize lines; rest = drop journalBatchSize lines
        in case redis_call (\<lambda>w. (map (\<lambda>l. rb_settledmark (bw_store w) (jl_key l)) batch, w)) w of
             (Inl _, w1) \<Rightarrow> replay_batches (tl leases) rest (kept @ batch) st w1
           | (Inr mks, w1) \<Rightarrow>
               (case settle_lines (zip batch mks) kept st w1 of
                  ((kept1, st1), w2) \<Rightarrow> replay_batches (tl leases) rest kept1 st1 w2))"
  by pat_completeness auto
termination by (relation "measure (\<lambda>(_, lines, _). length lines)") (auto simp: journalBatchSize_def)

declare replay_batches.simps [simp del]

fun append_all :: "int \<Rightarrow> journalLine list \<Rightarrow> jworld \<Rightarrow> bool \<times> jworld" where
  "append_all now [] j = (True, j)"
| "append_all now (l # ls) j =
     (case append_line now (jl_task l) j of (True, j1) \<Rightarrow> append_all now ls j1 | (False, j1) \<Rightarrow> (False, j1))"

text \<open>
  Whether the segment was removed: an error of opening or reading it, of an append or of the removal retains it. The scanner
  reports a read error, or a line above its buffer of one megabyte, after the last line it could read; nothing is settled then.
\<close>

definition replay_lines :: "int \<Rightarrow> int \<Rightarrow> bool list \<Rightarrow> raw_line list \<Rightarrow> jworld \<Rightarrow> (bool \<times> journal_stats) \<times> jworld" where
  "replay_lines guard now leases seg j =
     (case scan_lines guard now [] seg no_stats of
        (lines, st) \<Rightarrow>
          (case replay_batches leases lines [] st (jw_b j) of
             ((kept, st1), w) \<Rightarrow>
               (case append_all now kept (j\<lparr>jw_b := w\<rparr>) of
                  (False, j1) \<Rightarrow> ((False, st1\<lparr>js_KeptForRetry := length kept\<rparr>), j1)
                | (True, j1) \<Rightarrow>
                    (case disk_ok j1 of (removed, j2) \<Rightarrow> ((removed, st1\<lparr>js_KeptForRetry := length kept\<rparr>), j2)))))"

definition replaySegment :: "int \<Rightarrow> int \<Rightarrow> bool list \<Rightarrow> raw_line list \<Rightarrow> jworld \<Rightarrow> (bool \<times> journal_stats) \<times> jworld" where
  "replaySegment guard now leases seg j =
     (case disk_ok j of
        (False, ja) \<Rightarrow> ((False, no_stats), ja)
      | (True, ja) \<Rightarrow>
          (case disk_ok ja of
             (False, jb) \<Rightarrow> ((False, no_stats), jb)
           | (True, jb) \<Rightarrow> replay_lines guard now leases seg jb))"

definition add_stats :: "journal_stats \<Rightarrow> journal_stats \<Rightarrow> journal_stats" where
  "add_stats a b = \<lparr>js_Total = js_Total a + js_Total b, js_AlreadyMarked = js_AlreadyMarked a + js_AlreadyMarked b,
     js_Recovered = js_Recovered a + js_Recovered b, js_Expired = js_Expired a + js_Expired b,
     js_KeptForRetry = js_KeptForRetry a + js_KeptForRetry b\<rparr>"

text \<open>
  The segments of a round under the lock, each with its clock and lease answers; the clock may stop the round early. A segment
  that could not be removed ends the round and stays, with the ones after it.
\<close>

fun replay_segments :: "int \<Rightarrow> int \<Rightarrow> (int \<times> bool list) list \<Rightarrow> raw_line list list \<Rightarrow> journal_stats \<Rightarrow> jworld \<Rightarrow>
    (bool \<times> journal_stats) \<times> raw_line list list \<times> jworld" where
  "replay_segments guard until envs [] tot j = ((True, tot), [], j)"
| "replay_segments guard until [] segs tot j = ((True, tot), segs, j)"
| "replay_segments guard until ((now, leases) # envs) (seg # segs) tot j =
     (if now > until then ((True, tot), seg # segs, j)
      else case replaySegment guard now leases seg j of
        ((True, st), j1) \<Rightarrow> replay_segments guard until envs segs (add_stats tot st) j1
      | ((False, st), j1) \<Rightarrow> ((False, add_stats tot st), seg # segs, j1))"

datatype round_result = RoundDone journal_stats | RoundIncomplete journal_stats | RoundError | LockNotAcquired

text \<open>The lock is acquired or not; waiting for it changes nothing.\<close>

definition SettleJournalRound :: "int \<Rightarrow> int \<Rightarrow> (int \<times> bool list) list \<Rightarrow> bool \<Rightarrow> jworld \<Rightarrow> round_result \<times> jworld" where
  "SettleJournalRound guard until envs locked j =
     (case sealActive j of
        (False, j1) \<Rightarrow> (RoundError, j1)
      | (True, j1) \<Rightarrow>
          if jw_sealed j1 = [] then (RoundDone no_stats, j1)
          else if \<not> locked then (LockNotAcquired, j1)
          else case replay_segments guard until envs (jw_sealed j1) no_stats j1 of
            ((ok, tot), segs, j2) \<Rightarrow>
              (if \<not> ok then RoundError
               else if js_KeptForRetry tot > 0 then RoundIncomplete tot else RoundDone tot,
               j2\<lparr>jw_sealed := segs\<rparr>))"

definition JournalLiveIntents :: "int \<Rightarrow> int \<Rightarrow> jworld \<Rightarrow> nat" where
  "JournalLiveIntents guard now j =
     length (filter (\<lambda>r. case r of Line l \<Rightarrow> jl_ReqID l \<noteq> [] \<and> \<not> line_expired guard now l | Garbage \<Rightarrow> False)
       (jw_active j @ concat (jw_sealed j)))"

section \<open>No intent is lost\<close>

definition marked :: "bworld \<Rightarrow> rkey set" where
  "marked w = {k. rb_settledmark (bw_store w) k}"

lemma settle_marks:
  "{k. rb_settledmark s k} \<subseteq> {k. rb_settledmark (snd (budgetSettleScript c s)) k}"
  "sc_rkey c \<in> {k. rb_settledmark (snd (budgetSettleScript c s)) k}"
  by (auto simp: budgetSettleScript_def release_def Let_def settle_sel split: option.split)

lemma run_marks:
  assumes "runSettleScript t w = (r, w1)"
  shows "marked w \<subseteq> marked w1" and "\<not> isl r \<Longrightarrow> sc_rkey (task_call t) \<in> marked w1"
proof -
  have "marked w1 = {k. rb_settledmark (snd (budgetSettleScript (task_call t) (bw_store w))) k} \<or> marked w1 = marked w \<and> isl r"
    using runSettleScript_cases [OF assms] unfolding marked_def by auto
  then show "marked w \<subseteq> marked w1" "\<not> isl r \<Longrightarrow> sc_rkey (task_call t) \<in> marked w1"
    using settle_marks [where s = "bw_store w" and c = "task_call t"] unfolding marked_def [of w] by blast+
qed

lemma task_key [simp]: "sc_rkey (task_call (jl_task l)) = jl_key l"
  by (simp add: task_call_def jl_task_def jl_key_def sc_rkey_def)

text \<open>Every line of a list is settled or kept.\<close>

definition lines_safe :: "journalLine set \<Rightarrow> rkey set \<Rightarrow> journalLine list \<Rightarrow> bool" where
  "lines_safe ls M kept \<longleftrightarrow> (\<forall>l\<in>ls. jl_key l \<in> M \<or> l \<in> set kept)"

lemma lines_safe_mono: "lines_safe ls M kept \<Longrightarrow> M \<subseteq> M' \<Longrightarrow> set kept \<subseteq> set kept' \<Longrightarrow> lines_safe ls M' kept'"
  unfolding lines_safe_def by blast

lemma lines_safe_insert: "jl_key l \<in> M \<or> l \<in> set kept \<Longrightarrow> lines_safe ls M kept \<Longrightarrow> lines_safe (insert l ls) M kept"
  unfolding lines_safe_def by blast

lemma settle_lines_conserve:
  assumes "settle_lines ls kept st w = ((kept', st'), w')" "\<And>l. (l, True) \<in> set ls \<Longrightarrow> jl_key l \<in> marked w"
  shows "marked w \<subseteq> marked w' \<and> set kept \<subseteq> set kept' \<and> lines_safe (fst ` set ls) (marked w') kept'"
  using assms
proof (induction ls kept st w rule: settle_lines.induct)
  case (2 l mk ls kept st w)
  show ?case
  proof (cases mk)
    case True
    then have "marked w \<subseteq> marked w' \<and> set kept \<subseteq> set kept' \<and> lines_safe (fst ` set ls) (marked w') kept'"
      using 2(1) [OF True] 2(4,5) by simp
    moreover have "jl_key l \<in> marked w" using 2(5) True by simp
    ultimately show ?thesis using lines_safe_insert [of l "marked w'" kept'] by auto
  next
    case False
    obtain r w1 where r: "runSettleScript (jl_task l) w = (r, w1)" by fastforce
    have m: "\<And>x. (x, True) \<in> set ls \<Longrightarrow> jl_key x \<in> marked w1" using 2(5) run_marks(1) [OF r] by auto
    show ?thesis
    proof (cases r)
      case (Inl e)
      have "marked w1 \<subseteq> marked w' \<and> set (kept @ [l]) \<subseteq> set kept' \<and> lines_safe (fst ` set ls) (marked w') kept'"
        by (rule 2(2) [OF False r [symmetric] Inl]) (use 2(4) False r Inl m in simp_all)
      then show ?thesis using run_marks(1) [OF r] lines_safe_insert [of l "marked w'" kept'] by auto
    next
      case (Inr n)
      have "marked w1 \<subseteq> marked w' \<and> set kept \<subseteq> set kept' \<and> lines_safe (fst ` set ls) (marked w') kept'"
        by (rule 2(3) [OF False r [symmetric] Inr]) (use 2(4) False r Inr m in simp_all)
      moreover have "jl_key l \<in> marked w1" using run_marks(2) [OF r] Inr by simp
      ultimately show ?thesis using run_marks(1) [OF r] lines_safe_insert [of l "marked w'" kept'] by auto
    qed
  qed
qed (auto simp: lines_safe_def)

lemma marks_read:
  assumes "redis_call (\<lambda>w. (map (\<lambda>l. rb_settledmark (bw_store w) (jl_key l)) batch, w)) w = (r, w1)"
  shows "bw_store w1 = bw_store w" "r = Inr mks \<Longrightarrow> mks = map (\<lambda>l. rb_settledmark (bw_store w) (jl_key l)) batch"
  using assms by (rule redis_call_cases; auto)+

lemma replay_batches_conserve:
  assumes "replay_batches leases lines kept st w = ((kept', st'), w')"
  shows "marked w \<subseteq> marked w' \<and> set kept \<subseteq> set kept' \<and> lines_safe (set lines) (marked w') kept'"
  using assms
proof (induction leases lines kept st w rule: replay_batches.induct)
  case (1 leases lines kept st w)
  let ?batch = "take journalBatchSize lines" and ?rest = "drop journalBatchSize lines"
  have sl: "set lines = set ?batch \<union> set ?rest" unfolding set_append [symmetric] append_take_drop_id ..
  consider "lines = []" | "lines \<noteq> []" "leases \<noteq> []" "\<not> hd leases" | "lines \<noteq> []" "leases = [] \<or> hd leases" by blast
  then show ?case
  proof cases
    case 1
    then show ?thesis using "1.prems" by (subst (asm) replay_batches.simps) (simp add: lines_safe_def)
  next
    case 2
    then show ?thesis using "1.prems" by (subst (asm) replay_batches.simps) (auto simp: lines_safe_def)
  next
    case 3
    then have n: "\<not> lines = []" "\<not> (leases \<noteq> [] \<and> \<not> hd leases)" by auto
    obtain r w1 where r: "redis_call (\<lambda>w. (map (\<lambda>l. rb_settledmark (bw_store w) (jl_key l)) ?batch, w)) w = (r, w1)" by fastforce
    have mk: "marked w1 = marked w" using marks_read(1) [OF r] by (simp add: marked_def)
    show ?thesis
    proof (cases r)
      case (Inl e)
      have "replay_batches (tl leases) ?rest (kept @ ?batch) st w1 = ((kept', st'), w')"
        using "1.prems" n r Inl by (subst (asm) replay_batches.simps) (simp add: Let_def)
      from "1.IH"(1) [OF n refl refl r [symmetric] Inl this]
      have a: "marked w \<subseteq> marked w'" "set kept \<union> set ?batch \<subseteq> set kept'" "lines_safe (set ?rest) (marked w') kept'"
        unfolding mk set_append by blast+
      then have "lines_safe (set ?batch) (marked w') kept'" unfolding lines_safe_def by blast
      then show ?thesis using a unfolding sl lines_safe_def by blast
    next
      case (Inr mks)
      obtain kept1 st1 w2 where s: "settle_lines (zip ?batch mks) kept st w1 = ((kept1, st1), w2)" by (metis surj_pair)
      have "replay_batches (tl leases) ?rest kept1 st1 w2 = ((kept', st'), w')"
        using "1.prems" n r Inr s by (subst (asm) replay_batches.simps) (simp add: Let_def)
      from "1.IH"(2) [OF n refl refl r [symmetric] Inr s [symmetric] refl this]
      have a: "marked w2 \<subseteq> marked w' \<and> set kept1 \<subseteq> set kept' \<and> lines_safe (set ?rest) (marked w') kept'" .
      have ms: "mks = map (\<lambda>l. rb_settledmark (bw_store w) (jl_key l)) ?batch" by (rule marks_read(2) [OF r Inr])
      have "marked w1 \<subseteq> marked w2 \<and> set kept \<subseteq> set kept1 \<and> lines_safe (fst ` set (zip ?batch mks)) (marked w2) kept1"
        by (rule settle_lines_conserve [OF s]) (auto simp: ms zip_map2 zip_same_conv_map mk marked_def [of w])
      moreover have "length ?batch = length mks" unfolding ms by simp
      then have "fst ` set (zip ?batch mks) = set ?batch" using map_fst_zip [of ?batch mks] by (simp flip: set_map)
      ultimately have b: "marked w \<subseteq> marked w2" "set kept \<subseteq> set kept1" "lines_safe (set ?batch) (marked w2) kept1"
        unfolding mk by simp_all
      then have "lines_safe (set ?batch) (marked w') kept'" using a lines_safe_mono [OF b(3)] by blast
      then show ?thesis using a b unfolding sl lines_safe_def by blast
    qed
  qed
qed


lemma disk_ok_frame:
  assumes "disk_ok j = (ok, j1)"
  shows "bw_store (jw_b j1) = bw_store (jw_b j)" "jw_active j1 = jw_active j" "jw_sealed j1 = jw_sealed j" "jw_open j1 = jw_open j"
  using assms by (auto simp: disk_ok_def split: list.splits)

lemma append_all_lines:
  assumes "append_all now ls j = (ok, j')"
  shows "bw_store (jw_b j') = bw_store (jw_b j) \<and> set (jw_active j) \<subseteq> set (jw_active j') \<and> jw_sealed j' = jw_sealed j \<and>
    (ok \<longrightarrow> (\<lambda>l. Line (new_line now (jl_task l))) ` set ls \<subseteq> set (jw_active j'))"
  using assms
proof (induction ls arbitrary: j)
  case (Cons l ls)
  obtain o1 j1 where a: "append_line now (jl_task l) j = (o1, j1)" by fastforce
  have f: "bw_store (jw_b j1) = bw_store (jw_b j)" "set (jw_active j) \<subseteq> set (jw_active j1)" "jw_sealed j1 = jw_sealed j"
    "o1 \<Longrightarrow> Line (new_line now (jl_task l)) \<in> set (jw_active j1)"
    using a by (auto simp: append_line_def disk_ok_def split: if_splits prod.splits bool.splits list.splits)
  show ?case
  proof (cases o1)
    case True
    then show ?thesis using Cons.IH [of j1] Cons.prems a f by auto
  next
    case False
    then show ?thesis using Cons.prems a f by simp
  qed
qed simp

lemma replay_lines_keep:
  assumes "replay_lines guard now leases seg j = ((removed, st), j')" "l \<in> set (fst (scan_lines guard now [] seg no_stats))"
  shows "(rb_settledmark (bw_store (jw_b j')) (jl_key l) \<or> Line (new_line now (jl_task l)) \<in> set (jw_active j') \<or> \<not> removed) \<and>
    set (jw_active j) \<subseteq> set (jw_active j') \<and> jw_sealed j' = jw_sealed j"
proof -
  obtain lines st0 where s: "scan_lines guard now [] seg no_stats = (lines, st0)" by fastforce
  obtain x w where x: "replay_batches leases lines [] st0 (jw_b j) = (x, w)" by fastforce
  obtain kept st1 where kept: "x = (kept, st1)" by (cases x)
  note r = x [unfolded kept]
  obtain ok j1 where a: "append_all now kept (j\<lparr>jw_b := w\<rparr>) = (ok, j1)" by fastforce
  obtain rm j2 where d: "disk_ok j1 = (rm, j2)" by fastforce
  have c: "lines_safe (set lines) (marked w) kept" using replay_batches_conserve [OF r] by blast
  have e: "replay_lines guard now leases seg j =
      (if ok then ((rm, st1\<lparr>js_KeptForRetry := length kept\<rparr>), j2) else ((False, st1\<lparr>js_KeptForRetry := length kept\<rparr>), j1))"
    by (simp add: replay_lines_def s r a d)
  have j': "removed \<Longrightarrow> ok" "jw_b j' = jw_b j1 \<or> jw_b j' = jw_b j2" "jw_active j' = jw_active j1" "jw_sealed j' = jw_sealed j1"
    using assms(1) disk_ok_frame(2,3) [OF d] unfolding e by (cases ok; simp)+
  have st: "bw_store (jw_b j') = bw_store (jw_b j1)" using j'(2) disk_ok_frame(1) [OF d] by fastforce
  have ap: "bw_store (jw_b j1) = bw_store w" "set (jw_active j) \<subseteq> set (jw_active j1)" "jw_sealed j1 = jw_sealed j"
    "ok \<Longrightarrow> (\<lambda>l. Line (new_line now (jl_task l))) ` set kept \<subseteq> set (jw_active j1)"
    using append_all_lines [OF a] by simp_all
  have "l \<in> set lines" using assms(2) s by simp
  then consider "jl_key l \<in> marked w" | "l \<in> set kept" using c unfolding lines_safe_def by blast
  then have "rb_settledmark (bw_store (jw_b j')) (jl_key l) \<or> Line (new_line now (jl_task l)) \<in> set (jw_active j') \<or> \<not> removed"
  proof cases
    case 1
    then show ?thesis unfolding st ap(1) marked_def by simp
  next
    case 2
    have "Line (new_line now (jl_task l)) \<in> set (jw_active j1)" if ok using ap(4) [OF that] imageI [OF 2] by (rule subsetD)
    then show ?thesis using j'(1,3) by auto
  qed
  then show ?thesis using ap(2,3) unfolding j'(3,4) by blast
qed

text \<open>
  C17: A replay loses no intent. Whatever fails, the lease check, the store or the disk, every line of the segment that the
  replay accepts is settled afterwards, or it is in the active file again, or the segment stays on disk;
  lines that were in the active file are still there.
\<close>

theorem replay_loses_nothing:
  assumes "replaySegment guard now leases seg j = ((removed, st), j')" "l \<in> set (fst (scan_lines guard now [] seg no_stats))"
  shows "(rb_settledmark (bw_store (jw_b j')) (jl_key l) \<or> Line (new_line now (jl_task l)) \<in> set (jw_active j') \<or> \<not> removed) \<and>
    set (jw_active j) \<subseteq> set (jw_active j') \<and> jw_sealed j' = jw_sealed j"
proof -
  obtain ok ja where a: "disk_ok j = (ok, ja)" by fastforce
  obtain ok2 jb where b: "disk_ok ja = (ok2, jb)" by fastforce
  note f = disk_ok_frame(2,3) [OF a] disk_ok_frame(2,3) [OF b]
  show ?thesis
  proof (cases "ok \<and> ok2")
    case True
    then have "replay_lines guard now leases seg jb = ((removed, st), j')" using assms(1) a b by (simp add: replaySegment_def)
    from replay_lines_keep [OF this assms(2)] show ?thesis unfolding f .
  next
    case False
    then have "\<not> removed" "j' = ja \<or> j' = jb" using assms(1) a b by (auto simp: replaySegment_def split: bool.splits)
    then show ?thesis using f by auto
  qed
qed

section \<open>The age of a kept line\<close>

lemma replay_Nil: "replay_batches leases [] kept st w = ((kept, st), w)"
  by (subst replay_batches.simps) simp

lemma seconds_floor: "t - 1000000000 < t div 1000000000 * 1000000000" for t :: int
proof -
  have "1000000000 * (t div 1000000000) + t mod 1000000000 = t" by (rule mult_div_mod_eq)
  moreover have "t mod 1000000000 < 1000000000" by (rule pos_mod_bound) simp
  ultimately show ?thesis by linarith
qed

text \<open>Two file operations that succeed.\<close>

lemma disk_readable:
  assumes "list_all (\<lambda>ok. ok) (take 2 (bw_disk w))" "bw_disk (jw_b j) = bw_disk w"
  obtains v where "disk_ok j = (True, fst v)" "disk_ok (fst v) = (True, j\<lparr>jw_b := snd v\<rparr>)"
    "bw_redis (snd v) = bw_redis (jw_b j)" "bw_store (snd v) = bw_store (jw_b j)"
proof -
  let ?d = "bw_disk w"
  let ?v = "(j\<lparr>jw_b := (jw_b j)\<lparr>bw_disk := drop 1 ?d\<rparr>\<rparr>, (jw_b j)\<lparr>bw_disk := drop 2 ?d\<rparr>)"
  have "disk_ok j = (True, fst ?v)" "disk_ok (fst ?v) = (True, j\<lparr>jw_b := snd ?v\<rparr>)"
    using assms by (cases ?d; cases "tl ?d"; simp add: disk_ok_def numeral_2_eq_2)+
  then show thesis using that [of ?v] by simp
qed

text \<open>
  C37: A kept line starts a new life. A line whose replay failed is appended again with the time of that replay, so it is
  replayed beyond the guard window of the request: once the marker of the first settlement has expired, a later
  replay charges the request a second time, although the line was written longer ago than the window allows.
\<close>

theorem restamped_line_settles_again:
  assumes "jl_ReqID l \<noteq> []" "\<not> line_expired guard t1 l" "bw_redis (jw_b j) = [Failed False e]" "jw_open j" "bw_disk (jw_b j) = []"
    and "replaySegment guard t1 [] [Line l] j = ((removed, st1), j1)"
    and "line_expired guard t2 l" "0 \<le> guard" "t1 \<le> t2" "t2 - t1 \<le> guard - 1000000000"
    and "\<not> rb_settledmark s (jl_key l)" "bw_redis w = []" "list_all (\<lambda>ok. ok) (take 2 (bw_disk w))"
    and "replaySegment guard t2 [] [last (jw_active j1)] (j1\<lparr>jw_b := w\<lparr>bw_store := s\<rparr>\<rparr>) = ((removed2, st2), j2)"
  shows "removed \<and> js_Recovered st2 = 1 \<and>
    rb_settled (bw_store (jw_b j2)) (jl_Scope l, jl_Target l, jl_Pk l) = rb_settled s (jl_Scope l, jl_Target l, jl_Pk l) + jl_Cost l"
proof -
  let ?l = "new_line t1 (jl_task l)"
  have k: "jl_key ?l = jl_key l" "jl_ReqID ?l = jl_ReqID l" "jl_task ?l = jl_task l" "jl_Ts ?l = t1 div 1000000000"
    by (simp_all add: new_line_def jl_key_def jl_task_def)
  have s1: "scan_lines guard t1 [] [Line l] no_stats = ([l], no_stats\<lparr>js_Total := 1\<rparr>)"
    using assms(1,2) by (simp add: Let_def no_stats_def)
  have b: "take journalBatchSize [x] = [x]" "drop journalBatchSize [x] = []" for x :: journalLine by (simp_all add: journalBatchSize_def)
  have r1: "replay_batches [] [l] [] st (jw_b j) = (([l], st), (jw_b j)\<lparr>bw_redis := []\<rparr>)" for st
    using assms(3) by (subst replay_batches.simps) (simp add: b redis_call_def Let_def replay_Nil)
  have j1: "removed" "jw_active j1 = jw_active j @ [Line ?l]"
    using assms(6) s1 r1 assms(4,5) by (auto simp: replaySegment_def replay_lines_def append_line_def disk_ok_def)
  have ne: "\<not> line_expired guard t2 ?l" using seconds_floor [of t1] assms(9,10) unfolding line_expired_def k by linarith
  have s2: "scan_lines guard t2 [] [Line ?l] no_stats = ([?l], no_stats\<lparr>js_Total := 1\<rparr>)"
    using assms(1) ne by (simp add: Let_def no_stats_def k)
  let ?s = "snd (budgetSettleScript (task_call (jl_task l)) s)"
  have run: "runSettleScript (jl_task l) v = (Inr (fst (budgetSettleScript (task_call (jl_task l)) s)), v\<lparr>bw_store := ?s\<rparr>)"
    if "bw_redis v = []" "bw_store v = s" for v
    using that by (simp add: runSettleScript_def redis_call_def on_store_def split: prod.split)
  have r2: "replay_batches [] [?l] [] st v = (([], st\<lparr>js_Recovered := js_Recovered st + 1\<rparr>), v\<lparr>bw_store := ?s\<rparr>)"
    if "bw_redis v = []" "bw_store v = s" for st v
    using assms(11) that by (subst replay_batches.simps) (simp add: b redis_call_def Let_def k run replay_Nil)
  let ?j = "j1\<lparr>jw_b := w\<lparr>bw_store := s\<rparr>\<rparr>"
  obtain u where u: "disk_ok ?j = (True, fst u)" "disk_ok (fst u) = (True, ?j\<lparr>jw_b := snd u\<rparr>)"
    "bw_redis (snd u) = bw_redis (jw_b ?j)" "bw_store (snd u) = bw_store (jw_b ?j)"
    by (rule disk_readable [OF assms(13), of ?j]) simp_all
  define v where "v = snd u"
  have v: "replaySegment guard t2 [] [Line ?l] ?j = replay_lines guard t2 [] [Line ?l] (j1\<lparr>jw_b := v\<rparr>)"
    "bw_redis v = []" "bw_store v = s"
    using u assms(12) by (simp_all add: replaySegment_def v_def)
  have "replay_lines guard t2 [] [Line ?l] (j1\<lparr>jw_b := v\<rparr>) = ((removed2, st2), j2)"
    using assms(14) v(1) j1(2) by simp
  then have j2: "js_Recovered st2 = 1" "bw_store (jw_b j2) = ?s"
    using s2 r2 [OF v(2,3)] by (auto simp: replay_lines_def no_stats_def dest: disk_ok_frame(1) split: prod.splits)
  have "rb_settled ?s (sc_bkey (task_call (jl_task l))) = rb_settled s (sc_bkey (task_call (jl_task l))) + jl_Cost l"
    using assms(11) by (simp add: budgetSettleScript_def Let_def settle_sel task_call_def jl_task_def jl_key_def sc_rkey_def split: option.split)
  with j1(1) j2 show ?thesis by (simp add: sc_bkey_def task_call_def jl_task_def)
qed


section \<open>A journal that cannot be reopened\<close>

text \<open>
  When the active file was renamed and the new one cannot be opened, the journal stays closed: later rounds find no
  active file and report success without opening one, and every append fails from then on.
\<close>

lemma closed_journal_stays_closed:
  assumes "jw_active j \<noteq> []" "bw_disk (jw_b j) = [True, False]" "sealActive j = (ok, j1)"
  shows "\<not> ok \<and> sealActive j1 = (True, j1) \<and> append_line now t j1 = (False, j1)"
  using assms by (auto simp: sealActive_def disk_ok_def append_line_def)

section \<open>Concrete runs\<close>

definition sample_line :: journalLine where
  "sample_line = \<lparr>jl_Scope = ''key'', jl_Target = ''7'', jl_Period = ''monthly'', jl_Pk = ''2026-11'', jl_ReqID = ''r1'', jl_Cost = 3, jl_Ts = 0\<rparr>"

definition sample_journal :: "delivery list \<Rightarrow> jworld" where
  "sample_journal ds = \<lparr>jw_b = sample_world empty_store ds, jw_active = [], jw_sealed = [], jw_open = True\<rparr>"

theorem replay_loses_nothing_witness:
  "let r = replaySegment 7200000000000 60000000000 [] [Line sample_line, Garbage] (sample_journal [])
   in rb_settledmark (bw_store (jw_b (snd r))) (''key'', ''7'', ''r1'') \<or>
      Line (new_line 60000000000 (jl_task sample_line)) \<in> set (jw_active (snd r)) \<or> \<not> fst (fst r)"
proof -
  let ?r = "replaySegment 7200000000000 60000000000 [] [Line sample_line, Garbage] (sample_journal [])"
  have l: "sample_line \<in> set (fst (scan_lines 7200000000000 60000000000 [] [Line sample_line, Garbage] no_stats))"
    by (simp add: sample_line_def line_expired_def Let_def)
  have e: "?r = ((fst (fst ?r), snd (fst ?r)), snd ?r)" by simp
  have "jl_key sample_line = (''key'', ''7'', ''r1'')" by (simp add: sample_line_def jl_key_def)
  with replay_loses_nothing [OF e l] show ?thesis by (simp add: Let_def)
qed

text \<open>
  The window is two hours. The line is written at 0 and kept by a replay after 90 minutes that finds no Redis; the next replay,
  after 150 minutes, settles the request again.
\<close>

definition sample_first :: "(bool \<times> journal_stats) \<times> jworld" where
  "sample_first = replaySegment 7200000000000 5400000000000 [] [Line sample_line] (sample_journal [Failed False ErrPoolTimeout])"

definition sample_second :: "(bool \<times> journal_stats) \<times> jworld" where
  "sample_second = replaySegment 7200000000000 9000000000000 [] [last (jw_active (snd sample_first))]
     ((snd sample_first)\<lparr>jw_b := (sample_world empty_store [])\<lparr>bw_store := empty_store\<rparr>\<rparr>)"

theorem restamped_line_settles_again_witness:
  "line_expired 7200000000000 9000000000000 sample_line \<and>
   rb_settled (bw_store (jw_b (snd sample_second))) (''key'', ''7'', ''2026-11'') = 3"
proof -
  let ?j = "sample_journal [Failed False ErrPoolTimeout]"
  have e1: "replaySegment 7200000000000 5400000000000 [] [Line sample_line] ?j = ((fst (fst sample_first), snd (fst sample_first)), snd sample_first)"
    and e2: "replaySegment 7200000000000 9000000000000 [] [last (jw_active (snd sample_first))]
      ((snd sample_first)\<lparr>jw_b := (sample_world empty_store [])\<lparr>bw_store := empty_store\<rparr>\<rparr>) =
      ((fst (fst sample_second), snd (fst sample_second)), snd sample_second)"
    by (simp_all flip: sample_first_def sample_second_def)
  have h: "jl_ReqID sample_line \<noteq> []" "\<not> line_expired 7200000000000 5400000000000 sample_line" "bw_redis (jw_b ?j) = [Failed False ErrPoolTimeout]"
    "jw_open ?j" "bw_disk (jw_b ?j) = []"
    by (simp_all add: sample_line_def line_expired_def sample_journal_def sample_world_def)
  have h2: "line_expired 7200000000000 9000000000000 sample_line" "(0::int) \<le> 7200000000000" "(5400000000000::int) \<le> 9000000000000"
    "(9000000000000::int) - 5400000000000 \<le> 7200000000000 - 1000000000" "\<not> rb_settledmark empty_store (jl_key sample_line)"
    "bw_redis (sample_world empty_store []) = []"
    "list_all (\<lambda>ok. ok) (take 2 (bw_disk (sample_world empty_store [])))"
    by (simp_all add: sample_line_def line_expired_def sample_world_def empty_store_def)
  have v: "jl_Scope sample_line = ''key''" "jl_Target sample_line = ''7''" "jl_Pk sample_line = ''2026-11''" "jl_Cost sample_line = 3"
    "rb_settled empty_store (''key'', ''7'', ''2026-11'') = 0"
    by (simp_all add: sample_line_def empty_store_def)
  show ?thesis
    using restamped_line_settles_again [OF h e1 h2 e2] h2(1) unfolding v by simp
qed

end
