(* ===== verification/Budget_Check.thy ===== *)
theory Budget_Check
  imports Budget_Service "HOL-Library.Sublist"
begin

text \<open>
  The budget middleware of \<^verbatim>\<open>internal/middleware\<close>: the checks before a request (\<^verbatim>\<open>budget.go\<close>), the reservation in the handlers
  (\<^verbatim>\<open>handler/budget_reserve.go\<close>) and the settlement after it (\<^verbatim>\<open>budget_report.go\<close>). The values that these pass on in the
  request's context are the fields of a record; the answers of the team and organisation caches are arguments.
\<close>

section \<open>Requests\<close>

record ApiKey =
  ak_ID :: int
  ak_MaxBudget :: rat
  ak_BudgetPeriod :: bytes
  ak_MaxCalls :: int
  ak_CallPeriod :: bytes
  ak_TeamID :: "int option"

text \<open>The budget columns of a team or an organisation.\<close>

record budget_meta =
  bm_ID :: int
  bm_BudgetLimit :: rat
  bm_BudgetPeriod :: bytes

datatype cache_mode = CacheModeFresh | CacheModeStaleLKG | CacheModeUnavailable

record mw_ctx =
  cx_budget_exceeded :: bool
  cx_call_limit_exceeded :: bool
  cx_metadata_unavailable :: bool
  cx_enforcement_unavailable :: bool
  cx_call_reserved :: bool
  cx_call_reserved_pk :: bytes
  cx_skip_call_count :: bool
  cx_key_period :: "bytes option"
  cx_team_period :: "bytes option"
  cx_org_period :: "bytes option"
  cx_scopes :: "BudgetScope list option"
  cx_reservations :: "BudgetReservations option"

definition fresh_ctx :: mw_ctx where
  "fresh_ctx = \<lparr>cx_budget_exceeded = False, cx_call_limit_exceeded = False, cx_metadata_unavailable = False,
     cx_enforcement_unavailable = False, cx_call_reserved = False, cx_call_reserved_pk = [], cx_skip_call_count = False,
     cx_key_period = None, cx_team_period = None, cx_org_period = None, cx_scopes = None, cx_reservations = None\<rparr>"

text \<open>\<^verbatim>\<open>c.Next()\<close>, or the status and the error type of an aborted request.\<close>

datatype mw_result = MwNext | MwAbort nat bytes

section \<open>Before the request\<close>

text \<open>The three stages of \<^verbatim>\<open>BudgetCheck\<close>; a stage passes on the scopes collected so far.\<close>

definition check_key ::
    "(bytes \<Rightarrow> bytes) \<Rightarrow> ApiKey \<Rightarrow> mw_ctx \<Rightarrow> bworld \<Rightarrow> (mw_result \<times> BudgetScope list \<times> mw_ctx) \<times> bworld" where
  "check_key pkOf k c w =
     (if ak_MaxBudget k > 0 then
        (case CheckBudget pkOf ''key'' (itoa (ak_ID k)) (ak_BudgetPeriod k) (ak_MaxBudget k) w of
           ((_, _, exceeded), w1) \<Rightarrow>
             if exceeded then ((MwAbort 429 ''budget_exceeded'', [], c\<lparr>cx_budget_exceeded := True\<rparr>), w1)
             else ((MwNext, [\<lparr>bs_scope = ''key'', bs_id = itoa (ak_ID k), bs_period = ak_BudgetPeriod k, bs_limit = ak_MaxBudget k\<rparr>],
                    c\<lparr>cx_key_period := Some (ak_BudgetPeriod k)\<rparr>), w1))
      else ((MwNext, [], c), w))"

definition check_calls :: "(bytes \<Rightarrow> bytes) \<Rightarrow> ApiKey \<Rightarrow> mw_ctx \<Rightarrow> bworld \<Rightarrow> (mw_result \<times> mw_ctx) \<times> bworld" where
  "check_calls pkOf k c w =
     (if ak_MaxCalls k > 0 then
        (case ReserveCall pkOf (itoa (ak_ID k)) (ak_CallPeriod k) (ak_MaxCalls k) w of
           ((_, exceeded, pk), w1) \<Rightarrow>
             if exceeded then ((MwAbort 429 ''call_limit_exceeded'', c\<lparr>cx_call_limit_exceeded := True\<rparr>), w1)
             else ((MwNext, c\<lparr>cx_call_reserved := True, cx_call_reserved_pk := pk\<rparr>), w1))
      else ((MwNext, c), w))"

definition check_team ::
    "(bytes \<Rightarrow> bytes) \<Rightarrow> (int \<Rightarrow> budget_meta option \<times> cache_mode) \<Rightarrow> int option \<Rightarrow> mw_ctx \<Rightarrow> bworld \<Rightarrow>
     (mw_result \<times> BudgetScope list \<times> mw_ctx) \<times> bworld" where
  "check_team pkOf teams tid c w =
     (case tid of
        None \<Rightarrow> ((MwNext, [], c), w)
      | Some t \<Rightarrow>
          if t > 0 then
            (case teams t of (team, mode) \<Rightarrow>
               if mode = CacheModeUnavailable then
                 ((MwAbort 503 ''budget_metadata_unavailable'', [], c\<lparr>cx_metadata_unavailable := True\<rparr>), w)
               else case team of
                 None \<Rightarrow> ((MwNext, [], c), w)
               | Some m \<Rightarrow>
                   if bm_BudgetLimit m > 0 then
                     (case CheckBudget pkOf ''team'' (itoa (bm_ID m)) (bm_BudgetPeriod m) (bm_BudgetLimit m) w of
                        ((_, _, exceeded), w1) \<Rightarrow>
                          if exceeded then ((MwAbort 429 ''budget_exceeded'', [], c\<lparr>cx_budget_exceeded := True\<rparr>), w1)
                          else ((MwNext, [\<lparr>bs_scope = ''team'', bs_id = itoa (bm_ID m), bs_period = bm_BudgetPeriod m, bs_limit = bm_BudgetLimit m\<rparr>],
                                 c\<lparr>cx_team_period := Some (bm_BudgetPeriod m)\<rparr>), w1))
                   else ((MwNext, [], c), w))
          else ((MwNext, [], c), w))"

text \<open>Without an organisation cache, or with the organisation 0, there is no third stage.\<close>

definition check_org ::
    "(bytes \<Rightarrow> bytes) \<Rightarrow> (int \<Rightarrow> budget_meta option \<times> cache_mode) option \<Rightarrow> int \<Rightarrow> mw_ctx \<Rightarrow> bworld \<Rightarrow>
     (mw_result \<times> BudgetScope list \<times> mw_ctx) \<times> bworld" where
  "check_org pkOf orgs oid c w =
     (case orgs of
        None \<Rightarrow> ((MwNext, [], c), w)
      | Some get \<Rightarrow>
          if oid = 0 then ((MwNext, [], c), w)
          else
            (case get oid of (org, mode) \<Rightarrow>
               if mode = CacheModeUnavailable then
                 ((MwAbort 503 ''budget_metadata_unavailable'', [], c\<lparr>cx_metadata_unavailable := True\<rparr>), w)
               else case org of
                 None \<Rightarrow> ((MwNext, [], c), w)
               | Some m \<Rightarrow>
                   if bm_BudgetLimit m > 0 then
                     (case CheckBudget pkOf ''org'' (itoa (bm_ID m)) (bm_BudgetPeriod m) (bm_BudgetLimit m) w of
                        ((_, _, exceeded), w1) \<Rightarrow>
                          if exceeded then ((MwAbort 429 ''budget_exceeded'', [], c), w1)
                          else ((MwNext, [\<lparr>bs_scope = ''org'', bs_id = itoa (bm_ID m), bs_period = bm_BudgetPeriod m, bs_limit = bm_BudgetLimit m\<rparr>],
                                 c\<lparr>cx_org_period := Some (bm_BudgetPeriod m)\<rparr>), w1))
                   else ((MwNext, [], c), w)))"

text \<open>A missing key passes; with no budget service the middleware does nothing.\<close>

definition BudgetCheck ::
    "(bytes \<Rightarrow> bytes) \<Rightarrow> bool \<Rightarrow> ApiKey option \<Rightarrow> (int \<Rightarrow> budget_meta option \<times> cache_mode) \<Rightarrow>
     (int \<Rightarrow> budget_meta option \<times> cache_mode) option \<Rightarrow> int \<Rightarrow> mw_ctx \<Rightarrow> bworld \<Rightarrow> (mw_result \<times> mw_ctx) \<times> bworld" where
  "BudgetCheck pkOf svc key teams orgs oid c w =
     (if \<not> svc then ((MwNext, c), w)
      else case key of
        None \<Rightarrow> ((MwNext, c), w)
      | Some k \<Rightarrow>
          (case check_key pkOf k c w of
             ((MwAbort st ty, _, c1), w1) \<Rightarrow> ((MwAbort st ty, c1), w1)
           | ((MwNext, ks, c1), w1) \<Rightarrow>
               (case check_calls pkOf k c1 w1 of
                  ((MwAbort st ty, c2), w2) \<Rightarrow> ((MwAbort st ty, c2), w2)
                | ((MwNext, c2), w2) \<Rightarrow>
                    (case check_team pkOf teams (ak_TeamID k) c2 w2 of
                       ((MwAbort st ty, _, c3), w3) \<Rightarrow> ((MwAbort st ty, c3), w3)
                     | ((MwNext, ts, c3), w3) \<Rightarrow>
                         (case check_org pkOf orgs oid c3 w3 of
                            ((MwAbort st ty, _, c4), w4) \<Rightarrow> ((MwAbort st ty, c4), w4)
                          | ((MwNext, os, c4), w4) \<Rightarrow> ((MwNext, c4\<lparr>cx_scopes := Some (ks @ ts @ os)\<rparr>), w4))))))"

text \<open>The variant of the administration routes has no key: the team and the organisation come from the token.\<close>

definition AdminBudgetCheck ::
    "(bytes \<Rightarrow> bytes) \<Rightarrow> bool \<Rightarrow> int option \<Rightarrow> (int \<Rightarrow> budget_meta option \<times> cache_mode) \<Rightarrow>
     (int \<Rightarrow> budget_meta option \<times> cache_mode) option \<Rightarrow> int \<Rightarrow> mw_ctx \<Rightarrow> bworld \<Rightarrow> (mw_result \<times> mw_ctx) \<times> bworld" where
  "AdminBudgetCheck pkOf svc tid teams orgs oid c w =
     (if \<not> svc then ((MwNext, c), w)
      else case check_team pkOf teams tid c w of
        ((MwAbort st ty, _, c1), w1) \<Rightarrow> ((MwAbort st ty, c1\<lparr>cx_metadata_unavailable := cx_metadata_unavailable c\<rparr>), w1)
      | ((MwNext, _, c1), w1) \<Rightarrow>
          (case check_org pkOf orgs oid c1 w1 of
             ((MwAbort st ty, _, c2), w2) \<Rightarrow> ((MwAbort st ty, c2\<lparr>cx_metadata_unavailable := cx_metadata_unavailable c\<rparr>), w2)
           | ((MwNext, _, c2), w2) \<Rightarrow> ((MwNext, c2), w2)))"

section \<open>In the handler\<close>

definition reserveBudgetForRequest ::
    "int \<Rightarrow> int \<Rightarrow> (bytes \<Rightarrow> bytes) \<Rightarrow> bool \<Rightarrow> bytes \<Rightarrow> int \<Rightarrow> int \<Rightarrow> rat \<Rightarrow> rat \<Rightarrow> mw_ctx \<Rightarrow> bworld \<Rightarrow> (mw_result \<times> mw_ctx) \<times> bworld" where
  "reserveBudgetForRequest now expiry pkOf svc req inTok maxOut inPrice outPrice c w =
     (if \<not> svc then ((MwNext, c), w)
      else
        let scopes = (case cx_scopes c of None \<Rightarrow> [] | Some scs \<Rightarrow> scs);
            maxOut = (if maxOut \<le> 0 then 1000 else maxOut);
            estimate = (of_int inTok * inPrice + of_int maxOut * outPrice) / 1000
        in if scopes = [] \<or> estimate \<le> 0 then ((MwNext, c), w)
           else case ReserveForRequestE now expiry pkOf scopes estimate req w of
             ((res, Admitted), w1) \<Rightarrow> ((MwNext, c\<lparr>cx_reservations := Some res\<rparr>), w1)
           | ((res, Exceeded scope), w1) \<Rightarrow>
               ((MwAbort 429 ''budget_exceeded'', c\<lparr>cx_budget_exceeded := True, cx_skip_call_count := True\<rparr>), w1)
           | ((res, EnforcementUnavailable scope), w1) \<Rightarrow>
               ((MwAbort 503 ''budget_enforcement_unavailable'', c\<lparr>cx_enforcement_unavailable := True, cx_skip_call_count := True\<rparr>), w1))"

section \<open>After the request\<close>

record usage =
  us_in :: "int option"
  us_out :: "int option"
  us_inPrice :: rat
  us_outPrice :: rat
  us_cost :: "rat option"

definition usage_cost :: "usage \<Rightarrow> rat" where
  "usage_cost u =
     (case us_cost u of
        Some cost \<Rightarrow> cost
      | None \<Rightarrow> us_inPrice u * of_int (case us_in u of None \<Rightarrow> 0 | Some n \<Rightarrow> n) / 1000 +
                us_outPrice u * of_int (case us_out u of None \<Rightarrow> 0 | Some n \<Rightarrow> n) / 1000)"

text \<open>The service has \<^verbatim>\<open>SettleScope\<close>, so a request with an id is always settled through it.\<close>

definition applyBudgetDelta ::
    "int \<Rightarrow> (bytes \<Rightarrow> bytes) \<Rightarrow> bytes \<Rightarrow> bytes \<Rightarrow> bytes \<Rightarrow> rat \<Rightarrow> BudgetReservations option \<Rightarrow> bytes \<Rightarrow> bworld \<Rightarrow> bworld" where
  "applyBudgetDelta now pkOf scope target period cost reservations req w =
     (let pk0 = (case reservations of None \<Rightarrow> [] | Some r \<Rightarrow> key_or_empty (br_keys r scope));
          pk = (if pk0 = [] then pkOf period else pk0)
      in if req \<noteq> [] then SettleScope now pkOf scope target period pk req cost w
         else case reservations of
           None \<Rightarrow> ReportUsage pkOf scope target period cost w
         | Some r \<Rightarrow>
             (case br_reserved r scope of
                Some reserved \<Rightarrow> AdjustBudgetKeyed pkOf scope target period (key_or_empty (br_keys r scope)) (cost - reserved) w
              | None \<Rightarrow> ReportUsage pkOf scope target period cost w))"

fun JournalSettleIntents ::
    "(bytes \<Rightarrow> bytes) \<Rightarrow> bytes \<Rightarrow> rat \<Rightarrow> (bytes \<times> bytes \<times> bytes) list \<Rightarrow> BudgetReservations option \<Rightarrow> bworld \<Rightarrow> bworld" where
  "JournalSettleIntents pkOf req cost [] reservations w = w"
| "JournalSettleIntents pkOf req cost ((scope, target, period) # scs) reservations w =
     (if req = [] then w
      else
        let pk0 = (case reservations of None \<Rightarrow> [] | Some r \<Rightarrow> key_or_empty (br_keys r scope));
            pk = (if pk0 = [] then pkOf period else pk0)
        in JournalSettleIntents pkOf req cost scs reservations
             (journal_append \<lparr>tk_scope = scope, tk_target = target, tk_period = period, tk_pk = pk, tk_req = req, tk_cost = cost, tk_deadline = 0\<rparr> w))"

text \<open>An alert check: scope, target, period, spent and limit.\<close>

type_synonym alert = "bytes \<times> bytes \<times> bytes \<times> rat \<times> rat"

definition reconcile_calls :: "(bytes \<Rightarrow> bytes) \<Rightarrow> ApiKey \<Rightarrow> mw_ctx \<Rightarrow> bworld \<Rightarrow> bworld" where
  "reconcile_calls pkOf k c w =
     (if cx_call_reserved c then
        (if cx_skip_call_count c \<and> cx_call_reserved_pk c \<noteq> [] then RefundCall (itoa (ak_ID k)) (cx_call_reserved_pk c) w else w)
      else if \<not> cx_skip_call_count c \<and> ak_MaxCalls k > 0 then ReportCallUsage pkOf (itoa (ak_ID k)) (ak_CallPeriod k) w
      else w)"

text \<open>The team and the organisation whose budget applies to the request, with the period the check recorded.\<close>

definition team_part :: "ApiKey \<Rightarrow> mw_ctx \<Rightarrow> (int \<times> bytes) option" where
  "team_part k c = (case (cx_team_period c, ak_TeamID k) of (Some p, Some t) \<Rightarrow> if p \<noteq> [] then Some (t, p) else None | _ \<Rightarrow> None)"

definition org_part :: "bool \<Rightarrow> int \<Rightarrow> mw_ctx \<Rightarrow> (int \<times> bytes) option" where
  "org_part cached oid c =
     (if cached \<and> oid \<noteq> 0 then (case cx_org_period c of Some p \<Rightarrow> if p \<noteq> [] then Some (oid, p) else None | None \<Rightarrow> None) else None)"

definition settle_refs :: "ApiKey \<Rightarrow> mw_ctx \<Rightarrow> bool \<Rightarrow> int \<Rightarrow> (bytes \<times> bytes \<times> bytes) list" where
  "settle_refs k c cached oid =
     (if ak_MaxBudget k > 0 then [(''key'', itoa (ak_ID k), ak_BudgetPeriod k)] else []) @
     (case team_part k c of Some (t, p) \<Rightarrow> [(''team'', itoa t, p)] | None \<Rightarrow> []) @
     (case org_part cached oid c of Some (o', p) \<Rightarrow> [(''org'', itoa o', p)] | None \<Rightarrow> [])"

definition report_key :: "int \<Rightarrow> (bytes \<Rightarrow> bytes) \<Rightarrow> ApiKey \<Rightarrow> mw_ctx \<Rightarrow> rat \<Rightarrow> bytes \<Rightarrow> bworld \<Rightarrow> alert list \<times> bworld" where
  "report_key now pkOf k c cost req w =
     (if ak_MaxBudget k > 0 then
        (case CheckBudget pkOf ''key'' (itoa (ak_ID k)) (ak_BudgetPeriod k) (ak_MaxBudget k)
                (applyBudgetDelta now pkOf ''key'' (itoa (ak_ID k)) (ak_BudgetPeriod k) cost (cx_reservations c) req w) of
           ((spent, limit, _), w1) \<Rightarrow> ([(''key'', itoa (ak_ID k), ak_BudgetPeriod k, spent, limit)], w1))
      else ([], w))"

definition report_team ::
    "int \<Rightarrow> (bytes \<Rightarrow> bytes) \<Rightarrow> (int \<Rightarrow> budget_meta option) \<Rightarrow> ApiKey \<Rightarrow> mw_ctx \<Rightarrow> rat \<Rightarrow> bytes \<Rightarrow> bworld \<Rightarrow> alert list \<times> bworld" where
  "report_team now pkOf teams k c cost req w =
     (case team_part k c of
        None \<Rightarrow> ([], w)
      | Some (t, p) \<Rightarrow>
          let w1 = applyBudgetDelta now pkOf ''team'' (itoa t) p cost (cx_reservations c) req w
          in case teams t of
               None \<Rightarrow> ([], w1)
             | Some m \<Rightarrow>
                 (case CheckBudget pkOf ''team'' (itoa (bm_ID m)) (bm_BudgetPeriod m) (bm_BudgetLimit m) w1 of
                    ((spent, limit, _), w2) \<Rightarrow> ([(''team'', itoa (bm_ID m), bm_BudgetPeriod m, spent, limit)], w2)))"

definition report_org ::
    "int \<Rightarrow> (bytes \<Rightarrow> bytes) \<Rightarrow> (int \<Rightarrow> budget_meta option) option \<Rightarrow> int \<Rightarrow> mw_ctx \<Rightarrow> rat \<Rightarrow> bytes \<Rightarrow> bworld \<Rightarrow> alert list \<times> bworld" where
  "report_org now pkOf orgs oid c cost req w =
     (case org_part (orgs \<noteq> None) oid c of
        None \<Rightarrow> ([], w)
      | Some (o', p) \<Rightarrow>
          (case (case orgs of Some get \<Rightarrow> get o' | None \<Rightarrow> None) of
             Some m \<Rightarrow> (if bm_BudgetLimit m > 0 then [(''org'', itoa o', p, cost, bm_BudgetLimit m)] else [])
           | None \<Rightarrow> [],
           applyBudgetDelta now pkOf ''org'' (itoa o') p cost (cx_reservations c) req w))"

definition ReportBudgetUsage ::
    "int \<Rightarrow> (bytes \<Rightarrow> bytes) \<Rightarrow> bool \<Rightarrow> ApiKey option \<Rightarrow> (int \<Rightarrow> budget_meta option) \<Rightarrow> (int \<Rightarrow> budget_meta option) option \<Rightarrow> int \<Rightarrow>
     usage \<Rightarrow> bytes \<Rightarrow> mw_ctx \<Rightarrow> bworld \<Rightarrow> alert list \<times> bworld" where
  "ReportBudgetUsage now pkOf svc key teams orgs oid u req c w =
     (case (svc, key) of
        (True, Some k) \<Rightarrow>
          let hasRes = (case cx_reservations c of None \<Rightarrow> False | Some r \<Rightarrow> br_reserved r \<noteq> Map.empty);
              w1 = reconcile_calls pkOf k c w;
              cost = usage_cost u
          in if us_in u = None \<and> us_out u = None \<and> us_cost u = None \<and> \<not> hasRes then ([], w1)
             else if cost \<le> 0 \<and> \<not> hasRes then ([], w1)
             else
               let w2 = JournalSettleIntents pkOf req cost (settle_refs k c (orgs \<noteq> None) oid) (cx_reservations c) w1
               in case report_key now pkOf k c cost req w2 of
                    (a1, w3) \<Rightarrow>
                      (case report_team now pkOf teams k c cost req w3 of
                         (a2, w4) \<Rightarrow>
                           (case report_org now pkOf orgs oid c cost req w4 of (a3, w5) \<Rightarrow> (a1 @ a2 @ a3, w5)))
      | _ \<Rightarrow> ([], w))"


definition AdminReportBudgetUsage ::
    "(bytes \<Rightarrow> bytes) \<Rightarrow> bool \<Rightarrow> int \<Rightarrow> (int \<Rightarrow> budget_meta option) \<Rightarrow> (int \<Rightarrow> budget_meta option) option \<Rightarrow> int \<Rightarrow>
     usage \<Rightarrow> mw_ctx \<Rightarrow> bworld \<Rightarrow> alert list \<times> bworld" where
  "AdminReportBudgetUsage pkOf svc tid teams orgs oid u c w =
     (let cost = usage_cost u
      in if \<not> svc \<or> cost \<le> 0 then ([], w)
         else
           case (case (if tid > 0 then teams tid else None) of
                   Some m \<Rightarrow>
                     if bm_BudgetLimit m > 0 then
                       (let p = (case cx_team_period c of Some p \<Rightarrow> if p = [] then bm_BudgetPeriod m else p | None \<Rightarrow> bm_BudgetPeriod m)
                        in case CheckBudget pkOf ''team'' (itoa (bm_ID m)) (bm_BudgetPeriod m) (bm_BudgetLimit m)
                                  (ReportUsage pkOf ''team'' (itoa (bm_ID m)) p cost w) of
                             ((spent, limit, _), w1) \<Rightarrow> ([(''team'', itoa (bm_ID m), bm_BudgetPeriod m, spent, limit)], w1))
                     else ([], w)
                 | None \<Rightarrow> ([], w)) of
             (a1, w1) \<Rightarrow>
               (case org_part (orgs \<noteq> None) oid c of
                  None \<Rightarrow> (a1, w1)
                | Some (o', p) \<Rightarrow>
                    (a1 @ (case (case orgs of Some get \<Rightarrow> get o' | None \<Rightarrow> None) of
                             Some m \<Rightarrow> (if bm_BudgetLimit m > 0 then [(''org'', itoa o', p, cost, bm_BudgetLimit m)] else [])
                           | None \<Rightarrow> []),
                     ReportUsage pkOf ''org'' (itoa o') p cost w1)))"

section \<open>What the check hands on\<close>

lemma CheckBudget_store:
  assumes "CheckBudget pkOf scope target period limit w = (r, w1)"
  shows "bw_store w1 = bw_store w \<and> bw_calls w1 = bw_calls w"
proof (cases "limit \<le> 0")
  case False
  obtain x w2 where x: "redis_call (\<lambda>w. (rb_budget (bw_store w) (scope, target, pkOf period), w)) w = (x, w2)" by fastforce
  then have "bw_store w2 = bw_store w \<and> bw_calls w2 = bw_calls w" by (rule redis_call_cases) auto
  with assms False show ?thesis by (auto simp: CheckBudget_def x split: sum.splits)
qed (use assms in \<open>auto simp: CheckBudget_def\<close>)

text \<open>What a stage guarantees when it lets the request pass.\<close>

definition stage_ok :: "bytes \<Rightarrow> BudgetScope list \<Rightarrow> bworld \<Rightarrow> bworld \<Rightarrow> bool" where
  "stage_ok name scs w w1 \<longleftrightarrow> (scs = [] \<or> (\<exists>sc. scs = [sc] \<and> bs_scope sc = name \<and> 0 < bs_limit sc)) \<and> bw_store w1 = bw_store w"

lemma check_key_ok: "check_key pkOf k c w = ((MwNext, scs, c1), w1) \<Longrightarrow> stage_ok ''key'' scs w w1"
  by (auto simp: check_key_def stage_ok_def dest: CheckBudget_store split: if_splits prod.splits)

lemma check_team_ok: "check_team pkOf teams tid c w = ((MwNext, scs, c1), w1) \<Longrightarrow> stage_ok ''team'' scs w w1"
  by (auto simp: check_team_def stage_ok_def dest: CheckBudget_store split: if_splits prod.splits option.splits)

lemma check_org_ok: "check_org pkOf orgs oid c w = ((MwNext, scs, c1), w1) \<Longrightarrow> stage_ok ''org'' scs w w1"
  by (auto simp: check_org_def stage_ok_def dest: CheckBudget_store split: if_splits prod.splits option.splits)

lemma check_calls_store:
  assumes "check_calls pkOf k c w = (r, w1)"
  shows "bw_store w1 = bw_store w"
proof (cases "ak_MaxCalls k > 0")
  case True
  let ?f = "\<lambda>w. case callReserveScript (itoa (ak_ID k), pkOf (ak_CallPeriod k)) (ak_MaxCalls k) (bw_calls w) of (r, f) \<Rightarrow> (r, w\<lparr>bw_calls := f\<rparr>)"
  obtain x w2 where x: "redis_call ?f w = (x, w2)" by fastforce
  then have w2: "bw_store w2 = bw_store w" by (rule redis_call_cases) (auto split: prod.split)
  obtain y w3 where y: "CheckCallLimit pkOf (itoa (ak_ID k)) (ak_CallPeriod k) (ak_MaxCalls k) w2 = (y, w3)" by fastforce
  obtain z w4 where z: "redis_call (\<lambda>w. (bw_calls w (itoa (ak_ID k), pkOf (ak_CallPeriod k)), w)) w2 = (z, w4)" by fastforce
  then have "bw_store w4 = bw_store w2" by (rule redis_call_cases) auto
  then have "bw_store w3 = bw_store w2" using y True by (auto simp: CheckCallLimit_def z split: sum.splits)
  with assms w2 True show ?thesis by (auto simp: check_calls_def ReserveCall_def x y split: sum.splits prod.splits if_splits)
qed (use assms in \<open>auto simp: check_calls_def\<close>)

lemma stages_distinct:
  assumes "stage_ok ''key'' ks w w1" "stage_ok ''team'' ts w2 w3" "stage_ok ''org'' os w4 w5"
  shows "distinct (map bs_scope (ks @ ts @ os))" "list_all (\<lambda>sc. 0 < bs_limit sc) (ks @ ts @ os)"
  using assms by (auto simp: stage_ok_def)

text \<open>
  What \<^verbatim>\<open>BudgetCheck\<close> hands to the admission: at most one scope each for the key, the team and the organisation, in this
  order and all with a positive limit; the check itself changes no budget counter, marker or hold.
\<close>

lemma budget_check_scopes:
  assumes "BudgetCheck pkOf True (Some k) teams orgs oid c w = ((MwNext, c'), w')"
  shows "\<exists>scs. cx_scopes c' = Some scs \<and> distinct (map bs_scope scs) \<and> list_all (\<lambda>sc. 0 < bs_limit sc) scs \<and>
    subseq (map bs_scope scs) [''key'', ''team'', ''org''] \<and> bw_store w' = bw_store w"
proof -
  obtain r1 ks c1 w1 where k: "check_key pkOf k c w = ((r1, ks, c1), w1)" by (metis prod_cases3 surj_pair)
  with assms have r1: "r1 = MwNext" by (cases r1) (simp_all add: BudgetCheck_def)
  obtain r2 c2 w2 where ca: "check_calls pkOf k c1 w1 = ((r2, c2), w2)" by (metis surj_pair)
  with assms k r1 have r2: "r2 = MwNext" by (cases r2) (simp_all add: BudgetCheck_def)
  obtain r3 ts c3 w3 where t: "check_team pkOf teams (ak_TeamID k) c2 w2 = ((r3, ts, c3), w3)" by (metis prod_cases3 surj_pair)
  with assms k r1 ca r2 have r3: "r3 = MwNext" by (cases r3) (simp_all add: BudgetCheck_def)
  obtain r4 os c4 w4 where o: "check_org pkOf orgs oid c3 w3 = ((r4, os, c4), w4)" by (metis prod_cases3 surj_pair)
  with assms k r1 ca r2 t r3 have r4: "r4 = MwNext" by (cases r4) (simp_all add: BudgetCheck_def)
  have f: "c' = c4\<lparr>cx_scopes := Some (ks @ ts @ os)\<rparr>" "w' = w4"
    using assms k r1 ca r2 t r3 o r4 by (simp_all add: BudgetCheck_def)
  note ok = check_key_ok [OF k [unfolded r1]] check_team_ok [OF t [unfolded r3]] check_org_ok [OF o [unfolded r4]]
  have "subseq (map bs_scope (ks @ ts @ os)) [''key'', ''team'', ''org'']" using ok by (auto simp: stage_ok_def)
  moreover have "bw_store w' = bw_store w" using ok check_calls_store [OF ca] f(2) by (simp add: stage_ok_def)
  ultimately show ?thesis using stages_distinct [OF ok] f(1) by (intro exI [of _ "ks @ ts @ os"]) simp
qed

section \<open>Calls of rejected requests\<close>

text \<open>Redis answers every call; the settlement of reservations and the budget counters leave the calls alone.\<close>

lemma redis_up: "bw_redis w = [] \<Longrightarrow> redis_call f w = (Inr (fst (f w)), snd (f w))"
  by (simp add: redis_call_def split: prod.split)

definition calls_kept :: "bworld \<Rightarrow> bworld \<Rightarrow> bool" where
  "calls_kept w w1 \<longleftrightarrow> bw_calls w1 = bw_calls w \<and> (bw_redis w = [] \<longrightarrow> bw_redis w1 = [])"

lemma calls_kept_trans: "calls_kept w w1 \<Longrightarrow> calls_kept w1 w2 \<Longrightarrow> calls_kept w w2"
  by (simp add: calls_kept_def)

lemma redis_call_kept:
  assumes "\<And>v. calls_kept v (snd (f v))" "redis_call f w = (r, w1)"
  shows "calls_kept w w1"
proof (cases "bw_redis w")
  case Nil
  then show ?thesis using assms(1) [of w] assms(2) by (simp add: redis_up)
next
  case (Cons d ds)
  have "bw_calls (snd (f (w\<lparr>bw_redis := ds\<rparr>))) = bw_calls w" using assms(1) [of "w\<lparr>bw_redis := ds\<rparr>"] by (simp add: calls_kept_def)
  with Cons assms(2) show ?thesis
    by (cases d) (auto simp: redis_call_def calls_kept_def split: prod.splits if_splits)
qed

lemma on_store_kept: "calls_kept v (snd (on_store f v))"
  by (simp add: snd_on_store calls_kept_def)

lemma enqueue_kept:
  assumes "enqueueSettleRetry now t w = (ok, w1)"
  shows "calls_kept w w1"
proof -
  obtain r w2 where r: "redis_call (\<lambda>w. ((), w\<lparr>bw_ledger := zadd (ledgerMember t) (now div 1000000000) (bw_ledger w)\<rparr>)) w = (r, w2)" by fastforce
  have "calls_kept w w2" by (rule redis_call_kept [OF _ r]) (simp add: calls_kept_def)
  then show ?thesis using assms
    by (auto simp: enqueueSettleRetry_def persistLedgerEntry_def r calls_kept_def split: sum.splits if_splits)
qed

lemma ladder_kept: "calls_kept w (settle_ladder now t a w)"
proof (induction now t a w rule: settle_ladder.induct)
  case (1 now t a w)
  obtain r w1 where r: "runSettleScript t w = (r, w1)" by fastforce
  obtain over w2 where c: "ctx_over w1 = (over, w2)" by fastforce
  have k1: "calls_kept w w1" using r unfolding runSettleScript_def by (rule redis_call_kept [OF on_store_kept])
  then have k2: "calls_kept w w2" using c by (auto simp: ctx_over_def calls_kept_def split: list.splits)
  show ?case
  proof (cases r)
    case (Inr n)
    with k1 show ?thesis by (subst settle_ladder.simps) (simp add: r)
  next
    case (Inl e)
    show ?thesis
    proof (cases "a \<ge> 4 \<or> over")
      case True
      obtain ok w3 where e: "enqueueSettleRetry now (t\<lparr>tk_deadline := now + settleRetryHorizon\<rparr>) w2 = (ok, w3)" by fastforce
      have "settle_ladder now t a w = w3" using True by (subst settle_ladder.simps) (auto simp: r c e Inl)
      then show ?thesis using calls_kept_trans [OF k2 enqueue_kept [OF e]] by simp
    next
      case False
      then have l: "settle_ladder now t a w = settle_ladder now t (a + 1) w2" by (subst settle_ladder.simps) (simp add: r c Inl)
      from "1.IH" [OF r [symmetric] Inl c [symmetric] False] show ?thesis unfolding l by (rule calls_kept_trans [OF k2])
    qed
  qed
qed

lemma refund_kept: "req \<noteq> [] \<Longrightarrow> calls_kept w (snd (refundReserved now pkOf req scs res w))"
proof (induction now pkOf req scs res w rule: refundReserved.induct)
  case (1 now pkOf req res w)
  show ?case by (simp add: calls_kept_def)
next
  case (2 now pkOf req sc scs res w)
  have k: "calls_kept w (SettleScope now pkOf (bs_scope sc) (bs_id sc) (bs_period sc) pk req 0 w)" for pk
    using 2(3) calls_kept_trans [OF _ ladder_kept, of w] by (simp add: SettleScope_def Let_def calls_kept_def)
  show ?case
  proof (cases "the0 (br_reserved res (bs_scope sc)) > 0")
    case True
    then show ?thesis using calls_kept_trans [OF k "2.IH"(1) [OF refl refl True "2.prems", unfolded if_P [OF "2.prems"]]] "2.prems" by (simp add: Let_def)
  next
    case False
    then show ?thesis using "2.IH"(2) [OF refl refl False "2.prems"] by (simp add: Let_def)
  qed
qed

lemma reserve_scopes_kept:
  "req \<noteq> [] \<Longrightarrow> reserve_scopes now x pkOf req est before scs res w = (ra, w1) \<Longrightarrow> calls_kept w w1"
proof (induction scs arbitrary: before res w)
  case Nil
  then show ?case by (simp add: calls_kept_def)
next
  case (Cons sc scs)
  show ?case
  proof (cases "bs_limit sc \<le> 0")
    case True
    then show ?thesis using Cons by simp
  next
    case False
    obtain a b wr exc down v where e: "reserveScopeMarkedE x pkOf sc (pkOf (bs_period sc)) req est w = ((a, b, wr, exc, down), v)"
      by (metis prod_cases5 surj_pair)
    obtain r v1 where r: "redis_call (on_store (budgetReserveMarkScript (scope_call x (pkOf (bs_period sc)) req est sc))) w = (r, v1)" by fastforce
    have "calls_kept w v1" by (rule redis_call_kept [OF on_store_kept r])
    then have v: "calls_kept w v" using e Cons.prems(1) by (auto simp: reserveScopeMarkedE_def r calls_kept_def split: if_splits sum.splits)
    show ?thesis
    proof (cases "down \<or> exc")
      case True
      then have "w1 = snd (refundReserved now pkOf req before res v)"
        using Cons.prems(2) False e by (auto simp: Let_def split: prod.splits if_splits)
      then show ?thesis using calls_kept_trans [OF v refund_kept [OF Cons.prems(1)]] by simp
    next
      case ok: False
      then show ?thesis using Cons.prems False e Cons.IH calls_kept_trans [OF v] by (simp add: Let_def)
    qed
  qed
qed

lemma CheckBudget_kept:
  assumes "CheckBudget pkOf scope target period limit w = (r, w1)"
  shows "calls_kept w w1"
proof (cases "limit \<le> 0")
  case False
  obtain x w2 where x: "redis_call (\<lambda>w. (rb_budget (bw_store w) (scope, target, pkOf period), w)) w = (x, w2)" by fastforce
  have "calls_kept w w2" by (rule redis_call_kept [OF _ x]) (simp add: calls_kept_def)
  with assms False show ?thesis by (auto simp: CheckBudget_def x split: sum.splits)
qed (use assms in \<open>auto simp: CheckBudget_def calls_kept_def\<close>)

lemma stages_kept:
  "check_key pkOf k c w = ((r, ks, c1), w1) \<Longrightarrow> calls_kept w w1 \<and> cx_call_reserved c1 = cx_call_reserved c \<and>
     cx_call_reserved_pk c1 = cx_call_reserved_pk c \<and> cx_reservations c1 = cx_reservations c"
  "check_team pkOf teams tid c w = ((r, ks, c1), w1) \<Longrightarrow> calls_kept w w1 \<and> cx_call_reserved c1 = cx_call_reserved c \<and>
     cx_call_reserved_pk c1 = cx_call_reserved_pk c \<and> cx_reservations c1 = cx_reservations c"
  "check_org pkOf orgs oid c w = ((r, ks, c1), w1) \<Longrightarrow> calls_kept w w1 \<and> cx_call_reserved c1 = cx_call_reserved c \<and>
     cx_call_reserved_pk c1 = cx_call_reserved_pk c \<and> cx_reservations c1 = cx_reservations c"
  by (auto simp: check_key_def check_team_def check_org_def calls_kept_def dest!: CheckBudget_kept
      split: if_splits prod.splits option.splits)

lemma check_calls_effect:
  assumes "bw_redis w = []" "0 < ak_MaxCalls k" "n = (itoa (ak_ID k), pkOf (ak_CallPeriod k))" "check_calls pkOf k c w = ((r, c1), w1)"
  shows "if r = MwNext then cx_call_reserved c1 \<and> cx_call_reserved_pk c1 = pkOf (ak_CallPeriod k) \<and>
      bw_calls w1 = (bw_calls w)(n := bw_calls w n + 1) \<and> bw_redis w1 = []
    else cx_call_reserved c1 = cx_call_reserved c \<and> bw_calls w1 = bw_calls w"
    and "cx_reservations c1 = cx_reservations c"
  using assms by (auto simp: check_calls_def ReserveCall_def redis_up callReserveScript_def Let_def split: if_splits prod.splits)

text \<open>The outcome of the middleware for the calls of the key.\<close>

lemma BudgetCheck_calls:
  assumes "bw_redis w = []" "0 < ak_MaxCalls k" "n = (itoa (ak_ID k), pkOf (ak_CallPeriod k))" "\<not> cx_call_reserved c"
    and "BudgetCheck pkOf True (Some k) teams orgs oid c w = ((r, c'), w')"
  shows "bw_calls w' = (if cx_call_reserved c' then (bw_calls w)(n := bw_calls w n + 1) else bw_calls w)"
    and "r = MwNext \<Longrightarrow> cx_call_reserved c' \<and> cx_call_reserved_pk c' = pkOf (ak_CallPeriod k) \<and> bw_redis w' = [] \<and>
      cx_reservations c' = cx_reservations c"
    and "cx_call_reserved c' \<longleftrightarrow> (\<exists>ks c1 w1. check_key pkOf k c w = ((MwNext, ks, c1), w1) \<and> fst (fst (check_calls pkOf k c1 w1)) = MwNext)"
proof -
  obtain r1 ks c1 w1 where k: "check_key pkOf k c w = ((r1, ks, c1), w1)" by (metis prod_cases3 surj_pair)
  obtain r2 c2 w2 where ca: "check_calls pkOf k c1 w1 = ((r2, c2), w2)" by (metis surj_pair)
  obtain r3 ts c3 w3 where t: "check_team pkOf teams (ak_TeamID k) c2 w2 = ((r3, ts, c3), w3)" by (metis prod_cases3 surj_pair)
  obtain r4 os c4 w4 where o: "check_org pkOf orgs oid c3 w3 = ((r4, os, c4), w4)" by (metis prod_cases3 surj_pair)
  note s1 = stages_kept(1) [OF k] and s3 = stages_kept(2) [OF t] and s4 = stages_kept(3) [OF o]
  have w1: "bw_redis w1 = []" "bw_calls w1 = bw_calls w" using s1 assms(1) by (simp_all add: calls_kept_def)
  note s2 = check_calls_effect [OF w1(1) assms(2,3) ca]
  note B = assms(5) [unfolded BudgetCheck_def]
  have "bw_calls w' = (if cx_call_reserved c' then (bw_calls w)(n := bw_calls w n + 1) else bw_calls w) \<and>
    (r = MwNext \<longrightarrow> cx_call_reserved c' \<and> cx_call_reserved_pk c' = pkOf (ak_CallPeriod k) \<and> bw_redis w' = [] \<and>
      cx_reservations c' = cx_reservations c) \<and> (cx_call_reserved c' \<longleftrightarrow> r1 = MwNext \<and> r2 = MwNext)"
  proof (cases r1)
    case (MwAbort st ty)
    then show ?thesis using B s1 assms(4) w1 k by auto
  next
    case r1: MwNext
    show ?thesis
    proof (cases r2)
      case (MwAbort st ty)
      then show ?thesis using B s1 s2 assms(4) w1 k r1 ca by auto
    next
      case r2: MwNext
      then have c2: "cx_call_reserved c2" "cx_call_reserved_pk c2 = pkOf (ak_CallPeriod k)" "bw_redis w2 = []"
        "bw_calls w2 = (bw_calls w)(n := bw_calls w n + 1)" "cx_reservations c2 = cx_reservations c"
        using s1 s2 w1(2) by simp_all
      have c3: "cx_call_reserved c3" "cx_call_reserved_pk c3 = pkOf (ak_CallPeriod k)" "bw_redis w3 = []"
        "bw_calls w3 = (bw_calls w)(n := bw_calls w n + 1)" "cx_reservations c3 = cx_reservations c"
        using s3 c2 by (simp_all add: calls_kept_def)
      have c4: "cx_call_reserved c4" "cx_call_reserved_pk c4 = pkOf (ak_CallPeriod k)" "bw_redis w4 = []"
        "bw_calls w4 = (bw_calls w)(n := bw_calls w n + 1)" "cx_reservations c4 = cx_reservations c"
        using s4 c3 by (simp_all add: calls_kept_def)
      show ?thesis using B k r1 ca r2 t o c3 c4 by (cases r3; cases r4) auto
    qed
  qed
  then show "bw_calls w' = (if cx_call_reserved c' then (bw_calls w)(n := bw_calls w n + 1) else bw_calls w)"
    "r = MwNext \<Longrightarrow> cx_call_reserved c' \<and> cx_call_reserved_pk c' = pkOf (ak_CallPeriod k) \<and> bw_redis w' = [] \<and> cx_reservations c' = cx_reservations c"
    "cx_call_reserved c' \<longleftrightarrow> (\<exists>ks c1 w1. check_key pkOf k c w = ((MwNext, ks, c1), w1) \<and> fst (fst (check_calls pkOf k c1 w1)) = MwNext)"
    using k ca by auto
qed

lemma handler_calls:
  assumes "reserveBudgetForRequest now x pkOf True req inTok maxOut inPrice outPrice c w = ((MwAbort st ty, c'), w')" "req \<noteq> []"
  shows "calls_kept w w' \<and> cx_skip_call_count c' \<and> cx_call_reserved c' = cx_call_reserved c \<and>
    cx_call_reserved_pk c' = cx_call_reserved_pk c \<and> cx_reservations c' = cx_reservations c"
  using assms reserve_scopes_kept [OF assms(2)]
  by (auto simp: reserveBudgetForRequest_def ReserveForRequestE_def Let_def calls_kept_def split: if_splits prod.splits admission.splits)

text \<open>
  C40: Which rejected requests keep the call they reserved. A request that \<^verbatim>\<open>BudgetCheck\<close> rejects has its call counted exactly
  when the stages of the key's budget and of its call limit had passed, that is, when the team or the organisation
  rejected it, and nothing gives it back: the middleware that refunds calls comes later in the chain and never sees
  the request. A request that passes and is rejected by the handler's reservation has its call refunded by that
  middleware: the counters end as they were. Redis answers throughout.
\<close>

theorem rejected_request_calls:
  assumes "bw_redis w = []" "0 < ak_MaxCalls k" "n = (itoa (ak_ID k), pkOf (ak_CallPeriod k))" "pkOf (ak_CallPeriod k) \<noteq> []"
    and "\<not> cx_call_reserved c" "cx_reservations c = None" "req \<noteq> []"
    and "BudgetCheck pkOf True (Some k) teams orgs oid c w = ((r, c1), w1)"
    and "us_in u = None" "us_out u = None" "us_cost u = None"
  shows "(r \<noteq> MwNext \<longrightarrow> bw_calls w1 =
       (if \<exists>ks c1 w1. check_key pkOf k c w = ((MwNext, ks, c1), w1) \<and> fst (fst (check_calls pkOf k c1 w1)) = MwNext
        then (bw_calls w)(n := bw_calls w n + 1) else bw_calls w)) \<and>
    (r = MwNext \<and> reserveBudgetForRequest now x pkOf True req inTok maxOut inPrice outPrice c1 w1 = ((MwAbort st ty, c2), w2) \<longrightarrow>
       bw_calls (snd (ReportBudgetUsage later pkOf' True (Some k) teams' orgs' oid u req c2 w2)) = bw_calls w)"
proof (intro conjI impI)
  note B = BudgetCheck_calls [OF assms(1-3,5,8)]
  show "bw_calls w1 = (if \<exists>ks c1 w1. check_key pkOf k c w = ((MwNext, ks, c1), w1) \<and> fst (fst (check_calls pkOf k c1 w1)) = MwNext
        then (bw_calls w)(n := bw_calls w n + 1) else bw_calls w)" unfolding B(3) [symmetric] by (rule B(1))
  assume a: "r = MwNext \<and> reserveBudgetForRequest now x pkOf True req inTok maxOut inPrice outPrice c1 w1 = ((MwAbort st ty, c2), w2)"
  have b: "cx_call_reserved c1" "cx_call_reserved_pk c1 = pkOf (ak_CallPeriod k)" "bw_redis w1 = []" "cx_reservations c1 = None"
    "bw_calls w1 = (bw_calls w)(n := bw_calls w n + 1)" using B(1,2) a assms(6) by simp_all
  note h = handler_calls [OF conjunct2 [OF a] assms(7)]
  have "bw_redis w2 = []" "bw_calls w2 = (bw_calls w)(n := bw_calls w n + 1)" using h b by (simp_all add: calls_kept_def)
  then show "bw_calls (snd (ReportBudgetUsage later pkOf' True (Some k) teams' orgs' oid u req c2 w2)) = bw_calls w"
    using h b assms(3,4,9-11) by (simp add: ReportBudgetUsage_def Let_def reconcile_calls_def RefundCall_def redis_up)
qed

text \<open>
  The organisation's alert is checked against the cost of the single request, not against what the organisation has
  spent: whatever its counter holds, an alert that \<^verbatim>\<open>ReportBudgetUsage\<close> raises for it carries the request's cost.
\<close>

lemma org_alert_ignores_spend:
  assumes "ReportBudgetUsage now pkOf svc key teams orgs oid u req c w = (alerts, w')" "(''org'', target, period, spent, limit) \<in> set alerts"
  shows "spent = usage_cost u"
proof -
  have k: "(''org'', target, period, spent, limit) \<notin> set (fst (report_key now pkOf k c cost req v))" for k cost v
    by (auto simp: report_key_def split: prod.split)
  have t: "(''org'', target, period, spent, limit) \<notin> set (fst (report_team now pkOf teams k c cost req v))" for k cost v
    by (auto simp: report_team_def Let_def split: prod.split option.split)
  have o: "(''org'', target, period, spent, limit) \<in> set (fst (report_org now pkOf orgs oid c cost req v)) \<Longrightarrow> spent = cost" for cost v
    by (auto simp: report_org_def split: prod.splits option.splits if_splits)
  show ?thesis
    using assms unfolding ReportBudgetUsage_def Let_def
    by (auto split: bool.splits option.splits if_splits prod.splits dest!: arg_cong [where f = fst])
       (metis k t o fst_conv)+
qed


section \<open>A request from admission to settlement\<close>

text \<open>The settlement a scope of the admission asks for.\<close>

definition scope_settle :: "(bytes \<Rightarrow> bytes) \<Rightarrow> bytes \<Rightarrow> rat \<Rightarrow> BudgetScope \<Rightarrow> settle_call" where
  "scope_settle pkOf req cost sc = \<lparr>sc_scope = bs_scope sc, sc_target = bs_id sc, sc_period = bs_period sc, sc_pk = pkOf (bs_period sc),
     sc_req = req, sc_cost = cost\<rparr>"

lemma settles_charge:
  assumes "held s0 (scope_calls x pkOf req est scs) s" "fresh_calls s0 (scope_calls x pkOf req est scs)" "list_all (\<lambda>sc. 0 < bs_limit sc) scs"
  shows "foldl (\<lambda>s sc. snd (budgetSettleScript (scope_settle pkOf req cost sc) s)) s scs =
    foldl (\<lambda>s sc. charged (scope_settle pkOf req cost sc) s) s0 scs"
  using assms
proof (induction scs arbitrary: s0 s)
  case Nil
  then show ?case by (simp add: scope_calls_def limited_def held_Nil)
next
  case (Cons sc scs)
  let ?d = "scope_settle pkOf req cost sc" and ?c = "scope_call x (pkOf (bs_period sc)) req est sc"
  have cs: "scope_calls x pkOf req est (sc # scs) = ?c # scope_calls x pkOf req est scs"
    using Cons.prems(3) by (simp add: scope_calls_def limited_def)
  have d: "sc_rkey ?d = rc_rkey ?c" "sc_period ?d = rc_period ?c" "sc_pk ?d = rc_pk ?c"
    by (simp_all add: scope_settle_def sc_rkey_def scope_call_def rc_rkey_def)
  note h = held_charge [OF Cons.prems(1,2) [unfolded cs] d]
  show ?case using Cons.IH [of "charged ?d s0" "snd (budgetSettleScript ?d s)"] h Cons.prems(3) by simp
qed

lemma charged_sel:
  "rb_resv (charged d s) = rb_resv s" "rb_shadow (charged d s) = rb_shadow s" "rb_mark (charged d s) = rb_mark s" "rb_exp (charged d s) = rb_exp s"
  "rb_shadowmark (charged d s) = rb_shadowmark s" "rb_budget (charged d s) k = rb_budget s k + (if k = sc_bkey d then sc_cost d else 0)"
  "rb_settled (charged d s) k = rb_settled s k + (if k = sc_bkey d then sc_cost d else 0)"
  by (simp_all add: charged_def)

lemma foldl_charged:
  assumes "s' = foldl (\<lambda>s sc. charged (scope_settle pkOf req cost sc) s) s scs"
  shows "rb_resv s' = rb_resv s" "rb_shadow s' = rb_shadow s" "rb_mark s' = rb_mark s" "rb_exp s' = rb_exp s" "rb_shadowmark s' = rb_shadowmark s"
    "rb_settled s' k = rb_settled s k + sum_list (map (\<lambda>sc. if scope_bkey pkOf sc = k then cost else 0) scs)"
    "rb_budget s' k = rb_budget s k + sum_list (map (\<lambda>sc. if scope_bkey pkOf sc = k then cost else 0) scs)"
proof -
  have e: "sc_bkey (scope_settle pkOf req cost sc) = scope_bkey pkOf sc" "sc_cost (scope_settle pkOf req cost sc) = cost" for sc
    by (simp_all add: scope_settle_def sc_bkey_def scope_bkey_def)
  show "rb_resv s' = rb_resv s" "rb_shadow s' = rb_shadow s" "rb_mark s' = rb_mark s" "rb_exp s' = rb_exp s" "rb_shadowmark s' = rb_shadowmark s"
    "rb_settled s' k = rb_settled s k + sum_list (map (\<lambda>sc. if scope_bkey pkOf sc = k then cost else 0) scs)"
    "rb_budget s' k = rb_budget s k + sum_list (map (\<lambda>sc. if scope_bkey pkOf sc = k then cost else 0) scs)"
    unfolding assms by (induction scs arbitrary: s) (auto simp: charged_sel e)
qed

lemma sum_none: "bs_scope sc \<notin> bs_scope ` set scs \<Longrightarrow>
    sum_list (map (\<lambda>y. if scope_bkey pkOf y = scope_bkey pkOf sc then cost else 0) scs) = (0 :: rat)"
  by (induction scs) (auto simp: scope_bkey_def)

lemma sum_one:
  assumes "distinct (map bs_scope scs)" "sc \<in> set scs"
  shows "sum_list (map (\<lambda>y. if scope_bkey pkOf y = scope_bkey pkOf sc then cost else 0) scs) = (cost :: rat)"
  using assms
proof (induction scs)
  case (Cons y ys)
  show ?case
  proof (cases "y = sc")
    case True
    then show ?thesis using sum_none [of sc ys pkOf cost] Cons.prems(1) by simp
  next
    case False
    then have y: "sc \<in> set ys" using Cons.prems(2) by simp
    then have "bs_scope y \<noteq> bs_scope sc" using Cons.prems(1) imageI [OF y, of bs_scope] by auto
    then show ?thesis using Cons.IH Cons.prems(1) y by (simp add: scope_bkey_def)
  qed
qed simp

lemma redis_call_calm:
  assumes "calm w" "redis_call f w = (r, w1)" "\<And>v. bw_store (snd (f v)) = bw_store v \<and> bw_redis (snd (f v)) = bw_redis v \<and> bw_ctx (snd (f v)) = bw_ctx v"
  shows "bw_store w1 = bw_store w \<and> calm w1"
proof -
  have "quiet (bw_redis w)" using assms(1) by (simp add: calm_def)
  then show ?thesis
  proof (rule redis_call_quiet [where f = f])
    fix ds assume "quiet ds" "redis_call f w = (Inr (fst (f (w\<lparr>bw_redis := ds\<rparr>))), snd (f (w\<lparr>bw_redis := ds\<rparr>)))"
    then show ?thesis using assms(1,2) assms(3) [of "w\<lparr>bw_redis := ds\<rparr>"] by (simp add: calm_def)
  next
    fix e assume "redis_call f w = (Inl e, w\<lparr>bw_redis := []\<rparr>)"
    then show ?thesis using assms(1,2) by (auto simp: calm_def)
  qed
qed

lemma CheckBudget_calm:
  assumes "calm w" "CheckBudget pkOf scope target period limit w = (r, w1)"
  shows "bw_store w1 = bw_store w \<and> calm w1"
proof (cases "limit \<le> 0")
  case False
  obtain x w2 where x: "redis_call (\<lambda>w. (rb_budget (bw_store w) (scope, target, pkOf period), w)) w = (x, w2)" by fastforce
  have "bw_store w2 = bw_store w \<and> calm w2" by (rule redis_call_calm [OF assms(1) x]) simp
  then show ?thesis using assms(2) False by (auto simp: CheckBudget_def x split: sum.splits)
qed (use assms in \<open>auto simp: CheckBudget_def\<close>)

lemma reconcile_calm: "calm w \<Longrightarrow> bw_store (reconcile_calls pkOf k c w) = bw_store w \<and> calm (reconcile_calls pkOf k c w)"
proof -
  assume w: "calm w"
  have f: "bw_store (snd (redis_call f w)) = bw_store w \<and> calm (snd (redis_call f w))"
    if "\<And>v. bw_store (snd (f v)) = bw_store v \<and> bw_redis (snd (f v)) = bw_redis v \<and> bw_ctx (snd (f v)) = bw_ctx v" for f :: "bworld \<Rightarrow> unit \<times> bworld"
    using redis_call_calm [OF w prod.collapse [symmetric] that] .
  show ?thesis using w by (auto simp: reconcile_calls_def RefundCall_def ReportCallUsage_def intro!: f)
qed

lemma journal_calm: "calm w \<Longrightarrow> bw_store (JournalSettleIntents pkOf req cost refs res w) = bw_store w \<and> calm (JournalSettleIntents pkOf req cost refs res w)"
proof (induction pkOf req cost refs res w rule: JournalSettleIntents.induct)
  case (2 pkOf req cost scope target period scs res w)
  have j: "calm (journal_append t w)" for t using 2(2) by (auto simp: calm_def journal_append_def split: option.split list.split)
  show ?case using 2 j by (auto simp: Let_def)
qed simp

text \<open>The settlement script of a scope of the report.\<close>

definition ref_settle :: "BudgetReservations \<Rightarrow> bytes \<Rightarrow> rat \<Rightarrow> bytes \<times> bytes \<times> bytes \<Rightarrow> settle_call" where
  "ref_settle res req cost ref = (case ref of (scope, target, period) \<Rightarrow>
     \<lparr>sc_scope = scope, sc_target = target, sc_period = period, sc_pk = key_or_empty (br_keys res scope), sc_req = req, sc_cost = cost\<rparr>)"

lemma delta_calm:
  assumes "calm w" "req \<noteq> []" "key_or_empty (br_keys res scope) \<noteq> []"
  shows "bw_store (applyBudgetDelta now pkOf scope target period cost (Some res) req w) =
      snd (budgetSettleScript (ref_settle res req cost (scope, target, period)) (bw_store w)) \<and>
    calm (applyBudgetDelta now pkOf scope target period cost (Some res) req w)"
proof -
  let ?t = "\<lparr>tk_scope = scope, tk_target = target, tk_period = period, tk_pk = key_or_empty (br_keys res scope), tk_req = req,
    tk_cost = cost, tk_deadline = 0\<rparr>"
  have e: "applyBudgetDelta now pkOf scope target period cost (Some res) req w = settle_ladder now ?t 0 (journal_append ?t w)"
    using assms(2,3) by (simp add: applyBudgetDelta_def SettleScope_def Let_def)
  have c: "calm (journal_append ?t w)" using assms(1) by (auto simp: calm_def journal_append_def split: option.split list.split)
  have "task_call ?t = ref_settle res req cost (scope, target, period)" by (simp add: task_call_def ref_settle_def)
  then show ?thesis using settle_calm [OF c, of now ?t] unfolding e by simp
qed

abbreviation settle_refs_fold :: "BudgetReservations \<Rightarrow> bytes \<Rightarrow> rat \<Rightarrow> (bytes \<times> bytes \<times> bytes) list \<Rightarrow> budget_store \<Rightarrow> budget_store" where
  "settle_refs_fold res req cost refs s \<equiv> foldl (\<lambda>s ref. snd (budgetSettleScript (ref_settle res req cost ref) s)) s refs"

abbreviation keyed :: "BudgetReservations \<Rightarrow> (bytes \<times> bytes \<times> bytes) list \<Rightarrow> bool" where
  "keyed res \<equiv> list_all (\<lambda>(scope, _). key_or_empty (br_keys res scope) \<noteq> [])"

text \<open>Each part of the report settles its own scope, if it has one, and changes nothing else of the store.\<close>

lemma report_key_calm:
  assumes "calm w" "req \<noteq> []" "cx_reservations c = Some res" "report_key now pkOf k c cost req w = (a, w1)"
    and "refs = (if ak_MaxBudget k > 0 then [(''key'', itoa (ak_ID k), ak_BudgetPeriod k)] else [])" "keyed res refs"
  shows "bw_store w1 = settle_refs_fold res req cost refs (bw_store w) \<and> calm w1"
proof (cases "ak_MaxBudget k > 0")
  case True
  obtain r v where v: "CheckBudget pkOf ''key'' (itoa (ak_ID k)) (ak_BudgetPeriod k) (ak_MaxBudget k)
      (applyBudgetDelta now pkOf ''key'' (itoa (ak_ID k)) (ak_BudgetPeriod k) cost (Some res) req w) = (r, v)" by fastforce
  have "w1 = v" using assms(3,4) v True by (auto simp: report_key_def split: prod.splits)
  then show ?thesis
    using CheckBudget_calm [OF _ v] delta_calm [OF assms(1,2), of res "''key''" now pkOf "itoa (ak_ID k)" "ak_BudgetPeriod k" cost] True assms(5,6) by simp
qed (use assms in \<open>simp add: report_key_def\<close>)

lemma report_team_calm:
  assumes "calm w" "req \<noteq> []" "cx_reservations c = Some res" "report_team now pkOf teams k c cost req w = (a, w1)"
    and "refs = (case team_part k c of Some (t, p) \<Rightarrow> [(''team'', itoa t, p)] | None \<Rightarrow> [])" "keyed res refs"
  shows "bw_store w1 = settle_refs_fold res req cost refs (bw_store w) \<and> calm w1"
proof (cases "team_part k c")
  case (Some tp)
  obtain t p where tp: "tp = (t, p)" by (cases tp)
  have r: "refs = [(''team'', itoa t, p)]" using assms(5) Some tp by simp
  note d = delta_calm [OF assms(1,2), of res "''team''" now pkOf "itoa t" p cost]
  show ?thesis
  proof (cases "teams t")
    case None
    then show ?thesis using assms(3,4,6) Some tp r d by (simp add: report_team_def)
  next
    case (Some m)
    obtain x v where v: "CheckBudget pkOf ''team'' (itoa (bm_ID m)) (bm_BudgetPeriod m) (bm_BudgetLimit m)
        (applyBudgetDelta now pkOf ''team'' (itoa t) p cost (Some res) req w) = (x, v)" by fastforce
    have "w1 = v" using assms(3,4) v \<open>team_part k c = Some tp\<close> tp Some by (auto simp: report_team_def split: prod.splits)
    then show ?thesis using CheckBudget_calm [OF _ v] d r assms(6) by simp
  qed
qed (use assms in \<open>simp add: report_team_def\<close>)

lemma report_org_calm:
  assumes "calm w" "req \<noteq> []" "cx_reservations c = Some res" "report_org now pkOf orgs oid c cost req w = (a, w1)"
    and "refs = (case org_part (orgs \<noteq> None) oid c of Some (t, p) \<Rightarrow> [(''org'', itoa t, p)] | None \<Rightarrow> [])" "keyed res refs"
  shows "bw_store w1 = settle_refs_fold res req cost refs (bw_store w)"
proof (cases "org_part (orgs \<noteq> None) oid c")
  case (Some tp)
  obtain t p where tp: "tp = (t, p)" by (cases tp)
  show ?thesis using delta_calm [OF assms(1,2), of res "''org''" now pkOf "itoa t" p cost] assms(3-6) Some tp
    by (auto simp: report_org_def)
qed (use assms in \<open>simp add: report_org_def\<close>)

lemma report_store:
  assumes "calm w" "req \<noteq> []" "cx_reservations c = Some res" "br_reserved res \<noteq> Map.empty" "keyed res (settle_refs k c (orgs \<noteq> None) oid)"
  shows "bw_store (snd (ReportBudgetUsage now pkOf True (Some k) teams orgs oid u req c w)) =
    settle_refs_fold res req (usage_cost u) (settle_refs k c (orgs \<noteq> None) oid) (bw_store w)"
proof -
  define w2 where "w2 = JournalSettleIntents pkOf req (usage_cost u) (settle_refs k c (orgs \<noteq> None) oid) (Some res) (reconcile_calls pkOf k c w)"
  have w2: "bw_store w2 = bw_store w" "calm w2"
    using reconcile_calm [OF assms(1), of pkOf k c] journal_calm [of "reconcile_calls pkOf k c w"] unfolding w2_def by auto
  obtain a1 w3 where w3: "report_key now pkOf k c (usage_cost u) req w2 = (a1, w3)" by fastforce
  obtain a2 w4 where w4: "report_team now pkOf teams k c (usage_cost u) req w3 = (a2, w4)" by fastforce
  obtain a3 w5 where w5: "report_org now pkOf orgs oid c (usage_cost u) req w4 = (a3, w5)" by fastforce
  have e: "snd (ReportBudgetUsage now pkOf True (Some k) teams orgs oid u req c w) = w5"
    using assms(3,4) w3 w4 w5 by (simp add: ReportBudgetUsage_def Let_def w2_def)
  note ok = assms(5) [unfolded settle_refs_def list_all_append]
  note s3 = report_key_calm [OF w2(2) assms(2,3) w3 refl conjunct1 [OF ok]]
  note s4 = report_team_calm [OF conjunct2 [OF s3] assms(2,3) w4 refl conjunct1 [OF conjunct2 [OF ok]]]
  note s5 = report_org_calm [OF conjunct2 [OF s4] assms(2,3) w5 refl conjunct2 [OF conjunct2 [OF ok]]]
  show ?thesis unfolding e settle_refs_def foldl_append s5 conjunct1 [OF s4] conjunct1 [OF s3] w2(1) ..
qed

text \<open>The scope of an admission as the report names it.\<close>

definition scope_ref :: "BudgetScope \<Rightarrow> bytes \<times> bytes \<times> bytes" where
  "scope_ref sc = (bs_scope sc, bs_id sc, bs_period sc)"

text \<open>
  C3: A served request is charged exactly its cost. When a request was admitted on all of its limited scopes and the report
  after it names the same scopes, each scope's counter and settled amount, in the period of the admission, grow by exactly
  the cost of the request, whatever was estimated and whichever period it is by then; reservations, quarantine, markers and
  holds are as before the request. After the admission at most one call to Redis fails, and that one without having been executed.
\<close>

theorem request_charged_exactly:
  assumes "distinct (map bs_scope scopes)" "list_all (\<lambda>sc. fresh_key (bw_store w) (bs_scope sc, bs_id sc, req)) scopes"
    and "round9 estimate = estimate" "req \<noteq> []" "estimate > 0" "\<And>p. pkOf p \<noteq> []"
    and "ReserveForRequestE now expiry pkOf scopes estimate req w = ((res, Admitted), w1)" "calm w1"
    and "scopes \<noteq> []" "list_all (\<lambda>sc. 0 < bs_limit sc) scopes"
    and "cx_reservations c = Some res" "settle_refs k c (orgs \<noteq> None) oid = map scope_ref scopes"
    and "s' = bw_store (snd (ReportBudgetUsage later pkOf' True (Some k) teams orgs oid u req c w1))"
  shows "list_all (\<lambda>sc. rb_budget s' (scope_bkey pkOf sc) = rb_budget (bw_store w) (scope_bkey pkOf sc) + usage_cost u \<and>
      rb_settled s' (scope_bkey pkOf sc) = rb_settled (bw_store w) (scope_bkey pkOf sc) + usage_cost u) scopes \<and>
    rb_resv s' = rb_resv (bw_store w) \<and> rb_shadow s' = rb_shadow (bw_store w) \<and> rb_mark s' = rb_mark (bw_store w) \<and>
    rb_exp s' = rb_exp (bw_store w) \<and> rb_shadowmark s' = rb_shadowmark (bw_store w)"
proof -
  note h = admitted_held [OF assms(1-7,9)]
  have b: "br_reserved res (bs_scope sc) = Some estimate" "br_keys res (bs_scope sc) = Some (pkOf (bs_period sc))" if "sc \<in> set scopes" for sc
    using h(2) assms(10) that by (auto simp: booked_def list_all_iff)
  have ne: "br_reserved res \<noteq> Map.empty" using b(1) assms(9) by (cases scopes) fastforce+
  have kd: "keyed res (settle_refs k c (orgs \<noteq> None) oid)"
    unfolding assms(12) using b(2) assms(6) by (auto simp: list_all_iff scope_ref_def key_or_empty_def)
  have r: "ref_settle res req (usage_cost u) (scope_ref sc) = scope_settle pkOf req (usage_cost u) sc" if "sc \<in> set scopes" for sc
    using b(2) [OF that] by (simp add: ref_settle_def scope_ref_def scope_settle_def key_or_empty_def)
  have "s' = foldl (\<lambda>s sc. snd (budgetSettleScript (ref_settle res req (usage_cost u) (scope_ref sc)) s)) (bw_store w1) scopes"
    using report_store [OF assms(8,4,11) ne kd, of later pkOf' teams u] unfolding assms(12,13) foldl_map .
  also have "\<dots> = foldl (\<lambda>s sc. snd (budgetSettleScript (scope_settle pkOf req (usage_cost u) sc) s)) (bw_store w1) scopes"
    by (rule foldl_cong) (simp_all add: r)
  finally have s': "s' = foldl (\<lambda>s sc. charged (scope_settle pkOf req (usage_cost u) sc) s) (bw_store w) scopes"
    using settles_charge [OF h(1) fresh_scope_calls [OF assms(1-3)] assms(10)] by simp
  note c = foldl_charged [OF s']
  have "rb_budget s' (scope_bkey pkOf sc) = rb_budget (bw_store w) (scope_bkey pkOf sc) + usage_cost u \<and>
      rb_settled s' (scope_bkey pkOf sc) = rb_settled (bw_store w) (scope_bkey pkOf sc) + usage_cost u" if "sc \<in> set scopes" for sc
    using c(6,7) [of "scope_bkey pkOf sc"] sum_one [OF assms(1) that, of pkOf "usage_cost u"] by simp
  then show ?thesis using c(1-5) by (simp add: list_all_iff)
qed


section \<open>Concrete runs\<close>

definition sample_key :: ApiKey where
  "sample_key = \<lparr>ak_ID = 7, ak_MaxBudget = 0, ak_BudgetPeriod = ''monthly'', ak_MaxCalls = 10, ak_CallPeriod = ''daily'', ak_TeamID = Some 3\<rparr>"

definition sample_meta :: budget_meta where
  "sample_meta = \<lparr>bm_ID = 3, bm_BudgetLimit = 20, bm_BudgetPeriod = ''monthly''\<rparr>"

lemma budget_check_scopes_witness:
  "\<exists>scs. cx_scopes (snd (fst (BudgetCheck (\<lambda>_. ''p'') True (Some sample_key) (\<lambda>_. (Some sample_meta, CacheModeFresh)) None 0 fresh_ctx
       (sample_world empty_store [])))) = Some scs \<and> distinct (map bs_scope scs)"
proof -
  let ?r = "BudgetCheck (\<lambda>_. ''p'') True (Some sample_key) (\<lambda>_. (Some sample_meta, CacheModeFresh)) None 0 fresh_ctx (sample_world empty_store [])"
  have "fst (fst ?r) = MwNext"
    by (simp add: BudgetCheck_def check_key_def check_calls_def check_team_def check_org_def sample_key_def sample_meta_def ReserveCall_def
      redis_call_def sample_world_def callReserveScript_def Let_def CheckBudget_def empty_store_def)
  then have "?r = ((MwNext, snd (fst ?r)), snd ?r)" by (metis prod.collapse)
  from budget_check_scopes [OF this] show ?thesis by blast
qed

text \<open>The metadata of the team cannot be read: the request is rejected and its call stays counted.\<close>

definition sample_rejected :: "(mw_result \<times> mw_ctx) \<times> bworld" where
  "sample_rejected = BudgetCheck (\<lambda>_. ''p'') True (Some sample_key) (\<lambda>_. (None, CacheModeUnavailable)) None 0 fresh_ctx (sample_world empty_store [])"

theorem rejected_request_calls_witness:
  "fst (fst sample_rejected) = MwAbort 503 ''budget_metadata_unavailable'' \<and> bw_calls (snd sample_rejected) (itoa 7, ''p'') = 1"
proof -
  let ?w = "sample_world empty_store []"
  define n where "n = (itoa (ak_ID sample_key), (\<lambda>_. ''p'') (ak_CallPeriod sample_key))"
  have r: "fst (fst sample_rejected) = MwAbort 503 ''budget_metadata_unavailable''"
    by (simp add: sample_rejected_def BudgetCheck_def check_key_def check_calls_def check_team_def sample_key_def ReserveCall_def
      redis_call_def sample_world_def callReserveScript_def Let_def)
  have b: "BudgetCheck (\<lambda>_. ''p'') True (Some sample_key) (\<lambda>_. (None, CacheModeUnavailable)) None 0 fresh_ctx ?w =
      ((MwAbort 503 ''budget_metadata_unavailable'', snd (fst sample_rejected)), snd sample_rejected)"
    unfolding r [symmetric] by (simp add: sample_rejected_def)
  have s: "\<exists>ks c1 w1. check_key (\<lambda>_. ''p'') sample_key fresh_ctx ?w = ((MwNext, ks, c1), w1) \<and>
      fst (fst (check_calls (\<lambda>_. ''p'') sample_key c1 w1)) = MwNext"
    by (simp add: check_key_def check_calls_def sample_key_def ReserveCall_def redis_call_def sample_world_def callReserveScript_def Let_def)
  have h: "bw_redis ?w = []" "0 < ak_MaxCalls sample_key" "\<not> cx_call_reserved fresh_ctx" "cx_reservations fresh_ctx = None" "''r1'' \<noteq> []"
    by (simp_all add: sample_world_def sample_key_def fresh_ctx_def)
  have "bw_calls (snd sample_rejected) = (bw_calls ?w)(n := bw_calls ?w n + 1)"
    using rejected_request_calls [OF h(1,2) n_def _ h(3-5) b, of "\<lparr>us_in = None, us_out = None, us_inPrice = 0, us_outPrice = 0, us_cost = None\<rparr>"] s
    by simp
  with r show ?thesis by (simp add: n_def sample_key_def sample_world_def)
qed

definition sample_usage :: usage where
  "sample_usage = \<lparr>us_in = Some 100, us_out = Some 50, us_inPrice = 10, us_outPrice = 20, us_cost = None\<rparr>"

definition sample_scope :: BudgetScope where
  "sample_scope = \<lparr>bs_scope = ''key'', bs_id = itoa 7, bs_period = ''monthly'', bs_limit = 20\<rparr>"

definition sample_admission :: "(BudgetReservations \<times> admission) \<times> bworld" where
  "sample_admission = ReserveForRequestE 0 900 (\<lambda>_. ''p'') [sample_scope] 5 ''r1'' (sample_world empty_store [Delivered, Failed False ErrPoolTimeout])"

text \<open>The request holds 5, costs 2, and the first settlement fails: the counter ends at 2.\<close>

theorem request_charged_exactly_witness:
  "rb_budget (bw_store (snd (ReportBudgetUsage 0 (\<lambda>_. ''q'') True (Some (sample_key\<lparr>ak_MaxBudget := 20\<rparr>)) (\<lambda>_. None) None 0 sample_usage ''r1''
     (fresh_ctx\<lparr>cx_reservations := Some (fst (fst sample_admission))\<rparr>) (snd sample_admission)))) (''key'', itoa 7, ''p'') = 2"
proof -
  let ?w = "sample_world empty_store [Delivered, Failed False ErrPoolTimeout]" and ?scs = "[sample_scope]" and ?k = "sample_key\<lparr>ak_MaxBudget := 20\<rparr>"
  let ?c = "fresh_ctx\<lparr>cx_reservations := Some (fst (fst sample_admission))\<rparr>"
  have h: "distinct (map bs_scope ?scs)" "list_all (\<lambda>sc. fresh_key (bw_store ?w) (bs_scope sc, bs_id sc, ''r1'')) ?scs" "calm ?w"
    "list_all (\<lambda>sc. 0 < bs_limit sc) ?scs" "bw_store ?w = empty_store" "usage_cost sample_usage = 2"
    by (simp_all add: sample_scope_def sample_world_def fresh_key_def empty_store_def calm_def usage_cost_def sample_usage_def)
  note defs = sample_admission_def ReserveForRequestE_def reserveScopeMarkedE_def redis_call_def on_store_def scope_call_def sample_world_def
    sample_scope_def sample_defs no_reservations_def calm_def
  have "snd (fst sample_admission) = Admitted" by (simp add: defs)
  then have a: "ReserveForRequestE 0 900 (\<lambda>_. ''p'') ?scs 5 ''r1'' ?w = ((fst (fst sample_admission), Admitted), snd sample_admission)"
    by (metis sample_admission_def prod.collapse)
  have m: "calm (snd sample_admission)" by (simp add: defs)
  have r: "settle_refs ?k ?c ((None :: (int \<Rightarrow> budget_meta option) option) \<noteq> None) 0 = map scope_ref ?scs"
    by (simp add: settle_refs_def team_part_def org_part_def fresh_ctx_def sample_key_def scope_ref_def sample_scope_def)
  from request_charged_exactly [OF h(1,2) round9_5 _ _ _ a m _ h(4) _ r refl, of 0 "\<lambda>_. ''q''" "\<lambda>_. None" sample_usage]
  show ?thesis unfolding h(5,6) by (simp add: sample_scope_def scope_bkey_def empty_store_def)
qed

definition sample_report :: "alert list \<times> bworld" where
  "sample_report = ReportBudgetUsage 0 (\<lambda>_. ''p'') True (Some sample_key) (\<lambda>_. None) (Some (\<lambda>_. Some sample_meta)) 9 sample_usage []
     (fresh_ctx\<lparr>cx_org_period := Some ''monthly''\<rparr>) (sample_world (empty_store\<lparr>rb_budget := incr (''org'', itoa 9, ''p'') 19 (\<lambda>_. 0)\<rparr>) [])"

text \<open>The organisation has spent 19 of 20 when the request costs 2, and the alert is checked with 2.\<close>

lemma org_alert_ignores_spend_witness:
  "rb_budget (bw_store (snd sample_report)) (''org'', itoa 9, ''p'') = 21 \<and>
   (''org'', itoa 9, ''monthly'', 2, 20) \<in> set (fst sample_report) \<and> 2 = usage_cost sample_usage"
proof -
  note defs = ReportBudgetUsage_def reconcile_calls_def fresh_ctx_def sample_key_def sample_meta_def sample_usage_def usage_cost_def Let_def
    report_key_def report_team_def report_org_def team_part_def org_part_def settle_refs_def applyBudgetDelta_def ReportUsage_def
    ReportCallUsage_def applyBudgetDeltaKeyed_def redis_call_def on_store_def sample_world_def empty_store_def
  have b: "rb_budget (bw_store (snd sample_report)) (''org'', itoa 9, ''p'') = 21" unfolding sample_report_def by (simp add: defs)
  have a: "(''org'', itoa 9, ''monthly'', 2, 20) \<in> set (fst sample_report)" unfolding sample_report_def by (simp add: defs)
  have "2 = usage_cost sample_usage"
    by (rule org_alert_ignores_spend [OF prod.collapse [symmetric] a [unfolded sample_report_def]])
  with a b show ?thesis by blast
qed

end
