(* ===== verification/Rate_Limit.thy ===== *)
theory Rate_Limit
  imports Budget_Check
begin

text \<open>
  The request and token limits of \<^verbatim>\<open>internal/middleware/ratelimit.go\<close>. A counter has a value and the second at which it expires; a
  script reads the clock of the store. Whether the next script is executed is taken from a list of outcomes, a script
  beyond them is; one that fails is not executed. The estimate of a request's tokens is an argument.
\<close>

section \<open>Counters with a lifetime\<close>

type_synonym counters = "bytes \<rightharpoonup> int \<times> int"

definition live :: "int \<Rightarrow> counters \<Rightarrow> bytes \<Rightarrow> (int \<times> int) option" where
  "live now s k = (case s k of Some (v, e) \<Rightarrow> if now < e then Some (v, e) else None | None \<Rightarrow> None)"

definition count_at :: "int \<Rightarrow> counters \<Rightarrow> bytes \<Rightarrow> int" where
  "count_at now s k = (case live now s k of Some (v, _) \<Rightarrow> v | None \<Rightarrow> 0)"

text \<open>\<^verbatim>\<open>INCRBY\<close>, and \<^verbatim>\<open>EXPIRE\<close> when the result is the increment itself; a counter that is created gets its lifetime so.\<close>

definition bump :: "int \<Rightarrow> int \<Rightarrow> int \<Rightarrow> bytes \<Rightarrow> counters \<Rightarrow> int \<times> counters" where
  "bump now ttl delta k s =
     (case live now s k of
        Some (v, e) \<Rightarrow> (v + delta, s(k \<mapsto> (v + delta, if v + delta = delta then now + ttl else e)))
      | None \<Rightarrow> (delta, s(k \<mapsto> (delta, now + ttl))))"

definition incrExpireScript :: "int \<Rightarrow> int \<Rightarrow> bytes \<Rightarrow> counters \<Rightarrow> int \<times> counters" where
  "incrExpireScript now ttl k s = bump now ttl 1 k s"

definition incrByExpireScript :: "int \<Rightarrow> int \<Rightarrow> int \<Rightarrow> bytes \<Rightarrow> counters \<Rightarrow> int \<times> counters" where
  "incrByExpireScript now ttl delta k s =
     (if delta < 0 \<and> live now s k = None then (0, s) else bump now ttl delta k s)"

definition reserveTPMAtomicScript :: "int \<Rightarrow> int \<Rightarrow> int \<Rightarrow> int \<Rightarrow> bytes \<Rightarrow> counters \<Rightarrow> (int \<times> bool) \<times> counters" where
  "reserveTPMAtomicScript now ttl reservation limit k s =
     (case bump now ttl reservation k s of
        (n, s1) \<Rightarrow>
          if n > limit then
            ((n - reservation, False), s1(k := map_option (\<lambda>(v, e). (v - reservation, e)) (s1 k)))
          else ((n, True), s1))"

record rl_world =
  rl_counters :: counters
  rl_outcomes :: "bool list"

definition rl_call :: "(counters \<Rightarrow> 'r \<times> counters) \<Rightarrow> rl_world \<Rightarrow> 'r option \<times> rl_world" where
  "rl_call f w =
     (case rl_outcomes w of
        False # os \<Rightarrow> (None, w\<lparr>rl_outcomes := os\<rparr>)
      | os \<Rightarrow> (case f (rl_counters w) of (r, s) \<Rightarrow> (Some r, w\<lparr>rl_counters := s, rl_outcomes := tl os\<rparr>)))"

section \<open>Requests per minute\<close>

definition isRateLimited :: "int \<Rightarrow> bytes \<times> int \<Rightarrow> rl_world \<Rightarrow> bool \<times> rl_world" where
  "isRateLimited now kr w =
     (case rl_call (incrExpireScript now 60 (fst kr)) w of
        (None, w1) \<Rightarrow> (False, w1)
      | (Some n, w1) \<Rightarrow> (n > snd kr, w1))"

text \<open>
  The counters that a request is checked against, in order: that of the key when it has a limit of its own, else the
  default one of the key, the administrator or the address; that of the team; that of the organisation.
\<close>

record rl_request =
  rq_ip :: bytes
  rq_key_id :: "int option"
  rq_key_rpm :: "int option"
  rq_user_id :: "int option"
  rq_team :: "(int \<times> int) option"
  rq_org :: "(int \<times> int) option"

definition rate_checks :: "int \<Rightarrow> rl_request \<Rightarrow> (bytes \<times> int) list" where
  "rate_checks rpm r =
     (let own = (case rq_key_rpm r of Some l \<Rightarrow> l > 0 | None \<Rightarrow> False);
          k0 = (case rq_key_id r of Some i \<Rightarrow> if i > 0 \<and> \<not> own then ''key:'' @ itoa i else rq_ip r | None \<Rightarrow> rq_ip r);
          k1 = (if rq_key_rpm r = None then (case rq_user_id r of Some u \<Rightarrow> if u > 0 then ''admin:'' @ itoa u else k0 | None \<Rightarrow> k0) else k0)
      in (case (rq_key_id r, rq_key_rpm r) of
            (Some i, Some l) \<Rightarrow> if i > 0 \<and> l > 0 then [(''ratelimit:key:'' @ itoa i, l)] else []
          | _ \<Rightarrow> []) @
         (if \<not> own then [(''ratelimit:'' @ k1, rpm)] else []) @
         (case rq_team r of Some (t, l) \<Rightarrow> if t > 0 \<and> l > 0 then [(''ratelimit:team:'' @ itoa t, l)] else [] | None \<Rightarrow> []) @
         (case rq_org r of Some (q, l) \<Rightarrow> if q \<noteq> 0 \<and> l > 0 then [(''ratelimit:org:'' @ itoa q, l)] else [] | None \<Rightarrow> []))"

fun run_checks :: "int \<Rightarrow> (bytes \<times> int) list \<Rightarrow> rl_world \<Rightarrow> bool \<times> rl_world" where
  "run_checks now [] w = (True, w)"
| "run_checks now (kr # krs) w =
     (case isRateLimited now kr w of (True, w1) \<Rightarrow> (False, w1) | (False, w1) \<Rightarrow> run_checks now krs w1)"

definition rateLimit :: "int \<Rightarrow> int \<Rightarrow> rl_request \<Rightarrow> rl_world \<Rightarrow> bool \<times> rl_world" where
  "rateLimit now rpm r w = (if rpm \<le> 0 then (True, w) else run_checks now (rate_checks rpm r) w)"

definition retryAfterFromTTL :: "int option \<Rightarrow> int" where
  "retryAfterFromTTL ttl = (case ttl of Some t \<Rightarrow> if t \<le> 0 then 60 else t div 1000000000 + 1 | None \<Rightarrow> 60)"

section \<open>Tokens per minute\<close>

record tpmReservations =
  tr_Key :: int
  tr_Team :: int
  tr_Org :: int

definition no_tpm :: tpmReservations where
  "no_tpm = \<lparr>tr_Key = 0, tr_Team = 0, tr_Org = 0\<rparr>"

definition tpmWindowTTLSeconds :: int where
  "tpmWindowTTLSeconds = 120"

definition outputTokenReservation :: "int \<Rightarrow> int" where
  "outputTokenReservation maxTokens = (if maxTokens \<le> 0 then 512 else min (maxTokens div 2) 8192)"

definition isNonTokenEndpoint :: "bytes \<Rightarrow> bool" where
  "isNonTokenEndpoint path = list_ex (\<lambda>p. take (length p) path = p)
     [''/v1/videos'', ''/v1/images/'', ''/v1/audio/'', ''/v1/embeddings'', ''/v1/batch'', ''/v1/batches'']"

definition refundTPMReservation :: "int \<Rightarrow> bytes \<Rightarrow> int \<Rightarrow> rl_world \<Rightarrow> rl_world" where
  "refundTPMReservation now k reservation w = snd (rl_call (incrByExpireScript now tpmWindowTTLSeconds (- reservation) k) w)"

definition tpm_reservation :: "int \<Rightarrow> int \<Rightarrow> int" where
  "tpm_reservation estimate dflt =
     (let d = (if dflt \<le> 0 then 2000 else dflt) in if estimate \<le> 0 \<or> estimate < d then d else estimate)"

definition team_key :: "int \<Rightarrow> bytes" where
  "team_key t = ''tpm:team:'' @ itoa t"

definition org_key :: "int \<Rightarrow> bytes" where
  "org_key q = ''tpm:org:'' @ itoa q"

text \<open>
  The team and organisation stages, given the reservations made so far; the team and the organisation are present with the
  identifier under which the request has them and their limits.
\<close>

definition tpm_team :: "int \<Rightarrow> bytes \<Rightarrow> int \<Rightarrow> (int \<times> int) option \<Rightarrow> tpmReservations \<Rightarrow> rl_world \<Rightarrow> (mw_result \<times> tpmReservations) \<times> rl_world" where
  "tpm_team now key reservation team res w =
     (case team of
        Some (t, l) \<Rightarrow>
          if t > 0 \<and> l > 0 then
            (case rl_call (reserveTPMAtomicScript now tpmWindowTTLSeconds reservation l (team_key t)) w of
               (None, w1) \<Rightarrow> ((MwNext, res), w1)
             | (Some (n, ok), w1) \<Rightarrow>
                 if ok then ((MwNext, res\<lparr>tr_Team := reservation\<rparr>), w1)
                 else ((MwAbort 429 ''rate_limit_error'', res\<lparr>tr_Key := 0\<rparr>), refundTPMReservation now key reservation w1))
          else ((MwNext, res), w)
      | None \<Rightarrow> ((MwNext, res), w))"

definition tpm_org ::
    "int \<Rightarrow> bytes \<Rightarrow> int \<Rightarrow> (int \<times> int) option \<Rightarrow> (int \<times> int) option \<Rightarrow> tpmReservations \<Rightarrow> rl_world \<Rightarrow> (mw_result \<times> tpmReservations) \<times> rl_world" where
  "tpm_org now key reservation team org res w =
     (case org of
        Some (q, l) \<Rightarrow>
          if q \<noteq> 0 \<and> l > 0 then
            (case rl_call (reserveTPMAtomicScript now tpmWindowTTLSeconds reservation l (org_key q)) w of
               (None, w1) \<Rightarrow> ((MwNext, res), w1)
             | (Some (n, ok), w1) \<Rightarrow>
                 if ok then ((MwNext, res\<lparr>tr_Org := reservation\<rparr>), w1)
                 else
                   let w2 = refundTPMReservation now key reservation w1
                   in case team of
                        Some (t, _) \<Rightarrow>
                          if tr_Team res > 0 \<and> t > 0 then
                            ((MwAbort 429 ''rate_limit_error'', res\<lparr>tr_Key := 0, tr_Team := 0\<rparr>), refundTPMReservation now (team_key t) reservation w2)
                          else ((MwAbort 429 ''rate_limit_error'', res\<lparr>tr_Key := 0\<rparr>), w2)
                      | None \<Rightarrow> ((MwAbort 429 ''rate_limit_error'', res\<lparr>tr_Key := 0\<rparr>), w2))
          else ((MwNext, res), w)
      | None \<Rightarrow> ((MwNext, res), w))"

text \<open>The key of the counter: of the API key, the administrator, or the address.\<close>

definition tpm_counter :: "rl_request \<Rightarrow> bytes" where
  "tpm_counter r =
     (let k0 = (case rq_key_id r of Some i \<Rightarrow> if i > 0 then ''tpm:key:'' @ itoa i else rq_ip r | None \<Rightarrow> rq_ip r)
      in if rq_key_rpm r = None then (case rq_user_id r of Some u \<Rightarrow> if u > 0 then ''tpm:admin:'' @ itoa u else k0 | None \<Rightarrow> k0) else k0)"

text \<open>Here the limits in the request are those for tokens; \<open>rq_key_rpm\<close> is present when there is an API key.\<close>

definition tpmLimit ::
    "int \<Rightarrow> int \<Rightarrow> int \<Rightarrow> bool \<Rightarrow> bytes \<Rightarrow> int \<Rightarrow> rl_request \<Rightarrow> rl_world \<Rightarrow> (mw_result \<times> bytes \<times> tpmReservations) \<times> rl_world" where
  "tpmLimit now tpm dflt failClosed path estimate r w =
     (if isNonTokenEndpoint path then ((MwNext, [], no_tpm), w)
      else
        let key = tpm_counter r;
            limit = (case rq_key_rpm r of Some l \<Rightarrow> if l > 0 then l else tpm | None \<Rightarrow> tpm);
            reservation = tpm_reservation estimate dflt
        in if limit \<le> 0 then ((MwNext, key, no_tpm), w)
           else case rl_call (reserveTPMAtomicScript now tpmWindowTTLSeconds reservation limit key) w of
             (None, w1) \<Rightarrow> ((if failClosed then MwAbort 503 ''server_error'' else MwNext, key, no_tpm), w1)
           | (Some (n, ok), w1) \<Rightarrow>
               if \<not> ok then ((MwAbort 429 ''rate_limit_error'', key, no_tpm), w1)
               else case tpm_team now key reservation (rq_team r) (no_tpm\<lparr>tr_Key := reservation\<rparr>) w1 of
                 ((MwAbort st ty, res), w2) \<Rightarrow> ((MwAbort st ty, key, res), w2)
               | ((MwNext, res), w2) \<Rightarrow>
                   (case tpm_org now key reservation (rq_team r) (rq_org r) res w2 of
                      ((v, res2), w3) \<Rightarrow> ((v, key, res2), w3)))"

text \<open>The settlement after the request, for the tokens it used.\<close>

definition settle_counter :: "int \<Rightarrow> bytes \<Rightarrow> int \<Rightarrow> rl_world \<Rightarrow> rl_world" where
  "settle_counter now k delta w =
     (if delta = 0 then w else snd (rl_call (incrByExpireScript now tpmWindowTTLSeconds delta k) w))"

definition ReportTokens :: "int \<Rightarrow> bytes \<Rightarrow> int \<Rightarrow> tpmReservations \<Rightarrow> int option \<Rightarrow> int option \<Rightarrow> rl_world \<Rightarrow> rl_world" where
  "ReportTokens now key tot res team org w =
     (if tot \<le> 0 \<and> tr_Key res = 0 \<and> tr_Team res = 0 \<and> tr_Org res = 0 then w
      else
        let w1 = (if key \<noteq> [] then settle_counter now key (tot - tr_Key res) w else w);
            w2 = (case team of
                    Some t \<Rightarrow> if t > 0 \<and> (tot > 0 \<or> tr_Team res > 0) then settle_counter now (team_key t) (tot - tr_Team res) w1 else w1
                  | None \<Rightarrow> w1)
        in case org of
             Some q \<Rightarrow> if q \<noteq> 0 \<and> (tot > 0 \<or> tr_Org res > 0) then settle_counter now (org_key q) (tot - tr_Org res) w2 else w2
           | None \<Rightarrow> w2)"

section \<open>A window admits no more than its limit\<close>

definition admit_all :: "bytes \<times> int \<Rightarrow> int list \<Rightarrow> rl_world \<Rightarrow> nat \<times> rl_world" where
  "admit_all kr ts w =
     foldl (\<lambda>(n, w) t. case isRateLimited t kr w of (lim', w1) \<Rightarrow> (if lim' then n else n + 1, w1)) (0, w) ts"

lemma isRateLimited_live:
  assumes "rl_outcomes w = []" "live t (rl_counters w) k = Some (v, e)" "v \<ge> 1"
  shows "isRateLimited t (k, rpm) w = (v + 1 > rpm, w\<lparr>rl_counters := (rl_counters w)(k \<mapsto> (v + 1, e))\<rparr>)"
  using assms by (simp add: isRateLimited_def rl_call_def incrExpireScript_def bump_def)

lemma admit_live:
  assumes "rl_outcomes w = []" "rl_counters w k = Some (v, e)" "v \<ge> 1" "list_all (\<lambda>t. t < e) ts" "0 \<le> rpm"
  shows "\<exists>m w'. foldl (\<lambda>(n, w) t. case isRateLimited t (k, rpm) w of (lim', w1) \<Rightarrow> (if lim' then n else n + 1, w1)) (n, w) ts = (m, w') \<and>
    n \<le> m \<and> int m \<le> int n + max 0 (rpm - v)"
  using assms
proof (induction ts arbitrary: n w v)
  case (Cons t ts)
  have l: "live t (rl_counters w) k = Some (v, e)" using Cons.prems by (simp add: live_def)
  note i = isRateLimited_live [OF Cons.prems(1) l Cons.prems(3), of rpm]
  let ?w = "w\<lparr>rl_counters := (rl_counters w)(k \<mapsto> (v + 1, e))\<rparr>"
  let ?n = "if v + 1 > rpm then n else n + 1"
  obtain m w' where m: "foldl (\<lambda>(n, w) t. case isRateLimited t (k, rpm) w of (lim', w1) \<Rightarrow> (if lim' then n else n + 1, w1)) (?n, ?w) ts = (m, w')"
      "?n \<le> m" "int m \<le> int ?n + max 0 (rpm - (v + 1))"
    using Cons.IH [of ?w "v + 1" ?n] Cons.prems by auto
  have "foldl (\<lambda>(n, w) t. case isRateLimited t (k, rpm) w of (lim', w1) \<Rightarrow> (if lim' then n else n + 1, w1)) (n, w) (t # ts) = (m, w')"
    using m(1) by (simp add: i)
  moreover have "n \<le> m" "int m \<le> int n + max 0 (rpm - v)" using m(2,3) by (auto split: if_splits)
  ultimately show ?case by blast
qed simp

text \<open>
  C20: A window admits at most the limit. For a counter that is not running when the first request arrives, of all the
  requests within the following sixty seconds at most \<open>rpm\<close> are let through, however many arrive, as long as
  the store executes the script.
\<close>

theorem window_admits_at_most:
  assumes "rl_outcomes w = []" "live t (rl_counters w) k = None" "list_all (\<lambda>u. u < t + 60) ts" "0 \<le> rpm"
  shows "int (fst (admit_all (k, rpm) (t # ts) w)) \<le> rpm"
proof -
  let ?w = "w\<lparr>rl_counters := (rl_counters w)(k \<mapsto> (1, t + 60))\<rparr>"
  have f: "isRateLimited t (k, rpm) w = (1 > rpm, ?w)"
    using assms(1,2) by (simp add: isRateLimited_def rl_call_def incrExpireScript_def bump_def)
  let ?n = "if 1 > rpm then 0 else 1 :: nat"
  obtain m w' where m: "foldl (\<lambda>(n, w) t. case isRateLimited t (k, rpm) w of (lim', w1) \<Rightarrow> (if lim' then n else n + 1, w1)) (?n, ?w) ts = (m, w')"
      "int m \<le> int ?n + max 0 (rpm - 1)"
    using admit_live [of ?w k 1 "t + 60" ts rpm ?n] assms by auto
  have "admit_all (k, rpm) (t # ts) w = (m, w')" using m(1) by (cases "rpm < 1") (simp_all add: admit_all_def f)
  with m(2) assms(4) show ?thesis by (auto split: if_splits)
qed


section \<open>Token reservations are all or nothing\<close>

lemma count_bump: "0 < ttl \<Longrightarrow> count_at now (snd (bump now ttl delta k s)) j = count_at now s j + (if j = k then delta else 0)"
  by (auto simp: bump_def count_at_def live_def split: option.splits if_splits)

lemma live_bump: "0 < ttl \<Longrightarrow> live now (snd (bump now ttl delta k s)) k \<noteq> None"
    "0 < ttl \<Longrightarrow> live now s j \<noteq> None \<Longrightarrow> live now (snd (bump now ttl delta k s)) j \<noteq> None"
  by (auto simp: bump_def live_def split: option.splits if_splits)

lemma fst_bump: "fst (bump now ttl delta k s) = count_at now s k + delta"
  by (auto simp: bump_def count_at_def split: option.splits)

lemma reserve_count:
  assumes "reserveTPMAtomicScript now ttl x limit k s = ((n, ok), s')" "0 < ttl"
  shows "count_at now s' j = count_at now s j + (if j = k \<and> ok then x else 0)" "live now s' k \<noteq> None"
    "live now s j \<noteq> None \<Longrightarrow> live now s' j \<noteq> None" "ok \<longleftrightarrow> count_at now s k + x \<le> limit"
proof -
  obtain m s1 where b: "bump now ttl x k s = (m, s1)" by fastforce
  have c: "count_at now s1 i = count_at now s i + (if i = k then x else 0)" for i
    using count_bump [OF assms(2), of now x k s i] b by simp
  have l: "live now s1 k \<noteq> None" "live now s j \<noteq> None \<Longrightarrow> live now s1 j \<noteq> None" using live_bump(1) [OF assms(2), of now x k s] live_bump(2) [OF assms(2), of now s j x k] b by simp_all
  have m: "m = count_at now s k + x" using fst_bump [of now ttl x k s] b by simp
  obtain v e where v: "s1 k = Some (v, e)" "now < e" using l(1) by (auto simp: live_def split: option.splits if_splits)
  show "ok \<longleftrightarrow> count_at now s k + x \<le> limit" using assms(1) b m by (auto simp: reserveTPMAtomicScript_def split: if_splits)
  show "count_at now s' j = count_at now s j + (if j = k \<and> ok then x else 0)"
    using assms(1) b v c [of j] by (auto simp: reserveTPMAtomicScript_def count_at_def live_def split: if_splits)
  show "live now s' k \<noteq> None" "live now s j \<noteq> None \<Longrightarrow> live now s' j \<noteq> None"
    using assms(1) b v l by (auto simp: reserveTPMAtomicScript_def live_def split: if_splits)
qed

lemma incrBy_count:
  assumes "live now s k \<noteq> None" "0 < ttl"
  shows "count_at now (snd (incrByExpireScript now ttl delta k s)) j = count_at now s j + (if j = k then delta else 0)"
    "live now s j \<noteq> None \<Longrightarrow> live now (snd (incrByExpireScript now ttl delta k s)) j \<noteq> None"
  using assms count_bump [OF assms(2)] live_bump(2) [OF assms(2)] by (auto simp: incrByExpireScript_def)

lemma rl_call_up:
  assumes "rl_outcomes w = []"
  shows "rl_call f w = (Some (fst (f (rl_counters w))), w\<lparr>rl_counters := snd (f (rl_counters w))\<rparr>)"
  using assms by (simp add: rl_call_def split: prod.split)

lemma refund_count:
  assumes "rl_outcomes w = []" "live now (rl_counters w) k \<noteq> None"
  shows "count_at now (rl_counters (refundTPMReservation now k x w)) j = count_at now (rl_counters w) j - (if j = k then x else 0)"
    "rl_outcomes (refundTPMReservation now k x w) = []"
    "live now (rl_counters w) j \<noteq> None \<Longrightarrow> live now (rl_counters (refundTPMReservation now k x w)) j \<noteq> None"
proof -
  have T: "0 < tpmWindowTTLSeconds" by (simp add: tpmWindowTTLSeconds_def)
  show "count_at now (rl_counters (refundTPMReservation now k x w)) j = count_at now (rl_counters w) j - (if j = k then x else 0)"
    "rl_outcomes (refundTPMReservation now k x w) = []"
    "live now (rl_counters w) j \<noteq> None \<Longrightarrow> live now (rl_counters (refundTPMReservation now k x w)) j \<noteq> None"
    using assms(1) incrBy_count(1) [OF assms(2) T, of "- x" j] incrBy_count(2) [OF assms(2) T, of j "- x"]
    by (simp_all add: refundTPMReservation_def rl_call_up)
qed

text \<open>What the reservations of a request add to a counter.\<close>

definition reserved_for :: "bytes \<Rightarrow> (int \<times> int) option \<Rightarrow> (int \<times> int) option \<Rightarrow> tpmReservations \<Rightarrow> bytes \<Rightarrow> int" where
  "reserved_for key team org res k = (if k = key then tr_Key res else 0) +
     (case team of Some (t, _) \<Rightarrow> if k = team_key t then tr_Team res else 0 | None \<Rightarrow> 0) +
     (case org of Some (q, _) \<Rightarrow> if k = org_key q then tr_Org res else 0 | None \<Rightarrow> 0)"

text \<open>A stage adds exactly what it records, or it rejects and takes back everything.\<close>

definition stage_exact :: "int \<Rightarrow> bytes \<Rightarrow> (int \<times> int) option \<Rightarrow> (int \<times> int) option \<Rightarrow> rl_world \<Rightarrow> (mw_result \<times> tpmReservations) \<times> rl_world \<Rightarrow> bool" where
  "stage_exact now key team org w0 r \<longleftrightarrow>
     (\<forall>k. count_at now (rl_counters (snd r)) k = count_at now (rl_counters w0) k + (if fst (fst r) = MwNext then reserved_for key team org (snd (fst r)) k else 0))"

lemma tpm_team_exact:
  assumes "rl_outcomes w = []" "live now (rl_counters w) key \<noteq> None"
    and "\<And>k. count_at now (rl_counters w) k = count_at now (rl_counters w0) k + (if k = key then x else 0)" "x > 0"
    and "tpm_team now key x team (no_tpm\<lparr>tr_Key := x\<rparr>) w = ((v, res), w')"
  shows "stage_exact now key team org w0 ((v, res), w')" "rl_outcomes w' = []"
    "v = MwNext \<Longrightarrow> live now (rl_counters w') key \<noteq> None \<and> tr_Key res = x \<and> tr_Org res = 0 \<and>
      (tr_Team res = 0 \<or> tr_Team res = x \<and> (\<exists>t l. team = Some (t, l) \<and> t > 0 \<and> live now (rl_counters w') (team_key t) \<noteq> None))"
proof -
  have T: "0 < tpmWindowTTLSeconds" by (simp add: tpmWindowTTLSeconds_def)
  have "stage_exact now key team org w0 ((v, res), w') \<and> rl_outcomes w' = [] \<and> (v = MwNext \<longrightarrow> live now (rl_counters w') key \<noteq> None \<and>
      tr_Key res = x \<and> tr_Org res = 0 \<and> (tr_Team res = 0 \<or> tr_Team res = x \<and>
        (\<exists>t l. team = Some (t, l) \<and> t > 0 \<and> live now (rl_counters w') (team_key t) \<noteq> None)))"
  proof (cases "\<exists>t l. team = Some (t, l) \<and> t > 0 \<and> l > 0")
    case False
    then have "v = MwNext" "res = no_tpm\<lparr>tr_Key := x\<rparr>" "w' = w"
      using assms(5) by (auto simp: tpm_team_def split: option.splits prod.splits if_splits)
    then show ?thesis using assms(1-3)
      by (simp add: stage_exact_def reserved_for_def no_tpm_def split: option.split)
  next
    case True
    then obtain t l where t: "team = Some (t, l)" "t > 0" "l > 0" by blast
    obtain n ok s' where r: "reserveTPMAtomicScript now tpmWindowTTLSeconds x l (team_key t) (rl_counters w) = ((n, ok), s')"
      by (metis surj_pair)
    note c = reserve_count [OF r T]
    show ?thesis
    proof (cases ok)
      case True
      then have e: "v = MwNext" "res = no_tpm\<lparr>tr_Key := x, tr_Team := x\<rparr>" "w' = w\<lparr>rl_counters := s'\<rparr>"
        using assms(1,5) t r by (auto simp: tpm_team_def rl_call_up)
      have "stage_exact now key team org w0 ((v, res), w')"
        unfolding stage_exact_def e using c(1) assms(3) True t by (auto simp: reserved_for_def no_tpm_def split: option.split)
      then show ?thesis using e t c(2,3) assms(1,2) by (auto simp: no_tpm_def)
    next
      case False
      let ?w = "w\<lparr>rl_counters := s'\<rparr>"
      have e: "v \<noteq> MwNext" "w' = refundTPMReservation now key x ?w"
        using assms(1,5) t r False by (auto simp: tpm_team_def rl_call_up)
      have l: "live now (rl_counters ?w) key \<noteq> None" using c(3) [of key] assms(2) by simp
      have o: "rl_outcomes ?w = []" using assms(1) by simp
      note rf = refund_count [OF o l, where x = x]
      show ?thesis using e rf c(1) assms(3) False by (simp add: stage_exact_def)
    qed
  qed
  then show "stage_exact now key team org w0 ((v, res), w')" "rl_outcomes w' = []"
    "v = MwNext \<Longrightarrow> live now (rl_counters w') key \<noteq> None \<and> tr_Key res = x \<and> tr_Org res = 0 \<and>
      (tr_Team res = 0 \<or> tr_Team res = x \<and> (\<exists>t l. team = Some (t, l) \<and> t > 0 \<and> live now (rl_counters w') (team_key t) \<noteq> None))"
    by blast+
qed

lemma tpm_org_exact:
  assumes "rl_outcomes w = []" "live now (rl_counters w) key \<noteq> None" "stage_exact now key team org w0 ((MwNext, res), w)"
    and "tr_Key res = x" "tr_Org res = 0" "x > 0"
    and "tr_Team res = 0 \<or> tr_Team res = x \<and> (\<exists>t l. team = Some (t, l) \<and> t > 0 \<and> live now (rl_counters w) (team_key t) \<noteq> None)"
    and "tpm_org now key x team org res w = ((v, res'), w')"
  shows "stage_exact now key team org w0 ((v, res'), w')"
proof (cases "\<exists>q l. org = Some (q, l) \<and> q \<noteq> 0 \<and> l > 0")
  case False
  then have "v = MwNext" "res' = res" "w' = w" using assms(8) by (auto simp: tpm_org_def split: option.splits prod.splits if_splits)
  then show ?thesis using assms(3) by simp
next
  case True
  then obtain q l where q: "org = Some (q, l)" "q \<noteq> 0" "l > 0" by blast
  have T: "0 < tpmWindowTTLSeconds" by (simp add: tpmWindowTTLSeconds_def)
  obtain n ok s' where r: "reserveTPMAtomicScript now tpmWindowTTLSeconds x l (org_key q) (rl_counters w) = ((n, ok), s')"
    by (metis surj_pair)
  note c = reserve_count [OF r T]
  have s: "count_at now (rl_counters w) k = count_at now (rl_counters w0) k + reserved_for key team org res k" for k
    using assms(3) by (simp add: stage_exact_def)
  let ?w = "w\<lparr>rl_counters := s'\<rparr>"
  have o: "rl_outcomes ?w = []" using assms(1) by simp
  show ?thesis
  proof (cases ok)
    case True
    then have e: "v = MwNext" "res' = res\<lparr>tr_Org := x\<rparr>" "w' = ?w" using assms(1,8) q r by (auto simp: tpm_org_def rl_call_up)
    show ?thesis unfolding stage_exact_def e using c(1) s True q assms(5) by (auto simp: reserved_for_def split: option.split)
  next
    case False
    have l: "live now (rl_counters ?w) key \<noteq> None" using c(3) [of key] assms(2) by simp
    let ?w2 = "refundTPMReservation now key x ?w"
    note rf = refund_count [OF o l, where x = x]
    show ?thesis
    proof (cases "tr_Team res = 0")
      case True
      then have e: "v \<noteq> MwNext" "w' = ?w2"
        using assms(1,8) q r False by (auto simp: tpm_org_def rl_call_up Let_def split: option.splits prod.splits)
      have "reserved_for key team org res k = (if k = key then x else 0)" for k
        using True assms(4,5) by (simp add: reserved_for_def split: option.split)
      then show ?thesis using e rf(1) c(1) s False by (simp add: stage_exact_def)
    next
      case nz: False
      then obtain t lt where t: "team = Some (t, lt)" "t > 0" "live now (rl_counters w) (team_key t) \<noteq> None" "tr_Team res = x"
        using assms(7) by blast
      have e: "v \<noteq> MwNext" "w' = refundTPMReservation now (team_key t) x ?w2"
        using assms(1,6,8) q r False t by (auto simp: tpm_org_def rl_call_up Let_def)
      have lt: "live now (rl_counters ?w2) (team_key t) \<noteq> None" using rf(3) c(3) t(3) by simp
      note rf2 = refund_count [OF rf(2) lt, where x = x]
      have "reserved_for key team org res k = (if k = key then x else 0) + (if k = team_key t then x else 0)" for k
        using t assms(4,5) by (simp add: reserved_for_def split: option.split)
      then show ?thesis using e rf2(1) rf(1) c(1) s False by (simp add: stage_exact_def)
    qed
  qed
qed

text \<open>
  C11: The token limits are all or nothing. With the store available, a request that one of its levels rejects leaves every
  counter as it was; a request that passes has added to each counter exactly what its context records for
  the settlement.
\<close>

theorem tpm_all_or_nothing:
  assumes "rl_outcomes w = []" "tpmLimit now tpm dflt failClosed path estimate r w = ((v, key, res), w')"
  shows "count_at now (rl_counters w') k = count_at now (rl_counters w) k +
    (if v = MwNext then reserved_for key (rq_team r) (rq_org r) res k else 0)"
proof -
  let ?key = "tpm_counter r" and ?x = "tpm_reservation estimate dflt"
  define limit where "limit = (case rq_key_rpm r of Some l \<Rightarrow> if l > 0 then l else tpm | None \<Rightarrow> tpm)"
  have T: "0 < tpmWindowTTLSeconds" by (simp add: tpmWindowTTLSeconds_def)
  have x: "?x > 0" by (simp add: tpm_reservation_def Let_def)
  show ?thesis
  proof (cases "isNonTokenEndpoint path \<or> limit \<le> 0")
    case True
    then have "res = no_tpm" "w' = w" using assms(2) by (auto simp: tpmLimit_def Let_def limit_def split: if_splits)
    then show ?thesis by (simp add: reserved_for_def no_tpm_def split: option.split)
  next
    case False
    obtain n ok s' where r: "reserveTPMAtomicScript now tpmWindowTTLSeconds ?x limit ?key (rl_counters w) = ((n, ok), s')"
      by (metis surj_pair)
    note c = reserve_count [OF r T]
    let ?w = "w\<lparr>rl_counters := s'\<rparr>"
    have o: "rl_outcomes ?w = []" using assms(1) by simp
    show ?thesis
    proof (cases ok)
      case rej: False
      then have "v \<noteq> MwNext" "w' = ?w" using assms False r by (auto simp: tpmLimit_def Let_def limit_def rl_call_up)
      then show ?thesis using c(1) rej by simp
    next
      case True
      obtain v1 res1 w1 where t: "tpm_team now ?key ?x (rq_team r) (no_tpm\<lparr>tr_Key := ?x\<rparr>) ?w = ((v1, res1), w1)" by (metis surj_pair)
      have l: "live now (rl_counters ?w) ?key \<noteq> None" using c(2) by simp
      have cw: "\<And>k. count_at now (rl_counters ?w) k = count_at now (rl_counters w) k + (if k = ?key then ?x else 0)"
        using c(1) True by simp
      note te = tpm_team_exact(1) [OF o l cw x t, of "rq_org r"] tpm_team_exact(2,3) [OF o l cw x t]
      show ?thesis
      proof (cases v1)
        case (MwAbort st ty)
        then have "v \<noteq> MwNext" "w' = w1" using assms False r True t by (auto simp: tpmLimit_def Let_def limit_def rl_call_up)
        then show ?thesis using te(1) MwAbort by (simp add: stage_exact_def)
      next
        case MwNext
        obtain v2 res2 w2 where g: "tpm_org now ?key ?x (rq_team r) (rq_org r) res1 w1 = ((v2, res2), w2)" by (metis surj_pair)
        have e: "v = v2" "res = res2" "w' = w2" "key = ?key"
          using assms False r True t MwNext g by (auto simp: tpmLimit_def Let_def limit_def rl_call_up)
        note tn = te(3) [OF MwNext]
        have "stage_exact now ?key (rq_team r) (rq_org r) w ((v2, res2), w2)"
          by (rule tpm_org_exact [OF te(2) _ te(1) [unfolded MwNext] _ _ x _ g]) (use tn in simp_all)
        then show ?thesis unfolding stage_exact_def e by simp
      qed
    qed
  qed
qed


section \<open>Settlement\<close>

lemma settle_counter_count:
  assumes "rl_outcomes w = []" "live now (rl_counters w) k \<noteq> None"
  shows "count_at now (rl_counters (settle_counter now k d w)) j = count_at now (rl_counters w) j + (if j = k then d else 0)"
    "rl_outcomes (settle_counter now k d w) = []"
    "live now (rl_counters w) j \<noteq> None \<Longrightarrow> live now (rl_counters (settle_counter now k d w)) j \<noteq> None"
proof -
  have T: "0 < tpmWindowTTLSeconds" by (simp add: tpmWindowTTLSeconds_def)
  show "count_at now (rl_counters (settle_counter now k d w)) j = count_at now (rl_counters w) j + (if j = k then d else 0)"
    "rl_outcomes (settle_counter now k d w) = []"
    "live now (rl_counters w) j \<noteq> None \<Longrightarrow> live now (rl_counters (settle_counter now k d w)) j \<noteq> None"
    using assms(1) incrBy_count(1) [OF assms(2) T, of d j] incrBy_count(2) [OF assms(2) T, of j d]
    by (auto simp: settle_counter_def rl_call_up)
qed

text \<open>
  The settlement within the window replaces each reservation by the tokens used. As long as the counters of the key, the
  team and the organisation are still running, every counter ends at its value minus what the request reserved
  there plus what it used; for a request that used nothing this is a full refund.
\<close>

lemma report_tokens_exact:
  assumes "rl_outcomes w = []" "key \<noteq> []" "0 < t" "q \<noteq> 0" "0 \<le> tot" "0 \<le> tr_Team res" "0 \<le> tr_Org res"
    and "live now (rl_counters w) key \<noteq> None" "live now (rl_counters w) (team_key t) \<noteq> None" "live now (rl_counters w) (org_key q) \<noteq> None"
  shows "count_at now (rl_counters (ReportTokens now key tot res (Some t) (Some q) w)) k =
    count_at now (rl_counters w) k - reserved_for key (Some (t, lt)) (Some (q, lq)) res k +
      (if k = key then tot else 0) + (if k = team_key t then tot else 0) + (if k = org_key q then tot else 0)"
proof -
  define w1 where "w1 = settle_counter now key (tot - tr_Key res) w"
  define w2 where "w2 = (if tot > 0 \<or> tr_Team res > 0 then settle_counter now (team_key t) (tot - tr_Team res) w1 else w1)"
  define w3 where "w3 = (if tot > 0 \<or> tr_Org res > 0 then settle_counter now (org_key q) (tot - tr_Org res) w2 else w2)"
  note s1 = settle_counter_count [OF assms(1,8), where d = "tot - tr_Key res", folded w1_def]
  have s2: "count_at now (rl_counters w2) j = count_at now (rl_counters w1) j + (if j = team_key t then tot - tr_Team res else 0)"
    "rl_outcomes w2 = []" "live now (rl_counters w1) j \<noteq> None \<Longrightarrow> live now (rl_counters w2) j \<noteq> None" for j
    using settle_counter_count [OF s1(2) s1(3) [OF assms(9)], where d = "tot - tr_Team res"] s1(2) assms(5,6) by (auto simp: w2_def)
  have s3: "count_at now (rl_counters w3) j = count_at now (rl_counters w2) j + (if j = org_key q then tot - tr_Org res else 0)" for j
    using settle_counter_count(1) [OF s2(2) s2(3) [OF s1(3) [OF assms(10)]], where d = "tot - tr_Org res"] assms(5,7) by (auto simp: w3_def)
  show ?thesis
  proof (cases "tot \<le> 0 \<and> tr_Key res = 0 \<and> tr_Team res = 0 \<and> tr_Org res = 0")
    case True
    then have "tot = 0" "tr_Key res = 0" "tr_Team res = 0" "tr_Org res = 0" using assms(5) by simp_all
    then show ?thesis by (simp add: ReportTokens_def reserved_for_def)
  next
    case False
    have e: "ReportTokens now key tot res (Some t) (Some q) w = w3"
      unfolding ReportTokens_def Let_def w3_def w2_def w1_def using assms(2-4) False by auto
    show ?thesis unfolding e s3 s2(1) s1(1) by (simp add: reserved_for_def)
  qed
qed

text \<open>A request with a limit of its own and neither team nor organisation.\<close>

lemma tpm_key_only:
  assumes "rl_outcomes w = []" "rq_team r = None" "rq_org r = None" "\<not> isNonTokenEndpoint path" "rq_key_rpm r = Some limit" "0 < limit"
    and "reserveTPMAtomicScript now tpmWindowTTLSeconds (tpm_reservation estimate dflt) limit (tpm_counter r) (rl_counters w) = ((n, ok), s')"
  shows "tpmLimit now tpm dflt failClosed path estimate r w =
    ((if ok then MwNext else MwAbort 429 ''rate_limit_error'', tpm_counter r,
      if ok then no_tpm\<lparr>tr_Key := tpm_reservation estimate dflt\<rparr> else no_tpm), w\<lparr>rl_counters := s'\<rparr>)"
  using assms by (simp add: tpmLimit_def Let_def rl_call_up tpm_team_def tpm_org_def)

text \<open>A reservation that opens a window.\<close>

lemma reserve_opens:
  assumes "live now s k = None" "reserveTPMAtomicScript now ttl x limit k s = ((n, True), s')"
  shows "s' k = Some (x, now + ttl)"
  using assms by (auto simp: reserveTPMAtomicScript_def bump_def split: if_splits)

text \<open>
  C38: A refund crosses the window. A request reserves its tokens in one window; the window ends while it runs, and another
  request opens the next one with its own reservation. The settlement of the first then takes what it did not use
  out of the counter of the second window, to which it never added: from there on that window admits tokens up to its
  limit plus the unused part of the old reservation. Only the case of a missing counter is guarded against.
\<close>

theorem refund_crosses_window:
  assumes "rl_outcomes w = []" "rq_team r = None" "rq_org r = None" "\<not> isNonTokenEndpoint path" "rq_key_rpm r = Some limit" "0 < limit"
    and "tpm_counter r \<noteq> []" "live t0 (rl_counters w) (tpm_counter r) = None" "0 \<le> used"
    and "tpmLimit t0 tpm dflt failClosed path est1 r w = ((MwNext, k1, res1), w1)" "t0 + tpmWindowTTLSeconds \<le> t1"
    and "tpmLimit t1 tpm dflt failClosed path est2 r w1 = ((MwNext, k2, res2), w2)" "t1 \<le> t2" "t2 < t1 + tpmWindowTTLSeconds"
    and "w3 = ReportTokens t2 k1 used res1 None None w2"
  shows "count_at t2 (rl_counters w2) (tpm_counter r) = tr_Key res2 \<and>
    count_at t2 (rl_counters w3) (tpm_counter r) = tr_Key res2 - (tr_Key res1 - used) \<and>
    (fst (fst (tpmLimit t2 tpm dflt failClosed path est3 r w2)) = MwNext \<longleftrightarrow> tr_Key res2 + tpm_reservation est3 dflt \<le> limit) \<and>
    (fst (fst (tpmLimit t2 tpm dflt failClosed path est3 r w3)) = MwNext \<longleftrightarrow>
       tr_Key res2 + tpm_reservation est3 dflt \<le> limit + (tr_Key res1 - used))"
proof -
  let ?k = "tpm_counter r" and ?T = tpmWindowTTLSeconds
  have T: "0 < ?T" by (simp add: tpmWindowTTLSeconds_def)
  obtain n1 ok1 s1 where a: "reserveTPMAtomicScript t0 ?T (tpm_reservation est1 dflt) limit ?k (rl_counters w) = ((n1, ok1), s1)" by (metis surj_pair)
  have r1: "ok1" "k1 = ?k" "tr_Key res1 = tpm_reservation est1 dflt" "tr_Team res1 = 0" "tr_Org res1 = 0" "w1 = w\<lparr>rl_counters := s1\<rparr>"
    using tpm_key_only [OF assms(1-6) a] assms(10) by (auto simp: no_tpm_def split: if_splits)
  have "s1 ?k = Some (tr_Key res1, t0 + ?T)" using reserve_opens [OF assms(8)] a r1(1,3) by simp
  then have l1: "live t1 (rl_counters w1) ?k = None" using assms(11) r1(6) by (simp add: live_def)
  have o1: "rl_outcomes w1 = []" using assms(1) r1(6) by simp
  obtain n2 ok2 s2 where b: "reserveTPMAtomicScript t1 ?T (tpm_reservation est2 dflt) limit ?k (rl_counters w1) = ((n2, ok2), s2)" by (metis surj_pair)
  have r2: "ok2" "tr_Key res2 = tpm_reservation est2 dflt" "w2 = w1\<lparr>rl_counters := s2\<rparr>"
    using tpm_key_only [OF o1 assms(2-6) b] assms(12) by (auto simp: no_tpm_def split: if_splits)
  have "s2 ?k = Some (tr_Key res2, t1 + ?T)" using reserve_opens [OF l1] b r2(1,2) by simp
  then have c2: "live t2 (rl_counters w2) ?k = Some (tr_Key res2, t1 + ?T)" using assms(14) r2(3) by (simp add: live_def)
  have o2: "rl_outcomes w2 = []" using o1 r2(3) by simp
  have w3: "w3 = settle_counter t2 ?k (used - tr_Key res1) w2"
    using assms(7,9,15) r1(2,4,5) by (auto simp: ReportTokens_def settle_counter_def)
  have "live t2 (rl_counters w2) ?k \<noteq> None" using c2 by simp
  note st = settle_counter_count [OF o2 this, where d = "used - tr_Key res1"]
  have c: "count_at t2 (rl_counters w2) ?k = tr_Key res2" "count_at t2 (rl_counters w3) ?k = tr_Key res2 - (tr_Key res1 - used)" "rl_outcomes w3 = []"
    using c2 st(1) [where j = ?k] st(2) by (simp_all add: count_at_def w3)
  have adm: "fst (fst (tpmLimit t2 tpm dflt failClosed path est3 r v)) = MwNext \<longleftrightarrow> count_at t2 (rl_counters v) ?k + tpm_reservation est3 dflt \<le> limit"
    if "rl_outcomes v = []" for v
  proof -
    obtain n ok s' where d: "reserveTPMAtomicScript t2 ?T (tpm_reservation est3 dflt) limit ?k (rl_counters v) = ((n, ok), s')" by (metis surj_pair)
    show ?thesis using tpm_key_only [OF that assms(2-6) d] reserve_count(4) [OF d T] by simp
  qed
  show ?thesis using c adm [OF o2] adm [OF c(3)] by auto
qed

section \<open>Concrete runs\<close>

definition sample_request :: rl_request where
  "sample_request = \<lparr>rq_ip = ''10.0.0.1'', rq_key_id = Some 7, rq_key_rpm = Some 0, rq_user_id = None, rq_team = Some (3, 5000), rq_org = Some (1, 3000)\<rparr>"

definition sample_counters :: counters where
  "sample_counters = [''tpm:key:7'' \<mapsto> (100, 50), team_key 3 \<mapsto> (200, 50), org_key 1 \<mapsto> (300, 50)]"

definition sample_limits :: "counters \<Rightarrow> rl_world" where
  "sample_limits s = \<lparr>rl_counters = s, rl_outcomes = []\<rparr>"

lemma sample_keys: "''tpm:key:7'' \<noteq> team_key 3" "''tpm:key:7'' \<noteq> org_key 1" "team_key 3 \<noteq> org_key 1"
  by (simp_all add: team_key_def org_key_def)

theorem window_admits_at_most_witness:
  "int (fst (admit_all (''ratelimit:key:7'', 2) [0, 1, 2, 3] (sample_limits Map.empty))) \<le> 2"
proof -
  have h: "rl_outcomes (sample_limits Map.empty) = []" "live 0 (rl_counters (sample_limits Map.empty)) ''ratelimit:key:7'' = None"
    "list_all (\<lambda>u. u < 0 + 60) [1, 2, 3 :: int]" "0 \<le> (2 :: int)"
    by (simp_all add: sample_limits_def live_def)
  show ?thesis by (rule window_admits_at_most [OF h])
qed

text \<open>The organisation rejects 4000 tokens, and the key and the team get theirs back.\<close>

theorem tpm_all_or_nothing_witness:
  "let r = tpmLimit 0 10000 0 True ''/v1/messages'' 4000 sample_request (sample_limits Map.empty)
   in count_at 0 (rl_counters (snd r)) ''tpm:key:7'' = 0 + (if fst (fst r) = MwNext
        then reserved_for (fst (snd (fst r))) (rq_team sample_request) (rq_org sample_request) (snd (snd (fst r))) ''tpm:key:7'' else 0)"
proof -
  let ?w = "sample_limits Map.empty"
  have h: "rl_outcomes ?w = []" "count_at 0 (rl_counters ?w) ''tpm:key:7'' = 0" by (simp_all add: sample_limits_def count_at_def live_def)
  show ?thesis
    using tpm_all_or_nothing [OF h(1), of 0 10000 0 True "''/v1/messages''" 4000 sample_request _ _ _ _ "''tpm:key:7''"] h(2)
    unfolding Let_def by (metis prod.collapse)
qed

lemma report_tokens_exact_witness:
  "count_at 10 (rl_counters (ReportTokens 10 ''tpm:key:7'' 30 \<lparr>tr_Key = 100, tr_Team = 100, tr_Org = 100\<rparr> (Some 3) (Some 1)
     (sample_limits sample_counters))) (team_key 3) = 130"
proof -
  let ?w = "sample_limits sample_counters" and ?res = "\<lparr>tr_Key = 100, tr_Team = 100, tr_Org = 100\<rparr>"
  have h: "rl_outcomes ?w = []" "''tpm:key:7'' \<noteq> []" "0 < (3 :: int)" "(1 :: int) \<noteq> 0" "0 \<le> (30 :: int)" "0 \<le> tr_Team ?res" "0 \<le> tr_Org ?res"
    "live 10 (rl_counters ?w) ''tpm:key:7'' \<noteq> None" "live 10 (rl_counters ?w) (team_key 3) \<noteq> None" "live 10 (rl_counters ?w) (org_key 1) \<noteq> None"
    "count_at 10 (rl_counters ?w) (team_key 3) = 200"
    using sample_keys by (simp_all add: sample_limits_def sample_counters_def live_def count_at_def)
  show ?thesis
    using report_tokens_exact [OF h(1-10), of "team_key 3" 0 0] h(11) sample_keys by (auto simp: reserved_for_def)
qed

text \<open>
  The first request reserves 4000 tokens and uses none; the second reserves 2000 in the next window, of 4000. A third request
  of 6000 is admitted after the settlement of the first: 8000 tokens in one window.
\<close>

definition solo_request :: rl_request where
  "solo_request = \<lparr>rq_ip = ''10.0.0.1'', rq_key_id = None, rq_key_rpm = Some 4000, rq_user_id = None, rq_team = None, rq_org = None\<rparr>"

definition solo_limit :: "int \<Rightarrow> int \<Rightarrow> rl_world \<Rightarrow> (mw_result \<times> bytes \<times> tpmReservations) \<times> rl_world" where
  "solo_limit now est w = tpmLimit now 0 0 True ''/v1/messages'' est solo_request w"

lemma solo_first:
  "solo_limit 0 4000 (sample_limits Map.empty) =
    ((MwNext, ''10.0.0.1'', no_tpm\<lparr>tr_Key := 4000\<rparr>), sample_limits [''10.0.0.1'' \<mapsto> (4000, 120)])"
  by (simp add: solo_limit_def tpmLimit_def isNonTokenEndpoint_def tpm_counter_def solo_request_def tpm_reservation_def rl_call_def
      sample_limits_def reserveTPMAtomicScript_def bump_def live_def tpm_team_def tpm_org_def tpmWindowTTLSeconds_def Let_def)

lemma solo_second:
  "solo_limit 120 2000 (sample_limits [''10.0.0.1'' \<mapsto> (4000, 120)]) =
    ((MwNext, ''10.0.0.1'', no_tpm\<lparr>tr_Key := 2000\<rparr>), sample_limits [''10.0.0.1'' \<mapsto> (2000, 240)])"
  by (simp add: solo_limit_def tpmLimit_def isNonTokenEndpoint_def tpm_counter_def solo_request_def tpm_reservation_def rl_call_def
      sample_limits_def reserveTPMAtomicScript_def bump_def live_def tpm_team_def tpm_org_def tpmWindowTTLSeconds_def Let_def)

theorem refund_crosses_window_witness:
  "fst (fst (solo_limit 121 6000 (ReportTokens 121 ''10.0.0.1'' 0 (no_tpm\<lparr>tr_Key := 4000\<rparr>) None None
     (sample_limits [''10.0.0.1'' \<mapsto> (2000, 240)])))) = MwNext"
proof -
  have h: "rl_outcomes (sample_limits Map.empty) = []" "rq_team solo_request = None" "rq_org solo_request = None"
    "\<not> isNonTokenEndpoint ''/v1/messages''" "rq_key_rpm solo_request = Some 4000" "0 < (4000 :: int)" "tpm_counter solo_request \<noteq> []"
    "live 0 (rl_counters (sample_limits Map.empty)) (tpm_counter solo_request) = None" "0 \<le> (0 :: int)"
    by (simp_all add: sample_limits_def solo_request_def isNonTokenEndpoint_def tpm_counter_def live_def)
  have t: "0 + tpmWindowTTLSeconds \<le> 120" "(120 :: int) \<le> 121" "121 < 120 + tpmWindowTTLSeconds" by (simp_all add: tpmWindowTTLSeconds_def)
  have r: "tr_Key (no_tpm\<lparr>tr_Key := 4000\<rparr>) = 4000" "tr_Key (no_tpm\<lparr>tr_Key := 2000\<rparr>) = 2000" "tpm_reservation 6000 0 = 6000"
    by (simp_all add: tpm_reservation_def)
  note x = refund_crosses_window [OF h solo_first [unfolded solo_limit_def] t(1) solo_second [unfolded solo_limit_def] t(2,3) refl, of 6000]
  show ?thesis using x unfolding r solo_limit_def by simp
qed

end
