(* ===== verification/Spec2Isabelle.thy ===== *)
theory Spec2Isabelle
  imports Resolve_Probe Fallback_Engine Scoring Stream_Reverse Responses Keyword_Filter Ssrf Guardrail_Service
    Budget_Period Settle_Journal Rate_Limit
begin

text \<open>
  \<^bold>\<open>CrossLink gateway: verification of the routing, failover, translation, guardrail and budget core.\<close>

  CrossLink is a gateway that accepts OpenAI chat, OpenAI responses and Anthropic messages requests and forwards
  them to configured providers. A request is translated to the internal (OpenAI) format, the resolver turns the
  model name into an ordered list of routes, the fallback engine calls the routes in turn under the control of
  the circuit breaker, a single call is repeated by the retry loop, and the answer, whole or streamed, is
  translated back to the format of the client. Guardrails check and mask the texts in both directions, also while
  an answer is streamed, and every outgoing connection passes an address policy. Before a request is forwarded its
  estimated cost is reserved against the budgets of its key, team and organisation, and its tokens against their rate
  limits; afterwards both are settled to what the request used, with retries, a ledger and a journal behind the budget.

  \<^bold>\<open>Theories and the code they model\<close>

  \<^item> \<open>CL_Prelude\<close>: bytes, instants and durations, 64-bit wrap-around, decimal numbers, the stable insertion sort of
    \<^verbatim>\<open>sort.SliceStable\<close>, and \<open>go_rt\<close>, the record of the Unicode tables and float printers of the Go runtime that
    the program depends on; \<open>ascii_rt\<close> is a concrete one.
  \<^item> \<open>Go_Json\<close>, \<open>Go_Decode\<close>: \<^verbatim>\<open>encoding/json\<close> as far as the program uses it: parser, string escaping, marshalling,
    compaction of raw messages, decoding into structs, dynamic values.
  \<^item> \<open>Provider_Errors\<close>: \<^verbatim>\<open>internal/provider/{errors,retry,retry_budget}.go\<close>.
  \<^item> \<open>Health_Tracker\<close>: \<^verbatim>\<open>internal/provider/health.go\<close>, the circuit breaker: the record \<open>HealthTracker\<close>, one function per
    method, runs of arbitrary sequences of method calls (\<open>ht_run\<close>, \<open>ht_reachable\<close>), and runs of calls in flight, in which
    every outcome and release belongs to a call that was admitted (\<open>calls_run\<close>).
  \<^item> \<open>Error_Classifier\<close>: \<^verbatim>\<open>internal/service/error_classifier.go\<close>.
  \<^item> \<open>Routing\<close>: \<^verbatim>\<open>internal/router/{strategy,strategy_weighted,strategy_roundrobin,health_filter}.go\<close>; the locale
    \<open>routing_strategy\<close> is the contract of a strategy and is interpreted on both.
  \<^item> \<open>Resolver\<close>, \<open>Resolve_Probe\<close>: \<^verbatim>\<open>internal/router/router.go\<close>; the second is the single-flight protocol between
    concurrent resolutions as a step relation.
  \<^item> \<open>Fallback_Engine\<close>: \<^verbatim>\<open>internal/service/fallback_engine.go\<close>; the engine uses the breaker through the record
    \<open>breaker_ops\<close>, and the locale \<open>breaker\<close> holds the laws it relies on, interpreted on the tracker and on the
    engine without one.
  \<^item> \<open>Scoring\<close>: \<^verbatim>\<open>internal/service/{health_score,pricing}.go\<close>.
  \<^item> \<open>Domain\<close>: \<^verbatim>\<open>internal/domain/{openai,anthropic,responses}.go\<close>, the wire types with their decoders and encoders.
  \<^item> \<open>Translate\<close>: \<^verbatim>\<open>internal/translator/{mapper,request,response,reverse_request,reverse_response}.go\<close>.
  \<^item> \<open>Stream_Forward\<close>, \<open>Stream_Reverse\<close>: \<^verbatim>\<open>internal/translator/{stream,stream_events,reverse_stream}.go\<close> and
    \<^verbatim>\<open>pkg/token/estimate.go\<close>.
  \<^item> \<open>Responses\<close>: \<^verbatim>\<open>internal/translator/{responses,responses_stream}.go\<close>.
  \<^item> \<open>Guardrail_Spans\<close>: the spans and results of \<^verbatim>\<open>internal/guardrail/{types,incremental}.go\<close> and \<^verbatim>\<open>composeSpans\<close>,
    \<^verbatim>\<open>applySpans\<close> of \<^verbatim>\<open>service.go\<close>; \<open>Go_Utf8\<close>: runes of byte strings and substring search.
  \<^item> \<open>Keyword_Filter\<close>: \<^verbatim>\<open>internal/guardrail/{keyword,keyword_stream}.go\<close>, the whole-text check and the streaming
    session; the locale \<open>rune_text\<close> is what the session relies on of the case folding of texts, and is interpreted
    on the folding of the engine.
  \<^item> \<open>Ssrf\<close>: \<^verbatim>\<open>internal/guardrail/{ssrf,redirect,conntrack}.go\<close>; addresses are 32-bit and 128-bit words, and dials
    interleaved with the store and the sweep of policy changes are the step relation \<open>dial_step\<close>.
  \<^item> \<open>Pii_Vault\<close>: \<^verbatim>\<open>internal/guardrail/pii_vault.go\<close> and of \<^verbatim>\<open>pii_restore_sse.go\<close> the pass over decoded values
    and one field of a streamed answer.
  \<^item> \<open>Guardrail_Service\<close>: \<^verbatim>\<open>internal/guardrail/service.go\<close>: the record \<open>GuardrailService\<close>, settings, rule loading, the
    caches, and \<open>Check\<close> with its loop over the rules; the engines and the database are the fields of \<open>guard_env\<close>. The step
    relation \<open>guard_step\<close> interleaves the locked sections of checks and reloads.
  \<^item> \<open>Budget_Scripts\<close>: the Redis scripts of \<^verbatim>\<open>internal/service/budget_service.go\<close> as functions on the record \<open>budget_store\<close>, and
    the step relations \<open>budget_step\<close> and \<open>orderly\<close> of everything that happens to it; \<open>Budget_Period\<close>: its periods on the calendar.
  \<^item> \<open>Budget_Service\<close>: the operations around the scripts. \<open>bworld\<close> is the store with the ledger, the queue and the outcomes of
    the commands to come; a failed command may have been applied. The locale \<open>at_most_once\<close> is what retrying relies on of a
    settlement and is interpreted on the settlement script.
  \<^item> \<open>Budget_Check\<close>: \<^verbatim>\<open>internal/middleware/{budget,budget_report}.go\<close> and \<^verbatim>\<open>internal/handler/budget_reserve.go\<close>.
  \<^item> \<open>Settle_Journal\<close>: \<^verbatim>\<open>internal/service/settle_journal.go\<close>; its file refines the journal of \<open>Budget_Service\<close>
    (\<open>append_line_refines\<close>). \<open>Rate_Limit\<close>: \<^verbatim>\<open>internal/middleware/ratelimit.go\<close>.

  \<^bold>\<open>Conventions\<close>

  Strings are byte strings; a zero time is None; durations and instants are integers in nanoseconds. Integers are
  unbounded where the code cannot overflow and written with \<open>wrap64\<close> where it can. Every call that reads a clock,
  a random number, Redis, the database or a provider takes the answer as an argument or from an environment
  record; concurrent steps of other requests appear as arbitrary sequences of operations (the tracker), as an
  interference function (the engine) or as interleaved steps (the calls of the tracker, the resolver, the guardrail service,
  the dials). Errors are values: \<open>goerr\<close> with its
  wrapping chain, or the text of the error in the left summand.

  \<^bold>\<open>What is shown\<close>

  \<^item> Breaker: a probe is single-flight in every interleaving until a call that was in flight with it acts or ends, persistent
    circuits of an account survive successes and releases, consecutive failures open a circuit at the threshold for the
    escalated cooldown or the upstream's Retry-After, every circuit admits again after its deadline, rate limits stay with
    their model, and an invariant holds of every reachable state.
  \<^item> Retries: the number of attempts is bounded and the loop ends, it stops at the first decisive outcome, pauses stay
    within the cap, and the budget grants at most the configured rate.
  \<^item> Routing and resolution: a strategy only rearranges its candidates, the weighted draw has the share of its weight,
    rotation is fair, open circuits are left out, failed look-ups are suppressed for a bounded time, at most one
    resolution of a key runs and no waiter is lost.
  \<^item> Failover: the attempts are a prefix of the routes within the budget and end with the only success, refused routes are
    not called, no probe lease is leaked, retryable failures reach every route, an expired attempt deadline ends the
    failover.
  \<^item> Scores and prices: a health score lies between 0 and 1 and is 0 exactly in the stated cases; image prices follow the
    documented precedence.
  \<^item> Translation: text conversations and responses survive the round trip between the two formats, the streamed events
    follow the block protocol of the Anthropic format, the reverse translator reads back the streamed text, and the
    final output of a responses stream is complete when text comes first.
  \<^item> Masking: composed spans are disjoint and cover exactly what the rules matched, the masked text changes nothing else,
    and reversible placeholders are restored exactly, also when the answer arrives in pieces, unless a piece of tool
    arguments is a JSON document of its own.
  \<^item> Guardrail service: on every path of a check, a text passes only after every applicable rule ran without blocking or
    failing untolerated, a block is attributed to the first rule that decides, and the settings and the engine cache stay
    well formed in every interleaving of checks and reloads.
  \<^item> Keyword filter: a streaming session reports exactly the matches of the whole-text check and never releases text
    that later turns out to be part of a match.
  \<^item> Connection policy: no accepted allowlist opens a denied address class, a host is admitted only if the policy blocks
    none of its addresses, and a policy change closes exactly the tracked connections it blocks, unless a dial is
    between its check and its registration.
  \<^item> Budgets: a counter is always what was settled plus what is held plus what is quarantined, reserving and settling is
    exact also across periods, a request is settled once whatever is repeated, admission takes all scopes or
    none, up to strays whose reply or refund Redis did not answer and which are accounted for, a request from its admission to its report is charged exactly its cost on each of them, and a settlement that did not take effect is in the ledger, the queue or the journal, or its loss is counted.
  \<^item> Rate limits: a window admits no more than its limit, token reservations are all or nothing and are settled to the
    tokens used.
  \<^item> Several theorems state behaviour that departs from what comments or documents say: a failed half-open probe closes
    the circuit, cached routes pin the order of the strategy, retry settings of routes are not clamped, stop
    sequences and streamed thinking text are lost, cached tokens are counted twice, text after tool calls drops
    calls from the final output, a dial in progress escapes a revocation, a rule whose type
    changes keeps its old engine, concurrent reapers quarantine a hold twice, a settlement between expiry and reaping
    strands the hold, a kept journal line can be settled again, a refund reaches into the next token window, the weekly
    period starts a year off around the turn of the year, a request rejected by its team or organisation keeps its call, a call
    admitted before a circuit opened can free the probe of another one, late transient failures shorten a
    persistent circuit, a check with an old copy of the rules brings back an evicted engine, and streamed tool
    arguments can lose white space.

  \<^bold>\<open>Bounds and fuel\<close>

  The JSON parser is a recursion on fuel; \<open>unmarshal_node\<close> gives it twice the length of the input plus two, and
  \<open>parse_fuel\<close> shows that more fuel changes no result. The nesting limit is the one of the Go decoder. All other loops
  are structural recursions or have a termination proof.

  \<^bold>\<open>Not modelled\<close>

  HTTP handlers, the middleware other than budgets and rate limits, provider adapters that only move bytes between sockets, the database repositories, Redis,
  configuration loading, the administration interface, metrics, logs and traces: they are input and output around
  the parts above, and the parts take their results as arguments. Spans and log lines have no effect on results and
  are left out of the modelled functions. Of the guardrails, the
  response stream over several engines, the delivery of events, the reload broadcast, the engines that ask a model or Redis, and of restored event streams the framing, the keys that tell fields
  apart and the queue of held events are not modelled; compiled regular expressions, the resolver and the address parsers are parameters. The counter of the round robin is a natural number, as
  \<^verbatim>\<open>INCR\<close> leaves it. Float arithmetic of the routing weights, prices and budgets is done in the
  rationals. Of the budgets, the formatting of keys and members into strings, the lifetime of the period counters, the
  calibration against the database, the timers of the workers and the estimate of a request's tokens are not modelled.
\<close>

section \<open>Text through both stream translators\<close>

text \<open>A chunk that carries text only, with or without a finish reason.\<close>

definition text_chunk :: "SSEChunk \<Rightarrow> bool" where
  "text_chunk c \<longleftrightarrow>
     (case sse_choice c of
        None \<Rightarrow> True
      | Some ch \<Rightarrow> valid_utf8 (cd_Content (cc_Delta ch)) \<and> cd_ReasoningContent (cc_Delta ch) = [] \<and> cd_ToolCalls (cc_Delta ch) = [])"

text \<open>The translator between chunks of a text stream.\<close>

definition texting :: "StreamTranslator \<Rightarrow> bool" where
  "texting t \<longleftrightarrow> no_tools t \<and> st_blockIndex t = 0 \<and>
     (st_state t = stateInit \<or> st_state t = stateStarted \<or> st_state t = stateBlockActive \<and> st_activeBlockType t = ''text'')"

definition events_text :: "stream_event list \<Rightarrow> bytes" where
  "events_text es = concat (map event_text es)"

lemma events_text_simps [simp]:
  "events_text [] = []" "events_text (e # es) = event_text e @ events_text es" "events_text (es @ es') = events_text es @ events_text es'"
  by (simp_all add: events_text_def)

lemma start_message_text:
  assumes "texting t"
  shows "texting (snd (start_message ck t)) \<and> st_state (snd (start_message ck t)) \<noteq> stateInit \<and>
    events_text (fst (start_message ck t)) = [] \<and> list_all event_valid (fst (start_message ck t))"
  using assms by (auto simp: start_message_def texting_def no_tools_def Let_def split: option.split)

lemma text_step_text:
  assumes "texting t" and "st_state t \<noteq> stateInit" and "valid_utf8 s"
  shows "texting (snd (text_step G s t)) \<and> events_text (fst (text_step G s t)) = s \<and> list_all event_valid (fst (text_step G s t))"
  using assms by (auto simp: text_step_def texting_def no_tools_def int64_def Let_def)

lemma finish_step_text:
  assumes "texting t"
  shows "st_state (snd (finish_step r u t)) = stateDone \<and> events_text (fst (finish_step r u t)) = [] \<and> list_all event_valid (fst (finish_step r u t))"
  using assms by (auto simp: finish_step_def texting_def no_tools_def closeActive_none Let_def)

lemma choice_step_text:
  assumes "texting t" and "st_state t \<noteq> stateInit" and "valid_utf8 (cd_Content (cc_Delta c))" and "cd_ReasoningContent (cc_Delta c) = []"
    and "cd_ToolCalls (cc_Delta c) = []"
  shows "events_text (fst (choice_step G c u t)) = cd_Content (cc_Delta c) \<and> list_all event_valid (fst (choice_step G c u t)) \<and>
    (if cc_FinishReason c = None \<or> cc_FinishReason c = Some [] then texting (snd (choice_step G c u t)) else st_state (snd (choice_step G c u t)) = stateDone)"
proof -
  let ?t = "snd (text_step G (cd_Content (cc_Delta c)) t)"
  note s = text_step_text [OF assms(1-3), of G]
  have f: "choice_step G c u t = andthen (text_step G (cd_Content (cc_Delta c)))
      (case cc_FinishReason c of Some reason \<Rightarrow> if reason \<noteq> [] then finish_step reason u else (\<lambda>t. ([], t)) | None \<Rightarrow> (\<lambda>t. ([], t))) t"
    using assms(4,5) by (simp add: choice_step_def andthen_def reasoning_step_def split_beta)
  show ?thesis unfolding f using s finish_step_text [of ?t] by (auto simp: andthen_sel split: option.split)
qed

definition chunk_text :: "SSEChunk \<Rightarrow> bytes" where
  "chunk_text c = (case sse_choice c of None \<Rightarrow> [] | Some ch \<Rightarrow> cd_Content (cc_Delta ch))"

lemma translate_sse_text:
  assumes "texting t" and "text_chunk c"
  shows "events_text (fst (translate_sse G c t)) = chunk_text c \<and> list_all event_valid (fst (translate_sse G c t)) \<and>
    (if finishes c then st_state (snd (translate_sse G c t)) = stateDone else texting (snd (translate_sse G c t)))"
proof (cases "sc_Done c \<or> sc_Chunk c = None")
  case True
  then have "translate_sse G c t = ([], t)" "sse_choice c = None" by (auto simp: translate_sse_def sse_choice_def)
  then show ?thesis using assms by (simp add: chunk_text_def finishes_def)
next
  case False
  then obtain ck where ck: "sc_Chunk c = Some ck" "\<not> sc_Done c" by auto
  let ?t = "snd (start_message ck t)"
  note st = start_message_text [OF assms(1), of ck]
  show ?thesis
  proof (cases "ck_Choices ck")
    case Nil
    let ?u = "case ck_Usage ck of Some u \<Rightarrow> usage_chunk u ?t | None \<Rightarrow> ?t"
    have t: "translate_sse G c t = (fst (start_message ck t), ?u)"
      using ck Nil by (simp add: translate_sse_def translate_chunk_def andthen_def split_beta)
    have "texting ?u = texting ?t" by (simp add: texting_def no_tools_def usage_chunk_def usage_details_def split: option.split)
    moreover have "sse_choice c = None" using ck Nil by (simp add: sse_choice_def)
    ultimately show ?thesis using st unfolding t by (simp add: chunk_text_def finishes_def)
  next
    case (Cons ch chs)
    have s: "sse_choice c = Some ch" using ck Cons by (simp add: sse_choice_def)
    then have v: "valid_utf8 (cd_Content (cc_Delta ch))" "cd_ReasoningContent (cc_Delta ch) = []" "cd_ToolCalls (cc_Delta ch) = []"
      using assms(2) by (simp_all add: text_chunk_def)
    have t: "translate_sse G c t = andthen (start_message ck) (choice_step G ch (ck_Usage ck)) t"
      using ck Cons by (simp add: translate_sse_def translate_chunk_def)
    show ?thesis unfolding t using st choice_step_text [OF _ _ v, of ?t G "ck_Usage ck"] s
      by (auto simp: andthen_sel chunk_text_def finishes_def)
  qed
qed

lemma translate_all_text:
  assumes "texting t" and "list_all text_chunk cs" and "list_all (\<lambda>c. \<not> finishes c) (butlast cs)"
  shows "events_text (fst (translate_all G cs t)) = concat (map chunk_text cs) \<and> list_all event_valid (fst (translate_all G cs t)) \<and>
    (texting (snd (translate_all G cs t)) \<or> st_state (snd (translate_all G cs t)) = stateDone)"
  using assms
proof (induction cs arbitrary: t)
  case Nil
  then show ?case by simp
next
  case (Cons c cs)
  let ?t = "snd (translate_sse G c t)"
  have s: "events_text (fst (translate_sse G c t)) = chunk_text c" "list_all event_valid (fst (translate_sse G c t))"
    "if finishes c then st_state ?t = stateDone else texting ?t"
    using translate_sse_text [OF Cons.prems(1), of c G] Cons.prems(2) by simp_all
  show ?case
  proof (cases "cs = []")
    case True
    then show ?thesis using s by (auto simp: andthen_sel split: if_splits)
  next
    case False
    then have "\<not> finishes c" "list_all (\<lambda>c. \<not> finishes c) (butlast cs)" using Cons.prems(3) by simp_all
    then show ?thesis using s Cons.IH [of ?t] Cons.prems(2) by (simp add: andthen_sel)
  qed
qed

lemma on_disconnect_text:
  assumes "texting t \<or> st_state t = stateDone"
  shows "events_text (fst (on_disconnect clean t)) = [] \<and> list_all event_valid (fst (on_disconnect clean t))"
  using assms by (auto simp: on_disconnect_def texting_def no_tools_def close_block_def Let_def)

section \<open>Properties\<close>

text \<open>
  C28: Text survives both stream translators. A stream of text chunks in which at most the last one finishes is
  written as Anthropic events, up to and including the disconnect, and read back as OpenAI chunks: the text of the
  chunks read is the text of the chunks written, byte for byte.
\<close>

theorem stream_text_roundtrip:
  assumes "list_all text_chunk cs" and "list_all (\<lambda>c. \<not> finishes c) (butlast cs)"
  shows "carried cd_Content (fst (translate_events
      (map sse (fst (andthen (translate_all G cs) (on_disconnect clean) (NewStreamTranslator messageID model n)))) r)) =
    carried cd_Content cs"
proof -
  let ?t = "NewStreamTranslator messageID model n"
  have "texting ?t" by (simp add: texting_def no_tools_def NewStreamTranslator_def)
  note a = translate_all_text [OF this assms, of G]
  then have d: "events_text (fst (on_disconnect clean (snd (translate_all G cs ?t)))) = [] \<and>
      list_all event_valid (fst (on_disconnect clean (snd (translate_all G cs ?t))))"
    by (intro on_disconnect_text) blast
  let ?es = "fst (andthen (translate_all G cs) (on_disconnect clean) ?t)"
  have "list_all event_valid ?es" "events_text ?es = concat (map chunk_text cs)" using a d by (simp_all add: andthen_sel)
  then have "carried cd_Content (fst (translate_events (map sse ?es) r)) = concat (map chunk_text cs)"
    using reverse_stream_reads [of ?es r] by (simp add: events_text_def)
  also have "\<dots> = carried cd_Content cs" by (simp add: carried_def chunk_text_def cong: map_cong)
  finally show ?thesis .
qed

theorem stream_text_roundtrip_witness:
  "carried cd_Content (fst (translate_events (map sse (fst (andthen (translate_all ascii_rt
      [demo_chunk (OpenAIChunkDelta0\<lparr>cd_Content := ''hel''\<rparr>) None, demo_chunk (OpenAIChunkDelta0\<lparr>cd_Content := ''lo''\<rparr>) (Some ''stop'')])
      (on_disconnect True) (NewStreamTranslator ''id'' ''m'' 3)))) NewReverseStreamTranslator)) = ''hello''"
  using stream_text_roundtrip [of "[demo_chunk (OpenAIChunkDelta0\<lparr>cd_Content := ''hel''\<rparr>) None,
      demo_chunk (OpenAIChunkDelta0\<lparr>cd_Content := ''lo''\<rparr>) (Some ''stop'')]" ascii_rt True "''id''" "''m''" 3 NewReverseStreamTranslator]
  by (simp add: text_chunk_def finishes_def sse_choice_def demo_chunk_def OpenAIChunkDelta0_def carried_def rune_len_def)

end
